(* ===== verification/Prelude.thy ===== *)
theory Prelude
  imports Main "HOL-Library.Word" "HOL-Library.Multiset"
begin

unbundle bit_operations_syntax

text \<open>
  Shared vocabulary of the development: the machine integer types of the C code, the result
  type of operations that may terminate the process, the collections of simplification rules
  the component theories extend, and the generic facts on lists and words that more than one
  component uses.
\<close>

section \<open>Machine integers and results\<close>

type_synonym u8 = "8 word"
type_synonym u32 = "32 word"
type_synonym u64 = "64 word"

text \<open>The bounds of a 32-bit signed \<open>int\<close>.\<close>

definition INT_MAX :: int where
  "INT_MAX = 2147483647"

definition INT_MIN :: int where
  "INT_MIN = -2147483648"

text \<open>\<open>SUCCEED\<close> and \<open>FAIL\<close> of common.h.\<close>

definition SUCCEED :: int where
  "SUCCEED = 0"

definition FAIL :: int where
  "FAIL = -1"

text \<open>
  \<open>FAIL\<close> converted to \<open>nt_uint64_t\<close>, the value it has in a comparison with an unsigned
  64-bit operand.
\<close>

definition FAIL64 :: u64 where
  "FAIL64 = - 1"

text \<open>An operation that may fail, applied to each element of a list in turn.\<close>

primrec insert_all :: "('q \<Rightarrow> 'e \<Rightarrow> 'x + 'q) \<Rightarrow> 'q \<Rightarrow> 'e list \<Rightarrow> 'x + 'q" where
  "insert_all ins q [] = Inr q"
| "insert_all ins q (e # es) = (case ins q e of Inl err \<Rightarrow> Inl err | Inr q' \<Rightarrow> insert_all ins q' es)"

text \<open>
  The C string at the start of a block, without its terminating zero; \<open>None\<close> if the block has
  no zero byte, so that a function that reads a string reads behind the block.
\<close>

fun c_string :: "u8 list \<Rightarrow> u8 list option" where
  "c_string [] = None"
| "c_string (b # p) = (if b = 0 then Some [] else map_option (Cons b) (c_string p))"

lemma c_string_takeWhile: "0 \<in> set p \<Longrightarrow> c_string p = Some (takeWhile (\<lambda>b. b \<noteq> 0) p)"
  by (induction p) auto

section \<open>Rule collections\<close>

text \<open>
  \<open>inv_intro\<close>: an operation keeps its component's invariant; \<open>abs_simps\<close>: what an operation
  does to the abstraction of its state.
\<close>

named_theorems inv_intro
named_theorems abs_simps

section \<open>Lists\<close>

definition swap_nth :: "nat \<Rightarrow> nat \<Rightarrow> 'a list \<Rightarrow> 'a list" where
  "swap_nth i j xs = xs[i := xs ! j, j := xs ! i]"

lemma length_swap_nth [simp]: "length (swap_nth i j xs) = length xs"
  by (simp add: swap_nth_def)

lemma nth_swap_nth:
  "i < length xs \<Longrightarrow> j < length xs \<Longrightarrow> k < length xs \<Longrightarrow>
   swap_nth i j xs ! k = (if k = j then xs ! i else if k = i then xs ! j else xs ! k)"
  by (auto simp: swap_nth_def nth_list_update)

lemma mset_swap_nth [simp]:
  "i < length xs \<Longrightarrow> j < length xs \<Longrightarrow> mset (swap_nth i j xs) = mset xs"
  by (simp add: swap_nth_def mset_swap)

lemma set_swap_nth [simp]:
  "i < length xs \<Longrightarrow> j < length xs \<Longrightarrow> set (swap_nth i j xs) = set xs"
  using mset_swap_nth [of i xs j] by (metis set_mset_mset)

lemma nth_in_drop: "i < length xs \<Longrightarrow> n \<le> i \<Longrightarrow> xs ! i \<in> set (drop n xs)"
  by (metis Cons_nth_drop_Suc list.set_intros(1) set_drop_subset_set_drop subsetD)

lemma sum_list_update_nat:
  "i < length xs \<Longrightarrow> sum_list (xs[i := x]) + xs ! i = sum_list xs + (x::nat)"
  by (induction xs arbitrary: i) (auto split: nat.splits)

text \<open>A list of buckets of which one is replaced.\<close>

lemma mset_concat_update:
  "s < length sl \<Longrightarrow> mset (concat (sl[s := x])) + mset (sl ! s) = mset (concat sl) + mset x"
proof (induction sl arbitrary: s)
  case (Cons a sl)
  then show ?case by (cases s) (simp_all add: ac_simps)
qed simp

section \<open>Words\<close>

lemma unat_bound: "unat (w :: 'a::len word) < 2 ^ LENGTH('a)"
  by (rule unsigned_less)

lemma unat_add_no_wrap:
  fixes a b :: "'a::len word"
  assumes "unat a + unat b < 2 ^ LENGTH('a)"
  shows "unat (a + b) = unat a + unat b"
  using assms by (simp add: unat_word_ariths)

lemma unat_sub_no_wrap:
  fixes a b :: "'a::len word"
  assumes "unat b \<le> unat a"
  shows "unat (a - b) = unat a - unat b"
  using assms by (simp add: unat_sub_if')

lemma unat_of_nat_small:
  "n < 2 ^ LENGTH('a) \<Longrightarrow> unat (of_nat n :: 'a::len word) = n"
  by (simp add: unsigned_of_nat take_bit_nat_eq_self)

text \<open>
  Multiplication by an odd constant is injective on words of any width: the multiplier has an
  inverse modulo the power of two.
\<close>

lemma word_mult_left_cancel_unit:
  fixes a b c :: "'a::len word"
  assumes inv: "d * c = 1" and eq: "a * c = b * c"
  shows "a = b"
proof -
  have "a * c * d = b * c * d" using eq by simp
  then have "a * (d * c) = b * (d * c)" by (simp add: ac_simps)
  with inv show ?thesis by simp
qed

text \<open>A right xor-shift is injective: the top bits are kept, and they determine the rest.\<close>

lemma xor_drop_bit_inj:
  fixes a b :: "'a::len word"
  assumes eq: "a XOR drop_bit n a = b XOR drop_bit n b" and n: "0 < n"
  shows "a = b"
proof (rule bit_word_eqI)
  fix i assume "i < LENGTH('a)"
  define P where "P k \<longleftrightarrow> bit a k = bit b k" for k
  have step: "P k" if "P (k + n)" for k
  proof -
    have "bit (a XOR drop_bit n a) k = bit (b XOR drop_bit n b) k" using eq by simp
    with that show ?thesis by (auto simp: P_def bit_xor_iff bit_drop_bit_eq ac_simps)
  qed
  have "P k" if "LENGTH('a) - k \<le> m" for m k
    using that
  proof (induction m arbitrary: k)
    case 0
    then have "LENGTH('a) \<le> k" by simp
    then show ?case by (metis P_def bit_word.rep_eq impossible_bit leD possible_bit_word)
  next
    case (Suc m)
    then have "LENGTH('a) - (k + n) \<le> m" using n by simp
    then show ?case using Suc.IH step by blast
  qed
  then show "bit a i = bit b i" unfolding P_def by blast
qed

end
