(* ===== verification/Algo_Num.thy ===== *)
theory Algo_Num
  imports Prelude
begin

text \<open>
  The numeric functions at the end of nt_algodefs.c: \<open>is_prime\<close> and \<open>next_prime\<close>, which size
  the slot arrays of the hash tables, and the 32-bit integer square root \<open>nt_isqrt32\<close>.
  \<open>is_prime_chk\<close> and \<open>next_prime_chk\<close> are the functions of the code on a 32-bit \<open>int\<close>: \<open>None\<close>
  is the undefined behaviour of a signed operation above \<open>INT_MAX\<close>. \<open>is_prime\<close> and
  \<open>next_prime\<close> are the same loops on unbounded integers; \<open>next_prime_chk_exact\<close> says when the two agree,
  and the containers in memory stop where the checked one does.
\<close>

section \<open>Trial division: \<open>is_prime\<close>\<close>

text \<open>The \<open>for\<close> loop of \<open>is_prime\<close>: odd candidates from \<open>i\<close> while \<open>i * i <= n\<close>.\<close>

lemma le_square_int: "i \<le> i * (i::int)"
  by (cases "i \<le> 0") (auto simp: mult_le_cancel_left1 intro: order_trans [of _ 0])

function is_prime_loop :: "int \<Rightarrow> int \<Rightarrow> bool" where
  "is_prime_loop n i =
     (if i * i \<le> n then (if n mod i = 0 then False else is_prime_loop n (i + 2)) else True)"
  by pat_completeness auto
termination
proof (relation "measure (\<lambda>(n, i). nat (n + 1 - i))")
  fix n i :: int
  assume "i * i \<le> n"
  then have "i \<le> n" using le_square_int [of i] by linarith
  then show "((n, i + 2), n, i) \<in> measure (\<lambda>(n, i). nat (n + 1 - i))" by simp
qed simp

declare is_prime_loop.simps [simp del]

definition is_prime :: "int \<Rightarrow> bool" where
  "is_prime n =
     (if n \<le> 1 then False
      else if n = 2 then True
      else if n mod 2 = 0 then False
      else is_prime_loop n 3)"

text \<open>The number-theoretic meaning.\<close>

definition prime_int :: "int \<Rightarrow> bool" where
  "prime_int p \<longleftrightarrow> 1 < p \<and> (\<forall>d. 1 < d \<and> d < p \<longrightarrow> \<not> d dvd p)"

text \<open>
  The loop invariant: no \<open>d\<close> with \<open>1 < d < i\<close> divides \<open>n\<close>. A composite number has a divisor no
  larger than its square root, so the loop may stop there.
\<close>

lemma prime_int_sqrt:
  assumes n: "1 < n" and i: "1 < i" and sq: "n < i * i"
    and none: "\<And>d. 1 < d \<Longrightarrow> d < i \<Longrightarrow> \<not> d dvd n"
  shows "prime_int n"
  unfolding prime_int_def
proof (intro conjI allI impI)
  fix d assume d: "1 < d \<and> d < n"
  show "\<not> d dvd n"
  proof
    assume "d dvd n"
    then obtain k where k: "n = d * k" by (auto elim: dvdE)
    have "1 < k" using d k by (smt (verit) mult_le_0_iff mult_cancel_left1 zero_less_mult_iff)
    have "d < i \<or> k < i"
    proof (rule ccontr)
      assume "\<not> (d < i \<or> k < i)"
      then have "i * i \<le> d * k" using i by (intro mult_mono) auto
      with sq k show False by simp
    qed
    then show False using none d \<open>1 < k\<close> k by (metis dvd_triv_left dvd_triv_right)
  qed
qed (rule n)

lemma is_prime_loop_correct:
  assumes "1 < n" "1 < i" "odd i" "odd n"
    and "\<And>d. 1 < d \<Longrightarrow> d < i \<Longrightarrow> \<not> d dvd n"
  shows "is_prime_loop n i = prime_int n"
  using assms
proof (induction n i rule: is_prime_loop.induct)
  case (1 n i)
  show ?case
  proof (cases "i * i \<le> n")
    case False
    then have "prime_int n" using prime_int_sqrt [of n i] "1.prems" by auto
    with False show ?thesis by (simp add: is_prime_loop.simps [of n i])
  next
    case True
    have "1 * i < i * i" using "1.prems"(2) by (intro mult_strict_right_mono) auto
    then have lt: "i < n" using True by simp
    show ?thesis
    proof (cases "n mod i = 0")
      case True
      then have "i dvd n" by (simp add: dvd_eq_mod_eq_0)
      with lt "1.prems"(2) have "\<not> prime_int n" by (auto simp: prime_int_def)
      with True \<open>i * i \<le> n\<close> show ?thesis by (simp add: is_prime_loop.simps [of n i])
    next
      case False
      have "\<not> d dvd n" if "1 < d" "d < i + 2" for d
      proof (cases "d < i")
        case True
        with "1.prems"(5) that show ?thesis by simp
      next
        case ge: False
        show ?thesis
        proof (cases "d = i")
          case True
          with False show ?thesis by (simp add: dvd_eq_mod_eq_0)
        next
          case neq: False
          with ge that have "d = i + 1" by simp
          with "1.prems"(3) have "even d" by simp
          with "1.prems"(4) show ?thesis by (meson dvd_trans)
        qed
      qed
      then have "is_prime_loop n (i + 2) = prime_int n"
        using "1.IH" [OF True False] "1.prems" by simp
      with True False show ?thesis by (simp add: is_prime_loop.simps [of n i])
    qed
  qed
qed

lemma is_prime_iff: "is_prime n = prime_int n"
proof -
  consider "n \<le> 1" | "n = 2" | "2 < n" "even n" | "2 < n" "odd n" by linarith
  then show ?thesis
  proof cases
    case 3
    then have "\<not> prime_int n" by (auto simp: prime_int_def intro!: exI [of _ 2])
    with 3 show ?thesis by (simp add: is_prime_def)
  next
    case 4
    have "\<not> d dvd n" if "1 < d" "d < 3" for d
    proof -
      from that have "d = 2" by simp
      with 4 show ?thesis by simp
    qed
    then have "is_prime_loop n 3 = prime_int n"
      using is_prime_loop_correct [of n 3] 4 by simp
    with 4 show ?thesis by (auto simp: is_prime_def)
  qed (auto simp: is_prime_def prime_int_def)
qed


section \<open>\<open>next_prime\<close>\<close>

text \<open>There is a prime above every bound: the least divisor above 1 of \<open>n! + 1\<close>.\<close>

lemma prime_divisor_exists:
  assumes "1 < (n::int)"
  shows "\<exists>p. prime_int p \<and> p dvd n"
  using assms
proof (induction "nat n" arbitrary: n rule: less_induct)
  case less
  show ?case
  proof (cases "prime_int n")
    case True
    then show ?thesis by auto
  next
    case False
    with less.prems obtain d where d: "1 < d" "d < n" "d dvd n" by (auto simp: prime_int_def)
    then obtain p where "prime_int p" "p dvd d" using less.hyps [of d] by auto
    with d show ?thesis by (meson dvd_trans)
  qed
qed

lemma prime_above: "\<exists>p. n \<le> p \<and> prime_int p"
proof -
  define m where "m = int (fact (nat n)) + 1"
  have "1 < m" by (simp add: m_def)
  then obtain p where p: "prime_int p" "p dvd m" using prime_divisor_exists by blast
  have "n \<le> p"
  proof (rule ccontr)
    assume "\<not> n \<le> p"
    with p(1) have "nat p \<in> {1..nat n}" by (auto simp: prime_int_def)
    then have "nat p dvd fact (nat n)" by (simp add: dvd_fact)
    then have "p dvd int (fact (nat n))" using p(1) by (auto simp: prime_int_def nat_dvd_iff)
    with p(2) have "p dvd 1" by (simp add: m_def dvd_add_right_iff)
    with p(1) show False by (auto simp: prime_int_def)
  qed
  with p(1) show ?thesis by blast
qed

definition prime_gap :: "int \<Rightarrow> nat" where
  "prime_gap n = (LEAST k. prime_int (n + int k))"

lemma prime_gap_prime: "prime_int (n + int (prime_gap n))"
proof -
  obtain p where "n \<le> p" "prime_int p" using prime_above by blast
  then have "prime_int (n + int (nat (p - n)))" by simp
  then show ?thesis unfolding prime_gap_def by (rule LeastI)
qed

lemma prime_gap_step:
  assumes "\<not> prime_int n"
  shows "prime_gap (n + 1) < prime_gap n"
proof -
  have "prime_gap n \<noteq> 0"
  proof
    assume "prime_gap n = 0"
    with prime_gap_prime [of n] assms show False by simp
  qed
  then obtain k where k: "prime_gap n = Suc k" by (cases "prime_gap n") auto
  have "prime_int (n + 1 + int k)" using prime_gap_prime [of n] k by (simp add: ac_simps)
  then have "prime_gap (n + 1) \<le> k" unfolding prime_gap_def [of "n + 1"] by (rule Least_le)
  with k show ?thesis by simp
qed

text \<open>\<open>while (!is_prime(n)) n++;\<close> terminates because the distance to the next prime shrinks.\<close>

function next_prime :: "int \<Rightarrow> int" where
  "next_prime n = (if \<not> is_prime n then next_prime (n + 1) else n)"
  by pat_completeness auto
termination
  by (relation "measure prime_gap") (auto simp: is_prime_iff intro: prime_gap_step)

declare next_prime.simps [simp del]

lemma next_prime_props:
  "prime_int (next_prime n) \<and> n \<le> next_prime n \<and>
   (\<forall>q. n \<le> q \<and> q < next_prime n \<longrightarrow> \<not> prime_int q)"
proof (induction n rule: next_prime.induct)
  case (1 n)
  show ?case
  proof (cases "is_prime n")
    case True
    then show ?thesis by (auto simp: next_prime.simps [of n] is_prime_iff)
  next
    case False
    have eq: "next_prime n = next_prime (n + 1)" using False by (simp add: next_prime.simps [of n])
    have np: "\<not> prime_int n" using False by (simp add: is_prime_iff)
    have "\<not> prime_int q" if "n \<le> q" "q < next_prime (n + 1)" for q
      using "1.IH" [OF False] np that by (cases "q = n") auto
    moreover have "n \<le> next_prime (n + 1)" using "1.IH" [OF False] by linarith
    ultimately show ?thesis using "1.IH" [OF False] eq by auto
  qed
qed

lemma next_prime_ge: "n \<le> next_prime n"
  using next_prime_props by blast

lemma next_prime_gt_1: "1 < next_prime n"
  using next_prime_props by (auto simp: prime_int_def)


section \<open>Signed overflow in \<open>is_prime\<close>\<close>

text \<open>
  The same function on 32-bit \<open>int\<close>: \<open>None\<close> is the undefined behaviour of a product
  \<open>i * i\<close> above \<open>INT_MAX\<close>.
\<close>

function is_prime_loop_chk :: "int \<Rightarrow> int \<Rightarrow> bool option" where
  "is_prime_loop_chk n i =
     (if INT_MAX < i * i then None
      else if i * i \<le> n then (if n mod i = 0 then Some False else is_prime_loop_chk n (i + 2))
      else Some True)"
  by pat_completeness auto
termination
proof (relation "measure (\<lambda>(n, i). nat (n + 1 - i))")
  fix n i :: int
  assume "i * i \<le> n"
  then have "i \<le> n" using le_square_int [of i] by linarith
  then show "((n, i + 2), n, i) \<in> measure (\<lambda>(n, i). nat (n + 1 - i))" by simp
qed simp

declare is_prime_loop_chk.simps [simp del]

definition is_prime_chk :: "int \<Rightarrow> bool option" where
  "is_prime_chk n =
     (if n \<le> 1 then Some False
      else if n = 2 then Some True
      else if n mod 2 = 0 then Some False
      else is_prime_loop_chk n 3)"

lemma is_prime_loop_chk_exact:
  assumes "1 < n" "n \<le> INT_MAX" "odd n" "odd i" "3 \<le> i" "i \<le> 46341"
    and "i = 3 \<or> (i - 2) * (i - 2) \<le> n"
    and "\<And>d. 1 < d \<Longrightarrow> d < i \<Longrightarrow> \<not> d dvd n"
  shows "is_prime_loop_chk n i =
    (if prime_int n \<and> 46339 * 46339 \<le> n then None else Some (prime_int n))"
  using assms
proof (induction n i rule: is_prime_loop_chk.induct)
  case (1 n i)
  show ?case
  proof (cases "INT_MAX < i * i")
    case True
    have "i = 46341"
    proof (rule ccontr)
      assume "i \<noteq> 46341"
      then have "i \<le> 46340" using "1.prems"(6) by simp
      then have "i \<le> 46339" using "1.prems"(4) by (cases "i = 46340") auto
      then have "i * i \<le> 46339 * 46339" using "1.prems"(5) by (intro mult_mono) auto
      with True show False by (simp add: INT_MAX_def)
    qed
    moreover have "prime_int n"
      using prime_int_sqrt [of n i] "1.prems" True by auto
    moreover have "is_prime_loop_chk n i = None"
      using True by (simp add: is_prime_loop_chk.simps [of n i])
    ultimately show ?thesis using "1.prems"(7) by auto
  next
    case no: False
    have i: "i \<le> 46339"
    proof (rule ccontr)
      assume "\<not> i \<le> 46339"
      have "\<not> 46341 \<le> i"
      proof
        assume "46341 \<le> i"
        then have "46341 * 46341 \<le> i * i" by (intro mult_mono) auto
        with no show False by (simp add: INT_MAX_def)
      qed
      with \<open>\<not> i \<le> 46339\<close> have "i = 46340" by simp
      with "1.prems"(4) show False by simp
    qed
    then have sq: "i * i \<le> 46339 * 46339" using "1.prems"(5) by (intro mult_mono) auto
    show ?thesis
    proof (cases "i * i \<le> n")
      case False
      then have "prime_int n" using prime_int_sqrt [of n i] "1.prems" by auto
      with no False sq show ?thesis by (simp add: is_prime_loop_chk.simps [of n i])
    next
      case le: True
      have "1 * i < i * i" using "1.prems"(5) by (intro mult_strict_right_mono) auto
      then have lt: "i < n" using le by simp
      show ?thesis
      proof (cases "n mod i = 0")
        case True
        then have "i dvd n" by (simp add: dvd_eq_mod_eq_0)
        with lt "1.prems"(5) have "\<not> prime_int n" by (auto simp: prime_int_def intro!: exI [of _ i])
        with True no le show ?thesis by (simp add: is_prime_loop_chk.simps [of n i])
      next
        case False
        have "\<not> d dvd n" if d: "1 < d" "d < i + 2" for d
        proof -
          consider "d < i" | "d = i" | "d = i + 1" using d by linarith
          then show ?thesis
          proof cases
            case 3
            with "1.prems"(4) have "even d" by simp
            with "1.prems"(3) show ?thesis by (meson dvd_trans)
          qed (use "1.prems"(8) d False in \<open>simp_all add: dvd_eq_mod_eq_0\<close>)
        qed
        with "1.IH" [OF no le False] "1.prems" i le
        have "is_prime_loop_chk n (i + 2) =
          (if prime_int n \<and> 46339 * 46339 \<le> n then None else Some (prime_int n))" by simp
        with no le False show ?thesis by (simp add: is_prime_loop_chk.simps [of n i])
      qed
    qed
  qed
qed

lemma is_prime_chk_exact_aux:
  assumes "n \<le> INT_MAX"
  shows "is_prime_chk n =
    (if prime_int n \<and> 46339 * 46339 \<le> n then None else Some (prime_int n))"
proof -
  consider "n \<le> 1" | "n = 2" | "2 < n" "even n" | "2 < n" "odd n" by linarith
  then show ?thesis
  proof cases
    case 3
    then have "\<not> prime_int n" by (auto simp: prime_int_def intro!: exI [of _ 2])
    with 3 show ?thesis by (simp add: is_prime_chk_def)
  next
    case 4
    have "\<not> d dvd n" if "1 < d" "d < 3" for d
    proof -
      from that have "d = 2" by simp
      with 4 show ?thesis by simp
    qed
    then have "is_prime_loop_chk n 3 =
      (if prime_int n \<and> 46339 * 46339 \<le> n then None else Some (prime_int n))"
      using is_prime_loop_chk_exact [of n 3] 4 assms by simp
    moreover have "is_prime_chk n = is_prime_loop_chk n 3" using 4 by (auto simp: is_prime_chk_def)
    ultimately show ?thesis by simp
  qed (auto simp: is_prime_chk_def prime_int_def)
qed

text \<open>\<open>next_prime\<close> on 32-bit \<open>int\<close>: \<open>None\<close> also for an increment of \<open>INT_MAX\<close>.\<close>

function next_prime_chk :: "int \<Rightarrow> int option" where
  "next_prime_chk n =
     (case is_prime_chk n of
        None \<Rightarrow> None
      | Some b \<Rightarrow> if b then Some n else if INT_MAX \<le> n then None else next_prime_chk (n + 1))"
  by pat_completeness auto
termination by (relation "measure (\<lambda>n. nat (INT_MAX - n))") auto

declare next_prime_chk.simps [simp del]

lemma is_prime_loop_chk_True: "is_prime_loop_chk n i = Some True \<Longrightarrow> n < INT_MAX"
  by (induction n i rule: is_prime_loop_chk.induct)
    (subst (asm) (2) is_prime_loop_chk.simps, auto split: if_splits)

lemma is_prime_chk_True: "is_prime_chk n = Some True \<Longrightarrow> n < INT_MAX"
  by (auto simp: is_prime_chk_def INT_MAX_def split: if_splits dest: is_prime_loop_chk_True)

lemma next_prime_chk_exact:
  "next_prime_chk n = (if next_prime n < 46339 * 46339 then Some (next_prime n) else None)"
proof (induction n rule: next_prime_chk.induct)
  case (1 n)
  show ?case
  proof (cases "INT_MAX < n")
    case True
    then have "is_prime_chk n \<noteq> Some True" using is_prime_chk_True [of n] by auto
    moreover have "\<not> next_prime n < 46339 * 46339" using next_prime_ge [of n] True by (simp add: INT_MAX_def)
    ultimately show ?thesis using True by (auto simp: next_prime_chk.simps [of n] split: option.split)
  next
    case False
    then have c: "is_prime_chk n = (if is_prime n \<and> 46339 * 46339 \<le> n then None else Some (is_prime n))"
      using is_prime_chk_exact_aux [of n] by (simp add: is_prime_iff)
    show ?thesis
    proof (cases "is_prime n")
      case True
      then show ?thesis using c by (simp add: next_prime_chk.simps [of n] next_prime.simps [of n])
    next
      case np: False
      then have e: "next_prime n = next_prime (n + 1)" by (simp add: next_prime.simps [of n])
      have s: "is_prime_chk n = Some False" using np c by simp
      show ?thesis
      proof (cases "INT_MAX \<le> n")
        case True
        then have "\<not> next_prime n < 46339 * 46339" using next_prime_ge [of n] by (simp add: INT_MAX_def)
        then show ?thesis using True s by (simp add: next_prime_chk.simps [of n])
      next
        case False
        then show ?thesis using "1.IH" [OF s _ False] s unfolding e by (simp add: next_prime_chk.simps [of n])
      qed
    qed
  qed
qed

lemma next_prime_chk_Some: "next_prime_chk n = Some k \<Longrightarrow> k = next_prime n \<and> n \<le> k \<and> 1 < k \<and> k \<le> INT_MAX"
  using next_prime_ge [of n] next_prime_gt_1 [of n] by (auto simp: next_prime_chk_exact INT_MAX_def split: if_splits)

section \<open>\<open>nt_isqrt32\<close>\<close>

text \<open>One round of the digit-by-digit loop, on the C variables (result, remainder, value).\<close>

definition isqrt_step :: "u32 \<times> u32 \<times> u32 \<Rightarrow> u32 \<times> u32 \<times> u32" where
  "isqrt_step = (\<lambda>(result, remainder, value).
     let result = push_bit 1 result;
         remainder = push_bit 2 remainder + drop_bit 30 value;
         value = push_bit 2 value;
         p = push_bit 1 result OR 1
     in if p \<le> remainder then (result OR 1, remainder - p, value)
        else (result, remainder, value))"

definition nt_isqrt32 :: "u32 \<Rightarrow> u32" where
  "nt_isqrt32 value = fst ((isqrt_step ^^ 16) (0, 0, value))"

text \<open>The arithmetic of one round, on natural numbers.\<close>

lemma isqrt_digit_nat:
  fixes r t d :: nat
  assumes "r * r \<le> t" "t < (r + 1) * (r + 1)" "d < 4"
  shows "4 * r + 1 \<le> 4 * (t - r * r) + d \<Longrightarrow>
      (2 * r + 1) * (2 * r + 1) \<le> 4 * t + d \<and> 4 * t + d < (2 * r + 2) * (2 * r + 2) \<and>
      4 * (t - r * r) + d - (4 * r + 1) = 4 * t + d - (2 * r + 1) * (2 * r + 1)"
    and "\<not> 4 * r + 1 \<le> 4 * (t - r * r) + d \<Longrightarrow>
      (2 * r) * (2 * r) \<le> 4 * t + d \<and> 4 * t + d < (2 * r + 1) * (2 * r + 1) \<and>
      4 * (t - r * r) + d = 4 * t + d - (2 * r) * (2 * r)"
  using assms by (auto simp: algebra_simps)

lemma even_word_or_1:
  fixes w :: u32
  assumes "unat w < 2 ^ 31"
  shows "unat (push_bit 1 w) = 2 * unat w" and "push_bit 1 w OR 1 = push_bit 1 w + 1"
proof -
  show "unat (push_bit 1 w) = 2 * unat w"
    using assms by (simp add: push_bit_eq_mult unat_word_ariths)
  show "push_bit 1 w OR 1 = push_bit 1 w + 1"
    by (rule disjunctive_add [symmetric])
      (auto simp: bit_1_iff mult.commute [of w] bit_double_iff)
qed


text \<open>After \<open>k\<close> rounds the result is the root of the top \<open>2 * k\<close> bits of the argument.\<close>

definition isqrt_inv :: "nat \<Rightarrow> nat \<Rightarrow> u32 \<times> u32 \<times> u32 \<Rightarrow> bool" where
  "isqrt_inv v k = (\<lambda>(result, remainder, value).
     let t = v div 4 ^ (16 - k); r = unat result in
     r * r \<le> t \<and> t < (r + 1) * (r + 1) \<and> unat remainder = t - r * r \<and>
     unat value = (v * 4 ^ k) mod 2 ^ 32)"

lemma isqrt_next_digit:
  fixes v k :: nat
  assumes "k < 16"
  shows "v div 4 ^ (16 - Suc k) = 4 * (v div 4 ^ (16 - k)) + ((v * 4 ^ k) mod 2 ^ 32) div 2 ^ 30"
proof -
  define j where "j = 15 - k"
  have k: "16 - k = Suc j" "16 - Suc k = j" using assms by (auto simp: j_def)
  have e32: "(2::nat) ^ 32 = 4 ^ k * (4 * 4 ^ j)" and e30: "(2::nat) ^ 30 = 4 ^ k * 4 ^ j"
  proof -
    have "(4::nat) ^ k * 4 ^ j = 4 ^ 15"
      using assms by (simp add: j_def flip: power_add)
    note e = this
    have "4 ^ k * (4 * 4 ^ j) = (4::nat) * (4 ^ k * 4 ^ j)" by (rule mult.left_commute)
    then show "(2::nat) ^ 32 = 4 ^ k * (4 * 4 ^ j)" unfolding e by simp
    show "(2::nat) ^ 30 = 4 ^ k * 4 ^ j" unfolding e by simp
  qed
  have "(v * 4 ^ k) mod 2 ^ 32 = 4 ^ k * (v mod (4 * 4 ^ j))"
    unfolding e32 mult.commute [of v] by (rule mod_mult_mult1)
  then have "((v * 4 ^ k) mod 2 ^ 32) div 2 ^ 30 = (v mod (4 * 4 ^ j)) div 4 ^ j"
    unfolding e30 by simp
  also have "\<dots> = (v mod (4 ^ j * 4)) div 4 ^ j" by (simp only: mult.commute)
  also have "\<dots> = v div 4 ^ j mod 4" unfolding mod_mult2_eq by simp
  finally have digit: "((v * 4 ^ k) mod 2 ^ 32) div 2 ^ 30 = v div 4 ^ j mod 4" .
  have "v div 4 ^ Suc j = (v div 4 ^ j) div 4" unfolding power_Suc2 div_mult2_eq ..
  then show ?thesis unfolding k digit by simp
qed


lemma isqrt_step_inv:
  assumes "isqrt_inv v k s" and k: "k < 16" and v: "v < 2 ^ 32"
  shows "isqrt_inv v (Suc k) (isqrt_step s)"
proof -
  obtain res rem val where s: "s = (res, rem, val)" by (cases s) auto
  define t where "t = v div 4 ^ (16 - k)"
  define d where "d = unat (drop_bit 30 val)"
  define r where "r = unat res"
  have inv: "r * r \<le> t" "t < (r + 1) * (r + 1)" "unat rem = t - r * r"
      "unat val = (v * 4 ^ k) mod 2 ^ 32"
    using assms(1) by (auto simp: isqrt_inv_def s t_def r_def Let_def)
  have d: "d = ((v * 4 ^ k) mod 2 ^ 32) div 2 ^ 30"
    by (simp only: d_def unat_drop_bit_eq) (simp only: drop_bit_eq_div inv(4))
  then have d4: "d < 4" by (simp add: less_mult_imp_div_less)
  have t': "v div 4 ^ (16 - Suc k) = 4 * t + d"
    using isqrt_next_digit [OF k, of v] by (simp add: t_def d)
  have "4 ^ (16 - k) = 4 * (4 ^ (15 - k) :: nat)" using k by (simp add: Suc_diff_Suc flip: power_Suc)
  then have "t \<le> v div 4" by (simp add: t_def div_le_mono2)
  then have t30: "t < 2 ^ 30" using v by (simp add: less_mult_imp_div_less)
  have r15: "r < 2 ^ 15"
  proof (rule ccontr)
    assume "\<not> r < 2 ^ 15"
    then have "2 ^ 15 * 2 ^ 15 \<le> r * r" by (intro mult_mono) auto
    with inv(1) t30 show False by simp
  qed
  have rem2: "t - r * r \<le> 2 * r" using inv(2) by (simp add: algebra_simps)
  have "unat (push_bit 2 rem + drop_bit 30 val) = 4 * (t - r * r) + d"
  proof -
    have "unat (push_bit 2 rem) = 4 * (t - r * r)"
      using rem2 r15 by (simp add: push_bit_eq_mult unat_word_ariths inv(3))
    then show ?thesis using rem2 r15 d4
      by (subst unat_add_no_wrap) (auto simp: d_def [symmetric])
  qed
  note rem' = this
  have res': "unat (push_bit 1 res) = 2 * r" "push_bit 1 res OR 1 = push_bit 1 res + 1"
    using even_word_or_1 [of res] r15 by (auto simp: r_def)
  have res1: "unat (push_bit 1 res + 1) = 2 * r + 1"
    using res'(1) r15 by (subst unat_add_no_wrap) auto
  have p: "unat (push_bit 1 (push_bit 1 res) OR 1) = 4 * r + 1"
  proof -
    have "unat (push_bit 1 (push_bit 1 res)) = 4 * r"
        "push_bit 1 (push_bit 1 res) OR 1 = push_bit 1 (push_bit 1 res) + 1"
      using even_word_or_1 [of "push_bit 1 res"] res'(1) r15 by auto
    then show ?thesis using r15 by (simp only:) (subst unat_add_no_wrap; simp)
  qed
  have val': "unat (push_bit 2 val) = (v * 4 ^ Suc k) mod 2 ^ 32"
  proof -
    have "unat (push_bit 2 val) = (unat val * 4) mod 2 ^ 32"
      by (simp add: push_bit_eq_mult unat_word_ariths)
    also have "\<dots> = (v * 4 ^ k * 4) mod 2 ^ 32" unfolding inv(4) by (rule mod_mult_left_eq)
    finally show ?thesis by (simp only: power_Suc2 mult.assoc)
  qed
  show ?thesis
  proof (cases "4 * r + 1 \<le> 4 * (t - r * r) + d")
    case True
    then have le: "push_bit 1 (push_bit 1 res) OR 1 \<le> push_bit 2 rem + drop_bit 30 val"
      by (simp only: word_le_nat_alt p rem')
    then have step: "isqrt_step s = (push_bit 1 res + 1,
        push_bit 2 rem + drop_bit 30 val - (push_bit 1 (push_bit 1 res) OR 1), push_bit 2 val)"
      by (simp only: isqrt_step_def s prod.case Let_def if_True res'(2))
    have "unat (push_bit 2 rem + drop_bit 30 val - (push_bit 1 (push_bit 1 res) OR 1)) =
        4 * (t - r * r) + d - (4 * r + 1)"
      using True by (subst unat_sub_no_wrap) (simp_all only: p rem')
    with isqrt_digit_nat(1) [OF inv(1,2) d4 True] show ?thesis
      by (simp only: isqrt_inv_def step prod.case Let_def res1 val' t') (simp add: algebra_simps)
  next
    case False
    then have "\<not> push_bit 1 (push_bit 1 res) OR 1 \<le> push_bit 2 rem + drop_bit 30 val"
      by (simp only: word_le_nat_alt p rem' not_False_eq_True)
    then have step: "isqrt_step s =
        (push_bit 1 res, push_bit 2 rem + drop_bit 30 val, push_bit 2 val)"
      by (simp only: isqrt_step_def s prod.case Let_def if_False)
    from isqrt_digit_nat(2) [OF inv(1,2) d4 False] show ?thesis
      by (simp only: isqrt_inv_def step prod.case Let_def res'(1) rem' val' t')
  qed
qed

lemma isqrt_loop_inv:
  "k \<le> 16 \<Longrightarrow> isqrt_inv (unat value) k ((isqrt_step ^^ k) (0, 0, value))"
proof (induction k)
  case 0
  have "unat value div 4 ^ 16 = 0" using unat_bound [of "value"] by simp
  moreover have "unat value mod 4294967296 = unat value" using unat_bound [of "value"] by simp
  ultimately show ?case by (simp add: isqrt_inv_def Let_def)
next
  case (Suc k)
  then have "isqrt_inv (unat value) (Suc k) (isqrt_step ((isqrt_step ^^ k) (0, 0, value)))"
    using unat_bound [of "value"] by (intro isqrt_step_inv) auto
  then show ?case by simp
qed


section \<open>Properties\<close>

text \<open>
  C26: On a 32-bit \<open>int\<close>, \<open>is_prime\<close> decides primality for every argument below \<open>46339 * 46339\<close> and for every
  composite one, and is undefined (the product \<open>i * i\<close> overflows) exactly for the primes from there up to
  \<open>INT_MAX\<close>. \<open>next_prime(n)\<close> terminates; it returns the least prime that is not below \<open>n\<close> if that prime
  is below \<open>46339 * 46339\<close>, and runs into the overflow otherwise. The unbounded \<open>next_prime\<close> is that least prime.
\<close>

theorem next_prime_least:
  assumes "n \<le> INT_MAX"
  shows "is_prime_chk n = (if prime_int n \<and> 46339 * 46339 \<le> n then None else Some (prime_int n)) \<and>
    is_prime n = prime_int n \<and>
    (\<exists>p. prime_int p \<and> n \<le> p \<and> (\<forall>q. n \<le> q \<and> q < p \<longrightarrow> \<not> prime_int q) \<and> next_prime n = p \<and>
       next_prime_chk n = (if p < 46339 * 46339 then Some p else None))"
  using is_prime_chk_exact_aux [OF assms] next_prime_props [of n] next_prime_chk_exact [of n] is_prime_iff [of n] by blast

text \<open>At 90 the answer is 97; at \<open>INT_MAX\<close>, a prime, both functions overflow.\<close>

theorem next_prime_least_witness:
  "next_prime_chk 90 = Some 97 \<and> next_prime_chk INT_MAX = None"
proof -
  have "next_prime 90 = 97" by code_simp
  moreover have "next_prime_chk INT_MAX = None"
    using next_prime_ge [of INT_MAX] by (auto simp: next_prime_chk_exact INT_MAX_def)
  ultimately show ?thesis using next_prime_least [of 90] by (auto simp: INT_MAX_def)
qed

text \<open>
  C27: \<open>nt_isqrt32\<close> returns the integer part of the square root of every 32-bit value.
\<close>

theorem nt_isqrt32_correct:
  "unat (nt_isqrt32 v) * unat (nt_isqrt32 v) \<le> unat v \<and>
   unat v < (unat (nt_isqrt32 v) + 1) * (unat (nt_isqrt32 v) + 1)"
proof -
  have "isqrt_inv (unat v) 16 ((isqrt_step ^^ 16) (0, 0, v))" by (rule isqrt_loop_inv) simp
  then show ?thesis
    by (cases "(isqrt_step ^^ 16) (0, 0, v)") (simp add: nt_isqrt32_def isqrt_inv_def Let_def)
qed

end
