(* ===== verification/Algo_Hash.thy ===== *)
theory Algo_Hash
  imports Prelude
begin

text \<open>
  The hash functions of nt_algodefs.c and \<open>MurmurHash64A\<close> of nt_hashmap.c. A memory area
  \<open>(data, len)\<close> is the list of its bytes; \<open>nt_hash_t\<close> is a 32-bit word and arithmetic wraps as
  in C. Multi-byte loads are little-endian (x86-64, the Makefile's platform).
\<close>

section \<open>Bytes\<close>

definition byte32 :: "u8 list \<Rightarrow> nat \<Rightarrow> u32" where
  "byte32 p i = ucast (p ! i)"

definition byte64 :: "u8 list \<Rightarrow> nat \<Rightarrow> u64" where
  "byte64 p i = ucast (p ! i)"

text \<open>The memory representation of a \<open>nt_uint64_t\<close>.\<close>

definition u64_bytes :: "u64 \<Rightarrow> u8 list" where
  "u64_bytes v = map (\<lambda>i. ucast (drop_bit (8 * i) v)) [0..<8]"

section \<open>\<open>nt_hash_lookup2\<close>\<close>

text \<open>The \<open>mix\<close> macro: nine lines of subtract-and-xor on (a, b, c).\<close>

definition lookup2_mix :: "u32 \<times> u32 \<times> u32 \<Rightarrow> u32 \<times> u32 \<times> u32" where
  "lookup2_mix = (\<lambda>(a, b, c).
     let a = (a - b - c) XOR drop_bit 13 c; b = (b - c - a) XOR push_bit 8 a;
         c = (c - a - b) XOR drop_bit 13 b;
         a = (a - b - c) XOR drop_bit 12 c; b = (b - c - a) XOR push_bit 16 a;
         c = (c - a - b) XOR drop_bit 5 b;
         a = (a - b - c) XOR drop_bit 3 c; b = (b - c - a) XOR push_bit 10 a;
         c = (c - a - b) XOR drop_bit 15 b
     in (a, b, c))"

definition load32 :: "u8 list \<Rightarrow> nat \<Rightarrow> u32" where
  "load32 p i = byte32 p i + push_bit 8 (byte32 p (i + 1)) + push_bit 16 (byte32 p (i + 2)) +
     push_bit 24 (byte32 p (i + 3))"

function lookup2_loop :: "u32 \<times> u32 \<times> u32 \<Rightarrow> u8 list \<Rightarrow> (u32 \<times> u32 \<times> u32) \<times> u8 list" where
  "lookup2_loop abc p =
     (if 12 \<le> length p then
        (case abc of (a, b, c) \<Rightarrow>
           lookup2_loop (lookup2_mix (a + load32 p 0, b + load32 p 4, c + load32 p 8)) (drop 12 p))
      else (abc, p))"
  by pat_completeness auto
termination by (relation "measure (length \<circ> snd)") auto

declare lookup2_loop.simps [simp del]

text \<open>The fall-through \<open>switch\<close> adds each remaining byte that exists.\<close>

definition add_tail :: "u8 list \<Rightarrow> nat \<Rightarrow> nat \<Rightarrow> u32 \<Rightarrow> u32" where
  "add_tail p i sh w = (if i < length p then w + push_bit sh (byte32 p i) else w)"

definition nt_hash_lookup2 :: "u8 list \<Rightarrow> u32 \<Rightarrow> u32" where
  "nt_hash_lookup2 data seed =
     (case lookup2_loop (0x9e3779b9, 0x9e3779b9, seed) data of
        ((a, b, c), p) \<Rightarrow>
          let c = c + of_nat (length p);
              c = add_tail p 10 24 c; c = add_tail p 9 16 c; c = add_tail p 8 8 c;
              b = add_tail p 7 24 b; b = add_tail p 6 16 b; b = add_tail p 5 8 b; b = add_tail p 4 0 b;
              a = add_tail p 3 24 a; a = add_tail p 2 16 a; a = add_tail p 1 8 a; a = add_tail p 0 0 a
          in snd (snd (lookup2_mix (a, b, c))))"

section \<open>\<open>nt_hash_modfnv\<close>\<close>

definition modfnv_byte :: "u32 \<Rightarrow> u8 \<Rightarrow> u32" where
  "modfnv_byte hash b = (hash XOR ucast b) * 16777619"

definition modfnv_final :: "u32 \<Rightarrow> u32" where
  "modfnv_final hash =
     (let hash = hash + push_bit 13 hash; hash = hash XOR drop_bit 7 hash;
          hash = hash + push_bit 3 hash; hash = hash XOR drop_bit 17 hash
      in hash + push_bit 5 hash)"

definition nt_hash_modfnv :: "u8 list \<Rightarrow> u32 \<Rightarrow> u32" where
  "nt_hash_modfnv data seed = modfnv_final (foldl modfnv_byte (2166136261 XOR seed) data)"

section \<open>\<open>nt_hash_murmur2\<close>\<close>

definition murmur2_m :: u32 where
  "murmur2_m = 0x5bd1e995"

function murmur2_loop :: "u32 \<Rightarrow> u8 list \<Rightarrow> u32 \<times> u8 list" where
  "murmur2_loop hash p =
     (if 4 \<le> length p then
        (let k = byte32 p 0;
             k = k OR push_bit 8 (byte32 p 1);
             k = k OR push_bit 16 (byte32 p 2);
             k = k OR push_bit 24 (byte32 p 3);
             k = k * murmur2_m; k = k XOR drop_bit 24 k; k = k * murmur2_m
         in murmur2_loop ((hash * murmur2_m) XOR k) (drop 4 p))
      else (hash, p))"
  by pat_completeness auto
termination by (relation "measure (length \<circ> snd)") auto

declare murmur2_loop.simps [simp del]

definition murmur2_tail :: "u32 \<Rightarrow> u8 list \<Rightarrow> u32" where
  "murmur2_tail hash p =
     (let hash = (if 3 \<le> length p then hash XOR push_bit 16 (byte32 p 2) else hash);
          hash = (if 2 \<le> length p then hash XOR push_bit 8 (byte32 p 1) else hash)
      in if 1 \<le> length p then (hash XOR byte32 p 0) * murmur2_m else hash)"

definition nt_hash_murmur2 :: "u8 list \<Rightarrow> u32 \<Rightarrow> u32" where
  "nt_hash_murmur2 data seed =
     (case murmur2_loop (seed XOR of_nat (length data)) data of
        (hash, p) \<Rightarrow>
          let hash = murmur2_tail hash p;
              hash = hash XOR drop_bit 13 hash; hash = hash * murmur2_m
          in hash XOR drop_bit 15 hash)"

section \<open>\<open>nt_hash_sdbm\<close> and \<open>nt_hash_djb2\<close>\<close>

definition nt_hash_sdbm :: "u8 list \<Rightarrow> u32 \<Rightarrow> u32" where
  "nt_hash_sdbm data seed =
     foldl (\<lambda>hash b. ucast b + push_bit 6 hash + push_bit 16 hash - hash) seed data"

definition nt_hash_djb2 :: "u8 list \<Rightarrow> u32 \<Rightarrow> u32" where
  "nt_hash_djb2 data seed =
     foldl (\<lambda>hash b. (push_bit 5 hash + hash) + ucast b) (5381 XOR seed) data"

section \<open>Default hash functions\<close>

definition nt_default_ptr_hash_func :: "u64 \<Rightarrow> u32" where
  "nt_default_ptr_hash_func ptr = nt_hash_modfnv (u64_bytes ptr) 0"

definition nt_default_uint64_hash_func :: "u64 \<Rightarrow> u32" where
  "nt_default_uint64_hash_func v = nt_hash_modfnv (u64_bytes v) 0"

definition nt_default_string_hash_func :: "u8 list \<Rightarrow> u32" where
  "nt_default_string_hash_func str = nt_hash_modfnv str 0"

definition nt_default_uint64_pair_hash_func :: "u64 \<times> u64 \<Rightarrow> u32" where
  "nt_default_uint64_pair_hash_func pair =
     (let hash = nt_default_uint64_hash_func (fst pair)
      in nt_hash_modfnv (u64_bytes (snd pair)) hash)"

section \<open>\<open>MurmurHash64A\<close>\<close>

definition murmur64_m :: u64 where
  "murmur64_m = 0xc6a4a7935bd1e995"

definition load64 :: "u8 list \<Rightarrow> u64" where
  "load64 p = byte64 p 0 OR push_bit 8 (byte64 p 1) OR push_bit 16 (byte64 p 2) OR
     push_bit 24 (byte64 p 3) OR push_bit 32 (byte64 p 4) OR push_bit 40 (byte64 p 5) OR
     push_bit 48 (byte64 p 6) OR push_bit 56 (byte64 p 7)"

definition murmur64_scramble :: "u64 \<Rightarrow> u64" where
  "murmur64_scramble k =
     (let k = k * murmur64_m; k = k XOR drop_bit 47 k in k * murmur64_m)"

function murmur64_loop :: "u64 \<Rightarrow> u8 list \<Rightarrow> u64 \<times> u8 list" where
  "murmur64_loop h p =
     (if 8 \<le> length p
      then murmur64_loop ((h XOR murmur64_scramble (load64 p)) * murmur64_m) (drop 8 p)
      else (h, p))"
  by pat_completeness auto
termination by (relation "measure (length \<circ> snd)") auto

declare murmur64_loop.simps [simp del]

definition xor_tail :: "u8 list \<Rightarrow> nat \<Rightarrow> u64 \<Rightarrow> u64" where
  "xor_tail p i h = (if i < length p then h XOR push_bit (8 * i) (byte64 p i) else h)"

definition murmur64_tail :: "u64 \<Rightarrow> u8 list \<Rightarrow> u64" where
  "murmur64_tail h p =
     (let h = xor_tail p 6 h; h = xor_tail p 5 h; h = xor_tail p 4 h; h = xor_tail p 3 h;
          h = xor_tail p 2 h; h = xor_tail p 1 h
      in if 0 < length p then xor_tail p 0 h * murmur64_m else h)"

definition murmur64_final :: "u64 \<Rightarrow> u64" where
  "murmur64_final h =
     (let h = h XOR drop_bit 47 h; h = h * murmur64_m in h XOR drop_bit 47 h)"

definition MurmurHash64A :: "u8 list \<Rightarrow> u64 \<Rightarrow> u64" where
  "MurmurHash64A key seed =
     (case murmur64_loop (seed XOR (of_nat (length key) * murmur64_m)) key of
        (h, p) \<Rightarrow> murmur64_final (murmur64_tail h p))"

definition string_to_uint64 :: "u8 list \<Rightarrow> u64" where
  "string_to_uint64 str = MurmurHash64A str 0x12345678"


section \<open>Injectivity of the mixing steps\<close>

lemma xor_left_cancel_word: "a XOR b = a XOR c \<longleftrightarrow> b = (c :: 'a::len word)"
  by (metis xor.assoc xor.left_neutral xor_self_eq)

lemma xor_right_cancel_word: "b XOR a = c XOR a \<longleftrightarrow> b = (c :: 'a::len word)"
  by (simp add: xor.commute [of _ a] xor_left_cancel_word)

lemma ucast_u8_u32_inj: "(ucast (b :: u8) :: u32) = ucast b' \<longleftrightarrow> b = b'"
proof
  assume eq: "(ucast b :: u32) = ucast b'"
  show "b = b'"
  proof (rule bit_word_eqI)
    fix n assume "n < LENGTH(8)"
    then have "bit b n = bit (ucast b :: u32) n" "bit b' n = bit (ucast b' :: u32) n"
      by (auto simp: bit_simps)
    then show "bit b n = bit b' n" using eq by simp
  qed
qed simp

lemma modfnv_byte_inj:
  "modfnv_byte h b = modfnv_byte h' b' \<longleftrightarrow> h XOR ucast b = h' XOR ucast b'"
proof
  assume "modfnv_byte h b = modfnv_byte h' b'"
  then show "h XOR ucast b = h' XOR ucast b'"
    unfolding modfnv_byte_def
    by (rule word_mult_left_cancel_unit [of 899433627 16777619, rotated]) simp
next
  assume "h XOR ucast b = h' XOR ucast b'"
  then show "modfnv_byte h b = modfnv_byte h' b'" by (simp only: modfnv_byte_def)
qed

lemma modfnv_final_inj: "modfnv_final h = modfnv_final h' \<longleftrightarrow> h = h'"
proof
  have mult: "a = b" if "a + push_bit 13 a = b + push_bit 13 b" for a b :: u32
  proof (rule word_mult_left_cancel_unit [of 67100673 8193])
    have "x + push_bit 13 x = x * 8193" for x :: u32 by (simp add: push_bit_eq_mult)
    with that show "a * 8193 = b * 8193" by (simp only:)
  qed simp
  have mult3: "a = b" if "a + push_bit 3 a = b + push_bit 3 b" for a b :: u32
  proof (rule word_mult_left_cancel_unit [of 954437177 9])
    have "x + push_bit 3 x = x * 9" for x :: u32 by (simp add: push_bit_eq_mult)
    with that show "a * 9 = b * 9" by (simp only:)
  qed simp
  have mult5: "a = b" if "a + push_bit 5 a = b + push_bit 5 b" for a b :: u32
  proof (rule word_mult_left_cancel_unit [of 1041204193 33])
    have "x + push_bit 5 x = x * 33" for x :: u32 by (simp add: push_bit_eq_mult)
    with that show "a * 33 = b * 33" by (simp only:)
  qed simp
  assume "modfnv_final h = modfnv_final h'"
  note mult5 [OF this [unfolded modfnv_final_def Let_def]]
  note xor_drop_bit_inj [OF this zero_less_numeral]
  note mult3 [OF this]
  note xor_drop_bit_inj [OF this zero_less_numeral]
  from mult [OF this] show "h = h'" .
qed simp

lemma modfnv_fold_inj: "foldl modfnv_byte h data = foldl modfnv_byte h' data \<longleftrightarrow> h = h'"
  by (induction data arbitrary: h h') (simp_all add: modfnv_byte_inj xor_right_cancel_word)

text \<open>\<open>murmur64_scramble\<close> and the per-block step are bijections of the 64-bit words.\<close>

lemma murmur64_mult_inj: "a * murmur64_m = b * murmur64_m \<longleftrightarrow> a = b"
proof
  assume "a * murmur64_m = b * murmur64_m"
  then show "a = b"
    by (rule word_mult_left_cancel_unit [of 6879827495036328381, rotated]) (simp add: murmur64_m_def)
qed simp

lemma murmur64_scramble_inj: "murmur64_scramble k = murmur64_scramble k' \<longleftrightarrow> k = k'"
proof
  assume "murmur64_scramble k = murmur64_scramble k'"
  then have "k * murmur64_m XOR drop_bit 47 (k * murmur64_m) =
      k' * murmur64_m XOR drop_bit 47 (k' * murmur64_m)"
    by (simp only: murmur64_scramble_def Let_def murmur64_mult_inj)
  then have "k * murmur64_m = k' * murmur64_m" by (rule xor_drop_bit_inj) simp
  then show "k = k'" by (simp only: murmur64_mult_inj)
qed simp

lemma murmur64_final_inj: "murmur64_final h = murmur64_final h' \<longleftrightarrow> h = h'"
proof
  assume "murmur64_final h = murmur64_final h'"
  then have "(h XOR drop_bit 47 h) * murmur64_m = (h' XOR drop_bit 47 h') * murmur64_m"
    unfolding murmur64_final_def Let_def by (rule xor_drop_bit_inj) simp
  then have "h XOR drop_bit 47 h = h' XOR drop_bit 47 h'" by (simp only: murmur64_mult_inj)
  then show "h = h'" by (rule xor_drop_bit_inj) simp
qed simp

text \<open>The bytes of a block or of a tail can be read back from the word it is loaded into.\<close>

lemma bit_byte64: "bit (byte64 p i) n \<longleftrightarrow> n < 8 \<and> bit (p ! i) n"
  by (auto simp: byte64_def bit_simps dest: bit_imp_le_length)

lemma bit_byte64_shift:
  "bit (push_bit (8 * k) (byte64 p k)) n \<longleftrightarrow> n < 64 \<and> n div 8 = k \<and> bit (p ! (n div 8)) (n mod 8)"
proof -
  have "n div 8 = k \<longleftrightarrow> 8 * k \<le> n \<and> n - 8 * k < 8" by auto
  moreover have "n - 8 * k = n mod 8" if "n div 8 = k"
    using that by (simp add: minus_mult_div_eq_mod [symmetric])
  ultimately show ?thesis by (auto simp: bit_push_bit_iff bit_byte64)
qed

definition bytes_upto :: "u8 list \<Rightarrow> nat \<Rightarrow> u64 \<Rightarrow> bool" where
  "bytes_upto p k w \<longleftrightarrow>
     (\<forall>n. bit w n \<longleftrightarrow> n < 64 \<and> n div 8 < k \<and> bit (p ! (n div 8)) (n mod 8))"

lemma bytes_upto_0: "bytes_upto p 0 0"
  by (simp add: bytes_upto_def)

lemma bytes_upto_or:
  "bytes_upto p k w \<Longrightarrow> bytes_upto p (Suc k) (w OR push_bit (8 * k) (byte64 p k))"
  unfolding bytes_upto_def bit_or_iff bit_byte64_shift by (auto simp: less_Suc_eq)

lemma bytes_upto_xor:
  "bytes_upto p k w \<Longrightarrow> bytes_upto p (Suc k) (w XOR push_bit (8 * k) (byte64 p k))"
  unfolding bytes_upto_def bit_xor_iff bit_byte64_shift by (auto simp: less_Suc_eq)

lemma bytes_upto_inj:
  assumes "bytes_upto p k w" "bytes_upto q k w" "length p = k" "length q = k" "k \<le> 8"
  shows "p = q"
proof (rule nth_equalityI)
  fix i assume i: "i < length p"
  show "p ! i = q ! i"
  proof (rule bit_word_eqI)
    fix n assume "n < LENGTH(8)"
    then have "(8 * i + n) div 8 = i" "(8 * i + n) mod 8 = n" by auto
    moreover have "8 * i + n < 64" using i assms(3,5) \<open>n < LENGTH(8)\<close> by simp
    ultimately show "bit (p ! i) n = bit (q ! i) n"
      using assms(1,2,3) i unfolding bytes_upto_def by metis
  qed
qed (use assms in simp)

lemma load64_bytes: "bytes_upto p 8 (load64 p)"
  using bytes_upto_0 [of p, THEN bytes_upto_or, THEN bytes_upto_or, THEN bytes_upto_or,
      THEN bytes_upto_or, THEN bytes_upto_or, THEN bytes_upto_or, THEN bytes_upto_or,
      THEN bytes_upto_or]
  by (simp add: load64_def eval_nat_numeral or.assoc del: push_bit_of_Suc_0 push_bit_Suc)

lemma load64_inj:
  assumes "length p = 8" "length q = 8" "load64 p = load64 q"
  shows "p = q"
  using bytes_upto_inj [OF load64_bytes [of p]] load64_bytes [of q] assms by simp

definition tail_word :: "u8 list \<Rightarrow> u64" where
  "tail_word p = xor_tail p 0 (xor_tail p 1 (xor_tail p 2 (xor_tail p 3 (xor_tail p 4
     (xor_tail p 5 (xor_tail p 6 0))))))"

lemma xor_tail_shift: "xor_tail p i (h XOR w) = h XOR xor_tail p i w"
  by (simp add: xor_tail_def xor.assoc)

lemma murmur64_tail_Nil: "murmur64_tail h [] = h"
  by (simp add: murmur64_tail_def xor_tail_def)

lemma murmur64_tail_eq:
  assumes "p \<noteq> []"
  shows "murmur64_tail h p = (h XOR tail_word p) * murmur64_m"
proof -
  have "xor_tail p 6 h = h XOR xor_tail p 6 0" using xor_tail_shift [of p 6 h 0] by simp
  moreover have "(0 < length p) = True" using assms by simp
  ultimately show ?thesis
    by (simp only: murmur64_tail_def tail_word_def Let_def xor_tail_shift if_True)
qed

lemma xor_tail_bytes:
  "bytes_upto p (min k (length p)) w \<Longrightarrow> bytes_upto p (min (Suc k) (length p)) (xor_tail p k w)"
  using bytes_upto_xor [of p k w] by (cases "k < length p") (auto simp: xor_tail_def min_def split: if_splits)

text \<open>The order in which the fall-through \<open>switch\<close> xors the bytes does not matter.\<close>

lemma xor_tail_commute: "xor_tail p i (xor_tail p j w) = xor_tail p j (xor_tail p i w)"
  by (simp add: xor_tail_def ac_simps)

lemma tail_word_bytes: "length p < 8 \<Longrightarrow> bytes_upto p (length p) (tail_word p)"
proof -
  assume "length p < 8"
  have "tail_word p = xor_tail p 6 (xor_tail p 5 (xor_tail p 4 (xor_tail p 3 (xor_tail p 2
      (xor_tail p 1 (xor_tail p 0 0))))))"
    unfolding tail_word_def by (simp only: xor_tail_commute)
  moreover have "bytes_upto p (min 0 (length p)) 0" by (simp add: bytes_upto_0)
  note this [THEN xor_tail_bytes, THEN xor_tail_bytes, THEN xor_tail_bytes, THEN xor_tail_bytes,
      THEN xor_tail_bytes, THEN xor_tail_bytes, THEN xor_tail_bytes]
  ultimately show ?thesis using \<open>length p < 8\<close> by (simp add: eval_nat_numeral min_absorb2)
qed

lemma tail_word_inj:
  assumes "length p = length q" "length q < 8" "tail_word p = tail_word q"
  shows "p = q"
proof (rule bytes_upto_inj)
  have "length p < 8" using assms(1,2) by simp
  then show "bytes_upto p (length p) (tail_word p)" by (rule tail_word_bytes)
  show "bytes_upto q (length p) (tail_word p)"
    unfolding assms(1,3) using assms(2) by (rule tail_word_bytes)
qed (use assms(1,2) in simp_all)


section \<open>Properties\<close>

text \<open>
  With the default hash algorithm \<open>nt_hash_modfnv\<close>, changing one byte of the data always
  changes the hash: the per-byte step and the final avalanche lose no information.
\<close>

theorem modfnv_single_byte:
  "nt_hash_modfnv (xs @ b # ys) seed = nt_hash_modfnv (xs @ b' # ys) seed \<longleftrightarrow> b = b'"
  by (simp add: nt_hash_modfnv_def modfnv_final_inj modfnv_fold_inj modfnv_byte_inj
      xor_left_cancel_word ucast_u8_u32_inj)

text \<open>
  The shift-and-add loops of \<open>nt_hash_sdbm\<close> and \<open>nt_hash_djb2\<close> compute the polynomial
  hashes their comments give, \<open>hash * 65599 + byte\<close> and \<open>hash * 33 + byte\<close>.
\<close>

theorem sdbm_djb2_reference:
  "nt_hash_sdbm data seed = foldl (\<lambda>hash b. ucast b + hash * 65599) seed data \<and>
   nt_hash_djb2 data seed = foldl (\<lambda>hash b. hash * 33 + ucast b) (5381 XOR seed) data"
proof -
  have "ucast b + push_bit 6 h + push_bit 16 h - h = ucast b + h * 65599" for h :: u32 and b :: u8
  proof -
    have "push_bit 6 h + push_bit 16 h - h = h * 65599"
      by (simp add: push_bit_eq_mult)
    then show ?thesis by (simp only: add.assoc add_diff_eq [symmetric])
  qed
  moreover have "push_bit 5 h + h = h * 33" for h :: u32
    by (simp add: push_bit_eq_mult)
  ultimately show ?thesis by (simp only: nt_hash_sdbm_def nt_hash_djb2_def)
qed

text \<open>
  The 64-bit key that \<open>nt_hashmap_get_ext\<close> and \<open>nt_hashmap_set_ext\<close> derive from a string
  is collision-free among strings of one length up to 8 bytes.
\<close>

theorem string_to_uint64_inj:
  assumes "length s = length t" "length t \<le> 8"
  shows "string_to_uint64 s = string_to_uint64 t \<longleftrightarrow> s = t"
proof
  assume eq: "string_to_uint64 s = string_to_uint64 t"
  define h where "h = 0x12345678 XOR (of_nat (length t) * murmur64_m)"
  show "s = t"
  proof (cases "length t = 8")
    case True
    have block: "murmur64_loop h p = ((h XOR murmur64_scramble (load64 p)) * murmur64_m, [])"
      if "length p = 8" for p
      using that by (simp add: murmur64_loop.simps [of h p] murmur64_loop.simps [of _ "[]"])
    from eq have "(h XOR murmur64_scramble (load64 s)) * murmur64_m =
        (h XOR murmur64_scramble (load64 t)) * murmur64_m"
      using block [of s] block [of t] True assms
      by (simp add: string_to_uint64_def MurmurHash64A_def h_def murmur64_tail_Nil murmur64_final_inj)
    then have "load64 s = load64 t"
      by (simp only: murmur64_mult_inj xor_left_cancel_word murmur64_scramble_inj)
    then show ?thesis using load64_inj assms True by simp
  next
    case False
    with assms have lt: "length t < 8" by simp
    have short: "murmur64_loop h p = (h, p)" if "length p < 8" for p
      using that by (simp add: murmur64_loop.simps [of h p])
    show ?thesis
    proof (cases "t = []")
      case False
      with assms have "s \<noteq> []" by auto
      with eq False have "(h XOR tail_word s) * murmur64_m = (h XOR tail_word t) * murmur64_m"
        using short [of s] short [of t] lt assms
        by (simp add: string_to_uint64_def MurmurHash64A_def h_def murmur64_tail_eq murmur64_final_inj)
      then have "tail_word s = tail_word t"
        by (simp only: murmur64_mult_inj xor_left_cancel_word)
      then show ?thesis using tail_word_inj assms lt by blast
    qed (use assms in simp)
  qed
qed simp

theorem string_to_uint64_inj_witness:
  "string_to_uint64 [97, 98, 99] \<noteq> string_to_uint64 [97, 98, 100]"
  using string_to_uint64_inj [of "[97, 98, 99]" "[97, 98, 100]"] by simp

end
