(* ===== verification/Compare.thy ===== *)
theory Compare
  imports Prelude
begin

text \<open>
  The comparison callbacks of nt_algodefs.c (\<open>nt_compare_func_t\<close>) and the contracts the
  containers place on them: a hash table needs \<open>cmp x y = 0\<close> to mean equality
  (\<open>key_compare\<close>), the binary heap needs the sign of \<open>cmp\<close> to be a total preorder
  (\<open>total_compare\<close>). A callback takes the values its two pointers lead to.
\<close>

section \<open>Contracts\<close>

locale key_compare =
  fixes cmp :: "'a \<Rightarrow> 'a \<Rightarrow> int"
  assumes cmp_zero_iff: "cmp x y = 0 \<longleftrightarrow> x = y"
begin

lemma cmp_refl [simp]: "cmp x x = 0"
  by (simp add: cmp_zero_iff)

end

locale total_compare =
  fixes cmp :: "'a \<Rightarrow> 'a \<Rightarrow> int"
  assumes cmp_flip: "0 < cmp x y \<longleftrightarrow> cmp y x < 0"
    and cmp_trans: "cmp x y \<le> 0 \<Longrightarrow> cmp y z \<le> 0 \<Longrightarrow> cmp x z \<le> 0"
begin

lemma cmp_self: "cmp x x = 0"
  using cmp_flip [of x x] by linarith

lemma cmp_le_refl [simp]: "cmp x x \<le> 0"
  by (simp add: cmp_self)

lemma cmp_gtD: "0 < cmp x y \<Longrightarrow> cmp y x \<le> 0"
  by (simp add: cmp_flip)

lemma cmp_total: "cmp x y \<le> 0 \<or> cmp y x \<le> 0"
  using cmp_flip [of x y] by linarith

end

locale linear_compare = total_compare + key_compare
begin

lemma cmp_antisym: "cmp x y \<le> 0 \<Longrightarrow> cmp y x \<le> 0 \<Longrightarrow> x = y"
  using cmp_flip [of y x] cmp_zero_iff [of x y] by (cases "cmp x y = 0") auto

end

section \<open>The default callbacks\<close>

text \<open>\<open>NT_RETURN_IF_NOT_EQUAL(a, b)\<close>, with what follows it as the last argument.\<close>

definition return_if_not_equal :: "'a::linorder \<Rightarrow> 'a \<Rightarrow> int \<Rightarrow> int" where
  "return_if_not_equal a b rest = (if a < b then -1 else if b < a then 1 else rest)"

definition nt_default_int_compare_func :: "int \<Rightarrow> int \<Rightarrow> int" where
  "nt_default_int_compare_func i1 i2 = return_if_not_equal i1 i2 0"

definition nt_default_uint64_compare_func :: "u64 \<Rightarrow> u64 \<Rightarrow> int" where
  "nt_default_uint64_compare_func i1 i2 = return_if_not_equal i1 i2 0"

text \<open>The pointees of the two pointer arguments, read through \<open>deref\<close>.\<close>

definition nt_default_uint64_ptr_compare_func :: "(u64 \<Rightarrow> u64) \<Rightarrow> u64 \<Rightarrow> u64 \<Rightarrow> int" where
  "nt_default_uint64_ptr_compare_func deref p1 p2 =
     nt_default_uint64_compare_func (deref p1) (deref p2)"

definition nt_default_ptr_compare_func :: "u64 \<Rightarrow> u64 \<Rightarrow> int" where
  "nt_default_ptr_compare_func p1 p2 = return_if_not_equal p1 p2 0"

definition nt_default_uint64_pair_compare_func :: "u64 \<times> u64 \<Rightarrow> u64 \<times> u64 \<Rightarrow> int" where
  "nt_default_uint64_pair_compare_func p1 p2 =
     return_if_not_equal (fst p1) (fst p2) (return_if_not_equal (snd p1) (snd p2) 0)"

text \<open>\<open>strcmp\<close> on the bytes before the terminating NUL, its sign normalised.\<close>

fun strcmp :: "u8 list \<Rightarrow> u8 list \<Rightarrow> int" where
  "strcmp [] [] = 0"
| "strcmp [] (y # ys) = -1"
| "strcmp (x # xs) [] = 1"
| "strcmp (x # xs) (y # ys) = return_if_not_equal x y (strcmp xs ys)"

definition nt_default_str_compare_func :: "u8 list \<Rightarrow> u8 list \<Rightarrow> int" where
  "nt_default_str_compare_func s1 s2 = strcmp s1 s2"

section \<open>The callbacks meet the contracts\<close>

lemma strcmp_zero_iff: "strcmp xs ys = 0 \<longleftrightarrow> xs = ys"
  by (induction xs ys rule: strcmp.induct) (auto simp: return_if_not_equal_def)

lemma strcmp_flip: "0 < strcmp xs ys \<longleftrightarrow> strcmp ys xs < 0"
  by (induction xs ys rule: strcmp.induct) (auto simp: return_if_not_equal_def)

lemma strcmp_trans: "strcmp xs ys \<le> 0 \<Longrightarrow> strcmp ys zs \<le> 0 \<Longrightarrow> strcmp xs zs \<le> 0"
proof (induction xs ys arbitrary: zs rule: strcmp.induct)
  case (2 y ys)
  then show ?case by (cases zs) auto
next
  case (4 x xs y ys)
  then show ?case by (cases zs) (auto simp: return_if_not_equal_def split: if_splits)
qed auto

interpretation int_cmp: linear_compare nt_default_int_compare_func
  by unfold_locales
    (auto simp: nt_default_int_compare_func_def return_if_not_equal_def split: if_splits)

interpretation uint64_cmp: linear_compare nt_default_uint64_compare_func
  by unfold_locales
    (auto simp: nt_default_uint64_compare_func_def return_if_not_equal_def split: if_splits)

interpretation ptr_cmp: linear_compare nt_default_ptr_compare_func
  by unfold_locales
    (auto simp: nt_default_ptr_compare_func_def return_if_not_equal_def split: if_splits)

interpretation uint64_ptr_cmp: total_compare "nt_default_uint64_ptr_compare_func deref" for deref
  by unfold_locales
    (auto simp: nt_default_uint64_ptr_compare_func_def uint64_cmp.cmp_flip
      intro: uint64_cmp.cmp_trans)

interpretation uint64_pair_cmp: linear_compare nt_default_uint64_pair_compare_func
  by unfold_locales
    (auto simp: nt_default_uint64_pair_compare_func_def return_if_not_equal_def split: if_splits)

interpretation str_cmp: linear_compare nt_default_str_compare_func
  by unfold_locales
    (auto simp: nt_default_str_compare_func_def strcmp_zero_iff strcmp_flip intro: strcmp_trans)

end
