(* ===== verification/Hashmap.thy ===== *)
theory Hashmap
  imports Algo_Num Algo_Hash Compare
begin

text \<open>
  nt_hashmap.c: the hash map from 64-bit keys to 64-bit values. A slot is the dynamic array of
  its entries; the model keeps the initialised prefix \<open>entries[0 .. entries_num)\<close> as a list,
  \<open>None\<close> for a \<open>NULL\<close> array, and \<open>entries_alloc\<close> as the capacity. The allocation callbacks are
  taken at their word (nt_algo.h): they return memory or do not return. \<open>Map_Memory\<close> has the map
  with its memory calls.
\<close>

section \<open>Data\<close>

record hm_entry =
  hme_key :: u64
  hme_value :: u64

record hm_slot =
  hms_entries :: "hm_entry list option"
  hms_alloc :: nat

record nt_hashmap =
  hm_slots :: "hm_slot list"
  hm_num_slots :: nat
  hm_num_data :: nat
  hm_hash_func :: "(u64 \<Rightarrow> u32) option"
  hm_compare_func :: "(u64 \<Rightarrow> u64 \<Rightarrow> int) option"

definition hms_list :: "hm_slot \<Rightarrow> hm_entry list" where
  "hms_list s = (case hms_entries s of None \<Rightarrow> [] | Some es \<Rightarrow> es)"

definition empty_slot :: hm_slot where
  "empty_slot = \<lparr>hms_entries = None, hms_alloc = 0\<rparr>"

abbreviation hm_hash :: "nt_hashmap \<Rightarrow> u64 \<Rightarrow> u32" where
  "hm_hash m \<equiv> the (hm_hash_func m)"

abbreviation hm_cmp :: "nt_hashmap \<Rightarrow> u64 \<Rightarrow> u64 \<Rightarrow> int" where
  "hm_cmp m \<equiv> the (hm_compare_func m)"

text \<open>\<open>hash % num_slots\<close>\<close>

definition slot_of :: "(u64 \<Rightarrow> u32) \<Rightarrow> nat \<Rightarrow> u64 \<Rightarrow> nat" where
  "slot_of h n key = unat (h key) mod n"

section \<open>Operations\<close>

definition hashmap_ensure_free_entry :: "hm_slot \<Rightarrow> hm_slot" where
  "hashmap_ensure_free_entry s =
     (case hms_entries s of
        None \<Rightarrow> \<lparr>hms_entries = Some [], hms_alloc = 6\<rparr>
      | Some es \<Rightarrow> if length es = hms_alloc s then s\<lparr>hms_alloc := hms_alloc s * 2\<rparr> else s)"

definition nt_hashmap_init_slots :: "nt_hashmap \<Rightarrow> nat \<Rightarrow> nt_hashmap" where
  "nt_hashmap_init_slots m init_size =
     (if 0 < init_size then
        (let n = nat (next_prime (int init_size))
         in m\<lparr>hm_num_data := 0, hm_num_slots := n, hm_slots := replicate n empty_slot\<rparr>)
      else m\<lparr>hm_num_data := 0, hm_num_slots := 0, hm_slots := []\<rparr>)"

definition nt_hashmap_create_ext ::
  "nat \<Rightarrow> (u64 \<Rightarrow> u32) \<Rightarrow> (u64 \<Rightarrow> u64 \<Rightarrow> int) \<Rightarrow> nt_hashmap" where
  "nt_hashmap_create_ext init_size hash_func compare_func =
     nt_hashmap_init_slots
       \<lparr>hm_slots = [], hm_num_slots = 0, hm_num_data = 0,
        hm_hash_func = Some hash_func, hm_compare_func = Some compare_func\<rparr> init_size"

definition nt_hashmap_create :: "nat \<Rightarrow> nt_hashmap" where
  "nt_hashmap_create init_size =
     nt_hashmap_create_ext init_size nt_default_uint64_hash_func nt_default_uint64_compare_func"

definition nt_hashmap_destroy :: "nt_hashmap \<Rightarrow> nt_hashmap" where
  "nt_hashmap_destroy m =
     m\<lparr>hm_num_data := 0, hm_num_slots := 0, hm_slots := [],
       hm_hash_func := None, hm_compare_func := None\<rparr>"

text \<open>The search loop: the first index whose key compares equal, or \<open>entries_num\<close>.\<close>

fun find_entry :: "(u64 \<Rightarrow> u64 \<Rightarrow> int) \<Rightarrow> u64 \<Rightarrow> hm_entry list \<Rightarrow> nat" where
  "find_entry cmp key [] = 0"
| "find_entry cmp key (e # es) = (if cmp (hme_key e) key = 0 then 0 else Suc (find_entry cmp key es))"

definition nt_hashmap_get :: "nt_hashmap \<Rightarrow> u64 \<Rightarrow> u64" where
  "nt_hashmap_get m key =
     (if hm_num_slots m = 0 then 0
      else
        let es = hms_list (hm_slots m ! slot_of (hm_hash m) (hm_num_slots m) key);
            i = find_entry (hm_cmp m) key es
        in if i < length es then hme_value (es ! i) else 0)"

definition slot_push :: "hm_slot \<Rightarrow> hm_entry \<Rightarrow> hm_slot" where
  "slot_push s e =
     (let s = hashmap_ensure_free_entry s in s\<lparr>hms_entries := Some (hms_list s @ [e])\<rparr>)"

text \<open>
  The rehash of slot \<open>s\<close>: its entries \<open>es\<close> are scanned from \<open>i\<close>; an entry that belongs to
  another slot is pushed there and replaced by the last one (\<open>i--\<close> cancels the loop's \<open>i++\<close>).
\<close>

function rehash_slot ::
  "(u64 \<Rightarrow> u32) \<Rightarrow> nat \<Rightarrow> nat \<Rightarrow> nat \<Rightarrow> hm_entry list \<Rightarrow> hm_slot list \<Rightarrow> hm_entry list \<times> hm_slot list" where
  "rehash_slot h inc s i es sl =
     (if i < length es then
        (let n = slot_of h inc (hme_key (es ! i))
         in if n \<noteq> s
            then rehash_slot h inc s i (butlast (es[i := last es])) (sl[n := slot_push (sl ! n) (es ! i)])
            else rehash_slot h inc s (Suc i) es sl)
      else (es, sl))"
  by pat_completeness auto
termination
  by (relation "measure (\<lambda>(h, inc, s, i, es, sl). length es - i)") auto

declare rehash_slot.simps [simp del]

definition rehash_step :: "(u64 \<Rightarrow> u32) \<Rightarrow> nat \<Rightarrow> hm_slot list \<Rightarrow> nat \<Rightarrow> hm_slot list" where
  "rehash_step h inc sl s =
     (case hms_entries (sl ! s) of
        None \<Rightarrow> sl
      | Some es \<Rightarrow>
          (case rehash_slot h inc s 0 es sl of
             (es', sl') \<Rightarrow> sl'[s := (sl' ! s)\<lparr>hms_entries := Some es'\<rparr>]))"

definition hashmap_rehash :: "nt_hashmap \<Rightarrow> nt_hashmap" where
  "hashmap_rehash m =
     (let inc = nat (next_prime (int (hm_num_slots m) * 3 div 2));
          sl = hm_slots m @ replicate (inc - hm_num_slots m) empty_slot
      in m\<lparr>hm_slots := foldl (rehash_step (hm_hash m) inc) sl [0..<hm_num_slots m],
           hm_num_slots := inc\<rparr>)"

definition nt_hashmap_set :: "nt_hashmap \<Rightarrow> u64 \<Rightarrow> u64 \<Rightarrow> nt_hashmap" where
  "nt_hashmap_set m key val =
     (let m = (if hm_num_slots m = 0 then nt_hashmap_init_slots m 10 else m);
          s = slot_of (hm_hash m) (hm_num_slots m) key;
          es = hms_list (hm_slots m ! s);
          i = find_entry (hm_cmp m) key es
      in if i < length es then
           m\<lparr>hm_slots := (hm_slots m)
              [s := (hm_slots m ! s)\<lparr>hms_entries := Some (es[i := (es ! i)\<lparr>hme_value := val\<rparr>])\<rparr>]\<rparr>
         else
           (let m = m\<lparr>hm_slots := (hm_slots m)
                  [s := slot_push (hm_slots m ! s) \<lparr>hme_key = key, hme_value = val\<rparr>],
                  hm_num_data := Suc (hm_num_data m)\<rparr>
            in if hm_num_slots m * 5 div 1 \<le> hm_num_data m then hashmap_rehash m else m))"

definition nt_hashmap_remove :: "nt_hashmap \<Rightarrow> u64 \<Rightarrow> nt_hashmap" where
  "nt_hashmap_remove m key =
     (if hm_num_slots m = 0 then m
      else
        let s = slot_of (hm_hash m) (hm_num_slots m) key;
            es = hms_list (hm_slots m ! s);
            i = find_entry (hm_cmp m) key es
        in if i < length es then
             m\<lparr>hm_slots := (hm_slots m)
                [s := (hm_slots m ! s)\<lparr>hms_entries := Some (butlast (es[i := last es]))\<rparr>],
                hm_num_data := hm_num_data m - 1\<rparr>
           else m)"

definition clear_slot :: "hm_slot \<Rightarrow> hm_slot" where
  "clear_slot s = (if hms_entries s \<noteq> None then empty_slot else s)"

definition nt_hashmap_clear :: "nt_hashmap \<Rightarrow> nt_hashmap" where
  "nt_hashmap_clear m = m\<lparr>hm_slots := map clear_slot (hm_slots m), hm_num_data := 0\<rparr>"

definition nt_hashmap_get_ext :: "nt_hashmap \<Rightarrow> u8 list \<Rightarrow> u64" where
  "nt_hashmap_get_ext m key = nt_hashmap_get m (string_to_uint64 key)"

definition nt_hashmap_set_ext :: "nt_hashmap \<Rightarrow> u8 list \<Rightarrow> u64 \<Rightarrow> nt_hashmap" where
  "nt_hashmap_set_ext m key val = nt_hashmap_set m (string_to_uint64 key) val"

section \<open>Invariant and abstraction\<close>

abbreviation all_entries :: "hm_slot list \<Rightarrow> hm_entry list" where
  "all_entries sl \<equiv> concat (map hms_list sl)"

definition hm_pairs :: "hm_entry list \<Rightarrow> (u64 \<times> u64) list" where
  "hm_pairs es = map (\<lambda>e. (hme_key e, hme_value e)) es"

text \<open>A slot is unallocated, or allocated with room for its entries.\<close>

definition slot_ok :: "hm_slot \<Rightarrow> bool" where
  "slot_ok s = (case hms_entries s of
                  None \<Rightarrow> hms_alloc s = 0
                | Some es \<Rightarrow> length es \<le> hms_alloc s \<and> 0 < hms_alloc s)"

text \<open>The entries of the slots in \<open>I\<close> are in the slot their hash names.\<close>

definition placed :: "(u64 \<Rightarrow> u32) \<Rightarrow> nat \<Rightarrow> nat set \<Rightarrow> hm_slot list \<Rightarrow> bool" where
  "placed h n I sl = (\<forall>i \<in> I. \<forall>e \<in> set (hms_list (sl ! i)). slot_of h n (hme_key e) = i)"

text \<open>
  The well-formed maps, for a given load: \<open>hm_wf\<close> allows the load an insertion reaches just
  before the table grows.
\<close>

definition hm_wf :: "nt_hashmap \<Rightarrow> bool" where
  "hm_wf m = (hm_hash_func m \<noteq> None \<and> hm_compare_func m \<noteq> None \<and>
     key_compare (hm_cmp m) \<and>
     length (hm_slots m) = hm_num_slots m \<and> hm_num_slots m \<noteq> 1 \<and>
     list_all slot_ok (hm_slots m) \<and>
     placed (hm_hash m) (hm_num_slots m) {..<hm_num_slots m} (hm_slots m) \<and>
     distinct (map hme_key (all_entries (hm_slots m))) \<and>
     hm_num_data m = length (all_entries (hm_slots m)))"

definition hm_inv :: "nt_hashmap \<Rightarrow> bool" where
  "hm_inv m = (hm_wf m \<and> (hm_num_data m = 0 \<or> hm_num_data m < 5 * hm_num_slots m))"

definition hm_alpha :: "nt_hashmap \<Rightarrow> u64 \<Rightarrow> u64 option" where
  "hm_alpha m = map_of (hm_pairs (all_entries (hm_slots m)))"

section \<open>Slots\<close>

lemma hms_list_empty [simp]: "hms_list empty_slot = []"
  by (simp add: hms_list_def empty_slot_def)

lemma hms_list_some [simp]: "hms_list (s\<lparr>hms_entries := Some es\<rparr>) = es"
  by (simp add: hms_list_def)

lemma slot_ok_empty [simp]: "slot_ok empty_slot"
  by (simp add: slot_ok_def empty_slot_def)

lemma slot_ok_shrink:
  "slot_ok s \<Longrightarrow> hms_entries s \<noteq> None \<Longrightarrow> length es \<le> length (hms_list s) \<Longrightarrow>
   slot_ok (s\<lparr>hms_entries := Some es\<rparr>)"
  by (auto simp: slot_ok_def hms_list_def)

lemma ensure_free_list [simp]: "hms_list (hashmap_ensure_free_entry s) = hms_list s"
  by (auto simp: hashmap_ensure_free_entry_def hms_list_def split: option.split)

lemma ensure_free_room:
  assumes "slot_ok s"
  shows "length (hms_list s) < hms_alloc (hashmap_ensure_free_entry s)"
  using assms
  by (auto simp: hashmap_ensure_free_entry_def hms_list_def slot_ok_def split: option.splits)

lemma slot_push_list [simp]: "hms_list (slot_push s e) = hms_list s @ [e]"
  by (simp add: slot_push_def Let_def)

lemma slot_push_ok: "slot_ok s \<Longrightarrow> slot_ok (slot_push s e)"
  using ensure_free_room [of s]
  by (auto simp: slot_push_def slot_ok_def Let_def)

lemma slot_push_some [simp]: "hms_entries (slot_push s e) \<noteq> None"
  by (simp add: slot_push_def Let_def)

lemma mset_all_update:
  "s < length sl \<Longrightarrow>
   mset (all_entries (sl[s := x])) + mset (hms_list (sl ! s)) =
   mset (all_entries sl) + mset (hms_list x)"
  using mset_concat_update [of s "map hms_list sl" "hms_list x"] by (simp add: map_update)

lemma all_entries_replicate [simp]: "all_entries (replicate n empty_slot) = []"
  by simp

lemma hms_list_subset: "s < length sl \<Longrightarrow> e \<in> set (hms_list (sl ! s)) \<Longrightarrow> e \<in> set (all_entries sl)"
  by (auto intro: nth_mem)

text \<open>Removing entry \<open>i\<close> by moving the last entry over it.\<close>

lemma mset_move_last:
  assumes "i < length es"
  shows "add_mset (es ! i) (mset (butlast (es[i := last es]))) = mset es"
proof -
  have ne: "es \<noteq> []" using assms by auto
  show ?thesis
  proof (cases "i = length es - 1")
    case True
    then have "butlast (es[i := last es]) = butlast es" "es ! i = last es"
      using ne by (auto simp: butlast_list_update last_conv_nth)
    then show ?thesis
      using ne by (metis append_butlast_last_id mset.simps(2) mset_append union_mset_add_mset_right
          add.right_neutral mset.simps(1))
  next
    case False
    then have i: "i < length (butlast es)" using assms by simp
    then have "butlast (es[i := last es]) = (butlast es)[i := last es]"
      using False by (simp add: butlast_list_update)
    moreover have "es ! i = butlast es ! i" using i by (simp add: nth_butlast)
    moreover have "mset es = add_mset (last es) (mset (butlast es))"
      using ne by (metis append_butlast_last_id mset.simps(2) mset_append union_mset_add_mset_right
          add.right_neutral mset.simps(1))
    ultimately show ?thesis
      using i by (simp add: mset_update)
  qed
qed

lemma find_entry_le: "find_entry cmp key es \<le> length es"
  by (induction es) auto

lemma find_entry_hit:
  "find_entry cmp key es < length es \<Longrightarrow> cmp (hme_key (es ! find_entry cmp key es)) key = 0"
  by (induction es) (auto split: if_splits)

lemma find_entry_miss:
  "\<not> find_entry cmp key es < length es \<Longrightarrow> e \<in> set es \<Longrightarrow> cmp (hme_key e) key \<noteq> 0"
  by (induction es) (auto split: if_splits)

section \<open>The abstraction as a finite map\<close>

lemma hm_pairs_keys [simp]: "map fst (hm_pairs es) = map hme_key es"
  by (simp add: hm_pairs_def comp_def)

lemma set_hm_pairs: "set (hm_pairs es) = (\<lambda>e. (hme_key e, hme_value e)) ` set es"
  by (simp add: hm_pairs_def)

text \<open>The map depends on the entries as a multiset only.\<close>

lemma map_of_pairs_mset:
  assumes "mset es = mset es'" "distinct (map hme_key es)"
  shows "map_of (hm_pairs es) = map_of (hm_pairs es')"
proof -
  have "distinct (map hme_key es')"
    using assms by (metis mset_eq_imp_distinct_iff mset_map)
  moreover have "set es = set es'" using assms(1) by (rule mset_eq_setD)
  ultimately show ?thesis
    using assms(2) by (simp add: map_of_inject_set set_hm_pairs)
qed

lemma map_of_pairs_Some:
  "distinct (map hme_key es) \<Longrightarrow> e \<in> set es \<Longrightarrow> map_of (hm_pairs es) (hme_key e) = Some (hme_value e)"
  by (rule map_of_is_SomeI) (auto simp: set_hm_pairs)

lemma map_of_pairs_None:
  "(\<And>e. e \<in> set es \<Longrightarrow> hme_key e \<noteq> k) \<Longrightarrow> map_of (hm_pairs es) k = None"
  unfolding map_of_eq_None_iff by (force simp: set_hm_pairs)

text \<open>Adding an entry under a new key, and dropping an entry.\<close>

lemma map_of_pairs_add:
  assumes "mset es' = add_mset e (mset es)" "distinct (map hme_key es')"
  shows "map_of (hm_pairs es') = (map_of (hm_pairs es))(hme_key e \<mapsto> hme_value e)"
proof -
  have "map_of (hm_pairs es') = map_of (hm_pairs (e # es))"
    using assms by (intro map_of_pairs_mset) auto
  then show ?thesis by (simp add: hm_pairs_def)
qed

lemma map_of_pairs_drop:
  assumes "mset es = add_mset e (mset es')" "distinct (map hme_key es)"
  shows "map_of (hm_pairs es') = (map_of (hm_pairs es))(hme_key e := None)"
proof -
  have d: "distinct (map hme_key (e # es'))"
    using assms by (metis mset.simps(2) mset_eq_imp_distinct_iff mset_map)
  have "map_of (hm_pairs es) = (map_of (hm_pairs es'))(hme_key e \<mapsto> hme_value e)"
    using assms by (intro map_of_pairs_add) auto
  moreover have "map_of (hm_pairs es') (hme_key e) = None"
    using d by (intro map_of_pairs_None) (force simp: image_iff)
  ultimately show ?thesis by auto
qed

section \<open>Lookup\<close>

lemma hm_wfD:
  assumes "hm_wf m"
  shows "key_compare (hm_cmp m)" "length (hm_slots m) = hm_num_slots m"
    "hm_num_slots m \<noteq> 1" "list_all slot_ok (hm_slots m)"
    "placed (hm_hash m) (hm_num_slots m) {..<hm_num_slots m} (hm_slots m)"
    "distinct (map hme_key (all_entries (hm_slots m)))"
    "hm_num_data m = length (all_entries (hm_slots m))"
  using assms by (auto simp: hm_wf_def)

lemma slot_of_less: "0 < n \<Longrightarrow> slot_of h n k < n"
  by (simp add: slot_of_def)

lemma hm_cmp_iff: "hm_wf m \<Longrightarrow> hm_cmp m x y = 0 \<longleftrightarrow> x = y"
  by (rule key_compare.cmp_zero_iff) (rule hm_wfD)

lemma slot_lookup:
  fixes key :: u64
  assumes wf: "hm_wf m" and n: "0 < hm_num_slots m"
  defines "es \<equiv> hms_list (hm_slots m ! slot_of (hm_hash m) (hm_num_slots m) key)"
  defines "i \<equiv> find_entry (hm_cmp m) key es"
  shows "i < length es \<Longrightarrow> hme_key (es ! i) = key"
    and "i < length es \<Longrightarrow> hm_alpha m key = Some (hme_value (es ! i))"
    and "\<not> i < length es \<Longrightarrow> hm_alpha m key = None"
proof -
  let ?s = "slot_of (hm_hash m) (hm_num_slots m) key"
  have s: "?s < length (hm_slots m)" using slot_of_less [OF n] hm_wfD(2) [OF wf] by simp
  show key: "i < length es \<Longrightarrow> hme_key (es ! i) = key"
    unfolding i_def using find_entry_hit [of "hm_cmp m" key es] hm_cmp_iff [OF wf] by blast
  show "hm_alpha m key = Some (hme_value (es ! i))" if "i < length es"
  proof -
    have "es ! i \<in> set (all_entries (hm_slots m))"
      using hms_list_subset [OF s] that unfolding es_def by simp
    then show ?thesis
      unfolding hm_alpha_def
      using map_of_pairs_Some hm_wfD(6) [OF wf] key [OF that] by metis
  qed
  show "hm_alpha m key = None" if "\<not> i < length es"
    unfolding hm_alpha_def
  proof (rule map_of_pairs_None)
    fix e assume "e \<in> set (all_entries (hm_slots m))"
    then obtain j where j: "j < length (hm_slots m)" "e \<in> set (hms_list (hm_slots m ! j))"
      by (auto simp: in_set_conv_nth [of _ "hm_slots m"])
    have "slot_of (hm_hash m) (hm_num_slots m) (hme_key e) = j"
      using hm_wfD(2,5) [OF wf] j by (auto simp: placed_def)
    then show "hme_key e \<noteq> key"
      using j find_entry_miss [of "hm_cmp m" key es e] that hm_cmp_iff [OF wf]
      unfolding i_def es_def by blast
  qed
qed

lemma hm_get_alpha [abs_simps]:
  assumes "hm_wf m"
  shows "nt_hashmap_get m key = (case hm_alpha m key of None \<Rightarrow> 0 | Some v \<Rightarrow> v)"
proof (cases "hm_num_slots m = 0")
  case True
  then have "hm_slots m = []" using hm_wfD(2) [OF assms] by simp
  with True show ?thesis by (simp add: nt_hashmap_get_def hm_alpha_def hm_pairs_def)
next
  case False
  then show ?thesis
    using slot_lookup [OF assms, of key] by (auto simp: nt_hashmap_get_def Let_def)
qed

section \<open>Creation, destruction and clearing\<close>

lemma placed_replicate: "I \<subseteq> {..<n} \<Longrightarrow> placed h n I (replicate n empty_slot)"
  by (auto simp: placed_def)

lemma init_slots_wf:
  assumes "hm_hash_func m \<noteq> None" "hm_compare_func m \<noteq> None" "key_compare (hm_cmp m)"
  shows "hm_inv (nt_hashmap_init_slots m n)"
proof -
  have "nat (next_prime (int n)) \<noteq> 1" if "0 < n"
    using next_prime_gt_1 [of "int n"] that by linarith
  then show ?thesis
    using assms
    by (auto simp: nt_hashmap_init_slots_def hm_inv_def hm_wf_def Let_def placed_replicate
        list_all_iff) (auto simp: placed_def)
qed

lemma init_slots_alpha [abs_simps]: "hm_alpha (nt_hashmap_init_slots m n) = Map.empty"
  by (simp add: nt_hashmap_init_slots_def hm_alpha_def Let_def hm_pairs_def)

lemma create_ext_inv [inv_intro]:
  "key_compare cmp \<Longrightarrow> hm_inv (nt_hashmap_create_ext n h cmp)"
  unfolding nt_hashmap_create_ext_def by (rule init_slots_wf) auto

lemma hm_create_inv [inv_intro]: "hm_inv (nt_hashmap_create n)"
  unfolding nt_hashmap_create_def by (intro create_ext_inv uint64_cmp.key_compare_axioms)

lemma create_alpha [abs_simps]: "hm_alpha (nt_hashmap_create_ext n h cmp) = Map.empty"
  by (simp add: nt_hashmap_create_ext_def init_slots_alpha)

lemma clear_slot_list [simp]: "hms_list (clear_slot s) = []"
  by (auto simp: clear_slot_def hms_list_def empty_slot_def)

lemma all_entries_clear [simp]: "concat (map (hms_list \<circ> clear_slot) sl) = []"
  by (induction sl) auto

lemma clear_inv [inv_intro]:
  assumes "hm_inv m"
  shows "hm_inv (nt_hashmap_clear m)"
proof -
  have "list_all slot_ok (map clear_slot (hm_slots m))"
    using assms by (auto simp: hm_inv_def hm_wf_def list_all_iff clear_slot_def)
  then show ?thesis
    using assms unfolding hm_inv_def hm_wf_def nt_hashmap_clear_def
    by (simp add: placed_def)
qed

lemma clear_alpha [abs_simps]: "hm_alpha (nt_hashmap_clear m) = Map.empty"
  by (simp add: hm_alpha_def nt_hashmap_clear_def hm_pairs_def)

section \<open>Rehashing\<close>

text \<open>
  While slot \<open>s\<close> is rehashed its current entries are the list \<open>es\<close>; the array \<open>sl\<close> still
  holds the old contents of slot \<open>s\<close>, which are overwritten at the end. \<open>rest_entries\<close> are
  the entries of the other slots.
\<close>

abbreviation rest_entries :: "nat \<Rightarrow> hm_slot list \<Rightarrow> hm_entry list" where
  "rest_entries s sl \<equiv> all_entries (sl[s := empty_slot])"

lemma mset_rest_push:
  assumes "n \<noteq> s" "n < length sl"
  shows "mset (rest_entries s (sl[n := slot_push (sl ! n) e])) = add_mset e (mset (rest_entries s sl))"
proof -
  have "mset (all_entries ((sl[s := empty_slot])[n := slot_push (sl ! n) e])) + mset (hms_list (sl ! n)) =
    mset (rest_entries s sl) + mset (hms_list (slot_push (sl ! n) e))"
    using mset_all_update [of n "sl[s := empty_slot]"] assms by simp
  then have "mset (all_entries ((sl[s := empty_slot])[n := slot_push (sl ! n) e])) =
    add_mset e (mset (rest_entries s sl))" by simp
  then show ?thesis using assms(1) by (metis list_update_swap)
qed

text \<open>The invariant of the inner loop.\<close>

lemma rehash_slot_inv:
  assumes "rehash_slot h inc s i es sl = (es', sl')"
    and "length sl = inc" "s < inc" "i \<le> length es"
    and "list_all slot_ok sl" "placed h inc I sl"
    and "\<forall>e \<in> set (take i es). slot_of h inc (hme_key e) = s"
  shows "length sl' = inc \<and> list_all slot_ok sl' \<and> placed h inc I sl' \<and>
    (\<forall>e \<in> set es'. slot_of h inc (hme_key e) = s) \<and>
    mset es' + mset (rest_entries s sl') = mset es + mset (rest_entries s sl) \<and>
    length es' \<le> length es \<and> sl' ! s = sl ! s \<and>
        (\<forall>j. hms_entries (sl ! j) \<noteq> None \<longrightarrow> hms_entries (sl' ! j) \<noteq> None)"
  using assms
proof (induction h inc s i es sl rule: rehash_slot.induct)
  case (1 h inc s i es sl)
  define n where "n = slot_of h inc (hme_key (es ! i))"
  have n: "n < inc" unfolding n_def using "1.prems"(3) by (simp add: slot_of_less)
  consider (move) "i < length es" "n \<noteq> s" | (keep) "i < length es" "n = s" | (stop) "\<not> i < length es"
    by blast
  then show ?case
  proof cases
    case move
    let ?sl = "sl[n := slot_push (sl ! n) (es ! i)]" and ?es = "butlast (es[i := last es])"
    have rec: "rehash_slot h inc s i ?es ?sl = (es', sl')"
      using "1.prems"(1) move unfolding n_def
      by (subst (asm) rehash_slot.simps) (simp add: Let_def)
    have place: "placed h inc I ?sl"
      using n "1.prems"(2,6) unfolding placed_def
      by (auto simp: nth_list_update n_def split: if_splits)
    have ok: "list_all slot_ok ?sl"
      using "1.prems"(2,5) n by (auto simp: list_all_length nth_list_update slot_push_ok)
    have tk: "take i ?es = take i es"
      using move(1) by (simp add: take_butlast)
    have ms: "add_mset (es ! i) (mset ?es) = mset es" using move(1) by (rule mset_move_last)
    have "length sl' = inc \<and> list_all slot_ok sl' \<and> placed h inc I sl' \<and>
      (\<forall>e \<in> set es'. slot_of h inc (hme_key e) = s) \<and>
      mset es' + mset (rest_entries s sl') = mset ?es + mset (rest_entries s ?sl) \<and>
      length es' \<le> length ?es \<and> sl' ! s = ?sl ! s \<and>
            (\<forall>j. hms_entries (?sl ! j) \<noteq> None \<longrightarrow> hms_entries (sl' ! j) \<noteq> None)"
      using move "1.prems" place ok rec unfolding n_def
      by (intro "1.IH"(1)) (auto simp: tk)
    moreover have "mset (rest_entries s ?sl) = add_mset (es ! i) (mset (rest_entries s sl))"
      using move n "1.prems"(2) by (intro mset_rest_push) auto
    moreover have "?sl ! s = sl ! s" using move by simp
    moreover have "hms_entries (sl ! j) \<noteq> None \<longrightarrow> hms_entries (?sl ! j) \<noteq> None" for j
      using n "1.prems"(2) by (cases "j = n") auto
    ultimately show ?thesis
      using ms place by (auto simp flip: ms)
  next
    case keep
    have rec: "rehash_slot h inc s (Suc i) es sl = (es', sl')"
      using "1.prems"(1) keep unfolding n_def
      by (subst (asm) rehash_slot.simps) (simp add: Let_def)
    show ?thesis
      using keep "1.prems" rec unfolding n_def
      by (intro "1.IH"(2)) (auto simp: take_Suc_conv_app_nth)
  next
    case stop
    then have "es' = es" "sl' = sl"
      using "1.prems"(1) by (auto simp: rehash_slot.simps)
    with stop "1.prems" show ?thesis by simp
  qed
qed

lemma mset_rest_split:
  assumes "s < length sl"
  shows "mset (all_entries (sl[s := x])) = mset (hms_list x) + mset (rest_entries s sl)"
proof -
  have "mset (hms_list (sl ! s)) + mset (all_entries (sl[s := x])) =
    mset (hms_list (sl ! s)) + (mset (hms_list x) + mset (rest_entries s sl))"
    using mset_all_update [OF assms, of x] mset_all_update [OF assms, of empty_slot]
    by (simp add: ac_simps)
  then show ?thesis by (simp only: add_left_cancel)
qed

lemma mset_rest_self:
  "s < length sl \<Longrightarrow> mset (all_entries sl) = mset (hms_list (sl ! s)) + mset (rest_entries s sl)"
  using mset_rest_split [of s sl "sl ! s"] by simp

lemma placed_insert:
  "placed h n (insert s I) sl \<longleftrightarrow> placed h n I sl \<and> (\<forall>e \<in> set (hms_list (sl ! s)). slot_of h n (hme_key e) = s)"
  by (auto simp: placed_def)

lemma rehash_step_inv:
  assumes "length sl = inc" "s < inc" "list_all slot_ok sl" "placed h inc I sl" "s \<notin> I" "I \<subseteq> {..<inc}"
  shows "length (rehash_step h inc sl s) = inc \<and> list_all slot_ok (rehash_step h inc sl s) \<and>
    placed h inc (insert s I) (rehash_step h inc sl s) \<and>
    mset (all_entries (rehash_step h inc sl s)) = mset (all_entries sl)"
proof (cases "hms_entries (sl ! s)")
  case None
  then have "hms_list (sl ! s) = []" by (simp add: hms_list_def)
  with None assms show ?thesis by (simp add: rehash_step_def placed_insert)
next
  case (Some es)
  obtain es' sl' where r: "rehash_slot h inc s 0 es sl = (es', sl')" by fastforce
  from Some have es: "hms_list (sl ! s) = es" by (simp add: hms_list_def)
  have inv: "length sl' = inc" "list_all slot_ok sl'" "placed h inc I sl'"
    "\<forall>e \<in> set es'. slot_of h inc (hme_key e) = s"
    "mset es' + mset (rest_entries s sl') = mset es + mset (rest_entries s sl)"
    "length es' \<le> length es" "sl' ! s = sl ! s"
    using rehash_slot_inv [OF r assms(1,2)] assms by simp_all
  let ?sl = "sl'[s := (sl' ! s)\<lparr>hms_entries := Some es'\<rparr>]"
  have step: "rehash_step h inc sl s = ?sl" using Some r by (simp add: rehash_step_def)
  have "slot_ok ((sl' ! s)\<lparr>hms_entries := Some es'\<rparr>)"
    using inv Some assms es by (intro slot_ok_shrink) (auto simp: list_all_length)
  then have "list_all slot_ok ?sl" using inv(1,2) assms(2) by (auto simp: list_all_length nth_list_update)
  moreover have "placed h inc (insert s I) ?sl"
    using inv(1,3,4) assms(2,5) unfolding placed_insert by (auto simp: placed_def nth_list_update)
  moreover have "mset (all_entries ?sl) = mset (all_entries sl)"
  proof -
    have "mset (all_entries ?sl) = mset es' + mset (rest_entries s sl')"
      using mset_rest_split [of s sl' "(sl' ! s)\<lparr>hms_entries := Some es'\<rparr>"] inv(1) assms(2) by simp
    also have "\<dots> = mset (all_entries sl)"
      using inv(5) mset_rest_self [of s sl] assms(1,2) es by metis
    finally show ?thesis .
  qed
  ultimately show ?thesis using inv(1) by (simp add: step)
qed

text \<open>
  The outer loop. The slots from \<open>k\<close> on start empty, so they are right from the start; an
  entry is only ever pushed to the slot it belongs to.
\<close>

lemma rehash_steps_inv:
  assumes "length sl = inc" "k \<le> n" "n \<le> inc" "list_all slot_ok sl" "placed h inc {n..<inc} sl"
  defines "r \<equiv> foldl (rehash_step h inc) sl [0..<k]"
  shows "length r = inc \<and> list_all slot_ok r \<and> placed h inc ({..<k} \<union> {n..<inc}) r \<and>
    mset (all_entries r) = mset (all_entries sl)"
  using assms(1-5) unfolding r_def
proof (induction k)
  case (Suc k)
  let ?r = "foldl (rehash_step h inc) sl [0..<k]" and ?I = "{..<k} \<union> {n..<inc}"
  have set: "{..<Suc k} \<union> {n..<inc} = insert k ?I" by auto
  have IH: "length ?r = inc \<and> list_all slot_ok ?r \<and> placed h inc ?I ?r \<and>
      mset (all_entries ?r) = mset (all_entries sl)"
    using Suc by simp
  have I: "k \<notin> ?I" "?I \<subseteq> {..<inc}" "k < inc" using Suc.prems(2,3) by auto
  have eq: "foldl (rehash_step h inc) sl [0..<Suc k] = rehash_step h inc ?r k" by simp
  show ?case
    unfolding eq set using rehash_step_inv [of ?r inc k h ?I] IH I by metis
qed simp

lemma nat_next_prime_grows:
  assumes "2 \<le> n"
  shows "n < nat (next_prime (int n * 3 div 2))"
proof -
  have "int n < int n * 3 div 2" if "2 \<le> n" using that by linarith
  then show ?thesis using next_prime_ge [of "int n * 3 div 2"] assms by simp
qed

lemma placed_grow:
  assumes "n \<le> inc" "length sl = n"
  shows "placed h inc {n..<inc} (sl @ replicate (inc - n) empty_slot)"
  using assms by (auto simp: placed_def nth_append)

theorem rehash_wf:
  assumes wf: "hm_wf m" and n: "hm_num_slots m \<noteq> 0"
  shows "hm_wf (hashmap_rehash m) \<and> hm_alpha (hashmap_rehash m) = hm_alpha m \<and>
    hm_num_data (hashmap_rehash m) = hm_num_data m \<and> hm_num_slots m < hm_num_slots (hashmap_rehash m)"
proof -
  let ?n = "hm_num_slots m" and ?h = "hm_hash m"
  define inc where "inc = nat (next_prime (int ?n * 3 div 2))"
  define sl where "sl = hm_slots m @ replicate (inc - ?n) empty_slot"
  define r where "r = foldl (rehash_step ?h inc) sl [0..<?n]"
  note D = hm_wfD [OF wf]
  have grow: "?n < inc" unfolding inc_def using nat_next_prime_grows D(3) n by simp
  have "length sl = inc" "list_all slot_ok sl"
    using grow D(2,4) by (auto simp: sl_def list_all_iff)
  moreover have "placed ?h inc {?n..<inc} sl"
    unfolding sl_def using grow D(2) by (intro placed_grow) auto
  ultimately have r: "length r = inc" "list_all slot_ok r" "placed ?h inc ({..<?n} \<union> {?n..<inc}) r"
    "mset (all_entries r) = mset (all_entries sl)"
    unfolding r_def using rehash_steps_inv [of sl inc ?n ?n ?h] grow by auto
  have ms: "mset (all_entries r) = mset (all_entries (hm_slots m))"
    using r(4) by (simp add: sl_def)
  have set: "{..<?n} \<union> {?n..<inc} = {..<inc}" using grow by auto
  have eq: "hashmap_rehash m = m\<lparr>hm_slots := r, hm_num_slots := inc\<rparr>"
    by (simp add: hashmap_rehash_def Let_def inc_def sl_def r_def)
  have d: "distinct (map hme_key (all_entries r))"
    using D(6) ms by (metis mset_eq_imp_distinct_iff mset_map)
  have "hm_wf (hashmap_rehash m)"
    using wf r(1-3) set d D(7) mset_eq_length [OF ms] grow n unfolding eq hm_wf_def by simp
  moreover have "hm_alpha (hashmap_rehash m) = hm_alpha m"
    unfolding eq hm_alpha_def using map_of_pairs_mset [OF ms d] by simp
  ultimately show ?thesis using grow by (simp add: eq)
qed

section \<open>Insertion and removal\<close>

lemma slot_update_wf:
  assumes wf: "hm_wf m" and s: "s < hm_num_slots m" "s = slot_of (hm_hash m) (hm_num_slots m) key"
    and ok: "slot_ok x" and keys: "\<forall>e \<in> set (hms_list x). e \<in> set (hms_list (hm_slots m ! s)) \<or> hme_key e = key"
    and d: "distinct (map hme_key (all_entries ((hm_slots m)[s := x])))"
    and n: "n = length (all_entries ((hm_slots m)[s := x]))"
  shows "hm_wf (m\<lparr>hm_slots := (hm_slots m)[s := x], hm_num_data := n\<rparr>)"
proof -
  note D = hm_wfD [OF wf]
  have "list_all slot_ok ((hm_slots m)[s := x])"
    using D(2,4) s(1) ok by (auto simp: list_all_length nth_list_update)
  moreover have "placed (hm_hash m) (hm_num_slots m) {..<hm_num_slots m} ((hm_slots m)[s := x])"
    using D(2,5) s keys by (auto simp: placed_def nth_list_update)
  ultimately show ?thesis
    using wf d n by (simp add: hm_wf_def)
qed

definition set_in_slots :: "nt_hashmap \<Rightarrow> u64 \<Rightarrow> u64 \<Rightarrow> nt_hashmap" where
  "set_in_slots m key val =
     (let s = slot_of (hm_hash m) (hm_num_slots m) key;
          es = hms_list (hm_slots m ! s);
          i = find_entry (hm_cmp m) key es
      in if i < length es then
           m\<lparr>hm_slots := (hm_slots m)
              [s := (hm_slots m ! s)\<lparr>hms_entries := Some (es[i := (es ! i)\<lparr>hme_value := val\<rparr>])\<rparr>]\<rparr>
         else
           m\<lparr>hm_slots := (hm_slots m)
               [s := slot_push (hm_slots m ! s) \<lparr>hme_key = key, hme_value = val\<rparr>],
             hm_num_data := Suc (hm_num_data m)\<rparr>)"

text \<open>\<open>nt_hashmap_set\<close> is the update of one slot between the lazy allocation and the growth.\<close>

lemma nt_hashmap_set_alt:
  "nt_hashmap_set m key val =
     (let m1 = (if hm_num_slots m = 0 then nt_hashmap_init_slots m 10 else m);
          m2 = set_in_slots m1 key val
      in if hm_num_data m2 \<noteq> hm_num_data m1 \<and> hm_num_slots m2 * 5 \<le> hm_num_data m2
         then hashmap_rehash m2 else m2)"
  by (simp add: nt_hashmap_set_def set_in_slots_def Let_def)

text \<open>Overwriting entry \<open>i\<close> of slot \<open>s\<close>, and pushing a new entry to it, on the multiset of entries.\<close>

lemma mset_slot_replace:
  assumes s: "s < length sl" and x: "hms_list x = (hms_list (sl ! s))[i := e]"
    and i: "i < length (hms_list (sl ! s))"
  shows "add_mset (hms_list (sl ! s) ! i) (mset (all_entries (sl[s := x]))) = add_mset e (mset (all_entries sl))"
proof -
  let ?es = "hms_list (sl ! s)"
  have upd: "add_mset (?es ! i) (mset (?es[i := e])) = add_mset e (mset ?es)"
    using i by (simp add: mset_update insert_DiffM)
  have "add_mset (?es ! i) (mset (all_entries (sl[s := x]))) + mset ?es =
      add_mset (?es ! i) (mset (all_entries sl) + mset (?es[i := e]))"
    using mset_all_update [OF s, of x] x by simp
  also have "\<dots> = mset (all_entries sl) + add_mset (?es ! i) (mset (?es[i := e]))" by simp
  also have "\<dots> = add_mset e (mset (all_entries sl)) + mset ?es" unfolding upd by simp
  finally show ?thesis by (simp only: add_right_cancel)
qed

lemma mset_slot_add:
  assumes s: "s < length sl" and x: "hms_list x = hms_list (sl ! s) @ [e]"
  shows "mset (all_entries (sl[s := x])) = add_mset e (mset (all_entries sl))"
proof -
  have "mset (all_entries (sl[s := x])) + mset (hms_list (sl ! s)) =
      add_mset e (mset (all_entries sl)) + mset (hms_list (sl ! s))"
    using mset_all_update [OF s, of x] x by simp
  then show ?thesis by (simp only: add_right_cancel)
qed

lemma mset_slot_drop:
  assumes s: "s < length sl" and i: "i < length (hms_list (sl ! s))"
    and x: "hms_list x = butlast ((hms_list (sl ! s))[i := last (hms_list (sl ! s))])"
  shows "mset (all_entries sl) = add_mset (hms_list (sl ! s) ! i) (mset (all_entries (sl[s := x])))"
proof -
  let ?es = "hms_list (sl ! s)"
  have "mset (all_entries sl) + mset (hms_list x) =
      add_mset (?es ! i) (mset (all_entries (sl[s := x]))) + mset (hms_list x)"
    using mset_all_update [OF s, of x] mset_move_last [OF i] unfolding x
    by (metis add.commute union_mset_add_mset_left)
  then show ?thesis by (simp only: add_right_cancel)
qed

text \<open>Replacing an entry by one with the same key.\<close>

lemma map_of_pairs_replace:
  assumes ms: "add_mset e (mset es') = add_mset e' (mset es)" and e: "e \<in> set es"
    and key: "hme_key e' = hme_key e" and d: "distinct (map hme_key es)"
  shows "distinct (map hme_key es')" "length es' = length es"
    "map_of (hm_pairs es') = (map_of (hm_pairs es))(hme_key e \<mapsto> hme_value e')"
proof -
  have "image_mset hme_key (mset es') = image_mset hme_key (mset es)"
    using arg_cong [OF ms, of "image_mset hme_key"] key by simp
  then show d': "distinct (map hme_key es')" using d by (metis mset_eq_imp_distinct_iff mset_map)
  show "length es' = length es" using arg_cong [OF ms, of size] by simp
  obtain rest where rest: "mset es = add_mset e (mset rest)"
    using e ex_mset insert_DiffM set_mset_mset by metis
  then have "add_mset e (mset es') = add_mset e (add_mset e' (mset rest))"
    using ms by (simp add: add_mset_commute)
  then have rest': "mset es' = add_mset e' (mset rest)" by simp
  show "map_of (hm_pairs es') = (map_of (hm_pairs es))(hme_key e \<mapsto> hme_value e')"
    using map_of_pairs_add [OF rest d] map_of_pairs_add [OF rest' d'] key by simp
qed

lemma set_in_slots_hit:
  fixes m key val
  defines "s \<equiv> slot_of (hm_hash m) (hm_num_slots m) key"
  defines "es \<equiv> hms_list (hm_slots m ! s)"
  defines "i \<equiv> find_entry (hm_cmp m) key es"
  assumes wf: "hm_wf m" and n: "0 < hm_num_slots m" and hit: "i < length es"
  shows "hm_wf (set_in_slots m key val) \<and>
    hm_alpha (set_in_slots m key val) = (hm_alpha m)(key \<mapsto> val) \<and>
    hm_num_slots (set_in_slots m key val) = hm_num_slots m \<and>
    hm_num_data (set_in_slots m key val) = hm_num_data m \<and> hm_alpha m key \<noteq> None"
proof -
  note D = hm_wfD [OF wf]
  have s: "s < hm_num_slots m" unfolding s_def using n by (rule slot_of_less)
  then have sl: "s < length (hm_slots m)" using D(2) by simp
  note L = slot_lookup [OF wf n, of key, folded s_def, folded es_def, folded i_def]
  let ?e = "(es ! i)\<lparr>hme_value := val\<rparr>" and ?all = "all_entries (hm_slots m)"
  define x where "x = (hm_slots m ! s)\<lparr>hms_entries := Some (es[i := ?e])\<rparr>"
  have x: "hms_list x = (hms_list (hm_slots m ! s))[i := ?e]" by (simp add: x_def es_def)
  have key: "hme_key (es ! i) = key" using L(1) hit .
  have ms: "add_mset (es ! i) (mset (all_entries ((hm_slots m)[s := x]))) = add_mset ?e (mset ?all)"
    using mset_slot_replace [OF sl x] hit unfolding es_def by simp
  have mem: "es ! i \<in> set ?all" using hms_list_subset [OF sl] hit unfolding es_def by simp
  have "hme_key ?e = hme_key (es ! i)" by simp
  note R = map_of_pairs_replace [OF ms mem this D(6)]
  have eq: "set_in_slots m key val = m\<lparr>hm_slots := (hm_slots m)[s := x], hm_num_data := hm_num_data m\<rparr>"
    using hit by (simp add: set_in_slots_def Let_def s_def es_def i_def x_def)
  have "hms_entries (hm_slots m ! s) \<noteq> None" using hit by (cases "hms_entries (hm_slots m ! s)") (auto simp: es_def hms_list_def)
  then have "slot_ok x"
    using D(4) sl unfolding x_def by (intro slot_ok_shrink) (auto simp: es_def list_all_length)
  moreover have "\<forall>e \<in> set (hms_list x). e \<in> set (hms_list (hm_slots m ! s)) \<or> hme_key e = key"
    using set_update_subset_insert [of es i ?e] key unfolding x es_def [symmetric] by auto
  ultimately have "hm_wf (set_in_slots m key val)"
    unfolding eq using wf s s_def R(1,2) D(7) by (intro slot_update_wf) auto
  then show ?thesis
    using R(3) key L(2) hit by (simp add: eq hm_alpha_def)
qed

lemma set_in_slots_miss:
  fixes m key val
  defines "s \<equiv> slot_of (hm_hash m) (hm_num_slots m) key"
  defines "es \<equiv> hms_list (hm_slots m ! s)"
  defines "i \<equiv> find_entry (hm_cmp m) key es"
  assumes wf: "hm_wf m" and n: "0 < hm_num_slots m" and miss: "\<not> i < length es"
  shows "hm_wf (set_in_slots m key val) \<and>
    hm_alpha (set_in_slots m key val) = (hm_alpha m)(key \<mapsto> val) \<and>
    hm_num_slots (set_in_slots m key val) = hm_num_slots m \<and>
    hm_num_data (set_in_slots m key val) = Suc (hm_num_data m) \<and> hm_alpha m key = None"
proof -
  note D = hm_wfD [OF wf]
  have s: "s < hm_num_slots m" unfolding s_def using n by (rule slot_of_less)
  then have sl: "s < length (hm_slots m)" using D(2) by simp
  note L = slot_lookup [OF wf n, of key, folded s_def, folded es_def, folded i_def]
  let ?new = "\<lparr>hme_key = key, hme_value = val\<rparr>" and ?all = "all_entries (hm_slots m)"
  define x where "x = slot_push (hm_slots m ! s) ?new"
  have eq: "set_in_slots m key val = m\<lparr>hm_slots := (hm_slots m)[s := x], hm_num_data := Suc (hm_num_data m)\<rparr>"
    using miss by (simp add: set_in_slots_def Let_def s_def es_def i_def x_def)
  have ms: "mset (all_entries ((hm_slots m)[s := x])) = add_mset ?new (mset ?all)"
    using mset_slot_add [OF sl] by (simp add: x_def)
  have none: "hm_alpha m key = None" using L(3) miss .
  then have "key \<notin> set (map hme_key ?all)"
    by (metis hm_alpha_def hm_pairs_keys list.set_map map_of_eq_None_iff)
  then have "distinct (map hme_key (?new # ?all))" using D(6) by simp
  then have d: "distinct (map hme_key (all_entries ((hm_slots m)[s := x])))"
    using ms by (metis mset.simps(2) mset_eq_imp_distinct_iff mset_map)
  have len: "length (all_entries ((hm_slots m)[s := x])) = Suc (length ?all)"
    using arg_cong [OF ms, of size] by simp
  have "slot_ok x" using D(4) sl by (simp add: x_def slot_push_ok list_all_length)
  then have "hm_wf (set_in_slots m key val)"
    unfolding eq using wf s s_def d len D(7) by (intro slot_update_wf) (auto simp: x_def)
  then show ?thesis
    using map_of_pairs_add [OF ms d] none by (simp add: eq hm_alpha_def)
qed

lemma set_in_slots_correct:
  assumes "hm_wf m" "0 < hm_num_slots m"
  shows "hm_wf (set_in_slots m key val) \<and>
    hm_alpha (set_in_slots m key val) = (hm_alpha m)(key \<mapsto> val) \<and>
    hm_num_slots (set_in_slots m key val) = hm_num_slots m \<and>
    hm_num_data (set_in_slots m key val) =
      (if hm_alpha m key = None then Suc (hm_num_data m) else hm_num_data m)"
  using set_in_slots_hit [OF assms, of key val] set_in_slots_miss [OF assms, of key val]
  by (cases "find_entry (hm_cmp m) key (hms_list (hm_slots m ! slot_of (hm_hash m) (hm_num_slots m) key))
      < length (hms_list (hm_slots m ! slot_of (hm_hash m) (hm_num_slots m) key))") simp_all

lemma set_correct:
  assumes inv: "hm_inv m"
  shows "hm_inv (nt_hashmap_set m key val) \<and>
    hm_alpha (nt_hashmap_set m key val) = (hm_alpha m)(key \<mapsto> val)"
proof -
  define m1 where "m1 = (if hm_num_slots m = 0 then nt_hashmap_init_slots m 10 else m)"
  define m2 where "m2 = set_in_slots m1 key val"
  have wf: "hm_wf m" using inv by (simp add: hm_inv_def)
  have init: "hm_inv (nt_hashmap_init_slots m 10)"
    using wf by (intro init_slots_wf) (auto simp: hm_wf_def)
  have "nat (next_prime 10) \<noteq> 0" using next_prime_gt_1 [of 10] by simp
  then have m1: "hm_inv m1" "0 < hm_num_slots m1"
    using init inv by (auto simp: m1_def nt_hashmap_init_slots_def Let_def)
  have "hm_alpha m = Map.empty" if "hm_num_slots m = 0"
    using hm_wfD(2) [OF wf] that by (simp add: hm_alpha_def hm_pairs_def)
  then have a1: "hm_alpha m1 = hm_alpha m" by (simp add: m1_def init_slots_alpha)
  have wf1: "hm_wf m1" using m1(1) by (simp add: hm_inv_def)
  have m2: "hm_wf m2" "hm_alpha m2 = (hm_alpha m)(key \<mapsto> val)" "hm_num_slots m2 = hm_num_slots m1"
    "hm_num_data m2 = (if hm_alpha m1 key = None then Suc (hm_num_data m1) else hm_num_data m1)"
    using set_in_slots_correct [OF wf1 m1(2), of key val] a1 unfolding m2_def by simp_all
  have set: "nt_hashmap_set m key val =
      (if hm_num_data m2 \<noteq> hm_num_data m1 \<and> hm_num_slots m2 * 5 \<le> hm_num_data m2
       then hashmap_rehash m2 else m2)"
    by (simp only: nt_hashmap_set_alt Let_def m1_def m2_def)
  have R: "hm_wf (hashmap_rehash m2)" "hm_alpha (hashmap_rehash m2) = hm_alpha m2"
      "hm_num_data (hashmap_rehash m2) = hm_num_data m2" "hm_num_slots m2 < hm_num_slots (hashmap_rehash m2)"
    using rehash_wf [OF m2(1)] m1(2) m2(3) by auto
  show ?thesis
    unfolding set using R m1 m2 by (auto simp: hm_inv_def)
qed

lemma remove_correct:
  assumes inv: "hm_inv m"
  shows "hm_inv (nt_hashmap_remove m key) \<and> hm_alpha (nt_hashmap_remove m key) = (hm_alpha m)(key := None)"
proof (cases "hm_num_slots m = 0")
  case True
  then have "hm_alpha m = Map.empty"
    using inv by (simp add: hm_alpha_def hm_pairs_def hm_inv_def hm_wf_def)
  with True inv show ?thesis by (simp add: nt_hashmap_remove_def)
next
  case False
  then have n: "0 < hm_num_slots m" by simp
  have wf: "hm_wf m" using inv by (simp add: hm_inv_def)
  define s where "s = slot_of (hm_hash m) (hm_num_slots m) key"
  define es where "es = hms_list (hm_slots m ! s)"
  define i where "i = find_entry (hm_cmp m) key es"
  note D = hm_wfD [OF wf]
  have s: "s < hm_num_slots m" unfolding s_def using n by (rule slot_of_less)
  then have sl: "s < length (hm_slots m)" using D(2) by simp
  note L = slot_lookup [OF wf n, of key, folded s_def, folded es_def, folded i_def]
  show ?thesis
  proof (cases "i < length es")
    case miss: False
    then show ?thesis
      using False inv L(3) by (auto simp: nt_hashmap_remove_def Let_def s_def es_def i_def)
  next
    case hit: True
    define x where "x = (hm_slots m ! s)\<lparr>hms_entries := Some (butlast (es[i := last es]))\<rparr>"
    have eq: "nt_hashmap_remove m key =
        m\<lparr>hm_slots := (hm_slots m)[s := x], hm_num_data := hm_num_data m - 1\<rparr>"
      using hit False by (simp add: nt_hashmap_remove_def Let_def s_def es_def i_def x_def)
    have x: "hms_list x = butlast ((hms_list (hm_slots m ! s))[i := last (hms_list (hm_slots m ! s))])"
      by (simp add: x_def es_def)
    have ms: "mset (all_entries (hm_slots m)) =
        add_mset (es ! i) (mset (all_entries ((hm_slots m)[s := x])))"
      using mset_slot_drop [OF sl _ x] hit unfolding es_def by simp
    have "image_mset hme_key (mset (all_entries (hm_slots m))) =
        image_mset hme_key (mset (es ! i # all_entries ((hm_slots m)[s := x])))"
      using ms by simp
    then have d: "distinct (map hme_key (all_entries ((hm_slots m)[s := x])))"
      using D(6) by (metis distinct.simps(2) list.simps(9) mset_eq_imp_distinct_iff mset_map)
    have len: "hm_num_data m = Suc (length (all_entries ((hm_slots m)[s := x])))"
      using arg_cong [OF ms, of size] D(7) by simp
    have "hms_entries (hm_slots m ! s) \<noteq> None"
      using hit by (cases "hms_entries (hm_slots m ! s)") (auto simp: es_def hms_list_def)
    then have "slot_ok x"
      using D(4) sl unfolding x_def by (intro slot_ok_shrink) (auto simp: es_def list_all_length)
    moreover have "\<forall>e \<in> set (hms_list x). e \<in> set (hms_list (hm_slots m ! s)) \<or> hme_key e = key"
      using mset_move_last [OF hit] unfolding x es_def [symmetric]
      by (metis insert_iff set_mset_add_mset_insert set_mset_mset)
    ultimately have "hm_wf (nt_hashmap_remove m key)"
      unfolding eq using wf s s_def d len by (intro slot_update_wf) auto
    moreover have "hm_alpha (nt_hashmap_remove m key) = (hm_alpha m)(key := None)"
      using map_of_pairs_drop [OF ms D(6)] L(1) hit by (simp add: hm_alpha_def eq)
    moreover have "hm_num_data m < 5 * hm_num_slots m" using inv len by (auto simp: hm_inv_def)
    then have "hm_num_data (nt_hashmap_remove m key) < 5 * hm_num_slots (nt_hashmap_remove m key)"
      using len by (simp add: eq)
    ultimately show ?thesis by (simp add: hm_inv_def)
  qed
qed

section \<open>The map interface\<close>

text \<open>
  What a client of the table relies on. \<open>absent\<close> is what a lookup returns for a key that has
  no entry: the client cannot tell such a key from one stored with that value.
\<close>

locale map_store =
  fixes get :: "'s \<Rightarrow> 'k \<Rightarrow> 'v"
    and put :: "'s \<Rightarrow> 'k \<Rightarrow> 'v \<Rightarrow> 's"
    and del :: "'s \<Rightarrow> 'k \<Rightarrow> 's"
    and invar :: "'s \<Rightarrow> bool"
    and lookup :: "'s \<Rightarrow> 'k \<Rightarrow> 'v option"
    and absent :: 'v
  assumes get_lookup: "invar s \<Longrightarrow> get s k = (case lookup s k of None \<Rightarrow> absent | Some v \<Rightarrow> v)"
    and put_invar: "invar s \<Longrightarrow> invar (put s k v)"
    and put_lookup: "invar s \<Longrightarrow> lookup (put s k v) = (lookup s)(k \<mapsto> v)"
    and del_invar: "invar s \<Longrightarrow> invar (del s k)"
    and del_lookup: "invar s \<Longrightarrow> lookup (del s k) = (lookup s)(k := None)"
begin

lemma get_put: "invar s \<Longrightarrow> get (put s k v) k' = (if k' = k then v else get s k')"
  by (simp add: get_lookup put_lookup put_invar)

lemma get_del: "invar s \<Longrightarrow> get (del s k) k' = (if k' = k then absent else get s k')"
  by (simp add: get_lookup del_lookup del_invar)

definition put_list :: "'s \<Rightarrow> ('k \<times> 'v) list \<Rightarrow> 's" where
  "put_list s kvs = foldl (\<lambda>s (k, v). put s k v) s kvs"

lemma put_list_correct:
  "invar s \<Longrightarrow> invar (put_list s kvs) \<and> lookup (put_list s kvs) = lookup s ++ map_of (rev kvs)"
proof (induction kvs arbitrary: s)
  case (Cons kv kvs)
  obtain k v where kv: "kv = (k, v)" by fastforce
  have "put_list s (kv # kvs) = put_list (put s k v) kvs" by (simp add: put_list_def kv)
  moreover have "(lookup s)(k \<mapsto> v) ++ map_of (rev kvs) = lookup s ++ map_of (rev (kv # kvs))"
    by (simp add: kv map_add_def fun_eq_iff split: option.split)
  ultimately show ?case
    using Cons.IH [OF put_invar [OF Cons.prems, of k v]] put_lookup [OF Cons.prems, of k v] by metis
qed (simp add: put_list_def)

end

interpretation hm: map_store nt_hashmap_get nt_hashmap_set nt_hashmap_remove hm_inv hm_alpha 0
proof
  fix m k v k'
  assume inv: "hm_inv m"
  show "nt_hashmap_get m k = (case hm_alpha m k of None \<Rightarrow> 0 | Some v \<Rightarrow> v)"
    using inv by (intro hm_get_alpha) (simp add: hm_inv_def)
  show "hm_inv (nt_hashmap_set m k v)" "hm_alpha (nt_hashmap_set m k v) = (hm_alpha m)(k \<mapsto> v)"
    using set_correct [OF inv] by blast+
  show "hm_inv (nt_hashmap_remove m k)" "hm_alpha (nt_hashmap_remove m k) = (hm_alpha m)(k := None)"
    using remove_correct [OF inv] by blast+
qed

section \<open>Properties\<close>

text \<open>The calls a client makes, and what they mean for a finite map.\<close>

datatype hm_op = Hm_Set u64 u64 | Hm_Remove u64 | Hm_Clear

fun hm_exec :: "nt_hashmap \<Rightarrow> hm_op \<Rightarrow> nt_hashmap" where
  "hm_exec m (Hm_Set k v) = nt_hashmap_set m k v"
| "hm_exec m (Hm_Remove k) = nt_hashmap_remove m k"
| "hm_exec m Hm_Clear = nt_hashmap_clear m"

fun map_exec :: "(u64 \<Rightarrow> u64 option) \<Rightarrow> hm_op \<Rightarrow> u64 \<Rightarrow> u64 option" where
  "map_exec f (Hm_Set k v) = f(k \<mapsto> v)"
| "map_exec f (Hm_Remove k) = f(k := None)"
| "map_exec f Hm_Clear = Map.empty"

lemma hm_exec_step:
  "hm_inv m \<Longrightarrow> hm_inv (hm_exec m op) \<and> hm_alpha (hm_exec m op) = map_exec (hm_alpha m) op"
  by (cases op) (simp_all add: hm.put_invar hm.put_lookup hm.del_invar hm.del_lookup inv_intro abs_simps)

lemma hm_exec_run:
  "hm_inv m \<Longrightarrow> hm_inv (foldl hm_exec m ops) \<and>
   hm_alpha (foldl hm_exec m ops) = foldl map_exec (hm_alpha m) ops"
  by (induction ops arbitrary: m) (simp_all add: hm_exec_step)

text \<open>
  C5: The hash table is a finite map, whatever the hash function and the initial size. After
  any sequence of insertions, removals and clearings on a fresh table, growth and rehashing
  included, a lookup returns the value the same sequence leaves in a finite map, and 0 for a
  key it leaves without a value.
\<close>

theorem hashmap_refines_map:
  "nt_hashmap_get (foldl hm_exec (nt_hashmap_create_ext n h nt_default_uint64_compare_func) ops) k =
     (case foldl map_exec Map.empty ops k of None \<Rightarrow> 0 | Some v \<Rightarrow> v)"
proof -
  let ?m = "nt_hashmap_create_ext n h nt_default_uint64_compare_func"
  have "hm_inv ?m" by (intro inv_intro uint64_cmp.key_compare_axioms)
  then show ?thesis
    using hm_exec_run [of ?m ops] by (simp add: hm.get_lookup create_alpha)
qed

text \<open>
  C11: Whatever is done with a hash map, it stays well-formed: an array with room for its entries in every slot that
  has one, every entry in the slot its hash names, no key twice, \<open>num_data\<close> the number of the entries, and
  the load below the factor at which the table grows.
\<close>

theorem hashmap_well_formed:
  "let m = foldl hm_exec (nt_hashmap_create_ext n h nt_default_uint64_compare_func) ops
   in length (hm_slots m) = hm_num_slots m \<and> list_all slot_ok (hm_slots m) \<and>
      placed (hm_hash m) (hm_num_slots m) {..<hm_num_slots m} (hm_slots m) \<and>
      distinct (map hme_key (all_entries (hm_slots m))) \<and> hm_num_data m = length (all_entries (hm_slots m)) \<and>
      (hm_num_data m = 0 \<or> hm_num_data m < 5 * hm_num_slots m)"
proof -
  let ?m = "foldl hm_exec (nt_hashmap_create_ext n h nt_default_uint64_compare_func) ops"
  have "hm_inv ?m" using hm_exec_run create_ext_inv [OF uint64_cmp.key_compare_axioms] by blast
  then show ?thesis unfolding Let_def hm_inv_def hm_wf_def by blast
qed

text \<open>
  One rehash keeps every entry: no entry is lost or duplicated, each ends in the slot its
  hash names under the new modulus, the number of slots strictly grows, and the map and the
  element count are unchanged.
\<close>

theorem hashmap_rehash_preserves:
  assumes "hm_wf m" "hm_num_slots m \<noteq> 0"
  shows "hm_wf (hashmap_rehash m) \<and> hm_alpha (hashmap_rehash m) = hm_alpha m \<and>
    hm_num_data (hashmap_rehash m) = hm_num_data m \<and>
    hm_num_slots m < hm_num_slots (hashmap_rehash m) \<and>
    (\<forall>key. slot_of (hm_hash m) (hm_num_slots (hashmap_rehash m)) key < length (hm_slots (hashmap_rehash m)))"
proof -
  have "hm_wf (hashmap_rehash m)" "hm_num_slots m < hm_num_slots (hashmap_rehash m)"
    using rehash_wf [OF assms] by auto
  then have "\<forall>key. slot_of (hm_hash m) (hm_num_slots (hashmap_rehash m)) key < length (hm_slots (hashmap_rehash m))"
    using hm_wfD(2) [of "hashmap_rehash m"] by (auto intro: slot_of_less)
  with rehash_wf [OF assms] show ?thesis by blast
qed

lemma next_prime_3: "next_prime 3 = 3"
  by code_simp

lemma create_3: "nt_hashmap_create 3 =
  \<lparr>hm_slots = replicate 3 empty_slot, hm_num_slots = 3, hm_num_data = 0,
   hm_hash_func = Some nt_default_uint64_hash_func, hm_compare_func = Some nt_default_uint64_compare_func\<rparr>"
  by (simp add: nt_hashmap_create_def nt_hashmap_create_ext_def nt_hashmap_init_slots_def next_prime_3)

theorem hashmap_rehash_preserves_witness:
  "hm_alpha (hashmap_rehash (nt_hashmap_create 3)) = hm_alpha (nt_hashmap_create 3) \<and>
   3 < hm_num_slots (hashmap_rehash (nt_hashmap_create 3))"
  using hashmap_rehash_preserves [of "nt_hashmap_create 3"] hm_create_inv [of 3]
  by (simp add: hm_inv_def create_3)

text \<open>
  An insertion never writes outside a slot's array: in a well-formed table, whichever slot
  the key hashes to, the array \<open>__hashmap_ensure_free_entry\<close> leaves has room for one more
  entry and still holds the old ones.
\<close>

theorem hashmap_insert_in_bounds:
  assumes "hm_inv m" "hm_num_slots m \<noteq> 0"
  shows "slot_of (hm_hash m) (hm_num_slots m) key < length (hm_slots m) \<and>
    (let s = hm_slots m ! slot_of (hm_hash m) (hm_num_slots m) key
     in hms_list (hashmap_ensure_free_entry s) = hms_list s \<and>
        length (hms_list s) < hms_alloc (hashmap_ensure_free_entry s))"
proof -
  have wf: "hm_wf m" using assms(1) by (simp add: hm_inv_def)
  then have "slot_of (hm_hash m) (hm_num_slots m) key < length (hm_slots m)"
    using hm_wfD(2) [OF wf] assms(2) by (auto intro: slot_of_less)
  with hm_wfD(4) [OF wf] show ?thesis
    by (simp add: Let_def list_all_length ensure_free_room)
qed

theorem hashmap_insert_in_bounds_witness:
  "slot_of (hm_hash (nt_hashmap_create 3)) 3 7 < 3"
  using hashmap_insert_in_bounds [of "nt_hashmap_create 3" 7] hm_create_inv [of 3]
  by (simp add: create_3)

text \<open>
  A lookup answers 0 for a key the map does not hold, so it never answers \<open>FAIL\<close> (-1) for
  one, and a key stored with the value 0 looks the same as a key that is not stored.
\<close>

theorem hashmap_absent_is_zero:
  "nt_hashmap_get (nt_hashmap_remove (nt_hashmap_set (nt_hashmap_create n) k v) k) k = 0 \<and>
   nt_hashmap_get (nt_hashmap_set (nt_hashmap_create n) k 0) k = 0 \<and> (0::u64) \<noteq> FAIL64"
  using hm_create_inv [of n] by (simp add: hm.get_put hm.get_del hm.put_invar FAIL64_def)

end
