(* ===== verification/Binary_Heap.thy ===== *)
theory Binary_Heap
  imports Hashmap
begin

text \<open>
  nt_binaryheap.c: the binary min-heap, with the optional index from keys to positions
  (\<open>NT_BINARY_HEAP_OPTION_DIRECT\<close>), which is a table of nt_hashmap.c. \<open>bh_elems\<close> is the
  initialised prefix \<open>elems[0 .. elems_num)\<close>; \<open>bh_null\<close> says that the array pointer is
  \<open>NULL\<close>. An element's \<open>data\<close> pointer is the object it leads to. Every path on which the code
  ends the process, or leaves the array, is a \<open>heap_error\<close>.
\<close>

section \<open>Data\<close>

record 'd nt_binary_heap_elem =
  he_key :: u64
  he_data :: 'd

record 'd nt_binary_heap =
  bh_elems :: "'d nt_binary_heap_elem list"
  bh_null :: bool
  bh_alloc :: nat
  bh_options :: int
  bh_compare_func :: "('d nt_binary_heap_elem \<Rightarrow> 'd nt_binary_heap_elem \<Rightarrow> int) option"
  bh_key_index :: "nt_hashmap option"

datatype heap_error =
    Duplicate_Key
  | Direct_Unsupported
  | Key_Not_Found
  | Empty_Heap
  | Realloc_Failed
  | Bad_Index

abbreviation bh_cmp :: "'d nt_binary_heap \<Rightarrow> 'd nt_binary_heap_elem \<Rightarrow> 'd nt_binary_heap_elem \<Rightarrow> int" where
  "bh_cmp h \<equiv> the (bh_compare_func h)"

definition NT_BINARY_HEAP_OPTION_EMPTY :: int where
  "NT_BINARY_HEAP_OPTION_EMPTY = 0"

definition NT_BINARY_HEAP_OPTION_DIRECT :: int where
  "NT_BINARY_HEAP_OPTION_DIRECT = 1"

definition has_direct_option :: "'d nt_binary_heap \<Rightarrow> bool" where
  "has_direct_option h = (bh_options h AND NT_BINARY_HEAP_OPTION_DIRECT \<noteq> 0)"

definition heap_parent :: "nat \<Rightarrow> nat" where
  "heap_parent i = (i - 1) div 2"

section \<open>Private operations\<close>

text \<open>\<open>nt_hashmap_set(heap->key_index, key, index)\<close> and the other calls on the index.\<close>

definition key_index_set :: "'d nt_binary_heap \<Rightarrow> u64 \<Rightarrow> nat \<Rightarrow> 'd nt_binary_heap" where
  "key_index_set h key i = h\<lparr>bh_key_index := map_option (\<lambda>m. nt_hashmap_set m key (of_nat i)) (bh_key_index h)\<rparr>"

definition key_index_remove :: "'d nt_binary_heap \<Rightarrow> u64 \<Rightarrow> 'd nt_binary_heap" where
  "key_index_remove h key = h\<lparr>bh_key_index := map_option (\<lambda>m. nt_hashmap_remove m key) (bh_key_index h)\<rparr>"

definition key_index_get :: "'d nt_binary_heap \<Rightarrow> u64 \<Rightarrow> u64" where
  "key_index_get h key = nt_hashmap_get (the (bh_key_index h)) key"

text \<open>The assignment of a looked-up value to an \<open>int\<close>.\<close>

definition int_of_u64 :: "u64 \<Rightarrow> int" where
  "int_of_u64 v = sint (ucast v :: u32)"

definition heap_swap :: "'d nt_binary_heap \<Rightarrow> nat \<Rightarrow> nat \<Rightarrow> 'd nt_binary_heap" where
  "heap_swap h i j =
     (let h = h\<lparr>bh_elems := swap_nth i j (bh_elems h)\<rparr>
      in if has_direct_option h
         then key_index_set (key_index_set h (he_key (bh_elems h ! i)) i) (he_key (bh_elems h ! j)) j
         else h)"

definition binary_heap_ensure_free_space ::
  "bool \<Rightarrow> 'd nt_binary_heap \<Rightarrow> heap_error + 'd nt_binary_heap" where
  "binary_heap_ensure_free_space realloc_ok h =
     (let es = (if bh_null h then [] else bh_elems h);
          tmp = (if bh_null h then 32
                 else if length es = bh_alloc h then max (bh_alloc h + 1) (bh_alloc h * 3 div 2)
                 else bh_alloc h)
      in if length es \<noteq> tmp then
           (if realloc_ok then Inr (h\<lparr>bh_elems := es, bh_null := False, bh_alloc := tmp\<rparr>)
            else Inl Realloc_Failed)
         else Inr (h\<lparr>bh_elems := es\<rparr>))"

function binary_heap_bubble_up :: "'d nt_binary_heap \<Rightarrow> nat \<Rightarrow> 'd nt_binary_heap \<times> nat" where
  "binary_heap_bubble_up h i =
     (if i \<noteq> 0 then
        (if bh_cmp h (bh_elems h ! heap_parent i) (bh_elems h ! i) \<le> 0 then (h, i)
         else binary_heap_bubble_up (heap_swap h (heap_parent i) i) (heap_parent i))
      else (h, i))"
  by pat_completeness auto
termination
  by (relation "measure snd") (auto simp: heap_parent_def)

declare binary_heap_bubble_up.simps [simp del]

lemma heap_swap_simps [simp]:
  "bh_elems (heap_swap h i j) = swap_nth i j (bh_elems h)"
  "bh_null (heap_swap h i j) = bh_null h"
  "bh_alloc (heap_swap h i j) = bh_alloc h"
  "bh_options (heap_swap h i j) = bh_options h"
  "bh_compare_func (heap_swap h i j) = bh_compare_func h"
  by (simp_all add: heap_swap_def key_index_set_def Let_def)

function binary_heap_bubble_down :: "'d nt_binary_heap \<Rightarrow> nat \<Rightarrow> 'd nt_binary_heap \<times> nat" where
  "binary_heap_bubble_down h i =
     (let es = bh_elems h; cmp = bh_cmp h; left = 2 * i + 1; right = 2 * i + 2
      in if length es \<le> left then (h, i)
         else if length es \<le> right then
           (if 0 < cmp (es ! i) (es ! left) then (heap_swap h i left, left) else (h, i))
         else if cmp (es ! left) (es ! right) \<le> 0 then
           (if 0 < cmp (es ! i) (es ! left) then binary_heap_bubble_down (heap_swap h i left) left
            else (h, i))
         else
           (if 0 < cmp (es ! i) (es ! right) then binary_heap_bubble_down (heap_swap h i right) right
            else (h, i)))"
  by pat_completeness auto
termination
  by (relation "measure (\<lambda>(h, i). length (bh_elems h) - i)") auto

declare binary_heap_bubble_down.simps [simp del]

section \<open>Public operations\<close>

definition nt_binary_heap_create_ext ::
  "('d nt_binary_heap_elem \<Rightarrow> 'd nt_binary_heap_elem \<Rightarrow> int) \<Rightarrow> int \<Rightarrow> 'd nt_binary_heap" where
  "nt_binary_heap_create_ext compare_func options =
     (let h = \<lparr>bh_elems = [], bh_null = True, bh_alloc = 0, bh_options = options,
               bh_compare_func = Some compare_func, bh_key_index = None\<rparr>
      in if has_direct_option h
         then h\<lparr>bh_key_index := Some (nt_hashmap_create_ext 512 nt_default_uint64_hash_func
                  nt_default_uint64_compare_func)\<rparr>
         else h)"

definition nt_binary_heap_create ::
  "('d nt_binary_heap_elem \<Rightarrow> 'd nt_binary_heap_elem \<Rightarrow> int) \<Rightarrow> int \<Rightarrow> 'd nt_binary_heap" where
  "nt_binary_heap_create compare_func options = nt_binary_heap_create_ext compare_func options"

definition heap_free_elems :: "'d nt_binary_heap \<Rightarrow> 'd nt_binary_heap" where
  "heap_free_elems h =
     (if bh_null h then h else h\<lparr>bh_elems := [], bh_null := True, bh_alloc := 0\<rparr>)"

definition nt_binary_heap_destroy :: "'d nt_binary_heap \<Rightarrow> 'd nt_binary_heap" where
  "nt_binary_heap_destroy h =
     (let h = (heap_free_elems h)\<lparr>bh_compare_func := None\<rparr>
      in if has_direct_option h then h\<lparr>bh_key_index := None, bh_options := 0\<rparr> else h)"

definition nt_binary_heap_clear :: "'d nt_binary_heap \<Rightarrow> 'd nt_binary_heap" where
  "nt_binary_heap_clear h =
     (let h = heap_free_elems h
      in if has_direct_option h then h\<lparr>bh_key_index := map_option nt_hashmap_clear (bh_key_index h)\<rparr>
         else h)"

definition nt_binary_heap_empty :: "'d nt_binary_heap \<Rightarrow> int" where
  "nt_binary_heap_empty h = (if length (bh_elems h) = 0 then SUCCEED else FAIL)"

definition nt_binary_heap_find_min :: "'d nt_binary_heap \<Rightarrow> heap_error + 'd nt_binary_heap_elem" where
  "nt_binary_heap_find_min h = (if length (bh_elems h) = 0 then Inl Empty_Heap else Inr (bh_elems h ! 0))"

definition nt_binary_heap_insert ::
  "bool \<Rightarrow> 'd nt_binary_heap \<Rightarrow> 'd nt_binary_heap_elem \<Rightarrow> heap_error + 'd nt_binary_heap" where
  "nt_binary_heap_insert realloc_ok h e =
     (if has_direct_option h \<and> FAIL64 \<noteq> key_index_get h (he_key e) then Inl Duplicate_Key
      else case binary_heap_ensure_free_space realloc_ok h of
        Inl err \<Rightarrow> Inl err
      | Inr h \<Rightarrow>
          (case binary_heap_bubble_up (h\<lparr>bh_elems := bh_elems h @ [e]\<rparr>) (length (bh_elems h)) of
             (h, i) \<Rightarrow>
               if has_direct_option h \<and> i = length (bh_elems h) - 1
               then Inr (key_index_set h (he_key e) i) else Inr h))"

definition nt_binary_heap_update_direct ::
  "'d nt_binary_heap \<Rightarrow> 'd nt_binary_heap_elem \<Rightarrow> heap_error + 'd nt_binary_heap" where
  "nt_binary_heap_update_direct h e =
     (if \<not> has_direct_option h then Inl Direct_Unsupported
      else let index = int_of_u64 (key_index_get h (he_key e))
        in if FAIL \<noteq> index then
             (if index < 0 \<or> int (length (bh_elems h)) \<le> index then Inl Bad_Index
              else let i = nat index;
                  (h, j) = binary_heap_bubble_up (h\<lparr>bh_elems := (bh_elems h)[i := e]\<rparr>) i
                in if i = j then Inr (fst (binary_heap_bubble_down h i)) else Inr h)
           else Inl Key_Not_Found)"

definition nt_binary_heap_remove_min :: "'d nt_binary_heap \<Rightarrow> heap_error + 'd nt_binary_heap" where
  "nt_binary_heap_remove_min h =
     (if length (bh_elems h) = 0 then Inl Empty_Heap
      else
        let h = (if has_direct_option h then key_index_remove h (he_key (bh_elems h ! 0)) else h);
            n = length (bh_elems h) - 1
        in if n \<noteq> 0 then
             (case binary_heap_bubble_down (h\<lparr>bh_elems := butlast ((bh_elems h)[0 := bh_elems h ! n])\<rparr>) 0 of
                (h, i) \<Rightarrow>
                  if has_direct_option h \<and> i = 0 then Inr (key_index_set h (he_key (bh_elems h ! i)) i)
                  else Inr h)
           else Inr (h\<lparr>bh_elems := butlast (bh_elems h)\<rparr>))"

definition nt_binary_heap_remove_direct :: "'d nt_binary_heap \<Rightarrow> u64 \<Rightarrow> heap_error + 'd nt_binary_heap" where
  "nt_binary_heap_remove_direct h key =
     (if \<not> has_direct_option h then Inl Direct_Unsupported
      else let index = int_of_u64 (key_index_get h key)
        in if FAIL \<noteq> index then
             (let h = key_index_remove h key
              in if bh_elems h = [] \<or> index < 0 \<or> int (length (bh_elems h)) \<le> index then Inl Bad_Index
                 else let i = nat index; n = length (bh_elems h) - 1
                   in if i \<noteq> n then
                        (let (h, j) = binary_heap_bubble_up
                                (h\<lparr>bh_elems := butlast ((bh_elems h)[i := bh_elems h ! n])\<rparr>) i
                         in if i = j then
                              (let (h, k) = binary_heap_bubble_down h i
                               in if i = k then Inr (key_index_set h (he_key (bh_elems h ! i)) i)
                                  else Inr h)
                            else Inr h)
                      else Inr (h\<lparr>bh_elems := butlast (bh_elems h)\<rparr>))
           else Inl Key_Not_Found)"

section \<open>The heap order\<close>

text \<open>
  \<open>heap_ok\<close>: every element is at least its parent. \<open>up_ok i\<close> and \<open>down_ok i\<close> are the
  invariants of the two loops: the order may fail between \<open>i\<close> and its parent, respectively
  between \<open>i\<close> and its children, and nowhere else, and the elements around \<open>i\<close> are in order.
\<close>

definition heap_ok :: "('e \<Rightarrow> 'e \<Rightarrow> int) \<Rightarrow> 'e list \<Rightarrow> bool" where
  "heap_ok cmp es = (\<forall>j. 0 < j \<and> j < length es \<longrightarrow> cmp (es ! heap_parent j) (es ! j) \<le> 0)"

definition up_ok :: "('e \<Rightarrow> 'e \<Rightarrow> int) \<Rightarrow> 'e list \<Rightarrow> nat \<Rightarrow> bool" where
  "up_ok cmp es i =
     ((\<forall>j. 0 < j \<and> j < length es \<and> j \<noteq> i \<longrightarrow> cmp (es ! heap_parent j) (es ! j) \<le> 0) \<and>
      (\<forall>j. 0 < j \<and> j < length es \<and> heap_parent j = i \<and> 0 < i \<longrightarrow>
        cmp (es ! heap_parent i) (es ! j) \<le> 0))"

definition down_ok :: "('e \<Rightarrow> 'e \<Rightarrow> int) \<Rightarrow> 'e list \<Rightarrow> nat \<Rightarrow> bool" where
  "down_ok cmp es i =
     ((\<forall>j. 0 < j \<and> j < length es \<and> heap_parent j \<noteq> i \<longrightarrow> cmp (es ! heap_parent j) (es ! j) \<le> 0) \<and>
      (\<forall>j. 0 < j \<and> j < length es \<and> heap_parent j = i \<and> 0 < i \<longrightarrow>
        cmp (es ! heap_parent i) (es ! j) \<le> 0))"

lemma heap_parent_less: "0 < i \<Longrightarrow> heap_parent i < i"
  by (simp add: heap_parent_def)

lemma heap_parent_child: "0 < j \<Longrightarrow> heap_parent j = i \<longleftrightarrow> j = 2 * i + 1 \<or> j = 2 * i + 2"
  by (auto simp: heap_parent_def)

text \<open>In a heap the element at 0 is a minimum.\<close>

context total_compare
begin

lemma heap_ok_min:
  assumes "heap_ok cmp es" "j < length es"
  shows "cmp (es ! 0) (es ! j) \<le> 0"
  using assms(2)
proof (induction j rule: less_induct)
  case (less j)
  show ?case
  proof (cases "j = 0")
    case False
    then have lt: "heap_parent j < j" by (simp add: heap_parent_less)
    then have "cmp (es ! 0) (es ! heap_parent j) \<le> 0" using less by simp
    moreover have "cmp (es ! heap_parent j) (es ! j) \<le> 0"
      using assms(1) False less.prems by (simp add: heap_ok_def)
    ultimately show ?thesis by (rule cmp_trans)
  qed simp
qed

lemma up_ok_stop:
  assumes "up_ok cmp es i" "i \<noteq> 0 \<Longrightarrow> cmp (es ! heap_parent i) (es ! i) \<le> 0"
  shows "heap_ok cmp es"
  using assms unfolding up_ok_def heap_ok_def by (metis neq0_conv)

lemma up_ok_step:
  assumes up: "up_ok cmp es i" and i: "i < length es" "i \<noteq> 0"
    and gt: "\<not> cmp (es ! heap_parent i) (es ! i) \<le> 0"
  shows "up_ok cmp (swap_nth (heap_parent i) i es) (heap_parent i)"
proof -
  define p where "p = heap_parent i"
  have p: "p < i" "p < length es" using i heap_parent_less [of i] by (auto simp: p_def)
  have gt': "cmp (es ! i) (es ! p) \<le> 0" using gt cmp_gtD unfolding p_def by simp
  note n = nth_swap_nth [OF p(2) i(1)]
  have ok: "cmp (es ! heap_parent j) (es ! j) \<le> 0" if "0 < j" "j < length es" "j \<noteq> i" for j
    using up that by (simp add: up_ok_def)
  have child: "cmp (es ! p) (es ! j) \<le> 0" if "j < length es" "heap_parent j = i" "0 < j" for j
    using up that i by (simp add: up_ok_def p_def)
  have "cmp (swap_nth p i es ! heap_parent j) (swap_nth p i es ! j) \<le> 0"
    if j: "0 < j" "j < length es" "j \<noteq> p" for j
  proof -
    have hj: "heap_parent j < length es" using j heap_parent_less [of j] by simp
    consider "j = i" | "j \<noteq> i" "heap_parent j = p" | "j \<noteq> i" "heap_parent j = i"
      | "j \<noteq> i" "heap_parent j \<noteq> p" "heap_parent j \<noteq> i" by blast
    then show ?thesis
    proof cases
      case 1
      then show ?thesis using gt' n p i by (simp add: p_def [symmetric])
    next
      case 2
      then show ?thesis using ok [of j] gt' j n p i cmp_trans by fastforce
    next
      case 3
      then show ?thesis using child [of j] j n p i by simp
    next
      case 4
      then show ?thesis using ok [of j] j n hj by simp
    qed
  qed
  moreover have "cmp (swap_nth p i es ! heap_parent p) (swap_nth p i es ! j) \<le> 0"
    if j: "0 < j" "j < length es" "heap_parent j = p" "0 < p" for j
  proof -
    have pp: "heap_parent p < p" using j by (simp add: heap_parent_less)
    have A: "cmp (es ! heap_parent p) (es ! p) \<le> 0" using ok [of p] p j by simp
    have B: "cmp (es ! heap_parent p) (es ! j) \<le> 0" if "j \<noteq> i"
      using cmp_trans [OF A, of "es ! j"] ok [of j] j that by simp
    show ?thesis
      using A B pp p i n j heap_parent_less [of j] by (cases "j = i") (simp_all add: nth_swap_nth)
  qed
  ultimately show ?thesis unfolding up_ok_def p_def by simp
qed

lemma down_ok_stop:
  assumes "down_ok cmp es i"
    and "\<And>j. j < length es \<Longrightarrow> heap_parent j = i \<Longrightarrow> 0 < j \<Longrightarrow> cmp (es ! i) (es ! j) \<le> 0"
  shows "heap_ok cmp es"
  using assms unfolding down_ok_def heap_ok_def by metis

text \<open>\<open>c\<close> is the smaller child of \<open>i\<close>.\<close>

lemma down_ok_step:
  assumes down: "down_ok cmp es i" and c: "c < length es" "heap_parent c = i" "0 < c"
    and least: "\<And>j. j < length es \<Longrightarrow> heap_parent j = i \<Longrightarrow> 0 < j \<Longrightarrow> cmp (es ! c) (es ! j) \<le> 0"
    and gt: "0 < cmp (es ! i) (es ! c)"
  shows "down_ok cmp (swap_nth i c es) c"
proof -
  have i: "i < c" "i < length es" using c heap_parent_less [of c] by auto
  have gt': "cmp (es ! c) (es ! i) \<le> 0" using gt cmp_gtD by simp
  note n = nth_swap_nth [OF i(2) c(1)]
  have ok: "cmp (es ! heap_parent j) (es ! j) \<le> 0" if "0 < j" "j < length es" "heap_parent j \<noteq> i" for j
    using down that by (simp add: down_ok_def)
  have child: "cmp (es ! heap_parent i) (es ! c) \<le> 0" if "0 < i"
    using down that c by (simp add: down_ok_def)
  have "cmp (swap_nth i c es ! heap_parent j) (swap_nth i c es ! j) \<le> 0"
    if j: "0 < j" "j < length es" "heap_parent j \<noteq> c" for j
  proof -
    have hj: "heap_parent j < length es" "heap_parent j < j" using j heap_parent_less [of j] by auto
    consider "j = c" | "j \<noteq> c" "heap_parent j = i" | "j = i" "heap_parent j \<noteq> i" | "j \<noteq> c" "j \<noteq> i" "heap_parent j \<noteq> i"
      by blast
    then show ?thesis
    proof cases
      case 1
      then show ?thesis using gt' n c i by simp
    next
      case 2
      then show ?thesis using least [of j] j n c i hj by simp
    next
      case 3
      then show ?thesis using child j n c i hj by simp
    next
      case 4
      then show ?thesis using ok [of j] j n hj by simp
    qed
  qed
  moreover have "cmp (swap_nth i c es ! heap_parent c) (swap_nth i c es ! j) \<le> 0"
    if j: "0 < j" "j < length es" "heap_parent j = c" for j
    using ok [of j] j c i n heap_parent_less [of j] by simp
  ultimately show ?thesis unfolding down_ok_def by simp
qed

end

text \<open>The comparison of a heap's elements.\<close>

locale elem_compare = total_compare cmp
  for cmp :: "'d nt_binary_heap_elem \<Rightarrow> 'd nt_binary_heap_elem \<Rightarrow> int"
begin

lemma bubble_up_heap:
  assumes "bh_compare_func h = Some cmp" "up_ok cmp (bh_elems h) i" "i < length (bh_elems h)"
    and "binary_heap_bubble_up h i = (h', k)"
  shows "heap_ok cmp (bh_elems h') \<and> mset (bh_elems h') = mset (bh_elems h) \<and> k \<le> i"
  using assms
proof (induction h i rule: binary_heap_bubble_up.induct)
  case (1 h i)
  show ?case
  proof (cases "i \<noteq> 0 \<and> \<not> bh_cmp h (bh_elems h ! heap_parent i) (bh_elems h ! i) \<le> 0")
    case True
    then have lt: "heap_parent i < i" by (simp add: heap_parent_less)
    have "up_ok cmp (bh_elems (heap_swap h (heap_parent i) i)) (heap_parent i)"
      using up_ok_step "1.prems" True by simp
    moreover have "binary_heap_bubble_up (heap_swap h (heap_parent i) i) (heap_parent i) = (h', k)"
      using "1.prems"(4) True by (subst (asm) binary_heap_bubble_up.simps) simp
    ultimately show ?thesis
      using "1.IH" True "1.prems"(1,3) lt by fastforce
  next
    case False
    then have "h' = h" "k = i"
      using "1.prems"(4) by (auto simp: binary_heap_bubble_up.simps [of h i] split: if_splits)
    moreover have "heap_ok cmp (bh_elems h)"
      using False "1.prems"(1,2) by (intro up_ok_stop [of _ i]) auto
    ultimately show ?thesis by simp
  qed
qed

text \<open>The child the loop descends to, if any.\<close>

lemma bubble_down_cases:
  assumes "bh_compare_func h = Some cmp"
  obtains (stop) "binary_heap_bubble_down h i = (h, i)"
      "\<And>j. j < length (bh_elems h) \<Longrightarrow> heap_parent j = i \<Longrightarrow> 0 < j \<Longrightarrow> cmp (bh_elems h ! i) (bh_elems h ! j) \<le> 0"
    | (step) c where "c < length (bh_elems h)" "heap_parent c = i" "0 < c"
      "\<And>j. j < length (bh_elems h) \<Longrightarrow> heap_parent j = i \<Longrightarrow> 0 < j \<Longrightarrow> cmp (bh_elems h ! c) (bh_elems h ! j) \<le> 0"
      "0 < cmp (bh_elems h ! i) (bh_elems h ! c)"
      "binary_heap_bubble_down h i = binary_heap_bubble_down (heap_swap h i c) c"
proof -
  let ?es = "bh_elems h" and ?l = "2 * i + 1" and ?r = "2 * i + 2"
  have par: "heap_parent ?l = i" "heap_parent ?r = i" by (simp_all add: heap_parent_def)
  have kids: "j = ?l \<or> j = ?r" if "heap_parent j = i" "0 < j" for j
    using that heap_parent_child by blast
  note unf = binary_heap_bubble_down.simps [of h i, unfolded Let_def]
  consider (none) "length ?es \<le> ?l" | (one) "\<not> length ?es \<le> ?l" "length ?es \<le> ?r"
    | (left) "\<not> length ?es \<le> ?r" "cmp (?es ! ?l) (?es ! ?r) \<le> 0"
    | (right) "\<not> length ?es \<le> ?r" "\<not> cmp (?es ! ?l) (?es ! ?r) \<le> 0" by blast
  then show thesis
  proof cases
    case none
    then show thesis using unf kids by (intro stop) fastforce+
  next
    case one
    have leaf: "binary_heap_bubble_down (heap_swap h i ?l) ?l = (heap_swap h i ?l, ?l)"
      using one by (subst binary_heap_bubble_down.simps) simp
    show thesis
    proof (cases "0 < cmp (?es ! i) (?es ! ?l)")
      case True
      show thesis
      proof (rule step [of ?l])
        show "cmp (?es ! ?l) (?es ! j) \<le> 0" if "j < length ?es" "heap_parent j = i" "0 < j" for j
          using kids [OF that(2,3)] that(1) one by auto
      qed (use one True assms unf leaf par in auto)
    next
      case False
      show thesis
        by (rule stop) (use one False assms unf kids in fastforce)+
    qed
  next
    case left
    show thesis
    proof (cases "0 < cmp (?es ! i) (?es ! ?l)")
      case True
      show thesis
      proof (rule step [of ?l])
        show "cmp (?es ! ?l) (?es ! j) \<le> 0" if "j < length ?es" "heap_parent j = i" "0 < j" for j
          using kids [OF that(2,3)] left by auto
      qed (use left True assms unf par in auto)
    next
      case False
      then have F: "cmp (?es ! i) (?es ! ?l) \<le> 0" by simp
      show thesis
      proof (rule stop)
        show "cmp (?es ! i) (?es ! j) \<le> 0" if "j < length ?es" "heap_parent j = i" "0 < j" for j
          using kids [OF that(2,3)] F cmp_trans [OF F left(2)] by auto
      qed (use left False assms unf in simp)
    qed
  next
    case right
    then have rl: "cmp (?es ! ?r) (?es ! ?l) \<le> 0" using cmp_gtD by simp
    show thesis
    proof (cases "0 < cmp (?es ! i) (?es ! ?r)")
      case True
      show thesis
      proof (rule step [of ?r])
        show "cmp (?es ! ?r) (?es ! j) \<le> 0" if "j < length ?es" "heap_parent j = i" "0 < j" for j
          using kids [OF that(2,3)] rl by auto
      qed (use right True assms unf par in auto)
    next
      case False
      then have F: "cmp (?es ! i) (?es ! ?r) \<le> 0" by simp
      show thesis
      proof (rule stop)
        show "cmp (?es ! i) (?es ! j) \<le> 0" if "j < length ?es" "heap_parent j = i" "0 < j" for j
          using kids [OF that(2,3)] F cmp_trans [OF F rl] by auto
      qed (use right False assms unf in simp)
    qed
  qed
qed

lemma bubble_down_heap:
  assumes "bh_compare_func h = Some cmp" "down_ok cmp (bh_elems h) i" "i < length (bh_elems h)"
    and "binary_heap_bubble_down h i = (h', k)"
  shows "heap_ok cmp (bh_elems h') \<and> mset (bh_elems h') = mset (bh_elems h)"
  using assms
proof (induction "length (bh_elems h) - i" arbitrary: h i rule: less_induct)
  case less
  show ?case
  proof (cases rule: bubble_down_cases [OF less.prems(1), of i])
    case 1
    then show ?thesis
      using less.prems down_ok_stop [of "bh_elems h" i] by auto
  next
    case (2 c)
    then have "i < c" using heap_parent_less [of c] by simp
    moreover have "down_ok cmp (bh_elems (heap_swap h i c)) c"
      using down_ok_step [OF less.prems(2)] 2 by simp
    ultimately show ?thesis
      using less.hyps [of "heap_swap h i c" c] less.prems 2 by simp
  qed
qed

end

section \<open>The priority queue interface\<close>

text \<open>
  A queue whose operations may fail; \<open>els\<close> are its elements. The laws say when an operation
  succeeds and what it does to the elements.
\<close>

primrec drain :: "('q \<Rightarrow> 'x + 'e) \<Rightarrow> ('q \<Rightarrow> 'x + 'q) \<Rightarrow> nat \<Rightarrow> 'q \<Rightarrow> 'e list" where
  "drain find_min remove_min 0 q = []"
| "drain find_min remove_min (Suc n) q =
     (case find_min q of
        Inl err \<Rightarrow> []
      | Inr e \<Rightarrow> (case remove_min q of
                   Inl err \<Rightarrow> [e]
                 | Inr q' \<Rightarrow> e # drain find_min remove_min n q'))"

locale min_queue = total_compare cmp
  for cmp :: "'e \<Rightarrow> 'e \<Rightarrow> int" +
  fixes invar :: "'q \<Rightarrow> bool"
    and els :: "'q \<Rightarrow> 'e multiset"
    and ins :: "'q \<Rightarrow> 'e \<Rightarrow> 'x + 'q"
    and find_min :: "'q \<Rightarrow> 'x + 'e"
    and remove_min :: "'q \<Rightarrow> 'x + 'q"
  assumes ins_ok: "invar q \<Longrightarrow> \<exists>q'. ins q e = Inr q' \<and> invar q' \<and> els q' = add_mset e (els q)"
    and find_ok: "invar q \<Longrightarrow> els q \<noteq> {#} \<Longrightarrow>
      \<exists>e. find_min q = Inr e \<and> e \<in># els q \<and> (\<forall>x \<in># els q. cmp e x \<le> 0)"
    and remove_ok: "invar q \<Longrightarrow> find_min q = Inr e \<Longrightarrow>
      \<exists>q'. remove_min q = Inr q' \<and> invar q' \<and> els q = add_mset e (els q')"
begin

lemma insert_all_ok:
  "invar q \<Longrightarrow> \<exists>q'. insert_all ins q es = Inr q' \<and> invar q' \<and> els q' = els q + mset es"
proof (induction es arbitrary: q)
  case (Cons e es)
  obtain q1 where "ins q e = Inr q1" "invar q1" "els q1 = add_mset e (els q)"
    using ins_ok [OF Cons.prems] by blast
  then show ?case using Cons.IH [of q1] by auto
qed simp

lemma drain_sorted:
  "invar q \<Longrightarrow> n = size (els q) \<Longrightarrow>
   mset (drain find_min remove_min n q) = els q \<and>
   sorted_wrt (\<lambda>x y. cmp x y \<le> 0) (drain find_min remove_min n q)"
proof (induction n arbitrary: q)
  case (Suc n)
  then have "els q \<noteq> {#}" by auto
  then obtain e where e: "find_min q = Inr e" "e \<in># els q" "\<forall>x \<in># els q. cmp e x \<le> 0"
    using find_ok Suc.prems(1) by blast
  obtain q' where q': "remove_min q = Inr q'" "invar q'" "els q = add_mset e (els q')"
    using remove_ok [OF Suc.prems(1) e(1)] by blast
  then have IH: "mset (drain find_min remove_min n q') = els q'"
      "sorted_wrt (\<lambda>x y. cmp x y \<le> 0) (drain find_min remove_min n q')"
    using Suc by auto
  then have "\<forall>x \<in> set (drain find_min remove_min n q'). cmp e x \<le> 0"
    using e(3) q'(3) by (metis insert_iff set_mset_add_mset_insert set_mset_mset)
  then show ?case using IH e(1) q' by simp
qed simp

end

section \<open>The heap without the direct option\<close>

definition heap_inv ::
  "('d nt_binary_heap_elem \<Rightarrow> 'd nt_binary_heap_elem \<Rightarrow> int) \<Rightarrow> 'd nt_binary_heap \<Rightarrow> bool" where
  "heap_inv cmp h =
     (\<not> has_direct_option h \<and> bh_compare_func h = Some cmp \<and>
      (bh_null h \<longrightarrow> bh_elems h = [] \<and> bh_alloc h = 0) \<and>
      (\<not> bh_null h \<longrightarrow> length (bh_elems h) \<le> bh_alloc h \<and> 0 < bh_alloc h) \<and>
      heap_ok cmp (bh_elems h))"

lemma bubble_up_fields:
  "bh_null (fst (binary_heap_bubble_up h i)) = bh_null h \<and>
   bh_alloc (fst (binary_heap_bubble_up h i)) = bh_alloc h \<and>
   bh_options (fst (binary_heap_bubble_up h i)) = bh_options h \<and>
   bh_compare_func (fst (binary_heap_bubble_up h i)) = bh_compare_func h"
proof (induction h i rule: binary_heap_bubble_up.induct)
  case (1 h i)
  then show ?case by (subst (1 2 3 4) binary_heap_bubble_up.simps) simp
qed

lemma bubble_down_fields:
  "bh_null (fst (binary_heap_bubble_down h i)) = bh_null h \<and>
   bh_alloc (fst (binary_heap_bubble_down h i)) = bh_alloc h \<and>
   bh_options (fst (binary_heap_bubble_down h i)) = bh_options h \<and>
   bh_compare_func (fst (binary_heap_bubble_down h i)) = bh_compare_func h"
proof (induction h i rule: binary_heap_bubble_down.induct)
  case (1 h i)
  then show ?case by (subst (1 2 3 4) binary_heap_bubble_down.simps) (simp add: Let_def)
qed

lemma has_direct_option_cong:
  "bh_options h = bh_options h' \<Longrightarrow> has_direct_option h = has_direct_option h'"
  by (simp add: has_direct_option_def)

text \<open>The growth of the array: room for one more element, and nothing else changes.\<close>

lemma ensure_free_space_room:
  assumes "bh_null h \<Longrightarrow> bh_elems h = []" "\<not> bh_null h \<Longrightarrow> length (bh_elems h) \<le> bh_alloc h"
  shows "\<exists>h'. binary_heap_ensure_free_space True h = Inr h' \<and> bh_elems h' = bh_elems h \<and>
    length (bh_elems h) < bh_alloc h' \<and> \<not> bh_null h' \<and> bh_options h' = bh_options h \<and>
    bh_compare_func h' = bh_compare_func h \<and> bh_key_index h' = bh_key_index h"
  using assms by (auto simp: binary_heap_ensure_free_space_def Let_def)

lemma up_ok_append:
  assumes "heap_ok cmp es"
  shows "up_ok cmp (es @ [e]) (length es)"
  unfolding up_ok_def
proof (intro conjI allI impI)
  fix j assume j: "0 < j \<and> j < length (es @ [e]) \<and> j \<noteq> length es"
  then show "cmp ((es @ [e]) ! heap_parent j) ((es @ [e]) ! j) \<le> 0"
    using assms heap_parent_less [of j] by (simp add: heap_ok_def nth_append)
next
  fix j assume "0 < j \<and> j < length (es @ [e]) \<and> heap_parent j = length es \<and> 0 < length es"
  then show "cmp ((es @ [e]) ! heap_parent (length es)) ((es @ [e]) ! j) \<le> 0"
    using heap_parent_less [of j] by simp
qed

lemma down_ok_root:
  assumes "heap_ok cmp es"
  shows "down_ok cmp (butlast (es[0 := e])) 0"
  unfolding down_ok_def
proof (intro conjI allI impI)
  fix j assume j: "0 < j \<and> j < length (butlast (es[0 := e])) \<and> heap_parent j \<noteq> 0"
  then show "cmp (butlast (es[0 := e]) ! heap_parent j) (butlast (es[0 := e]) ! j) \<le> 0"
    using assms [unfolded heap_ok_def, rule_format, of j] heap_parent_less [of j]
    by (auto simp: nth_butlast)
qed simp

context elem_compare
begin

lemma insert_ok:
  assumes inv: "heap_inv cmp h"
  shows "\<exists>h'. nt_binary_heap_insert True h e = Inr h' \<and> heap_inv cmp h' \<and>
    mset (bh_elems h') = add_mset e (mset (bh_elems h))"
proof -
  obtain h1 where h1: "binary_heap_ensure_free_space True h = Inr h1" "bh_elems h1 = bh_elems h"
      "length (bh_elems h) < bh_alloc h1" "\<not> bh_null h1" "bh_options h1 = bh_options h"
      "bh_compare_func h1 = bh_compare_func h"
    using ensure_free_space_room [of h] inv by (auto simp: heap_inv_def)
  define h2 where "h2 = h1\<lparr>bh_elems := bh_elems h1 @ [e]\<rparr>"
  obtain h3 i where h3: "binary_heap_bubble_up h2 (length (bh_elems h1)) = (h3, i)" by fastforce
  have fields: "bh_null h3 = bh_null h1" "bh_alloc h3 = bh_alloc h1" "bh_options h3 = bh_options h"
      "bh_compare_func h3 = bh_compare_func h"
    using bubble_up_fields [of h2 "length (bh_elems h1)"] h1 h3 by (simp_all add: h2_def)
  have heap: "heap_ok cmp (bh_elems h3) \<and> mset (bh_elems h3) = mset (bh_elems h2)"
    using bubble_up_heap [of h2 "length (bh_elems h1)" h3 i] up_ok_append [of cmp "bh_elems h" e] inv h1 h3
    by (simp add: h2_def heap_inv_def)
  have len: "length (bh_elems h3) = Suc (length (bh_elems h))"
    using arg_cong [OF conjunct2 [OF heap], of size] h1(2) by (simp add: h2_def)
  have dir: "\<not> has_direct_option h" "\<not> has_direct_option h3"
    using inv fields(3) by (auto simp: heap_inv_def has_direct_option_def)
  have "nt_binary_heap_insert True h e = Inr h3"
    using dir h1(1) h3 by (simp add: nt_binary_heap_insert_def h2_def)
  moreover have "heap_inv cmp h3"
    using inv fields heap dir len h1(3,4) by (simp add: heap_inv_def)
  ultimately show ?thesis using heap h1(2) by (simp add: h2_def)
qed

lemma find_min_ok:
  assumes "heap_inv cmp h" "bh_elems h \<noteq> []"
  shows "\<exists>e. nt_binary_heap_find_min h = Inr e \<and> e \<in># mset (bh_elems h) \<and>
    (\<forall>x \<in># mset (bh_elems h). cmp e x \<le> 0)"
  using assms heap_ok_min [of "bh_elems h"]
  by (auto simp: nt_binary_heap_find_min_def heap_inv_def in_set_conv_nth)

lemma remove_min_ok:
  assumes inv: "heap_inv cmp h" and ne: "bh_elems h \<noteq> []"
  shows "\<exists>h'. nt_binary_heap_remove_min h = Inr h' \<and> heap_inv cmp h' \<and>
    mset (bh_elems h) = add_mset (bh_elems h ! 0) (mset (bh_elems h'))"
proof -
  let ?es = "bh_elems h" and ?n = "length (bh_elems h) - 1"
  have dir: "\<not> has_direct_option h" and len: "length ?es \<le> bh_alloc h" "\<not> bh_null h" "0 < bh_alloc h"
    using inv ne by (auto simp: heap_inv_def)
  have last: "?es ! ?n = last ?es" using ne by (simp add: last_conv_nth)
  show ?thesis
  proof (cases "?n = 0")
    case True
    then obtain e where e: "?es = [e]" using ne by (metis One_nat_def Suc_pred length_0_conv length_Suc_conv length_greater_0_conv)
    have "nt_binary_heap_remove_min h = Inr (h\<lparr>bh_elems := []\<rparr>)"
      using e dir by (simp add: nt_binary_heap_remove_min_def Let_def)
    moreover have "heap_inv cmp (h\<lparr>bh_elems := []\<rparr>)"
      using inv len by (simp add: heap_inv_def heap_ok_def has_direct_option_def)
    ultimately show ?thesis using e by simp
  next
    case False
    define h2 where "h2 = h\<lparr>bh_elems := butlast (?es[0 := ?es ! ?n])\<rparr>"
    obtain h3 i where h3: "binary_heap_bubble_down h2 0 = (h3, i)" by fastforce
    have fields: "bh_null h3 = bh_null h" "bh_alloc h3 = bh_alloc h" "bh_options h3 = bh_options h"
        "bh_compare_func h3 = bh_compare_func h"
      using bubble_down_fields [of h2 0] h3 by (simp_all add: h2_def)
    have heap: "heap_ok cmp (bh_elems h3) \<and> mset (bh_elems h3) = mset (bh_elems h2)"
      using bubble_down_heap [of h2 0 h3 i] down_ok_root [of cmp ?es] inv h3 False
      by (simp add: h2_def heap_inv_def)
    have ms: "mset ?es = add_mset (?es ! 0) (mset (bh_elems h3))"
      using mset_move_last [of 0 ?es] ne last heap by (simp add: h2_def)
    have "length (bh_elems h3) \<le> length ?es" using arg_cong [OF ms, of size] by simp
    then have "heap_inv cmp h3"
      using inv fields heap len by (simp add: heap_inv_def has_direct_option_def)
    moreover have "nt_binary_heap_remove_min h = Inr h3"
      using dir h3 ne False fields(3) has_direct_option_cong [of h3 h]
      by (simp add: nt_binary_heap_remove_min_def Let_def h2_def)
    ultimately show ?thesis using ms by blast
  qed
qed

end

sublocale elem_compare \<subseteq> heap: min_queue cmp "heap_inv cmp" "\<lambda>h. mset (bh_elems h)"
  "nt_binary_heap_insert True" nt_binary_heap_find_min nt_binary_heap_remove_min
proof
  fix h e
  assume inv: "heap_inv cmp h"
  show "\<exists>h'. nt_binary_heap_insert True h e = Inr h' \<and> heap_inv cmp h' \<and>
      mset (bh_elems h') = add_mset e (mset (bh_elems h))"
    using inv by (rule insert_ok)
  show "\<exists>e. nt_binary_heap_find_min h = Inr e \<and> e \<in># mset (bh_elems h) \<and> (\<forall>x \<in># mset (bh_elems h). cmp e x \<le> 0)"
    if "mset (bh_elems h) \<noteq> {#}"
    using find_min_ok [OF inv] that by simp
  show "\<exists>h'. nt_binary_heap_remove_min h = Inr h' \<and> heap_inv cmp h' \<and> mset (bh_elems h) = add_mset e (mset (bh_elems h'))"
    if "nt_binary_heap_find_min h = Inr e"
    using remove_min_ok [OF inv] that by (auto simp: nt_binary_heap_find_min_def split: if_splits)
qed

context elem_compare
begin

lemma create_inv: "heap_inv cmp (nt_binary_heap_create_ext cmp NT_BINARY_HEAP_OPTION_EMPTY)"
  by (simp add: heap_inv_def nt_binary_heap_create_ext_def has_direct_option_def Let_def heap_ok_def
      NT_BINARY_HEAP_OPTION_EMPTY_def)

lemma heap_sort_ok:
  assumes "insert_all (nt_binary_heap_insert True)
      (nt_binary_heap_create_ext cmp NT_BINARY_HEAP_OPTION_EMPTY) es = r"
  shows "\<exists>h. r = Inr h \<and> mset (drain nt_binary_heap_find_min nt_binary_heap_remove_min (length es) h) = mset es \<and>
    sorted_wrt (\<lambda>x y. cmp x y \<le> 0) (drain nt_binary_heap_find_min nt_binary_heap_remove_min (length es) h)"
proof -
  have "bh_elems (nt_binary_heap_create_ext cmp NT_BINARY_HEAP_OPTION_EMPTY) = []"
    by (simp add: nt_binary_heap_create_ext_def Let_def)
  then obtain h where h: "r = Inr h" "heap_inv cmp h" "mset (bh_elems h) = mset es"
    using heap.insert_all_ok [OF create_inv, of es] assms by auto
  moreover have "length es = size (mset (bh_elems h))" using h(3) by (metis size_mset)
  ultimately show ?thesis using heap.drain_sorted [OF h(2)] by metis
qed

end

section \<open>The direct option\<close>

text \<open>The loops only permute the array, whatever the comparison.\<close>

lemma bubble_up_mset:
  "i < length (bh_elems h) \<Longrightarrow> mset (bh_elems (fst (binary_heap_bubble_up h i))) = mset (bh_elems h)"
proof (induction h i rule: binary_heap_bubble_up.induct)
  case (1 h i)
  then show ?case
    using heap_parent_less [of i] by (subst binary_heap_bubble_up.simps) auto
qed

lemma bubble_down_mset:
  "i < length (bh_elems h) \<Longrightarrow> mset (bh_elems (fst (binary_heap_bubble_down h i))) = mset (bh_elems h)"
proof (induction h i rule: binary_heap_bubble_down.induct)
  case (1 h i)
  then show ?case
    by (subst binary_heap_bubble_down.simps) (simp add: Let_def)
qed

lemma key_index_set_elems [simp]: "bh_elems (key_index_set h k i) = bh_elems h"
  by (simp add: key_index_set_def)

lemma key_index_remove_simps [simp]:
  "bh_elems (key_index_remove h k) = bh_elems h"
  "bh_options (key_index_remove h k) = bh_options h"
  by (simp_all add: key_index_remove_def)

section \<open>Properties\<close>

text \<open>
  C23: An insertion into a heap without the direct option succeeds whenever the reallocation
  does, keeps the heap order and the bounds of the array, growing it when it is full, and adds
  exactly the new element.
\<close>

theorem heap_insert_correct:
  assumes "total_compare cmp" "heap_inv cmp h"
  shows "\<exists>h'. nt_binary_heap_insert True h e = Inr h' \<and> heap_inv cmp h' \<and>
    mset (bh_elems h') = add_mset e (mset (bh_elems h))"
  by (rule elem_compare.insert_ok [OF elem_compare.intro [OF assms(1)] assms(2)])

definition key_order :: "unit nt_binary_heap_elem \<Rightarrow> unit nt_binary_heap_elem \<Rightarrow> int" where
  "key_order e1 e2 = nt_default_uint64_compare_func (he_key e1) (he_key e2)"

interpretation key_order: elem_compare key_order
  by unfold_locales
    (auto simp: key_order_def uint64_cmp.cmp_flip intro: uint64_cmp.cmp_trans)

abbreviation key_elem :: "u64 \<Rightarrow> unit nt_binary_heap_elem" where
  "key_elem k \<equiv> \<lparr>he_key = k, he_data = ()\<rparr>"

abbreviation key_heap :: "unit nt_binary_heap" where
  "key_heap \<equiv> \<lparr>bh_elems = [key_elem 1, key_elem 5, key_elem 2], bh_null = False, bh_alloc = 32,
     bh_options = 0, bh_compare_func = Some key_order, bh_key_index = None\<rparr>"

lemma key_heap_inv: "heap_inv key_order key_heap"
proof -
  have "j = 1 \<or> j = 2" if "0 < j" "j < (3::nat)" for j using that by linarith
  then show ?thesis
    by (auto simp: heap_inv_def heap_ok_def has_direct_option_def key_order_def heap_parent_def
        nt_default_uint64_compare_func_def return_if_not_equal_def nth_Cons less_Suc_eq
        split: nat.splits)
qed

theorem heap_insert_correct_witness:
  "\<exists>h'. nt_binary_heap_insert True key_heap (key_elem 0) = Inr h' \<and> heap_inv key_order h' \<and>
    mset (bh_elems h') = {#key_elem 0, key_elem 1, key_elem 5, key_elem 2#}"
  using heap_insert_correct [OF key_order.total_compare_axioms key_heap_inv, of "key_elem 0"]
  by simp

text \<open>
  C24: On a heap that is not empty, \<open>nt_binary_heap_find_min\<close> answers a least element and
  \<open>nt_binary_heap_remove_min\<close> removes exactly that element and restores the heap order; on an
  empty one both end the process.
\<close>

theorem heap_remove_min_correct:
  assumes "total_compare cmp" "heap_inv cmp h"
  shows "if bh_elems h = [] then
      nt_binary_heap_find_min h = Inl Empty_Heap \<and> nt_binary_heap_remove_min h = Inl Empty_Heap
    else \<exists>e h'. nt_binary_heap_find_min h = Inr e \<and> (\<forall>x \<in> set (bh_elems h). cmp e x \<le> 0) \<and>
      nt_binary_heap_remove_min h = Inr h' \<and> heap_inv cmp h' \<and>
      mset (bh_elems h) = add_mset e (mset (bh_elems h'))"
proof -
  note L = elem_compare.intro [OF assms(1)]
  show ?thesis
    using elem_compare.find_min_ok [OF L assms(2)] elem_compare.remove_min_ok [OF L assms(2)]
    by (auto simp: nt_binary_heap_find_min_def nt_binary_heap_remove_min_def)
qed

theorem heap_remove_min_correct_witness:
  "\<exists>e h'. nt_binary_heap_find_min key_heap = Inr e \<and> nt_binary_heap_remove_min key_heap = Inr h' \<and>
    heap_inv key_order h' \<and> {#key_elem 1, key_elem 5, key_elem 2#} = add_mset e (mset (bh_elems h'))"
  using heap_remove_min_correct [OF key_order.total_compare_axioms key_heap_inv] by auto

text \<open>
  C13: A heap is a sorting device: inserting any elements into a fresh heap and removing the
  minimum as often gives the same elements in ascending order.
\<close>

theorem heap_drain_sorts:
  assumes "total_compare cmp"
  shows "\<exists>h. insert_all (nt_binary_heap_insert True)
        (nt_binary_heap_create_ext cmp NT_BINARY_HEAP_OPTION_EMPTY) es = Inr h \<and>
      (let out = drain nt_binary_heap_find_min nt_binary_heap_remove_min (length es) h
       in mset out = mset es \<and> sorted_wrt (\<lambda>x y. cmp x y \<le> 0) out)"
  using elem_compare.heap_sort_ok [OF elem_compare.intro [OF assms] refl, of es]
  unfolding Let_def by blast

theorem heap_drain_sorts_witness:
  "\<exists>h. insert_all (nt_binary_heap_insert True)
        (nt_binary_heap_create_ext key_order NT_BINARY_HEAP_OPTION_EMPTY) [key_elem 7, key_elem 3] = Inr h \<and>
      mset (drain nt_binary_heap_find_min nt_binary_heap_remove_min 2 h) = {#key_elem 7, key_elem 3#}"
  using heap_drain_sorts [OF key_order.total_compare_axioms, of "[key_elem 7, key_elem 3]"]
  by (auto simp: Let_def numeral_2_eq_2)

text \<open>
  No element can be inserted into a heap created with the direct option: the lookup of the
  new key answers 0, not \<open>FAIL\<close>, so the first insertion of any element takes the
  duplicate-key exit.
\<close>

theorem heap_direct_insert_exits:
  "nt_binary_heap_insert ok (nt_binary_heap_create_ext cmp NT_BINARY_HEAP_OPTION_DIRECT) e =
     Inl Duplicate_Key"
proof -
  have "hm_inv (nt_hashmap_create 512)" by (rule hm_create_inv)
  then have "nt_hashmap_get (nt_hashmap_create 512) k = 0" for k
    by (simp add: hm.get_lookup create_alpha nt_hashmap_create_def)
  then show ?thesis
    by (simp add: nt_binary_heap_insert_def nt_binary_heap_create_ext_def Let_def has_direct_option_def
        NT_BINARY_HEAP_OPTION_DIRECT_def key_index_get_def FAIL64_def nt_hashmap_create_def)
qed

text \<open>
  Removing by a key that the index does not hold is not refused: the lookup answers 0, and
  the element at the root, whose key is another one, is removed.
\<close>

theorem heap_remove_direct_absent_key:
  assumes "has_direct_option h" "bh_key_index h = Some m" "hm_inv m" "hm_alpha m key = None"
    and "bh_elems h \<noteq> []"
  shows "\<exists>h'. nt_binary_heap_remove_direct h key = Inr h' \<and>
    mset (bh_elems h) = add_mset (bh_elems h ! 0) (mset (bh_elems h'))"
proof -
  let ?es = "bh_elems h" and ?n = "length (bh_elems h) - 1"
  define h1 where "h1 = key_index_remove h key"
  have get: "int_of_u64 (key_index_get h key) = 0"
    using assms by (simp add: key_index_get_def hm.get_lookup int_of_u64_def)
  show ?thesis
  proof (cases "?n = 0")
    case True
    then have "nt_binary_heap_remove_direct h key = Inr (h1\<lparr>bh_elems := butlast ?es\<rparr>)"
      using assms get by (simp add: nt_binary_heap_remove_direct_def Let_def h1_def FAIL_def)
    moreover have "mset ?es = add_mset (?es ! 0) (mset (butlast ?es))"
      using assms(5) True by (cases ?es) auto
    ultimately show ?thesis by (auto simp: h1_def)
  next
    case False
    define h2 where "h2 = h1\<lparr>bh_elems := butlast (?es[0 := ?es ! ?n])\<rparr>"
    have up: "binary_heap_bubble_up h2 0 = (h2, 0)" by (simp add: binary_heap_bubble_up.simps)
    obtain h3 k where h3: "binary_heap_bubble_down h2 0 = (h3, k)" by fastforce
    have "nt_binary_heap_remove_direct h key =
        Inr (if k = 0 then key_index_set h3 (he_key (bh_elems h3 ! 0)) 0 else h3)"
      using assms get False up h3
      by (simp add: nt_binary_heap_remove_direct_def Let_def h1_def h2_def FAIL_def)
    moreover have "mset (bh_elems h3) = mset (butlast (?es[0 := last ?es]))"
      using bubble_down_mset [of 0 h2] h3 False assms(5) by (simp add: h2_def last_conv_nth)
    ultimately show ?thesis
      using mset_move_last [of 0 ?es] assms(5) by auto
  qed
qed

theorem heap_remove_direct_absent_key_witness:
  "\<exists>h'. nt_binary_heap_remove_direct
      (key_heap\<lparr>bh_options := 1, bh_key_index := Some (nt_hashmap_create 512)\<rparr>) 77 = Inr h' \<and>
    {#key_elem 1, key_elem 5, key_elem 2#} = add_mset (key_elem 1) (mset (bh_elems h'))"
  using heap_remove_direct_absent_key
    [of "key_heap\<lparr>bh_options := 1, bh_key_index := Some (nt_hashmap_create 512)\<rparr>" "nt_hashmap_create 512" 77]
    hm_create_inv [of 512]
  by (simp add: has_direct_option_def NT_BINARY_HEAP_OPTION_DIRECT_def nt_hashmap_create_def create_alpha)

end
