(* ===== verification/Mem.thy ===== *)
theory Mem
  imports Prelude
begin

text \<open>
  nt_mem.c: the allocator inside a shared memory segment. The segment is the array \<open>mi_cells\<close>
  of 8-byte cells, indexed by the byte address of the cell; all addresses the allocator uses
  are multiples of 8. A header cell holds a size and, in bit 63, \<open>MEM_FLG_USED\<close>; a pointer
  stored in a free chunk is the cell's value. Addresses and the sizes read from headers are
  natural numbers, the request sizes and the statistics of the structure are 64-bit words.
  A loop over a list in shared memory may not end, so the operations return an option:
  \<open>None\<close> for an endless loop. An \<open>exit\<close> of the process is a \<open>mem_error\<close>. The log messages are
  not modelled.
\<close>

section \<open>Data\<close>

record nt_mem_info =
  mi_cells :: "nat \<Rightarrow> u64"
  mi_buckets :: "nat list"
  mi_lo_bound :: nat
  mi_hi_bound :: nat
  mi_free_size :: u64
  mi_used_size :: u64
  mi_orig_size :: u64
  mi_total_size :: u64
  mi_shm_id :: int
  mi_allow_oom :: int
  mi_mem_descr :: "u8 list"
  mi_mem_param :: "u8 list"

datatype mem_error =
    Already_Allocated
  | Bad_Size
  | Out_Of_Memory
  | Free_Null
  | Should_Never_Happen
  | Tmp_Malloc_Failed

definition MEM_FLG_USED :: u64 where
  "MEM_FLG_USED = push_bit 63 1"

definition MEM_MIN_SIZE :: u64 where
  "MEM_MIN_SIZE = 128"

definition MEM_MAX_SIZE :: u64 where
  "MEM_MAX_SIZE = 0x1000000000"

abbreviation (input) MEM_SIZE_FIELD :: nat where
  "MEM_SIZE_FIELD \<equiv> 8"

abbreviation (input) MEM_MIN_ALLOC :: nat where
  "MEM_MIN_ALLOC \<equiv> 24"

abbreviation (input) MEM_MAX_BUCKET_SIZE :: nat where
  "MEM_MAX_BUCKET_SIZE \<equiv> 256"

text \<open>\<open>(MEM_MAX_BUCKET_SIZE - MEM_MIN_BUCKET_SIZE) / 8 + 1\<close>\<close>

abbreviation (input) MEM_BUCKET_COUNT :: nat where
  "MEM_BUCKET_COUNT \<equiv> 30"

section \<open>Helper functions\<close>

definition ALIGN4 :: "u64 \<Rightarrow> u64" where
  "ALIGN4 p = (p + 3) AND NOT 3"

definition ALIGN8 :: "u64 \<Rightarrow> u64" where
  "ALIGN8 p = (p + 7) AND NOT 7"

text \<open>\<open>ALIGNPTR\<close> with pointers of \<open>ptr_size\<close> bytes; \<open>None\<close> is the failed assertion.\<close>

definition ALIGNPTR :: "nat \<Rightarrow> u64 \<Rightarrow> u64 option" where
  "ALIGNPTR ptr_size p =
     (if ptr_size = 4 then Some (ALIGN4 p) else if ptr_size = 8 then Some (ALIGN8 p) else None)"

definition mem_proper_alloc_size :: "u64 \<Rightarrow> u64" where
  "mem_proper_alloc_size sz =
     (if 24 \<le> sz then sz + ((8 - (sz AND 7)) AND 7) else 24)"

definition mem_bucket_by_size :: "nat \<Rightarrow> nat" where
  "mem_bucket_by_size sz =
     (if sz < MEM_MIN_ALLOC then 0
      else if sz < MEM_MAX_BUCKET_SIZE then (sz - MEM_MIN_ALLOC) div 8
      else MEM_BUCKET_COUNT - 1)"

definition FREE_CHUNK :: "(nat \<Rightarrow> u64) \<Rightarrow> nat \<Rightarrow> bool" where
  "FREE_CHUNK m p = (m p AND MEM_FLG_USED = 0)"

definition CHUNK_SIZE :: "(nat \<Rightarrow> u64) \<Rightarrow> nat \<Rightarrow> nat" where
  "CHUNK_SIZE m p = unat (m p AND NOT MEM_FLG_USED)"

definition mem_set_chunk_size :: "nat \<Rightarrow> nat \<Rightarrow> (nat \<Rightarrow> u64) \<Rightarrow> nat \<Rightarrow> u64" where
  "mem_set_chunk_size chunk sz m = m(chunk := of_nat sz, chunk + MEM_SIZE_FIELD + sz := of_nat sz)"

definition mem_set_used_chunk_size :: "nat \<Rightarrow> nat \<Rightarrow> (nat \<Rightarrow> u64) \<Rightarrow> nat \<Rightarrow> u64" where
  "mem_set_used_chunk_size chunk sz m =
     m(chunk := MEM_FLG_USED OR of_nat sz,
       chunk + MEM_SIZE_FIELD + sz := MEM_FLG_USED OR of_nat sz)"

definition mem_get_prev_chunk :: "(nat \<Rightarrow> u64) \<Rightarrow> nat \<Rightarrow> nat" where
  "mem_get_prev_chunk m chunk = unat (m (chunk + MEM_SIZE_FIELD))"

definition mem_set_prev_chunk :: "nat \<Rightarrow> nat \<Rightarrow> (nat \<Rightarrow> u64) \<Rightarrow> nat \<Rightarrow> u64" where
  "mem_set_prev_chunk chunk prev m = m(chunk + MEM_SIZE_FIELD := of_nat prev)"

definition mem_get_next_chunk :: "(nat \<Rightarrow> u64) \<Rightarrow> nat \<Rightarrow> nat" where
  "mem_get_next_chunk m chunk = unat (m (chunk + MEM_SIZE_FIELD + 8))"

definition mem_set_next_chunk :: "nat \<Rightarrow> nat \<Rightarrow> (nat \<Rightarrow> u64) \<Rightarrow> nat \<Rightarrow> u64" where
  "mem_set_next_chunk chunk next m = m(chunk + MEM_SIZE_FIELD + 8 := of_nat next)"

section \<open>Free lists\<close>

definition mem_link_chunk :: "nt_mem_info \<Rightarrow> nat \<Rightarrow> nt_mem_info" where
  "mem_link_chunk info chunk =
     (let index = mem_bucket_by_size (CHUNK_SIZE (mi_cells info) chunk);
          first = mi_buckets info ! index;
          m = (if first \<noteq> 0 then mem_set_prev_chunk first chunk (mi_cells info) else mi_cells info);
          m = mem_set_next_chunk chunk first (mem_set_prev_chunk chunk 0 m)
      in info\<lparr>mi_cells := m, mi_buckets := (mi_buckets info)[index := chunk]\<rparr>)"

text \<open>
  \<open>mem_ptr_to_next_field\<close> and \<open>mem_ptr_to_prev_field\<close> choose the field to write: the field of the
  neighbour, or the bucket when there is no previous chunk, or none when there is no next one.
\<close>

definition mem_unlink_chunk :: "nt_mem_info \<Rightarrow> nat \<Rightarrow> nt_mem_info" where
  "mem_unlink_chunk info chunk =
     (let index = mem_bucket_by_size (CHUNK_SIZE (mi_cells info) chunk);
          prev = mem_get_prev_chunk (mi_cells info) chunk;
          next = mem_get_next_chunk (mi_cells info) chunk;
          info = (if prev \<noteq> 0 then info\<lparr>mi_cells := mem_set_next_chunk prev next (mi_cells info)\<rparr>
                  else info\<lparr>mi_buckets := (mi_buckets info)[index := next]\<rparr>)
      in if next \<noteq> 0 then info\<lparr>mi_cells := mem_set_prev_chunk next prev (mi_cells info)\<rparr> else info)"

section \<open>Allocation\<close>

text \<open>The two search loops of \<open>__mem_malloc\<close>: over the buckets, and first fit in the last one.\<close>

function first_bucket :: "nat list \<Rightarrow> nat \<Rightarrow> nat" where
  "first_bucket bk index =
     (if index < MEM_BUCKET_COUNT - 1 \<and> bk ! index = 0 then first_bucket bk (Suc index) else index)"
  by pat_completeness auto
termination
  by (relation "measure (\<lambda>(bk, index). MEM_BUCKET_COUNT - index)") auto

declare first_bucket.simps [simp del]

partial_function (option) first_fit :: "(nat \<Rightarrow> u64) \<Rightarrow> nat \<Rightarrow> nat \<Rightarrow> nat option" where
  "first_fit m sz chunk =
     (if chunk \<noteq> 0 \<and> CHUNK_SIZE m chunk < sz then first_fit m sz (mem_get_next_chunk m chunk)
      else Some chunk)"

text \<open>\<open>mem_take\<close> is the part of \<open>__mem_malloc\<close> after the search: unlink, then use or split.\<close>

definition mem_take :: "nt_mem_info \<Rightarrow> nat \<Rightarrow> nat \<Rightarrow> nt_mem_info" where
  "mem_take info chunk sz =
     (let chunk_size = CHUNK_SIZE (mi_cells info) chunk;
          info = mem_unlink_chunk info chunk
      in if chunk_size < sz + 2 * MEM_SIZE_FIELD + MEM_MIN_ALLOC then
           info\<lparr>mi_used_size := mi_used_size info + of_nat chunk_size,
                mi_free_size := mi_free_size info - of_nat chunk_size,
                mi_cells := mem_set_used_chunk_size chunk chunk_size (mi_cells info)\<rparr>
         else
           let new_chunk = chunk + MEM_SIZE_FIELD + sz + MEM_SIZE_FIELD;
               new_chunk_size = chunk_size - sz - 2 * MEM_SIZE_FIELD;
               info = info\<lparr>mi_cells := mem_set_chunk_size new_chunk new_chunk_size (mi_cells info)\<rparr>;
               info = mem_link_chunk info new_chunk
           in info\<lparr>mi_used_size := mi_used_size info + of_nat sz,
                   mi_free_size := mi_free_size info - of_nat chunk_size + of_nat new_chunk_size,
                   mi_cells := mem_set_used_chunk_size chunk sz (mi_cells info)\<rparr>)"

definition mem_search :: "nt_mem_info \<Rightarrow> nat \<Rightarrow> nat option" where
  "mem_search info sz =
     (let index = first_bucket (mi_buckets info) (mem_bucket_by_size sz);
          chunk = mi_buckets info ! index
      in if index = MEM_BUCKET_COUNT - 1 then first_fit (mi_cells info) sz chunk else Some chunk)"

definition mem_malloc :: "nt_mem_info \<Rightarrow> u64 \<Rightarrow> (nt_mem_info \<times> nat) option" where
  "mem_malloc info request =
     (let sz = unat (mem_proper_alloc_size request)
      in case mem_search info sz of
           None \<Rightarrow> None
         | Some chunk \<Rightarrow> if chunk = 0 then Some (info, 0) else Some (mem_take info chunk sz, chunk))"

section \<open>Freeing\<close>

definition prev_is_free :: "nt_mem_info \<Rightarrow> nat \<Rightarrow> bool" where
  "prev_is_free info chunk =
     (mi_lo_bound info < chunk \<and> FREE_CHUNK (mi_cells info) (chunk - MEM_SIZE_FIELD))"

definition next_is_free :: "nt_mem_info \<Rightarrow> nat \<Rightarrow> bool" where
  "next_is_free info next_chunk =
     (next_chunk < mi_hi_bound info \<and> FREE_CHUNK (mi_cells info) next_chunk)"

definition mem_free :: "nt_mem_info \<Rightarrow> nat \<Rightarrow> nt_mem_info" where
  "mem_free info ptr =
     (let chunk = ptr - MEM_SIZE_FIELD;
          m = mi_cells info;
          chunk_size = CHUNK_SIZE m chunk;
          info = info\<lparr>mi_used_size := mi_used_size info - of_nat chunk_size,
                      mi_free_size := mi_free_size info + of_nat chunk_size\<rparr>;
          next_chunk = chunk + MEM_SIZE_FIELD + chunk_size + MEM_SIZE_FIELD;
          prev_free = prev_is_free info chunk;
          next_free = next_is_free info next_chunk;
          prev_chunk = chunk - MEM_SIZE_FIELD - CHUNK_SIZE m (chunk - MEM_SIZE_FIELD) - MEM_SIZE_FIELD
      in if prev_free \<and> next_free then
           (let info = info\<lparr>mi_free_size := mi_free_size info + 4 * 8\<rparr>;
                chunk_size = chunk_size + (4 * MEM_SIZE_FIELD + CHUNK_SIZE m prev_chunk + CHUNK_SIZE m next_chunk);
                info = mem_unlink_chunk info prev_chunk;
                info = mem_unlink_chunk info next_chunk;
                info = info\<lparr>mi_cells := mem_set_chunk_size prev_chunk chunk_size (mi_cells info)\<rparr>
            in mem_link_chunk info prev_chunk)
         else if prev_free then
           (let info = info\<lparr>mi_free_size := mi_free_size info + 2 * 8\<rparr>;
                chunk_size = chunk_size + (2 * MEM_SIZE_FIELD + CHUNK_SIZE m prev_chunk);
                info = mem_unlink_chunk info prev_chunk;
                info = info\<lparr>mi_cells := mem_set_chunk_size prev_chunk chunk_size (mi_cells info)\<rparr>
            in mem_link_chunk info prev_chunk)
         else if next_free then
           (let info = info\<lparr>mi_free_size := mi_free_size info + 2 * 8\<rparr>;
                chunk_size = chunk_size + (2 * MEM_SIZE_FIELD + CHUNK_SIZE m next_chunk);
                info = mem_unlink_chunk info next_chunk;
                info = info\<lparr>mi_cells := mem_set_chunk_size chunk chunk_size (mi_cells info)\<rparr>
            in mem_link_chunk info chunk)
         else
           (let info = info\<lparr>mi_cells := mem_set_chunk_size chunk chunk_size (mi_cells info)\<rparr>
            in mem_link_chunk info chunk))"

section \<open>Reallocation\<close>

text \<open>\<open>memcpy\<close> of \<open>n\<close> bytes, a multiple of 8, from the cells \<open>src\<close> starting at offset 0.\<close>

definition copy_cells :: "nat \<Rightarrow> (nat \<Rightarrow> u64) \<Rightarrow> nat \<Rightarrow> (nat \<Rightarrow> u64) \<Rightarrow> nat \<Rightarrow> u64" where
  "copy_cells dst src n m = (\<lambda>x. if dst \<le> x \<and> x < dst + n then src (x - dst) else m x)"

text \<open>The branch \<open>size <= chunk_size\<close>: leave the chunk, or give its tail back.\<close>

definition mem_shrink :: "nt_mem_info \<Rightarrow> nat \<Rightarrow> nat \<Rightarrow> nt_mem_info" where
  "mem_shrink info chunk sz =
     (let m = mi_cells info;
          chunk_size = CHUNK_SIZE m chunk;
          next_chunk = chunk + MEM_SIZE_FIELD + chunk_size + MEM_SIZE_FIELD;
          new_chunk = chunk + MEM_SIZE_FIELD + sz + MEM_SIZE_FIELD
      in if chunk_size div 4 < sz then info
         else if next_is_free info next_chunk then
           (let info = info\<lparr>mi_used_size := mi_used_size info - of_nat (chunk_size - sz),
                             mi_free_size := mi_free_size info + of_nat (chunk_size - sz)\<rparr>;
                new_chunk_size = CHUNK_SIZE m next_chunk + (chunk_size - sz);
                info = mem_unlink_chunk info next_chunk;
                info = info\<lparr>mi_cells := mem_set_chunk_size new_chunk new_chunk_size (mi_cells info)\<rparr>;
                info = mem_link_chunk info new_chunk
            in info\<lparr>mi_cells := mem_set_used_chunk_size chunk sz (mi_cells info)\<rparr>)
         else
           (let new_chunk_size = chunk_size - sz - 2 * MEM_SIZE_FIELD;
                info = info\<lparr>mi_used_size := mi_used_size info - of_nat (chunk_size - sz),
                             mi_free_size := mi_free_size info + of_nat (chunk_size - sz - 2 * MEM_SIZE_FIELD)\<rparr>;
                info = info\<lparr>mi_cells := mem_set_chunk_size new_chunk new_chunk_size (mi_cells info)\<rparr>;
                info = mem_link_chunk info new_chunk
            in info\<lparr>mi_cells := mem_set_used_chunk_size chunk sz (mi_cells info)\<rparr>))"

text \<open>The branch that extends the chunk into the free chunk after it.\<close>

definition mem_extend :: "nt_mem_info \<Rightarrow> nat \<Rightarrow> nat \<Rightarrow> nt_mem_info" where
  "mem_extend info chunk sz =
     (let m = mi_cells info;
          chunk_size = CHUNK_SIZE m chunk;
          next_chunk = chunk + MEM_SIZE_FIELD + chunk_size + MEM_SIZE_FIELD;
          info = info\<lparr>mi_used_size := mi_used_size info - of_nat chunk_size,
                      mi_free_size := mi_free_size info + of_nat (chunk_size + 2 * MEM_SIZE_FIELD)\<rparr>;
          chunk_size = chunk_size + (2 * MEM_SIZE_FIELD + CHUNK_SIZE m next_chunk);
          info = mem_unlink_chunk info next_chunk
      in if chunk_size < sz + 2 * MEM_SIZE_FIELD + MEM_MIN_ALLOC then
           info\<lparr>mi_used_size := mi_used_size info + of_nat chunk_size,
                mi_free_size := mi_free_size info - of_nat chunk_size,
                mi_cells := mem_set_used_chunk_size chunk chunk_size (mi_cells info)\<rparr>
         else
           (let new_chunk = chunk + MEM_SIZE_FIELD + sz + MEM_SIZE_FIELD;
                new_chunk_size = chunk_size - sz - 2 * MEM_SIZE_FIELD;
                info = info\<lparr>mi_cells := mem_set_chunk_size new_chunk new_chunk_size (mi_cells info)\<rparr>;
                info = mem_link_chunk info new_chunk
            in info\<lparr>mi_used_size := mi_used_size info + of_nat sz,
                    mi_free_size := mi_free_size info - of_nat chunk_size + of_nat new_chunk_size,
                    mi_cells := mem_set_used_chunk_size chunk sz (mi_cells info)\<rparr>))"

text \<open>
  \<open>tmp_ok\<close>: the \<open>nt_malloc\<close> of the temporary buffer returns memory; when it does not, it ends
  the process.
\<close>

definition mem_realloc ::
  "bool \<Rightarrow> nt_mem_info \<Rightarrow> nat \<Rightarrow> u64 \<Rightarrow> (mem_error + nt_mem_info \<times> nat) option" where
  "mem_realloc tmp_ok info old request =
     (let sz = unat (mem_proper_alloc_size request);
          m = mi_cells info;
          chunk = old - MEM_SIZE_FIELD;
          chunk_size = CHUNK_SIZE m chunk;
          next_chunk = chunk + MEM_SIZE_FIELD + chunk_size + MEM_SIZE_FIELD;
          next_free = next_is_free info next_chunk
      in if sz \<le> chunk_size then Some (Inr (mem_shrink info chunk sz, chunk))
         else if next_free \<and> sz \<le> chunk_size + 2 * MEM_SIZE_FIELD + CHUNK_SIZE m next_chunk then
           Some (Inr (mem_extend info chunk sz, chunk))
         else
           case mem_malloc info (of_nat sz) of
             None \<Rightarrow> None
           | Some (info1, new_chunk) \<Rightarrow>
               if new_chunk \<noteq> 0 then
                 (let info1 = info1\<lparr>mi_cells := copy_cells (new_chunk + MEM_SIZE_FIELD)
                                      (\<lambda>k. mi_cells info1 (chunk + MEM_SIZE_FIELD + k)) chunk_size (mi_cells info1)\<rparr>
                  in Some (Inr (mem_free info1 old, new_chunk)))
               else
                 (let new_chunk_size = chunk_size
                        + (if next_free then CHUNK_SIZE m next_chunk + 2 * MEM_SIZE_FIELD else 0)
                        + (if prev_is_free info chunk
                           then CHUNK_SIZE m (chunk - MEM_SIZE_FIELD) + 2 * MEM_SIZE_FIELD else 0)
                  in if new_chunk_size < sz then Some (Inr (info, 0))
                     else if \<not> tmp_ok then Some (Inl Tmp_Malloc_Failed)
                     else
                       let tmp = (\<lambda>k. m (chunk + MEM_SIZE_FIELD + k))
                       in case mem_malloc (mem_free info old) (of_nat sz) of
                            None \<Rightarrow> None
                          | Some (info2, new_chunk) \<Rightarrow>
                              if new_chunk = 0 then Some (Inl Should_Never_Happen)
                              else Some (Inr (info2\<lparr>mi_cells := copy_cells (new_chunk + MEM_SIZE_FIELD)
                                     tmp chunk_size (mi_cells info2)\<rparr>, new_chunk))))"

section \<open>The public interface\<close>

text \<open>A result 0 is the \<open>NULL\<close> of an allocator that may run out of memory.\<close>

definition mem_result :: "nt_mem_info \<Rightarrow> nat \<Rightarrow> mem_error + nt_mem_info \<times> nat" where
  "mem_result info chunk =
     (if chunk = 0 then (if mi_allow_oom info = 1 then Inr (info, 0) else Inl Out_Of_Memory)
      else Inr (info, chunk + MEM_SIZE_FIELD))"

definition nt_mem_malloc ::
  "nt_mem_info \<Rightarrow> nat \<Rightarrow> u64 \<Rightarrow> (mem_error + nt_mem_info \<times> nat) option" where
  "nt_mem_malloc info old sz =
     (if old \<noteq> 0 then Some (Inl Already_Allocated)
      else if sz = 0 \<or> MEM_MAX_SIZE < sz then Some (Inl Bad_Size)
      else case mem_malloc info sz of
             None \<Rightarrow> None
           | Some (info', chunk) \<Rightarrow> Some (mem_result info' chunk))"

definition nt_mem_realloc ::
  "bool \<Rightarrow> nt_mem_info \<Rightarrow> nat \<Rightarrow> u64 \<Rightarrow> (mem_error + nt_mem_info \<times> nat) option" where
  "nt_mem_realloc tmp_ok info old sz =
     (if sz = 0 \<or> MEM_MAX_SIZE < sz then Some (Inl Bad_Size)
      else if old = 0 then
        (case mem_malloc info sz of
           None \<Rightarrow> None
         | Some (info', chunk) \<Rightarrow> Some (mem_result info' chunk))
      else
        (case mem_realloc tmp_ok info old sz of
           None \<Rightarrow> None
         | Some (Inl err) \<Rightarrow> Some (Inl err)
         | Some (Inr (info', chunk)) \<Rightarrow> Some (mem_result info' chunk)))"

definition nt_mem_free :: "nt_mem_info \<Rightarrow> nat \<Rightarrow> mem_error + nt_mem_info" where
  "nt_mem_free info ptr = (if ptr = 0 then Inl Free_Null else Inr (mem_free info ptr))"

definition nt_mem_clear :: "nt_mem_info \<Rightarrow> nt_mem_info" where
  "nt_mem_clear info =
     (let total = unat (mi_total_size info);
          index = mem_bucket_by_size total;
          first = mi_lo_bound info;
          m = mem_set_next_chunk first 0 (mem_set_prev_chunk first 0 (mem_set_chunk_size first total (mi_cells info)))
      in info\<lparr>mi_cells := m, mi_buckets := (replicate MEM_BUCKET_COUNT 0)[index := first],
              mi_used_size := 0, mi_free_size := mi_total_size info\<rparr>)"

text \<open>\<open>sizeof(nt_mem_info_t)\<close> with 8-byte pointers and a 4-byte \<open>NT_MUTEX\<close>.\<close>

definition sizeof_nt_mem_info :: u64 where
  "sizeof_nt_mem_info = 88"

text \<open>
  The layout \<open>nt_mem_create\<close> computes in the attached segment at \<open>base\<close>: the bounds of the
  chunks. \<open>dlen\<close> and \<open>plen\<close> are the lengths of the description and of the parameter name. The
  subtractions from \<open>size\<close> wrap as in C.
\<close>

definition mem_layout :: "u64 \<Rightarrow> u64 \<Rightarrow> u64 \<Rightarrow> u64 \<Rightarrow> u64 \<times> u64" where
  "mem_layout base sz dlen plen =
     (let info = ALIGN8 base;
          sz = sz - (info + sizeof_nt_mem_info - base);
          base = info + sizeof_nt_mem_info;
          buckets = ALIGN8 base;
          sz = sz - (buckets + of_nat MEM_BUCKET_COUNT * 8 - base);
          base = buckets + of_nat MEM_BUCKET_COUNT * 8;
          sz = sz - (dlen + 1);
          base = base + dlen + 1;
          sz = sz - (plen + 1);
          base = base + plen + 1
      in (ALIGN8 base, ALIGN8 (base + sz - 8)))"

text \<open>
  \<open>shm\<close> is what the system gives: no segment, or its identifier, the address it is attached at
  and its contents. The result \<open>None\<close> is \<open>FAIL\<close> with an error message.
\<close>

definition nt_mem_create ::
  "(int \<times> u64 \<times> (nat \<Rightarrow> u64)) option \<Rightarrow> u64 \<Rightarrow> u8 list \<Rightarrow> u8 list \<Rightarrow> int \<Rightarrow> nt_mem_info option" where
  "nt_mem_create shm sz descr param allow_oom =
     (if \<not> (MEM_MIN_SIZE \<le> sz \<and> sz \<le> MEM_MAX_SIZE) then None
      else case shm of
        None \<Rightarrow> None
      | Some (shm_id, base, cells) \<Rightarrow>
          (let (lo, hi) = mem_layout base sz (of_nat (length descr)) (of_nat (length param));
               total = hi - lo - 2 * 8;
               first = unat lo;
               m = mem_set_next_chunk first 0 (mem_set_prev_chunk first 0
                     (mem_set_chunk_size first (unat total) cells))
           in Some \<lparr>mi_cells = m,
                    mi_buckets = (replicate MEM_BUCKET_COUNT 0)[mem_bucket_by_size (unat total) := first],
                    mi_lo_bound = first, mi_hi_bound = unat hi,
                    mi_free_size = total, mi_used_size = 0, mi_orig_size = sz, mi_total_size = total,
                    mi_shm_id = shm_id, mi_allow_oom = allow_oom,
                    mi_mem_descr = descr, mi_mem_param = param\<rparr>))"

definition nt_mem_required_size :: "int \<Rightarrow> u8 list \<Rightarrow> u8 list \<Rightarrow> u64" where
  "nt_mem_required_size chunks_num descr param =
     7 + sizeof_nt_mem_info + (8 - 1) + 8 * of_nat MEM_BUCKET_COUNT +
     (of_nat (length descr) + 1) + (of_nat (length param) + 1) +
     ((8 - 1) + 8) + ((8 - 1) + 8) +
     of_int (chunks_num - 1) * 8 * 2 + of_int chunks_num * (24 - 1)"

section \<open>Statistics\<close>

text \<open>The walk of \<open>nt_mem_dump_stats\<close> along one free list: number, least and greatest size.\<close>

partial_function (option) mem_count_list ::
  "(nat \<Rightarrow> u64) \<Rightarrow> nat \<Rightarrow> u64 \<Rightarrow> u64 \<Rightarrow> u64 \<Rightarrow> (u64 \<times> u64 \<times> u64) option" where
  "mem_count_list m chunk counter min_size max_size =
     (if chunk \<noteq> 0 then
        mem_count_list m (mem_get_next_chunk m chunk) (counter + 1)
          (min min_size (of_nat (CHUNK_SIZE m chunk))) (max max_size (of_nat (CHUNK_SIZE m chunk)))
      else Some (counter, min_size, max_size))"

fun mem_count_buckets ::
  "(nat \<Rightarrow> u64) \<Rightarrow> nat list \<Rightarrow> u64 \<Rightarrow> u64 \<Rightarrow> u64 \<Rightarrow> (u64 \<times> u64 \<times> u64) option" where
  "mem_count_buckets m [] total_free min_size max_size = Some (total_free, min_size, max_size)"
| "mem_count_buckets m (chunk # bk) total_free min_size max_size =
     (case mem_count_list m chunk 0 min_size max_size of
        None \<Rightarrow> None
      | Some (counter, mn, mx) \<Rightarrow> mem_count_buckets m bk (total_free + counter) mn mx)"

text \<open>The reported numbers: chunks, free chunks, used chunks, least and greatest free size.\<close>

definition nt_mem_dump_stats :: "nt_mem_info \<Rightarrow> (u64 \<times> u64 \<times> u64 \<times> u64 \<times> u64) option" where
  "nt_mem_dump_stats info =
     (case mem_count_buckets (mi_cells info) (mi_buckets info) 0 (- 1) 0 of
        None \<Rightarrow> None
      | Some (total_free, mn, mx) \<Rightarrow>
          (let total = (mi_total_size info - mi_used_size info - mi_free_size info) div (2 * 8) + 1
           in Some (total, total_free, total - total_free, mn, mx)))"

end
