(* ===== verification/Mem_Layout.thy ===== *)
theory Mem_Layout
  imports Mem
begin

text \<open>
  The well-formed states of the allocator of Mem.thy and the facts about them that its
  operations need: the chunks tile the segment (\<open>tiles\<close>), every bucket is a doubly linked list
  (\<open>dll\<close>), and how the two survive writes elsewhere.
\<close>

section \<open>Header words\<close>

definition tag :: "bool \<Rightarrow> nat \<Rightarrow> u64" where
  "tag used s = (if used then MEM_FLG_USED OR of_nat s else of_nat s)"

lemma bit_flag: "bit MEM_FLG_USED i \<longleftrightarrow> i = 63"
  unfolding MEM_FLG_USED_def bit_push_bit_iff by (auto simp: bit_1_iff)

lemma bit_small:
  assumes "s < 2 ^ 63"
  shows "\<not> bit (of_nat s :: u64) 63"
proof -
  have "take_bit 63 s = s" using assms by (rule take_bit_nat_eq_self)
  then have "\<not> bit s 63" using bit_take_bit_iff [of 63 s 63] by simp
  then show ?thesis by (simp add: bit_of_nat_iff)
qed

lemma small_and_flag: "s < 2 ^ 63 \<Longrightarrow> (of_nat s :: u64) AND MEM_FLG_USED = 0"
  by (rule bit_word_eqI) (auto simp: bit_and_iff bit_flag bit_small)

lemma small_and_not_flag: "s < 2 ^ 63 \<Longrightarrow> (of_nat s :: u64) AND NOT MEM_FLG_USED = of_nat s"
  by (rule bit_word_eqI) (auto simp: bit_and_iff bit_not_iff bit_flag bit_small)

lemma flag_nonzero: "MEM_FLG_USED \<noteq> 0"
  using bit_flag [of 63] by auto

lemma tag_free: "s < 2 ^ 63 \<Longrightarrow> (tag used s AND MEM_FLG_USED = 0) = (\<not> used)"
  by (simp add: tag_def small_and_flag bit.conj_disj_distrib2 flag_nonzero)

lemma tag_size: "s < 2 ^ 63 \<Longrightarrow> unat (tag used s AND NOT MEM_FLG_USED) = s"
  by (simp add: tag_def bit.conj_disj_distrib2 small_and_not_flag unat_of_nat_small)

text \<open>\<open>hdr m a s u\<close>: the two header cells of a chunk at \<open>a\<close> say size \<open>s\<close> and used \<open>u\<close>.\<close>

definition hdr :: "(nat \<Rightarrow> u64) \<Rightarrow> nat \<Rightarrow> nat \<Rightarrow> bool \<Rightarrow> bool" where
  "hdr m a s u = (m a = tag u s \<and> m (a + 8 + s) = tag u s)"

lemma hdr_read:
  assumes "hdr m a s u" "s < 2 ^ 63"
  shows "CHUNK_SIZE m a = s" "FREE_CHUNK m a = (\<not> u)"
    "CHUNK_SIZE m (a + 8 + s) = s" "FREE_CHUNK m (a + 8 + s) = (\<not> u)"
  using assms by (simp_all add: hdr_def CHUNK_SIZE_def FREE_CHUNK_def tag_free tag_size)

lemma hdr_set: "hdr (mem_set_chunk_size a s m) a s False"
  by (simp add: hdr_def mem_set_chunk_size_def tag_def)

lemma hdr_set_used: "hdr (mem_set_used_chunk_size a s m) a s True"
  by (simp add: hdr_def mem_set_used_chunk_size_def tag_def)

section \<open>Tiles\<close>

text \<open>
  A list of chunks (size, used) from address \<open>a\<close> on. Every size is a multiple of 8 and at
  least \<open>MEM_MIN_ALLOC\<close>.
\<close>

type_synonym chunk = "nat \<times> bool"

definition span :: "chunk list \<Rightarrow> nat" where
  "span cs = sum_list (map (\<lambda>(s, u). s + 16) cs)"

fun tiles :: "(nat \<Rightarrow> u64) \<Rightarrow> nat \<Rightarrow> chunk list \<Rightarrow> bool" where
  "tiles m a [] = True"
| "tiles m a ((s, u) # cs) = (hdr m a s u \<and> 24 \<le> s \<and> 8 dvd s \<and> tiles m (a + 16 + s) cs)"

text \<open>The chunks with their addresses.\<close>

fun tset :: "nat \<Rightarrow> chunk list \<Rightarrow> (nat \<times> nat \<times> bool) set" where
  "tset a [] = {}"
| "tset a ((s, u) # cs) = insert (a, s, u) (tset (a + 16 + s) cs)"

lemma span_simps [simp]:
  "span [] = 0" "span ((s, u) # cs) = s + 16 + span cs" "span (cs @ ds) = span cs + span ds"
  by (simp_all add: span_def)

lemma tiles_append [simp]: "tiles m a (cs @ ds) = (tiles m a cs \<and> tiles m (a + span cs) ds)"
proof (induction cs arbitrary: a)
  case (Cons c cs)
  obtain s u where "c = (s, u)" by fastforce
  with Cons show ?case by (simp add: ac_simps)
qed simp

lemma tset_append [simp]: "tset a (cs @ ds) = tset a cs \<union> tset (a + span cs) ds"
proof (induction cs arbitrary: a)
  case (Cons c cs)
  obtain s u where "c = (s, u)" by fastforce
  with Cons show ?case by (simp add: ac_simps)
qed simp

lemma tset_range: "(b, s, u) \<in> tset a cs \<Longrightarrow> a \<le> b \<and> b + 16 + s \<le> a + span cs"
proof (induction cs arbitrary: a)
  case (Cons c cs)
  obtain s' u' where "c = (s', u')" by fastforce
  with Cons.prems Cons.IH [of "a + 16 + s'"] show ?case by auto
qed simp

lemma tset_split:
  "(b, s, u) \<in> tset a cs \<Longrightarrow> \<exists>xs ys. cs = xs @ (s, u) # ys \<and> b = a + span xs"
proof (induction cs arbitrary: a)
  case (Cons c cs)
  obtain s' u' where c: "c = (s', u')" by fastforce
  show ?case
  proof (cases "b = a \<and> s = s' \<and> u = u'")
    case True
    with c show ?thesis by (intro exI [of _ "[]"] exI [of _ cs]) auto
  next
    case False
    then have "(b, s, u) \<in> tset (a + 16 + s') cs" using Cons.prems c by auto
    from Cons.IH [OF this] obtain xs ys where "cs = xs @ (s, u) # ys" "b = a + 16 + s' + span xs" by blast
    with c show ?thesis by (intro exI [of _ "(s', u') # xs"] exI [of _ ys]) simp
  qed
qed simp

text \<open>Two different chunks do not overlap.\<close>

lemma tset_disjoint:
  "(b, s, u) \<in> tset a cs \<Longrightarrow> (b', s', u') \<in> tset a cs \<Longrightarrow>
   (b, s, u) = (b', s', u') \<or> b + 16 + s \<le> b' \<or> b' + 16 + s' \<le> b"
proof (induction cs arbitrary: a)
  case (Cons c cs)
  obtain t v where c: "c = (t, v)" by fastforce
  have "b + 16 + s \<le> b'" if "(b, s, u) = (a, t, v)" "(b', s', u') \<in> tset (a + 16 + t) cs"
    using tset_range [OF that(2)] that(1) by simp
  moreover have "b' + 16 + s' \<le> b" if "(b', s', u') = (a, t, v)" "(b, s, u) \<in> tset (a + 16 + t) cs"
    using tset_range [OF that(2)] that(1) by simp
  ultimately show ?case
    using Cons.prems Cons.IH [of "a + 16 + t"] c by auto
qed simp

lemma tset_inj: "(b, s, u) \<in> tset a cs \<Longrightarrow> (b, s', u') \<in> tset a cs \<Longrightarrow> s = s' \<and> u = u'"
  using tset_disjoint [of b s u a cs b s' u'] by auto

lemma tiles_tset:
  "tiles m a cs \<Longrightarrow> (b, s, u) \<in> tset a cs \<Longrightarrow> hdr m b s u \<and> 24 \<le> s \<and> 8 dvd s"
proof (induction cs arbitrary: a)
  case (Cons c cs)
  obtain s' u' where "c = (s', u')" by fastforce
  with Cons show ?case by auto
qed simp

lemma tiles_cong:
  "tiles m a cs \<Longrightarrow> (\<And>b s u. (b, s, u) \<in> tset a cs \<Longrightarrow> m' b = m b \<and> m' (b + 8 + s) = m (b + 8 + s)) \<Longrightarrow>
   tiles m' a cs"
proof (induction cs arbitrary: a)
  case (Cons c cs)
  obtain s' u' where c: "c = (s', u')" by fastforce
  have "tiles m' (a + 16 + s') cs"
    using Cons.prems c by (intro Cons.IH) auto
  moreover have "m' a = m a" "m' (a + 8 + s') = m (a + 8 + s')"
    using Cons.prems(2) [of a s' u'] c by auto
  ultimately show ?case using Cons.prems(1) c by (auto simp: hdr_def)
qed simp

section \<open>Doubly linked lists\<close>

lemma get_next_eq: "mem_get_next_chunk m c = unat (m (c + 16))"
  by (simp add: mem_get_next_chunk_def add.commute)

lemma get_prev_eq: "mem_get_prev_chunk m c = unat (m (c + 8))"
  by (simp add: mem_get_prev_chunk_def)

lemma set_next_eq: "mem_set_next_chunk c n m = m(c + 16 := of_nat n)"
  by (simp add: mem_set_next_chunk_def add.commute)

lemma set_prev_eq: "mem_set_prev_chunk c p m = m(c + 8 := of_nat p)"
  by (simp add: mem_set_prev_chunk_def)

fun dll :: "(nat \<Rightarrow> u64) \<Rightarrow> nat \<Rightarrow> nat list \<Rightarrow> nat \<Rightarrow> bool" where
  "dll m p [] h = (h = 0)"
| "dll m p (c # cs) h = (h = c \<and> c \<noteq> 0 \<and> mem_get_prev_chunk m c = p \<and> dll m c cs (mem_get_next_chunk m c))"

definition pcells :: "nat \<Rightarrow> nat set" where
  "pcells c = {c + 8, c + 16}"

lemma get_cong:
  assumes "\<And>x. x \<in> pcells c \<Longrightarrow> m' x = m x"
  shows "mem_get_prev_chunk m' c = mem_get_prev_chunk m c" "mem_get_next_chunk m' c = mem_get_next_chunk m c"
  using assms [of "c + 8"] assms [of "c + 16"]
  by (simp_all add: get_prev_eq get_next_eq pcells_def)

lemma dll_cong:
  "dll m p cs h \<Longrightarrow> (\<And>c x. c \<in> set cs \<Longrightarrow> x \<in> pcells c \<Longrightarrow> m' x = m x) \<Longrightarrow> dll m' p cs h"
proof (induction cs arbitrary: p h)
  case (Cons c cs)
  then have "mem_get_prev_chunk m' c = mem_get_prev_chunk m c" "mem_get_next_chunk m' c = mem_get_next_chunk m c"
    using get_cong [OF Cons.prems(2) [of c]] by simp_all
  with Cons show ?case by auto
qed simp

text \<open>
  \<open>separate N\<close>: the pointer cells of different nodes are different cells. The nodes are chunks,
  so they lie at least 40 bytes apart.
\<close>

definition separate :: "nat set \<Rightarrow> bool" where
  "separate N = (\<forall>c \<in> N. \<forall>d \<in> N. c \<noteq> d \<longrightarrow> pcells c \<inter> pcells d = {})"

lemma separateD: "separate N \<Longrightarrow> c \<in> N \<Longrightarrow> d \<in> N \<Longrightarrow> c \<noteq> d \<Longrightarrow> x \<in> pcells c \<Longrightarrow> x \<notin> pcells d"
  by (auto simp: separate_def)

lemma separate_subset: "separate N \<Longrightarrow> M \<subseteq> N \<Longrightarrow> separate M"
  by (auto simp: separate_def)

text \<open>A segment of a list that leads on to \<open>k\<close>.\<close>

fun seg :: "(nat \<Rightarrow> u64) \<Rightarrow> nat \<Rightarrow> nat list \<Rightarrow> nat \<Rightarrow> nat \<Rightarrow> bool" where
  "seg m p [] h k = (h = k)"
| "seg m p (c # cs) h k =
     (h = c \<and> c \<noteq> 0 \<and> mem_get_prev_chunk m c = p \<and> seg m c cs (mem_get_next_chunk m c) k)"

lemma dll_append: "dll m p (xs @ ys) h = (\<exists>k. seg m p xs h k \<and> dll m (last (p # xs)) ys k)"
  by (induction xs arbitrary: p h) auto

lemma seg_append: "seg m p (xs @ ys) h k = (\<exists>j. seg m p xs h j \<and> seg m (last (p # xs)) ys j k)"
  by (induction xs arbitrary: p h) auto

lemma seg_cong:
  "seg m p cs h k \<Longrightarrow> (\<And>c x. c \<in> set cs \<Longrightarrow> x \<in> pcells c \<Longrightarrow> m' x = m x) \<Longrightarrow> seg m' p cs h k"
proof (induction cs arbitrary: p h)
  case (Cons c cs)
  then have "mem_get_prev_chunk m' c = mem_get_prev_chunk m c" "mem_get_next_chunk m' c = mem_get_next_chunk m c"
    using get_cong [OF Cons.prems(2) [of c]] by simp_all
  with Cons show ?case by auto
qed simp

lemma get_set_simps [simp]:
  "mem_get_next_chunk (m(x := v)) c = (if x = c + 16 then unat v else mem_get_next_chunk m c)"
  "mem_get_prev_chunk (m(x := v)) c = (if x = c + 8 then unat v else mem_get_prev_chunk m c)"
  by (simp_all add: get_next_eq get_prev_eq)

text \<open>The cells \<open>mem_link_chunk\<close> and \<open>mem_unlink_chunk\<close> write.\<close>

definition link_cells :: "nat \<Rightarrow> nat \<Rightarrow> (nat \<Rightarrow> u64) \<Rightarrow> nat \<Rightarrow> u64" where
  "link_cells c first m =
     mem_set_next_chunk c first (mem_set_prev_chunk c 0 (if first \<noteq> 0 then mem_set_prev_chunk first c m else m))"

lemma link_cells_frame:
  "x \<notin> pcells c \<Longrightarrow> (first \<noteq> 0 \<Longrightarrow> x \<notin> pcells first) \<Longrightarrow> link_cells c first m x = m x"
  by (auto simp: link_cells_def set_next_eq set_prev_eq pcells_def)

lemma dll_link:
  assumes l: "dll m 0 cs h" and sep: "separate (insert c (set cs))" and new: "c \<notin> set cs" "distinct cs"
    and c: "c \<noteq> 0" "c < 2 ^ 64" "\<forall>d \<in> set cs. d < 2 ^ 64"
  shows "dll (link_cells c h m) 0 (c # cs) c"
proof (cases cs)
  case Nil
  then show ?thesis using l c
    by (simp add: link_cells_def set_next_eq set_prev_eq)
next
  case (Cons d ds)
  then have d: "h = d" "d \<noteq> 0" "dll m d ds (mem_get_next_chunk m d)" "d \<noteq> c" "d \<notin> set ds" "d < 2 ^ 64"
    using l new c by auto
  have ne: "d + 8 \<noteq> c + 8" "d + 8 \<noteq> c + 16" "d + 16 \<noteq> c + 8" "d + 16 \<noteq> c + 16"
    using separateD [OF sep, of c d "c + 8"] separateD [OF sep, of c d "c + 16"] d(4) Cons
    by (simp_all add: pcells_def)
  have "dll (link_cells c h m) d ds (mem_get_next_chunk m d)"
  proof (rule dll_cong [OF d(3)])
    fix e x assume e: "e \<in> set ds" "x \<in> pcells e"
    then have "x \<notin> pcells c" "x \<notin> pcells d"
      using separateD [OF sep, of e _ x] new(1) d(5) Cons by auto
    then show "link_cells c h m x = m x" by (simp add: link_cells_frame d(1))
  qed
  then show ?thesis
    using Cons d(1,2,6) c ne
    by (simp add: link_cells_def set_next_eq set_prev_eq unat_of_nat_small)
qed

definition unlink_cells :: "nat \<Rightarrow> (nat \<Rightarrow> u64) \<Rightarrow> nat \<Rightarrow> u64" where
  "unlink_cells c m =
     (let p = mem_get_prev_chunk m c; n = mem_get_next_chunk m c;
          m = (if p \<noteq> 0 then mem_set_next_chunk p n m else m)
      in if n \<noteq> 0 then mem_set_prev_chunk n p m else m)"

text \<open>Unlinking \<open>c\<close>, which is between \<open>xs\<close> and \<open>ys\<close>.\<close>

lemma dll_neighbours:
  assumes "dll m 0 (xs @ c # ys) h"
  shows "mem_get_prev_chunk m c = last (0 # xs)" "mem_get_next_chunk m c = (case ys of [] \<Rightarrow> 0 | d # ds \<Rightarrow> d)"
    "c \<noteq> 0" "0 \<notin> set xs" "0 \<notin> set ys" "xs = [] \<longleftrightarrow> last (0 # xs) = 0" "h = (case xs of [] \<Rightarrow> c | d # ds \<Rightarrow> d)"
proof -
  have nz: "0 \<notin> set zs" if "dll m p zs h" for p zs h
    using that by (induction zs arbitrary: p h) auto
  show "0 \<notin> set xs" "0 \<notin> set ys" "c \<noteq> 0" using nz [OF assms] by auto
  then show "xs = [] \<longleftrightarrow> last (0 # xs) = 0" by (cases "xs = []") (simp, metis last_ConsR last_in_set)
  show "mem_get_prev_chunk m c = last (0 # xs)" using assms by (simp add: dll_append)
  show "mem_get_next_chunk m c = (case ys of [] \<Rightarrow> 0 | d # ds \<Rightarrow> d)"
    using assms by (cases ys) (auto simp: dll_append)
  show "h = (case xs of [] \<Rightarrow> c | d # ds \<Rightarrow> d)" using assms by (cases xs) auto
qed

lemma unlink_cells_eq:
  assumes "dll m 0 (xs @ c # ys) h"
  shows "unlink_cells c m =
    (let p = last (0 # xs); n = (case ys of [] \<Rightarrow> 0 | d # ds \<Rightarrow> d);
         m = (if xs = [] then m else m(last xs + 16 := of_nat n))
     in if ys = [] then m else m(hd ys + 8 := of_nat p))"
proof -
  note N = dll_neighbours [OF assms]
  have "last xs \<noteq> 0" if "xs \<noteq> []" using N(6) that by simp
  moreover have "hd ys \<noteq> 0" if "ys \<noteq> []" using N(5) that by (metis hd_in_set)
  ultimately show ?thesis
    unfolding unlink_cells_def N(1,2) Let_def set_next_eq set_prev_eq
    by (cases ys; cases "xs = []") simp_all
qed

lemma unlink_cells_frame:
  assumes l: "dll m 0 (xs @ c # ys) h" and x: "\<And>d. d \<in> set xs \<union> set ys \<Longrightarrow> x \<notin> pcells d"
  shows "unlink_cells c m x = m x"
proof -
  note N = dll_neighbours [OF l]
  have "x \<notin> pcells (last xs)" if "xs \<noteq> []" using x [of "last xs"] that by simp
  moreover have "x \<notin> pcells (hd ys)" if "ys \<noteq> []" using x [of "hd ys"] that by simp
  ultimately show ?thesis
    using N(1,2,4,5) unfolding unlink_cells_def
    by (cases ys) (auto simp: Let_def set_next_eq set_prev_eq pcells_def split: if_splits)
qed

lemma seg_relink:
  assumes s: "seg m p (xs @ [d]) h k" and sep: "separate (insert d (set xs))" and d: "d \<notin> set xs"
    and m': "\<And>e x. e \<in> set xs \<Longrightarrow> x \<in> pcells e \<Longrightarrow> m' x = m x"
    "mem_get_prev_chunk m' d = mem_get_prev_chunk m d" "mem_get_next_chunk m' d = k'"
  shows "seg m' p (xs @ [d]) h k'"
  using s m' by (auto simp: seg_append intro: seg_cong)

lemma dll_relink:
  assumes l: "dll m p (d # ds) h" and m': "\<And>e x. e \<in> set ds \<Longrightarrow> x \<in> pcells e \<Longrightarrow> m' x = m x"
    "mem_get_prev_chunk m' d = p'" "mem_get_next_chunk m' d = mem_get_next_chunk m d"
  shows "dll m' p' (d # ds) h"
  using l m' by (auto intro: dll_cong)

lemma dll_unlink:
  assumes l: "dll m 0 (xs @ c # ys) h" and sep: "separate (set (xs @ c # ys))" and dis: "distinct (xs @ c # ys)"
    and small: "\<forall>d \<in> set (xs @ c # ys). d < 2 ^ 64"
  shows "dll (unlink_cells c m) 0 (xs @ ys) (if xs = [] then mem_get_next_chunk m c else h)"
proof -
  note N = dll_neighbours [OF l]
  let ?m = "unlink_cells c m" and ?p = "last (0 # xs)" and ?n = "mem_get_next_chunk m c"
  from l obtain k where k: "seg m 0 xs h c" "dll m c ys ?n" by (auto simp: dll_append)
  have off: "m x = ?m x" if "x \<in> pcells e" "e \<in> set xs \<union> set ys" "xs \<noteq> [] \<Longrightarrow> e \<noteq> last xs" "ys \<noteq> [] \<Longrightarrow> e \<noteq> hd ys" for e x
  proof -
    have "x \<notin> pcells (last xs)" if "xs \<noteq> []"
      using separateD [OF sep, of e "last xs" x] \<open>x \<in> pcells e\<close> \<open>e \<in> _\<close> \<open>xs \<noteq> [] \<Longrightarrow> e \<noteq> last xs\<close> that by auto
    moreover have "x \<notin> pcells (hd ys)" if "ys \<noteq> []"
      using separateD [OF sep, of e "hd ys" x] \<open>x \<in> pcells e\<close> \<open>e \<in> _\<close> \<open>ys \<noteq> [] \<Longrightarrow> e \<noteq> hd ys\<close> that by auto
    ultimately show ?thesis
      using N(1,2,4,5) unfolding unlink_cells_def
      by (cases ys) (auto simp: Let_def set_next_eq set_prev_eq pcells_def split: if_splits)
  qed
  have pn: "x \<noteq> y" if "x \<in> pcells (last xs)" "y \<in> pcells (hd ys)" "xs \<noteq> []" "ys \<noteq> []" for x y
  proof -
    have "last xs \<noteq> hd ys" 
      using dis that(3,4) by (metis distinct_append disjoint_iff hd_in_set last_in_set list.set_intros(2))
    then show ?thesis using separateD [OF sep, of "last xs" "hd ys" x] that by auto
  qed
  have xy: "e \<noteq> last xs" if "e \<in> set ys" "xs \<noteq> []" for e
    using dis that by (metis distinct_append disjoint_iff last_in_set list.set_intros(2))
  have yx: "e \<noteq> hd ys" if "e \<in> set xs" "ys \<noteq> []" for e
    using dis that by (metis distinct_append disjoint_iff hd_in_set list.set_intros(2))
  have small_p: "?p < 2 ^ 64" using small by (cases "xs = []") auto
  have small_n: "?n < 2 ^ 64" using small N(2) by (cases ys) auto
  have dllys: "dll ?m ?p ys ?n"
  proof (cases ys)
    case Nil
    then show ?thesis using N(2) by simp
  next
    case (Cons d ds)
    then have "d \<notin> set ds" using dis by simp
    have n: "?n = d" "d \<noteq> 0" using N(2,5) Cons by auto
    show ?thesis
      unfolding Cons
    proof (rule dll_relink [of m c])
      show "dll m c (d # ds) ?n" using k(2) Cons by simp
      show "?m x = m x" if "e \<in> set ds" "x \<in> pcells e" for e x
      proof -
        have "e \<noteq> d" "e \<in> set ys" using that(1) Cons \<open>d \<notin> set ds\<close> by auto
        then show ?thesis using off [OF that(2)] xy [of e] Cons by simp
      qed
      show "mem_get_prev_chunk ?m d = ?p" "mem_get_next_chunk ?m d = mem_get_next_chunk m d"
        using pn [of "last xs + 16" "d + 16"] pn [of "last xs + 16" "d + 8"] Cons small_p
        by (auto simp: unlink_cells_eq [OF l] Let_def unat_of_nat_small pcells_def)
    qed
  qed
  show ?thesis
  proof (cases xs rule: rev_cases)
    case Nil
    then show ?thesis using dllys by simp
  next
    case (snoc zs e)
    have e: "mem_get_prev_chunk m c = e" "e \<noteq> 0" using N(1,4) snoc by auto
    have "seg ?m 0 (zs @ [e]) h ?n"
    proof (rule seg_relink)
      show "seg m 0 (zs @ [e]) h c" using k(1) snoc by simp
      show "separate (insert e (set zs))" using sep snoc by (auto intro: separate_subset)
      show "e \<notin> set zs" using dis snoc by simp
      show "?m x = m x" if "a \<in> set zs" "x \<in> pcells a" for a x
      proof -
        have "a \<noteq> e" "a \<in> set xs" using that(1) snoc dis by auto
        then show ?thesis using off [OF that(2)] yx [of a] snoc by simp
      qed
      show "mem_get_prev_chunk ?m e = mem_get_prev_chunk m e" "mem_get_next_chunk ?m e = ?n"
        using pn [of "e + 8" "hd ys + 8"] pn [of "e + 16" "hd ys + 8"] snoc small_n N(2)
        by (cases ys; auto simp: unlink_cells_eq [OF l] Let_def unat_of_nat_small pcells_def)+
    qed
    then have "dll ?m 0 ((zs @ [e]) @ ys) h"
      using dllys snoc unfolding dll_append [of ?m 0 "zs @ [e]" ys h] by auto
    then show ?thesis using snoc by simp
  qed
qed

section \<open>The buckets\<close>

definition buckets_ok :: "(nat \<Rightarrow> u64) \<Rightarrow> nat list \<Rightarrow> (nat \<Rightarrow> nat set) \<Rightarrow> bool" where
  "buckets_ok m bk P = (length bk = 30 \<and> (\<forall>i < 30. \<exists>cs. dll m 0 cs (bk ! i) \<and> distinct cs \<and> set cs = P i))"

text \<open>The nodes of the lists: in one list each, with pointer cells of their own.\<close>

definition nodes_ok :: "(nat \<Rightarrow> nat set) \<Rightarrow> bool" where
  "nodes_ok P = (separate (\<Union>i. P i) \<and> (\<forall>i j. i \<noteq> j \<longrightarrow> P i \<inter> P j = {}) \<and> (\<forall>i. \<forall>c \<in> P i. c < 2 ^ 64))"

lemma buckets_ok_cong:
  assumes "buckets_ok m bk P" "\<And>i c x. i < 30 \<Longrightarrow> c \<in> P i \<Longrightarrow> x \<in> pcells c \<Longrightarrow> m' x = m x"
  shows "buckets_ok m' bk P"
  unfolding buckets_ok_def
proof (intro conjI allI impI)
  fix i :: nat assume i: "i < 30"
  then obtain cs where cs: "dll m 0 cs (bk ! i)" "distinct cs" "set cs = P i"
    using assms(1) by (auto simp: buckets_ok_def)
  have "dll m' 0 cs (bk ! i)" by (rule dll_cong [OF cs(1)]) (use assms(2) i cs(3) in auto)
  then show "\<exists>cs. dll m' 0 cs (bk ! i) \<and> distinct cs \<and> set cs = P i" using cs by blast
qed (use assms(1) in \<open>simp add: buckets_ok_def\<close>)

lemma dll_head: "dll m p cs h \<Longrightarrow> h \<noteq> 0 \<Longrightarrow> h \<in> set cs"
  by (cases cs) auto

lemma buckets_link:
  assumes ok: "buckets_ok m bk P" and nodes: "nodes_ok (P(i := insert c (P i)))" and i: "i < 30"
    and c: "\<And>j. c \<notin> P j" "c \<noteq> 0"
  shows "buckets_ok (link_cells c (bk ! i) m) (bk[i := c]) (P(i := insert c (P i)))"
    and "x \<notin> pcells c \<Longrightarrow> (\<And>d. d \<in> P i \<Longrightarrow> x \<notin> pcells d) \<Longrightarrow> link_cells c (bk ! i) m x = m x"
proof -
  let ?m = "link_cells c (bk ! i) m" and ?P = "P(i := insert c (P i))"
  obtain cs where cs: "dll m 0 cs (bk ! i)" "distinct cs" "set cs = P i"
    using ok i by (auto simp: buckets_ok_def)
  have head: "bk ! i \<in> P i" if "bk ! i \<noteq> 0" using dll_head [OF cs(1)] that cs(3) by simp
  show frame: "?m x = m x" if "x \<notin> pcells c" "\<And>d. d \<in> P i \<Longrightarrow> x \<notin> pcells d" for x
    using that head by (intro link_cells_frame) auto
  have sep: "separate (\<Union>j. ?P j)" and dis: "\<And>j k. j \<noteq> k \<Longrightarrow> ?P j \<inter> ?P k = {}" and small: "\<And>j d. d \<in> ?P j \<Longrightarrow> d < 2 ^ 64"
    using nodes by (auto simp: nodes_ok_def)
  have "separate (insert c (set cs))"
    using sep by (rule separate_subset) (auto simp: cs(3))
  moreover have "c < 2 ^ 64" "\<forall>d \<in> set cs. d < 2 ^ 64" using small [of _ i] cs(3) by auto
  ultimately have l: "dll ?m 0 (c # cs) c"
    using c cs by (intro dll_link) auto
  have "\<exists>cs. dll ?m 0 cs (bk[i := c] ! j) \<and> distinct cs \<and> set cs = ?P j" if j: "j < 30" for j
  proof (cases "j = i")
    case True
    then show ?thesis
      using l cs c(1) i ok by (intro exI [of _ "c # cs"]) (auto simp: buckets_ok_def)
  next
    case False
    obtain ds where ds: "dll m 0 ds (bk ! j)" "distinct ds" "set ds = P j"
      using ok j by (auto simp: buckets_ok_def)
    have "dll ?m 0 ds (bk ! j)"
    proof (rule dll_cong [OF ds(1)])
      fix d x assume d: "d \<in> set ds" "x \<in> pcells d"
      have "x \<notin> pcells e" if e: "e \<in> insert c (P i)" for e
      proof -
        have "e \<noteq> d" using e dis [of i j] d(1) ds(3) False by auto
        moreover have "e \<in> (\<Union>j. ?P j)" "d \<in> (\<Union>j. ?P j)"
          using e d(1) ds(3) False by (auto intro!: exI [of _ i] exI [of _ j])
        ultimately show ?thesis using separateD [OF sep, of d e x] d(2) by auto
      qed
      then show "?m x = m x" by (intro frame) auto
    qed
    then show ?thesis using ds False by auto
  qed
  then show "buckets_ok ?m (bk[i := c]) ?P" using ok by (simp add: buckets_ok_def)
qed

lemma buckets_unlink:
  assumes ok: "buckets_ok m bk P" and nodes: "nodes_ok P" and i: "i < 30" and c: "c \<in> P i"
  defines "bk' \<equiv> (if mem_get_prev_chunk m c \<noteq> 0 then bk else bk[i := mem_get_next_chunk m c])"
  shows "buckets_ok (unlink_cells c m) bk' (P(i := P i - {c}))"
    and "(\<And>d. d \<in> P i \<Longrightarrow> d \<noteq> c \<Longrightarrow> x \<notin> pcells d) \<Longrightarrow> unlink_cells c m x = m x"
proof -
  let ?m = "unlink_cells c m" and ?P = "P(i := P i - {c})"
  have sep: "separate (\<Union>j. P j)" and dis: "\<And>j k. j \<noteq> k \<Longrightarrow> P j \<inter> P k = {}" and small: "\<And>j d. d \<in> P j \<Longrightarrow> d < 2 ^ 64"
    using nodes by (auto simp: nodes_ok_def)
  obtain cs where cs: "dll m 0 cs (bk ! i)" "distinct cs" "set cs = P i"
    using ok i by (auto simp: buckets_ok_def)
  obtain xs ys where xy: "cs = xs @ c # ys" using c cs(3) by (metis split_list)
  note l = cs(1) [unfolded xy]
  have rest: "set (xs @ ys) = P i - {c}" "distinct (xs @ ys)" using cs(2,3) xy by auto
  show frame: "?m x = m x" if "\<And>d. d \<in> P i \<Longrightarrow> d \<noteq> c \<Longrightarrow> x \<notin> pcells d" for x
    using that rest by (intro unlink_cells_frame [OF l]) auto
  have "separate (set (xs @ c # ys))"
    using sep by (rule separate_subset) (use cs(3) xy in auto)
  then have "dll ?m 0 (xs @ ys) (if xs = [] then mem_get_next_chunk m c else bk ! i)"
    using cs(2,3) xy small by (intro dll_unlink [OF l]) auto
  moreover have "(mem_get_prev_chunk m c = 0) = (xs = [])"
    using dll_neighbours(1,6) [OF l] by metis
  then have "bk' ! i = (if xs = [] then mem_get_next_chunk m c else bk ! i)"
    using i ok by (simp add: bk'_def buckets_ok_def)
  ultimately have li: "dll ?m 0 (xs @ ys) (bk' ! i)" by simp
  have "\<exists>cs. dll ?m 0 cs (bk' ! j) \<and> distinct cs \<and> set cs = ?P j" if j: "j < 30" for j
  proof (cases "j = i")
    case True
    then show ?thesis using li rest by (intro exI [of _ "xs @ ys"]) auto
  next
    case False
    obtain ds where ds: "dll m 0 ds (bk ! j)" "distinct ds" "set ds = P j"
      using ok j by (auto simp: buckets_ok_def)
    have "dll ?m 0 ds (bk ! j)"
    proof (rule dll_cong [OF ds(1)])
      fix d x assume d: "d \<in> set ds" "x \<in> pcells d"
      have "x \<notin> pcells e" if e: "e \<in> P i" for e
        using separateD [OF sep, of d e x] e d ds(3) dis [OF False] by auto
      then show "?m x = m x" by (intro frame) auto
    qed
    then show ?thesis using ds False by (auto simp: bk'_def)
  qed
  then show "buckets_ok ?m bk' ?P" using ok by (simp add: buckets_ok_def bk'_def)
qed

section \<open>The free chunks of a tiling\<close>

text \<open>
  \<open>free_at lo ds i\<close>: the free chunks of bucket \<open>i\<close> in the chunk list \<open>ds\<close>; \<open>pc\<close>: their pointer
  cells; \<open>lists\<close>: the buckets hold exactly these chunks. While an operation runs, the list \<open>ds\<close>
  that describes the buckets may differ from the one that describes the headers.
\<close>

definition free_at :: "nat \<Rightarrow> chunk list \<Rightarrow> nat \<Rightarrow> nat set" where
  "free_at lo ds i = {c. \<exists>s. (c, s, False) \<in> tset lo ds \<and> mem_bucket_by_size s = i}"

definition pc :: "nat \<Rightarrow> chunk list \<Rightarrow> nat set" where
  "pc lo ds = {x. \<exists>c s. (c, s, False) \<in> tset lo ds \<and> x \<in> pcells c}"

definition sizes_ok :: "chunk list \<Rightarrow> bool" where
  "sizes_ok ds = (\<forall>d \<in> set ds. 24 \<le> fst d)"

definition lists :: "(nat \<Rightarrow> u64) \<Rightarrow> nat list \<Rightarrow> nat \<Rightarrow> chunk list \<Rightarrow> bool" where
  "lists m bk lo ds =
     (sizes_ok ds \<and> 0 < lo \<and> lo + span ds < 2 ^ 63 \<and> buckets_ok m bk (free_at lo ds))"

lemma sizes_ok_simps [simp]:
  "sizes_ok []" "sizes_ok ((s, u) # ds) = (24 \<le> s \<and> sizes_ok ds)"
  "sizes_ok (ds @ es) = (sizes_ok ds \<and> sizes_ok es)"
  by (auto simp: sizes_ok_def)

lemma sizes_ok_tset: "sizes_ok ds \<Longrightarrow> (c, s, u) \<in> tset a ds \<Longrightarrow> 24 \<le> s"
  using tset_split [of c s u a ds] by (auto simp: sizes_ok_def)

lemma tiles_sizes: "tiles m a cs \<Longrightarrow> sizes_ok cs"
  by (induction m a cs rule: tiles.induct) auto

lemma mem_bucket_less: "mem_bucket_by_size s < 30"
  by (auto simp: mem_bucket_by_size_def)

lemma free_at_simps [simp]:
  "free_at a [] i = {}"
  "free_at a ((s, u) # ds) i =
     (if \<not> u \<and> mem_bucket_by_size s = i then insert a (free_at (a + 16 + s) ds i) else free_at (a + 16 + s) ds i)"
  "free_at a (ds @ es) i = free_at a ds i \<union> free_at (a + span ds) es i"
  by (auto simp: free_at_def)

lemma pc_simps [simp]:
  "pc a [] = {}"
  "pc a ((s, u) # ds) = (if u then {} else pcells a) \<union> pc (a + 16 + s) ds"
  "pc a (ds @ es) = pc a ds \<union> pc (a + span ds) es"
  by (auto simp: pc_def)

lemma free_at_range: "c \<in> free_at a ds i \<Longrightarrow> a \<le> c \<and> c + 16 \<le> a + span ds"
  using tset_range by (fastforce simp: free_at_def)

lemma pc_range:
  assumes "sizes_ok ds" "x \<in> pc a ds"
  shows "a + 8 \<le> x \<and> x + 24 \<le> a + span ds"
  using assms sizes_ok_tset [OF assms(1)] tset_range by (fastforce simp: pc_def pcells_def)

text \<open>No header cell is a pointer cell.\<close>

lemma hdr_not_pc:
  assumes "sizes_ok ds" "(b, s, u) \<in> tset a ds"
  shows "b \<notin> pc a ds" "b + 8 + s \<notin> pc a ds"
proof -
  have "b \<notin> pcells c \<and> b + 8 + s \<notin> pcells c" if c: "(c, t, False) \<in> tset a ds" for c t
  proof -
    have "24 \<le> t" using sizes_ok_tset [OF assms(1) c] .
    then show ?thesis using tset_disjoint [OF assms(2) c] by (auto simp: pcells_def)
  qed
  then show "b \<notin> pc a ds" "b + 8 + s \<notin> pc a ds" by (auto simp: pc_def)
qed

lemma free_nodes_ok:
  assumes "sizes_ok ds" "a + span ds < 2 ^ 63"
  shows "nodes_ok (free_at a ds)"
  unfolding nodes_ok_def separate_def
proof (intro conjI allI impI ballI)
  fix c d assume c: "c \<in> (\<Union>i. free_at a ds i)" and d: "d \<in> (\<Union>i. free_at a ds i)" and "c \<noteq> d"
  from c d obtain s t where st: "(c, s, False) \<in> tset a ds" "(d, t, False) \<in> tset a ds"
    by (auto simp: free_at_def)
  then have "24 \<le> s" "24 \<le> t" using sizes_ok_tset assms(1) by blast+
  moreover have "c + 16 + s \<le> d \<or> d + 16 + t \<le> c"
    using tset_disjoint [OF st] \<open>c \<noteq> d\<close> by auto
  ultimately show "pcells c \<inter> pcells d = {}" by (auto simp: pcells_def)
next
  fix i j :: nat assume "i \<noteq> j"
  then show "free_at a ds i \<inter> free_at a ds j = {}"
    unfolding free_at_def using tset_inj by blast
next
  fix i c assume "c \<in> free_at a ds i"
  then show "c < 2 ^ 64" using free_at_range [of c a ds i] assms(2) by simp
qed

lemma free_at_pc: "c \<in> free_at lo ds i \<Longrightarrow> x \<in> pcells c \<Longrightarrow> x \<in> pc lo ds"
  unfolding free_at_def pc_def by blast

lemma lists_cong:
  assumes "lists m bk lo ds" "\<And>x. x \<in> pc lo ds \<Longrightarrow> m' x = m x"
  shows "lists m' bk lo ds"
proof -
  have "buckets_ok m' bk (free_at lo ds)"
  proof (rule buckets_ok_cong)
    show "buckets_ok m bk (free_at lo ds)" using assms(1) by (simp add: lists_def)
  qed (rule assms(2) [OF free_at_pc])
  with assms(1) show ?thesis by (simp add: lists_def)
qed

text \<open>Linking and unlinking the chunk between \<open>xs\<close> and \<open>ys\<close>.\<close>

lemma free_at_insert:
  "free_at lo (xs @ (s, False) # ys) =
     (free_at lo (xs @ (s, True) # ys))
       (mem_bucket_by_size s := insert (lo + span xs) (free_at lo (xs @ (s, True) # ys) (mem_bucket_by_size s)))"
  by (auto simp: fun_eq_iff)

lemma free_at_remove:
  "free_at lo (xs @ (s, True) # ys) =
     (free_at lo (xs @ (s, False) # ys))
       (mem_bucket_by_size s := free_at lo (xs @ (s, False) # ys) (mem_bucket_by_size s) - {lo + span xs})"
  using free_at_range [of "lo + span xs" lo xs] free_at_range [of "lo + span xs" "lo + span xs + 16 + s" ys]
  by (fastforce simp: fun_eq_iff)

lemma not_free_at:
  "lo + span xs \<notin> free_at lo (xs @ (s, True) # ys) i"
  using free_at_range [of "lo + span xs" lo xs i] free_at_range [of "lo + span xs" "lo + span xs + 16 + s" ys i]
  by auto

lemma lists_shape:
  "lists m bk lo ds \<Longrightarrow> sizes_ok es \<Longrightarrow> span es = span ds \<Longrightarrow> buckets_ok m' bk' (free_at lo es) \<Longrightarrow>
   lists m' bk' lo es"
  by (simp add: lists_def)

lemma mem_link_eq:
  "mem_link_chunk info c =
     (let i = mem_bucket_by_size (CHUNK_SIZE (mi_cells info) c)
      in info\<lparr>mi_cells := link_cells c (mi_buckets info ! i) (mi_cells info),
              mi_buckets := (mi_buckets info)[i := c]\<rparr>)"
  by (simp add: mem_link_chunk_def link_cells_def Let_def)

lemma mem_unlink_eq:
  "mem_unlink_chunk info c =
     (let i = mem_bucket_by_size (CHUNK_SIZE (mi_cells info) c)
      in info\<lparr>mi_cells := unlink_cells c (mi_cells info),
              mi_buckets := (if mem_get_prev_chunk (mi_cells info) c \<noteq> 0 then mi_buckets info
                             else (mi_buckets info)[i := mem_get_next_chunk (mi_cells info) c])\<rparr>)"
  by (simp add: mem_unlink_chunk_def unlink_cells_def Let_def)

lemma link_unlink_fields [simp]:
  "mi_lo_bound (mem_link_chunk info c) = mi_lo_bound info" "mi_lo_bound (mem_unlink_chunk info c) = mi_lo_bound info"
  "mi_hi_bound (mem_link_chunk info c) = mi_hi_bound info" "mi_hi_bound (mem_unlink_chunk info c) = mi_hi_bound info"
  "mi_free_size (mem_link_chunk info c) = mi_free_size info" "mi_free_size (mem_unlink_chunk info c) = mi_free_size info"
  "mi_used_size (mem_link_chunk info c) = mi_used_size info" "mi_used_size (mem_unlink_chunk info c) = mi_used_size info"
  "mi_total_size (mem_link_chunk info c) = mi_total_size info" "mi_total_size (mem_unlink_chunk info c) = mi_total_size info"
  "mi_allow_oom (mem_link_chunk info c) = mi_allow_oom info" "mi_allow_oom (mem_unlink_chunk info c) = mi_allow_oom info"
  by (simp_all add: mem_link_eq mem_unlink_eq Let_def)

lemma link_lists:
  assumes l: "lists (mi_cells info) (mi_buckets info) lo (xs @ (s, True) # ys)"
    and s: "CHUNK_SIZE (mi_cells info) (lo + span xs) = s"
  shows "lists (mi_cells (mem_link_chunk info (lo + span xs))) (mi_buckets (mem_link_chunk info (lo + span xs)))
      lo (xs @ (s, False) # ys)"
    and "x \<notin> pc lo (xs @ (s, False) # ys) \<Longrightarrow> mi_cells (mem_link_chunk info (lo + span xs)) x = mi_cells info x"
proof -
  let ?c = "lo + span xs" and ?i = "mem_bucket_by_size s" and ?P = "free_at lo (xs @ (s, True) # ys)"
  have sz: "sizes_ok (xs @ (s, False) # ys)" "0 < lo" "lo + span (xs @ (s, False) # ys) < 2 ^ 63"
      "buckets_ok (mi_cells info) (mi_buckets info) ?P"
    using l by (simp_all add: lists_def)
  have nodes: "nodes_ok (?P(?i := insert ?c (?P ?i)))"
    using free_nodes_ok [OF sz(1,3)] by (simp only: free_at_insert)
  have c: "?c \<noteq> 0" using sz(2) by simp
  note B = buckets_link [OF sz(4) nodes mem_bucket_less not_free_at c]
  show "lists (mi_cells (mem_link_chunk info ?c)) (mi_buckets (mem_link_chunk info ?c)) lo (xs @ (s, False) # ys)"
    using B(1) sz s unfolding lists_def free_at_insert
    by (simp add: mem_link_eq Let_def del: free_at_simps)
  show "mi_cells (mem_link_chunk info ?c) x = mi_cells info x" if x: "x \<notin> pc lo (xs @ (s, False) # ys)"
  proof -
    have "x \<notin> pcells d" if "d \<in> ?P ?i" for d
    proof -
      have "d \<in> free_at lo (xs @ (s, False) # ys) ?i" using that by auto
      then show ?thesis using x free_at_pc by blast
    qed
    moreover have "x \<notin> pcells ?c" using x by simp
    ultimately show ?thesis using B(2) [of x] s by (simp add: mem_link_eq Let_def)
  qed
qed

lemma unlink_lists:
  assumes l: "lists (mi_cells info) (mi_buckets info) lo (xs @ (s, False) # ys)"
    and s: "CHUNK_SIZE (mi_cells info) (lo + span xs) = s"
  shows "lists (mi_cells (mem_unlink_chunk info (lo + span xs))) (mi_buckets (mem_unlink_chunk info (lo + span xs)))
      lo (xs @ (s, True) # ys)"
    and "x \<notin> pc lo (xs @ (s, True) # ys) \<Longrightarrow> mi_cells (mem_unlink_chunk info (lo + span xs)) x = mi_cells info x"
proof -
  let ?c = "lo + span xs" and ?i = "mem_bucket_by_size s" and ?P = "free_at lo (xs @ (s, False) # ys)"
  have sz: "sizes_ok (xs @ (s, False) # ys)" "0 < lo" "lo + span (xs @ (s, False) # ys) < 2 ^ 63"
      "buckets_ok (mi_cells info) (mi_buckets info) ?P"
    using l by (simp_all add: lists_def)
  have c: "?c \<in> ?P ?i" by simp
  note B = buckets_unlink [OF sz(4) free_nodes_ok [OF sz(1,3)] mem_bucket_less c]
  show "lists (mi_cells (mem_unlink_chunk info ?c)) (mi_buckets (mem_unlink_chunk info ?c)) lo (xs @ (s, True) # ys)"
    using B(1) sz s unfolding lists_def free_at_remove
    by (simp add: mem_unlink_eq Let_def del: free_at_simps)
  show "mi_cells (mem_unlink_chunk info ?c) x = mi_cells info x" if x: "x \<notin> pc lo (xs @ (s, True) # ys)"
  proof -
    have "x \<notin> pcells d" if "d \<in> ?P ?i" "d \<noteq> ?c" for d
    proof -
      have "d \<in> free_at lo (xs @ (s, True) # ys) ?i" using that by (auto split: if_splits)
      then show ?thesis using x free_at_pc by blast
    qed
    then show ?thesis using B(2) [of x] s by (simp add: mem_unlink_eq Let_def)
  qed
qed

text \<open>
  The used chunks of \<open>ds\<close> carry no list nodes, so a run of them may be cut differently, and
  cells that are not pointer cells may be written.
\<close>

lemma lists_recut:
  assumes "lists m bk lo (xs @ mid @ ys)" "\<forall>d \<in> set mid. snd d" "\<forall>d \<in> set mid'. snd d"
    and "span mid' = span mid" "sizes_ok mid'"
  shows "lists m bk lo (xs @ mid' @ ys)"
proof -
  have used: "free_at a zs i = {}" if "\<forall>d \<in> set zs. snd d" for a zs i
    using that by (induction zs arbitrary: a) auto
  have "free_at lo (xs @ mid' @ ys) = free_at lo (xs @ mid @ ys)"
    using assms(2-4) by (simp add: fun_eq_iff used)
  with assms(1,4,5) show ?thesis by (simp add: lists_def)
qed

lemma lists_set_chunk_size:
  assumes "lists m bk lo ds" "(c, s, u) \<in> tset lo ds"
  shows "lists (mem_set_chunk_size c s m) bk lo ds" "lists (mem_set_used_chunk_size c s m) bk lo ds"
proof -
  have n: "c \<notin> pc lo ds" "c + 8 + s \<notin> pc lo ds"
    using assms hdr_not_pc by (auto simp: lists_def)
  show "lists (mem_set_chunk_size c s m) bk lo ds" "lists (mem_set_used_chunk_size c s m) bk lo ds"
    by (rule lists_cong [OF assms(1)];
        use n in \<open>auto simp: mem_set_chunk_size_def mem_set_used_chunk_size_def\<close>)+
qed

text \<open>
  An operation that rearranges the chunks \<open>mid\<close> between \<open>xs\<close> and \<open>ys\<close> keeps the tiling when it
  writes only there and to the pointer cells of the other free chunks.
\<close>

definition outside :: "nat \<Rightarrow> chunk list \<Rightarrow> chunk list \<Rightarrow> chunk list \<Rightarrow> nat set" where
  "outside lo xs mid ys =
     - (pc lo xs \<union> pc (lo + span xs + span mid) ys \<union> {lo + span xs..<lo + span xs + span mid})"

lemma tiles_replace:
  assumes t: "tiles m lo (xs @ mid @ ys)" and frame: "\<And>x. x \<in> outside lo xs mid ys \<Longrightarrow> m' x = m x"
    and mid': "tiles m' (lo + span xs) mid'" "span mid' = span mid"
  shows "tiles m' lo (xs @ mid' @ ys)"
proof -
  let ?a = "lo + span xs" and ?b = "lo + span xs + span mid"
  have T: "tiles m lo xs" "tiles m ?b ys" using t by (simp_all add: add.assoc)
  note S = tiles_sizes [OF T(1)] tiles_sizes [OF T(2)]
  have "tiles m' lo xs"
  proof (rule tiles_cong [OF T(1)])
    fix b s u assume b: "(b, s, u) \<in> tset lo xs"
    note r = tset_range [OF b] hdr_not_pc [OF S(1) b]
    have "x \<in> outside lo xs mid ys" if "x = b \<or> x = b + 8 + s" for x
      using that r pc_range [OF S(2), of x ?b] by (auto simp: outside_def)
    then show "m' b = m b \<and> m' (b + 8 + s) = m (b + 8 + s)" by (simp add: frame)
  qed
  moreover have "tiles m' ?b ys"
  proof (rule tiles_cong [OF T(2)])
    fix b s u assume b: "(b, s, u) \<in> tset ?b ys"
    note r = tset_range [OF b] hdr_not_pc [OF S(2) b]
    have "x \<in> outside lo xs mid ys" if "x = b \<or> x = b + 8 + s" for x
      using that r pc_range [OF S(1), of x lo] by (auto simp: outside_def)
    then show "m' b = m b \<and> m' (b + 8 + s) = m (b + 8 + s)" by (simp add: frame)
  qed
  ultimately show ?thesis using mid' by (simp add: add.assoc)
qed

lemma pc_region: "sizes_ok mid \<Longrightarrow> pc a mid \<subseteq> {a..<a + span mid}"
  using pc_range [of mid _ a] by fastforce

end
