(* ===== verification/Mem_Correct.thy ===== *)
theory Mem_Correct
  imports Mem_Layout
begin

text \<open>
  The allocator of Mem.thy keeps its invariant: every operation maps a tiled segment whose
  buckets hold exactly its free chunks, with no two free neighbours and exact statistics, to
  another one, and what it does to the list of chunks is stated for each branch.
\<close>

section \<open>The common tails of the operations\<close>

lemma outside_cong: "span mid = span mid' \<Longrightarrow> outside lo xs mid ys = outside lo xs mid' ys"
  by (simp add: outside_def)

text \<open>Marking a chunk that is in no list as used.\<close>

lemma use_tail:
  assumes "lists m bk lo (xs @ (s, True) # ys)" "c = lo + span xs"
  defines "m' \<equiv> mem_set_used_chunk_size c s m"
  shows "lists m' bk lo (xs @ (s, True) # ys)" "hdr m' c s True"
    "x \<in> outside lo xs [(s, True)] ys \<Longrightarrow> m' x = m x"
proof -
  show "lists m' bk lo (xs @ (s, True) # ys)"
    unfolding m'_def using assms(1,2) by (intro lists_set_chunk_size [where u = True]) auto
  show "hdr m' c s True" unfolding m'_def by (rule hdr_set_used)
  show "x \<in> outside lo xs [(s, True)] ys \<Longrightarrow> m' x = m x"
    by (auto simp: m'_def mem_set_used_chunk_size_def outside_def assms(2))
qed

text \<open>Marking it free and linking it.\<close>

lemma free_tail:
  assumes l: "lists (mi_cells info) (mi_buckets info) lo (xs @ (s, True) # ys)" and c: "c = lo + span xs"
  defines "info' \<equiv> mem_link_chunk (info\<lparr>mi_cells := mem_set_chunk_size c s (mi_cells info)\<rparr>) c"
  shows "lists (mi_cells info') (mi_buckets info') lo (xs @ (s, False) # ys)" "hdr (mi_cells info') c s False"
    "x \<in> outside lo xs [(s, True)] ys \<Longrightarrow> mi_cells info' x = mi_cells info x"
proof -
  let ?m = "mem_set_chunk_size c s (mi_cells info)" and ?ds = "xs @ (s, False) # ys"
  let ?info = "info\<lparr>mi_cells := ?m\<rparr>"
  have sz: "s < 2 ^ 63" "sizes_ok ?ds" using l by (auto simp: lists_def)
  have "lists ?m (mi_buckets info) lo (xs @ (s, True) # ys)"
    using l c by (intro lists_set_chunk_size [where u = True]) auto
  then have l1: "lists (mi_cells ?info) (mi_buckets ?info) lo (xs @ (s, True) # ys)" by simp
  have "CHUNK_SIZE (mi_cells ?info) (lo + span xs) = s"
    using hdr_read(1) [OF hdr_set sz(1)] c by simp
  note L = link_lists [OF l1 this, folded c]
  show "lists (mi_cells info') (mi_buckets info') lo ?ds" unfolding info'_def by (rule L(1))
  have "(c, s, False) \<in> tset lo ?ds" using c by simp
  note n = hdr_not_pc [OF sz(2) this]
  show "hdr (mi_cells info') c s False"
    using hdr_set [of c s "mi_cells info"] L(2) [OF n(1)] L(2) [OF n(2)]
    by (simp add: hdr_def info'_def)
  show "mi_cells info' x = mi_cells info x" if x: "x \<in> outside lo xs [(s, True)] ys"
  proof -
    have "x \<notin> pc lo ?ds" "x \<noteq> c" "x \<noteq> c + 8 + s"
      using x sz(2) c by (auto simp: outside_def pcells_def ac_simps)
    then show ?thesis using L(2) [of x] by (simp add: info'_def mem_set_chunk_size_def)
  qed
qed

text \<open>Cutting a chunk in two: a used one and a free one after it.\<close>

lemma split_tail:
  assumes l: "lists (mi_cells info) (mi_buckets info) lo (xs @ (s + 16 + t, True) # ys)"
    and st: "24 \<le> s" "24 \<le> t" and c: "c = lo + span xs" "n = c + 16 + s"
  defines "info1 \<equiv> mem_link_chunk (info\<lparr>mi_cells := mem_set_chunk_size n t (mi_cells info)\<rparr>) n"
  defines "m' \<equiv> mem_set_used_chunk_size c s (mi_cells info1)"
  shows "lists m' (mi_buckets info1) lo (xs @ (s, True) # (t, False) # ys)" "hdr m' c s True" "hdr m' n t False"
    "x \<in> outside lo xs [(s + 16 + t, True)] ys \<Longrightarrow> m' x = mi_cells info x"
proof -
  have "lists (mi_cells info) (mi_buckets info) lo (xs @ [(s + 16 + t, True)] @ ys)" using l by simp
  from lists_recut [OF this, of "[(s, True), (t, True)]"] st
  have l1: "lists (mi_cells info) (mi_buckets info) lo ((xs @ [(s, True)]) @ (t, True) # ys)" by simp
  have n: "n = lo + span (xs @ [(s, True)])" using c by simp
  note F = free_tail [OF l1 n, folded info1_def]
  have l2: "lists (mi_cells info1) (mi_buckets info1) lo (xs @ (s, True) # (t, False) # ys)"
    using F(1) by simp
  note U = use_tail [OF l2 c(1), folded m'_def]
  show "lists m' (mi_buckets info1) lo (xs @ (s, True) # (t, False) # ys)" by (rule U(1))
  show "hdr m' c s True" by (rule U(2))
  show "hdr m' n t False"
    using F(2) c(2) unfolding hdr_def m'_def mem_set_used_chunk_size_def by simp
  show "m' x = mi_cells info x" if x: "x \<in> outside lo xs [(s + 16 + t, True)] ys"
  proof -
    have "x \<in> outside lo (xs @ [(s, True)]) [(t, True)] ys"
      using x by (auto simp: outside_def ac_simps)
    moreover have "m' x = mi_cells info1 x"
      using x st c by (auto simp: m'_def mem_set_used_chunk_size_def outside_def)
    ultimately show ?thesis using F(3) by simp
  qed
qed

section \<open>The invariant\<close>

definition used_sum :: "chunk list \<Rightarrow> nat" where
  "used_sum cs = sum_list (map fst (filter snd cs))"

definition free_sum :: "chunk list \<Rightarrow> nat" where
  "free_sum cs = sum_list (map fst (filter (\<lambda>c. \<not> snd c) cs))"

definition coalesced :: "chunk list \<Rightarrow> bool" where
  "coalesced cs = successively (\<lambda>c d. snd c \<or> snd d) cs"

definition stats_ok :: "nt_mem_info \<Rightarrow> chunk list \<Rightarrow> bool" where
  "stats_ok info cs =
     (mi_used_size info = of_nat (used_sum cs) \<and> mi_free_size info = of_nat (free_sum cs) \<and>
      mi_total_size info + 16 = of_nat (span cs))"

definition mem_wf :: "nt_mem_info \<Rightarrow> chunk list \<Rightarrow> bool" where
  "mem_wf info cs =
     (tiles (mi_cells info) (mi_lo_bound info) cs \<and>
      lists (mi_cells info) (mi_buckets info) (mi_lo_bound info) cs \<and>
      mi_hi_bound info = mi_lo_bound info + span cs \<and> 8 dvd mi_lo_bound info \<and>
      coalesced cs \<and> stats_ok info cs)"

lemma sums_simps [simp]:
  "used_sum [] = 0" "used_sum ((s, u) # cs) = (if u then s else 0) + used_sum cs"
  "used_sum (cs @ ds) = used_sum cs + used_sum ds"
  "free_sum [] = 0" "free_sum ((s, u) # cs) = (if u then 0 else s) + free_sum cs"
  "free_sum (cs @ ds) = free_sum cs + free_sum ds"
  by (simp_all add: used_sum_def free_sum_def)

lemma span_sums: "span cs = used_sum cs + free_sum cs + 16 * length cs"
  by (induction cs) auto

lemma coalesced_append:
  "coalesced (cs @ ds) = (coalesced cs \<and> coalesced ds \<and>
     (cs = [] \<or> ds = [] \<or> snd (last cs) \<or> snd (hd ds)))"
  by (auto simp: coalesced_def successively_append_iff)

lemma coalesced_Cons:
  "coalesced ((s, u) # cs) = (coalesced cs \<and> (cs = [] \<or> u \<or> snd (hd cs)))"
  by (cases cs) (auto simp: coalesced_def)

lemma mem_wfD:
  assumes "mem_wf info cs"
  shows "tiles (mi_cells info) (mi_lo_bound info) cs"
    "lists (mi_cells info) (mi_buckets info) (mi_lo_bound info) cs"
    "mi_hi_bound info = mi_lo_bound info + span cs" "8 dvd mi_lo_bound info"
    "coalesced cs" "stats_ok info cs" "mi_lo_bound info + span cs < 2 ^ 63" "0 < mi_lo_bound info"
  using assms by (auto simp: mem_wf_def lists_def)

text \<open>The header of a chunk as the operations read it.\<close>

lemma wf_header:
  assumes wf: "mem_wf info (xs @ (s, u) # ys)" and c: "c = mi_lo_bound info + span xs"
  shows "CHUNK_SIZE (mi_cells info) c = s" "FREE_CHUNK (mi_cells info) c = (\<not> u)"
    "24 \<le> s" "8 dvd s" "s < 2 ^ 63"
proof -
  have h: "hdr (mi_cells info) c s u" "24 \<le> s" "8 dvd s" using mem_wfD(1) [OF wf] c by auto
  have s: "s < 2 ^ 63" using mem_wfD(7) [OF wf] by simp
  show "CHUNK_SIZE (mi_cells info) c = s" "FREE_CHUNK (mi_cells info) c = (\<not> u)" "24 \<le> s" "8 dvd s" "s < 2 ^ 63"
    using hdr_read [OF h(1) s] h s by simp_all
qed

text \<open>The neighbours as \<open>prev_is_free\<close> and \<open>next_is_free\<close> see them.\<close>

lemma wf_next:
  assumes wf: "mem_wf info (xs @ (s, u) # ys)" and n: "n = mi_lo_bound info + span xs + 16 + s"
  shows "next_is_free info n = (case ys of [] \<Rightarrow> False | (t, v) # zs \<Rightarrow> \<not> v)"
    "ys = (t, v) # zs \<Longrightarrow> CHUNK_SIZE (mi_cells info) n = t"
proof -
  have wf': "mem_wf info ((xs @ [(s, u)]) @ ys)" using wf by simp
  have n': "n = mi_lo_bound info + span (xs @ [(s, u)])" using n by simp
  show "next_is_free info n = (case ys of [] \<Rightarrow> False | (t, v) # zs \<Rightarrow> \<not> v)"
  proof (cases ys)
    case Nil
    then show ?thesis using mem_wfD(3) [OF wf] n by (simp add: next_is_free_def)
  next
    case (Cons c zs)
    obtain t v where "c = (t, v)" by fastforce
    then show ?thesis
      using wf_header(2) [OF wf' [unfolded Cons \<open>c = (t, v)\<close>] n'] mem_wfD(3) [OF wf] n Cons
      by (simp add: next_is_free_def)
  qed
  show "CHUNK_SIZE (mi_cells info) n = t" if "ys = (t, v) # zs"
    using wf_header(1) [OF wf' [unfolded that] n'] .
qed

lemma wf_prev:
  assumes wf: "mem_wf info (xs @ (s, u) # ys)" and c: "c = mi_lo_bound info + span xs"
  shows "xs = [] \<Longrightarrow> \<not> prev_is_free info c"
    "xs = zs @ [(t, v)] \<Longrightarrow> prev_is_free info c = (\<not> v) \<and> CHUNK_SIZE (mi_cells info) (c - 8) = t \<and>
       c - 8 - t - 8 = mi_lo_bound info + span zs"
proof -
  show "xs = [] \<Longrightarrow> \<not> prev_is_free info c" using c by (simp add: prev_is_free_def)
  show "prev_is_free info c = (\<not> v) \<and> CHUNK_SIZE (mi_cells info) (c - 8) = t \<and>
      c - 8 - t - 8 = mi_lo_bound info + span zs" if xs: "xs = zs @ [(t, v)]"
  proof -
    let ?p = "mi_lo_bound info + span zs"
    have "hdr (mi_cells info) ?p t v" "t < 2 ^ 63"
      using mem_wfD(1,7) [OF wf] xs by auto
    note r = hdr_read(3,4) [OF this]
    have e: "c - 8 = ?p + 8 + t" "c - 8 - t - 8 = ?p" "mi_lo_bound info < c" using c xs by simp_all
    show ?thesis unfolding prev_is_free_def e(2) using r e(1,3) by metis
  qed
qed

text \<open>The chunks \<open>mid\<close> are replaced by \<open>mid'\<close>.\<close>

lemma wf_replace:
  assumes wf: "mem_wf info (xs @ mid @ ys)"
    and fields: "mi_lo_bound info' = mi_lo_bound info" "mi_hi_bound info' = mi_hi_bound info"
      "mi_total_size info' = mi_total_size info"
    and l: "lists (mi_cells info') (mi_buckets info') (mi_lo_bound info) (xs @ mid' @ ys)"
    and t: "tiles (mi_cells info') (mi_lo_bound info + span xs) mid'" "span mid' = span mid"
    and frame: "\<And>x. x \<in> outside (mi_lo_bound info) xs mid ys \<Longrightarrow> mi_cells info' x = mi_cells info x"
    and co: "coalesced (xs @ mid' @ ys)"
    and used: "mi_used_size info' = mi_used_size info - of_nat (used_sum mid) + of_nat (used_sum mid')"
    and free: "mi_free_size info' = mi_free_size info - of_nat (free_sum mid) + of_nat (free_sum mid')"
  shows "mem_wf info' (xs @ mid' @ ys)"
proof -
  note D = mem_wfD [OF wf]
  have "tiles (mi_cells info') (mi_lo_bound info) (xs @ mid' @ ys)"
    by (rule tiles_replace [OF D(1) frame t])
  moreover have "stats_ok info' (xs @ mid' @ ys)"
    using D(6) used free fields(3) t(2) by (simp add: stats_ok_def)
  ultimately show ?thesis
    using l co D(3,4) fields t(2) by (simp add: mem_wf_def)
qed

section \<open>Allocation\<close>

lemma take_wf:
  assumes wf: "mem_wf info (xs @ (s, False) # ys)" and c: "c = mi_lo_bound info + span xs"
    and sz: "24 \<le> sz" "8 dvd sz" "sz \<le> s"
  defines "mid' \<equiv> (if s < sz + 40 then [(s, True)] else [(sz, True), (s - sz - 16, False)])"
  shows "mem_wf (mem_take info c sz) (xs @ mid' @ ys)"
    and "\<And>x. x \<in> outside (mi_lo_bound info) xs [(s, False)] ys \<Longrightarrow> mi_cells (mem_take info c sz) x = mi_cells info x"
    and "mi_lo_bound (mem_take info c sz) = mi_lo_bound info"
    and "mi_allow_oom (mem_take info c sz) = mi_allow_oom info"
proof -
  let ?lo = "mi_lo_bound info"
  define i1 where "i1 = mem_unlink_chunk info c"
  note H = wf_header [OF wf c] and D = mem_wfD [OF wf]
  have "CHUNK_SIZE (mi_cells info) (?lo + span xs) = s" using H(1) c by simp
  note U = unlink_lists [OF D(2) this, folded c, folded i1_def]
  have pc: "x \<notin> pc ?lo (xs @ (s, True) # ys)" if "x \<in> outside ?lo xs mid ys" "span mid = s + 16" for x mid
    using that by (simp add: outside_def ac_simps)
  have co: "coalesced xs \<and> coalesced ys \<and> (xs = [] \<or> snd (last xs)) \<and> (ys = [] \<or> snd (hd ys))"
    using D(5) by (auto simp: coalesced_append coalesced_Cons)
  have D': "mem_wf info (xs @ [(s, False)] @ ys)" using wf by simp
  have "mem_wf (mem_take info c sz) (xs @ mid' @ ys) \<and>
    (\<forall>x. x \<in> outside ?lo xs [(s, False)] ys \<longrightarrow> mi_cells (mem_take info c sz) x = mi_cells info x) \<and>
    mi_lo_bound (mem_take info c sz) = ?lo \<and> mi_allow_oom (mem_take info c sz) = mi_allow_oom info"
  proof (cases "s < sz + 40")
    case True
    note V = use_tail [OF U(1) c]
    have eq: "mem_take info c sz = i1\<lparr>mi_used_size := mi_used_size info + of_nat s,
        mi_free_size := mi_free_size info - of_nat s, mi_cells := mem_set_used_chunk_size c s (mi_cells i1)\<rparr>"
      using True H(1) by (simp add: mem_take_def Let_def i1_def)
    have fr: "mem_set_used_chunk_size c s (mi_cells i1) x = mi_cells info x"
      if "x \<in> outside ?lo xs [(s, False)] ys" for x
      using V(3) [of x] U(2) [of x] pc [OF that] that outside_cong [of "[(s, False)]" "[(s, True)]"] by simp
    have co': "coalesced (xs @ [(s, True)] @ ys)" using co by (auto simp: coalesced_append coalesced_Cons)
    have "mem_wf (mem_take info c sz) (xs @ [(s, True)] @ ys)"
      unfolding eq
      by (rule wf_replace [OF D']; use V(1,2) fr co' H(3,4) in \<open>simp add: i1_def c [symmetric]\<close>)
    with True fr show ?thesis by (simp add: mid'_def eq i1_def)
  next
    case False
    define t where "t = s - sz - 16"
    have t: "s = sz + 16 + t" "24 \<le> t" "8 dvd t"
      using False H(4) sz by (auto simp: t_def intro!: dvd_diff_nat)
    define i2 where "i2 = mem_link_chunk (i1\<lparr>mi_cells := mem_set_chunk_size (c + 16 + sz) t (mi_cells i1)\<rparr>) (c + 16 + sz)"
    note V = split_tail [OF U(1) [unfolded t(1)] sz(1) t(2) c refl, folded i2_def]
    have eq: "mem_take info c sz = i2\<lparr>mi_used_size := mi_used_size info + of_nat sz,
        mi_free_size := mi_free_size info - of_nat s + of_nat t, mi_cells := mem_set_used_chunk_size c sz (mi_cells i2)\<rparr>"
      using False H(1) by (simp add: mem_take_def Let_def i2_def i1_def t_def ac_simps)
    have fr: "mem_set_used_chunk_size c sz (mi_cells i2) x = mi_cells info x"
      if "x \<in> outside ?lo xs [(s, False)] ys" for x
      using V(4) [of x] U(2) [of x] pc [OF that] that t(1) outside_cong [of "[(s, False)]" "[(sz + 16 + t, True)]"]
      by simp
    have co': "coalesced (xs @ [(sz, True), (t, False)] @ ys)"
      using co by (auto simp: coalesced_append coalesced_Cons)
    have "mem_wf (mem_take info c sz) (xs @ [(sz, True), (t, False)] @ ys)"
      unfolding eq
      by (rule wf_replace [OF D'];
          use V(1-3) fr co' t sz in \<open>simp add: i1_def i2_def c [symmetric]\<close>)
    with False fr show ?thesis by (simp add: mid'_def eq i1_def i2_def t_def)
  qed
  then show "mem_wf (mem_take info c sz) (xs @ mid' @ ys)"
    "\<And>x. x \<in> outside ?lo xs [(s, False)] ys \<Longrightarrow> mi_cells (mem_take info c sz) x = mi_cells info x"
    "mi_lo_bound (mem_take info c sz) = ?lo" "mi_allow_oom (mem_take info c sz) = mi_allow_oom info" by auto
qed

subsection \<open>The search\<close>

lemma first_bucket_spec:
  "i \<le> 29 \<Longrightarrow> i \<le> first_bucket bk i \<and> first_bucket bk i \<le> 29 \<and>
     (first_bucket bk i < 29 \<longrightarrow> bk ! first_bucket bk i \<noteq> 0) \<and>
     (\<forall>j. i \<le> j \<and> j < first_bucket bk i \<longrightarrow> bk ! j = 0)"
proof (induction bk i rule: first_bucket.induct)
  case (1 bk i)
  show ?case
  proof (cases "i < 29 \<and> bk ! i = 0")
    case True
    then have e: "first_bucket bk i = first_bucket bk (Suc i)" by (subst first_bucket.simps) simp
    have IH: "Suc i \<le> first_bucket bk (Suc i) \<and> first_bucket bk (Suc i) \<le> 29 \<and>
        (first_bucket bk (Suc i) < 29 \<longrightarrow> bk ! first_bucket bk (Suc i) \<noteq> 0) \<and>
        (\<forall>j. Suc i \<le> j \<and> j < first_bucket bk (Suc i) \<longrightarrow> bk ! j = 0)"
      using "1.IH" True by simp
    have "bk ! j = 0" if "i \<le> j" "j < first_bucket bk (Suc i)" for j
      using IH True that by (cases "j = i") auto
    with IH show ?thesis unfolding e by auto
  next
    case False
    then have "first_bucket bk i = i" by (subst first_bucket.simps) auto
    with False 1 show ?thesis by auto
  qed
qed

lemma first_fit_dll:
  "dll m p cs h \<Longrightarrow>
   first_fit m sz h = Some (case filter (\<lambda>c. sz \<le> CHUNK_SIZE m c) cs of [] \<Rightarrow> 0 | c # _ \<Rightarrow> c)"
proof (induction cs arbitrary: p h)
  case Nil
  then show ?case by (simp add: first_fit.simps)
next
  case (Cons c cs)
  then show ?case by (subst first_fit.simps) auto
qed

lemma bucket_exact:
  assumes "mem_bucket_by_size s = mem_bucket_by_size t" "mem_bucket_by_size s < 29"
    and "24 \<le> s" "24 \<le> t" "8 dvd s" "8 dvd t"
  shows "s = t"
  using assms by (auto simp: mem_bucket_by_size_def split: if_splits elim!: dvdE)

lemma bucket_mono: "s \<le> t \<Longrightarrow> mem_bucket_by_size s \<le> mem_bucket_by_size t"
  by (auto simp: mem_bucket_by_size_def)

lemma free_at_split:
  "c \<in> free_at lo cs i \<Longrightarrow> \<exists>xs s ys. cs = xs @ (s, False) # ys \<and> c = lo + span xs \<and> mem_bucket_by_size s = i"
  unfolding free_at_def using tset_split by blast

lemma free_at_member:
  "(s, False) \<in> set cs \<Longrightarrow> \<exists>xs ys. cs = xs @ (s, False) # ys \<and> lo + span xs \<in> free_at lo cs (mem_bucket_by_size s)"
proof -
  assume "(s, False) \<in> set cs"
  then obtain xs ys where "cs = xs @ (s, False) # ys" by (meson split_list)
  then show ?thesis by (intro exI [of _ xs] exI [of _ ys]) simp
qed

lemma search_correct:
  assumes wf: "mem_wf info cs" and sz: "24 \<le> sz" "8 dvd sz"
  shows "\<exists>c. mem_search info sz = Some c \<and>
    (c = 0 \<longrightarrow> (\<forall>s. (s, False) \<in> set cs \<longrightarrow> s < sz)) \<and>
    (c \<noteq> 0 \<longrightarrow> (\<exists>xs s ys. cs = xs @ (s, False) # ys \<and> c = mi_lo_bound info + span xs \<and> sz \<le> s))"
proof -
  let ?m = "mi_cells info" and ?bk = "mi_buckets info" and ?lo = "mi_lo_bound info"
  define r where "r = first_bucket ?bk (mem_bucket_by_size sz)"
  have r: "mem_bucket_by_size sz \<le> r" "r \<le> 29" "r < 29 \<Longrightarrow> ?bk ! r \<noteq> 0"
    "\<And>j. mem_bucket_by_size sz \<le> j \<Longrightarrow> j < r \<Longrightarrow> ?bk ! j = 0"
    using first_bucket_spec [of "mem_bucket_by_size sz" ?bk] mem_bucket_less [of sz] by (auto simp: r_def)
  have bk: "\<exists>ds. dll ?m 0 ds (?bk ! i) \<and> set ds = free_at ?lo cs i" if "i < 30" for i
    using mem_wfD(2) [OF wf] that unfolding lists_def buckets_ok_def by blast
  obtain ds where ds: "dll ?m 0 ds (?bk ! r)" "set ds = free_at ?lo cs r" using bk [of r] r(2) by auto
  have small: "s < sz" if s: "(s, False) \<in> set cs" and b: "mem_bucket_by_size s < r" for s
  proof (rule ccontr)
    assume "\<not> s < sz"
    then have "mem_bucket_by_size sz \<le> mem_bucket_by_size s" by (intro bucket_mono) simp
    then have z: "?bk ! mem_bucket_by_size s = 0" using r(4) b by simp
    obtain es where "dll ?m 0 es (?bk ! mem_bucket_by_size s)" "set es = free_at ?lo cs (mem_bucket_by_size s)"
      using bk mem_bucket_less by blast
    then have "free_at ?lo cs (mem_bucket_by_size s) = {}" using z by (cases es) auto
    then show False using free_at_member [OF s, of ?lo] by auto
  qed
  have found: "\<exists>xs s ys. cs = xs @ (s, False) # ys \<and> c = ?lo + span xs \<and> mem_bucket_by_size s = r \<and>
      CHUNK_SIZE ?m c = s \<and> 24 \<le> s \<and> 8 dvd s" if c: "c \<in> free_at ?lo cs r" for c
  proof -
    obtain xs s ys where e: "cs = xs @ (s, False) # ys" "c = ?lo + span xs" "mem_bucket_by_size s = r"
      using free_at_split [OF c] by blast
    with wf_header [OF wf [unfolded e(1)] e(2)] show ?thesis by blast
  qed
  show ?thesis
  proof (cases "r = 29")
    case False
    then have nz: "?bk ! r \<noteq> 0" "?bk ! r \<in> free_at ?lo cs r" using r ds dll_head [OF ds(1)] by auto
    from found [OF nz(2)] obtain xs s ys where e: "cs = xs @ (s, False) # ys"
        "?bk ! r = ?lo + span xs" "mem_bucket_by_size s = r" "24 \<le> s" "8 dvd s" by blast
    have "sz \<le> s"
    proof (rule ccontr)
      assume "\<not> sz \<le> s"
      then have "mem_bucket_by_size s \<le> mem_bucket_by_size sz" by (intro bucket_mono) simp
      then have b: "mem_bucket_by_size s = mem_bucket_by_size sz" "mem_bucket_by_size s < 29"
        using e(3) r(1,2) False by simp_all
      then have "s = sz" by (rule bucket_exact [OF _ _ e(4) sz(1) e(5) sz(2)])
      with \<open>\<not> sz \<le> s\<close> show False by simp
    qed
    with e(1,2) have ex: "\<exists>xs s ys. cs = xs @ (s, False) # ys \<and> ?bk ! r = ?lo + span xs \<and> sz \<le> s"
      by (intro exI [of _ xs] exI [of _ s] exI [of _ ys] conjI)
    have "mem_search info sz = Some (?bk ! r)"
      using False by (simp add: mem_search_def Let_def r_def [symmetric])
    with ex nz(1) show ?thesis by simp
  next
    case True
    define c where "c = (case filter (\<lambda>c. sz \<le> CHUNK_SIZE ?m c) ds of [] \<Rightarrow> 0 | c # _ \<Rightarrow> c)"
    have search: "mem_search info sz = Some c"
      using first_fit_dll [OF ds(1), of sz] True
      by (simp add: mem_search_def Let_def r_def [symmetric] c_def)
    have nz: "0 \<notin> set ds" using ds(2) free_at_range [of 0 ?lo cs r] mem_wfD(8) [OF wf] by auto
    have "s < sz" if s: "(s, False) \<in> set cs" "c = 0" for s
    proof (cases "mem_bucket_by_size s < r")
      case False
      then have b: "mem_bucket_by_size s = r" using True mem_bucket_less [of s] by simp
      obtain xs ys where e: "cs = xs @ (s, False) # ys" "?lo + span xs \<in> set ds"
        using free_at_member [OF s(1), of ?lo] ds(2) b by auto
      have "filter (\<lambda>c. sz \<le> CHUNK_SIZE ?m c) ds = []"
        using s(2) nz unfolding c_def
        by (cases "filter (\<lambda>c. sz \<le> CHUNK_SIZE ?m c) ds") (auto simp: filter_eq_Cons_iff)
      then have "\<not> sz \<le> CHUNK_SIZE ?m (?lo + span xs)" using e(2) by (auto simp: filter_empty_conv)
      then show ?thesis using wf_header(1) [OF wf [unfolded e(1)] refl] by simp
    qed (use small s in simp)
    moreover have "\<exists>xs s ys. cs = xs @ (s, False) # ys \<and> c = ?lo + span xs \<and> sz \<le> s" if c0: "c \<noteq> 0"
    proof -
      obtain fs where "filter (\<lambda>c. sz \<le> CHUNK_SIZE ?m c) ds = c # fs"
        using c0 unfolding c_def by (cases "filter (\<lambda>c. sz \<le> CHUNK_SIZE ?m c) ds") auto
      then have "c \<in> set ds" "sz \<le> CHUNK_SIZE ?m c"
        by (auto simp: filter_eq_Cons_iff)
      then show ?thesis using found [of c] ds(2) by metis
    qed
    ultimately show ?thesis using search by simp
  qed
qed

subsection \<open>The rounding of the request\<close>

lemma unat_take_bit_3: "unat (take_bit 3 w :: u64) = unat w mod 8"
proof -
  have "unat (take_bit 3 w) = take_bit 3 (unat w)" by (simp only: unsigned_take_bit_eq)
  also have "\<dots> = unat w mod 2 ^ 3" by (rule take_bit_eq_mod)
  finally show ?thesis by (simp only: power3_eq_cube) simp
qed

lemma unat_and_7: "unat ((w :: u64) AND 7) = unat w mod 8"
proof -
  have "(7 :: u64) = mask 3" by (simp add: mask_eq_exp_minus_1)
  then have "w AND 7 = take_bit 3 w" by (simp only: take_bit_eq_mask)
  then show ?thesis by (simp only: unat_take_bit_3)
qed

lemma round_up_8:
  fixes n :: nat
  shows "8 dvd n + (8 - n mod 8) mod 8" "n + (8 - n mod 8) mod 8 < n + 8"
proof -
  define q r where "q = n div 8" and "r = n mod 8"
  have n: "n = 8 * q + r" and r: "r < 8" by (simp_all add: q_def r_def)
  show "8 dvd n + (8 - n mod 8) mod 8"
  proof (cases "r = 0")
    case True
    then show ?thesis using n by simp
  next
    case False
    then have "n + (8 - n mod 8) mod 8 = n + (8 - r)" using r by (simp add: r_def [symmetric])
    also have "\<dots> = 8 * (q + 1)" using n r by simp
    finally show ?thesis by (metis dvd_triv_left)
  qed
qed simp

lemma proper_size:
  assumes "request \<le> MEM_MAX_SIZE"
  defines "sz \<equiv> unat (mem_proper_alloc_size request)"
  shows "24 \<le> sz" "8 dvd sz" "unat request \<le> sz" "sz < unat request + 8 \<or> sz = 24" "sz \<le> 2 ^ 37"
proof -
  have le: "unat request \<le> 2 ^ 36" using assms(1) by (simp add: MEM_MAX_SIZE_def word_le_nat_alt)
  have "24 \<le> sz \<and> 8 dvd sz \<and> unat request \<le> sz \<and> (sz < unat request + 8 \<or> sz = 24) \<and> sz \<le> 2 ^ 37"
  proof (cases "24 \<le> request")
    case False
    then have "unat request < 24" by (simp add: word_le_nat_alt)
    with False show ?thesis by (simp add: sz_def mem_proper_alloc_size_def)
  next
    case True
    let ?n = "unat request"
    have "unat (8 - (request AND 7)) = 8 - ?n mod 8"
      using unat_sub_no_wrap [of "request AND 7" 8] by (simp add: unat_and_7)
    then have pad: "unat ((8 - (request AND 7)) AND 7) = (8 - ?n mod 8) mod 8" by (simp add: unat_and_7)
    define p where "p = (8 - ?n mod 8) mod 8"
    have p: "p < 8" by (simp add: p_def)
    then have "?n + p < 2 ^ 64" using le by simp
    then have "sz = ?n + p"
      using True pad unat_add_no_wrap [of request "(8 - (request AND 7)) AND 7"]
      by (simp add: sz_def mem_proper_alloc_size_def p_def)
    moreover have "8 dvd ?n + p" using round_up_8(1) [of ?n] by (simp add: p_def)
    moreover have "24 \<le> ?n" using True by (simp add: word_le_nat_alt)
    ultimately show ?thesis using p le by simp
  qed
  then show "24 \<le> sz" "8 dvd sz" "unat request \<le> sz" "sz < unat request + 8 \<or> sz = 24" "sz \<le> 2 ^ 37" by blast+
qed

text \<open>The two outcomes of \<open>__mem_malloc\<close>.\<close>

lemma malloc_cases:
  assumes wf: "mem_wf info cs" and rq: "request \<le> MEM_MAX_SIZE"
  defines "sz \<equiv> unat (mem_proper_alloc_size request)"
  obtains (none) "mem_malloc info request = Some (info, 0)" "\<And>s. (s, False) \<in> set cs \<Longrightarrow> s < sz"
    | (chunk) xs s ys c where "cs = xs @ (s, False) # ys" "c = mi_lo_bound info + span xs" "sz \<le> s" "c \<noteq> 0"
      "mem_malloc info request = Some (mem_take info c sz, c)"
proof -
  obtain c where c: "mem_search info sz = Some c" "c = 0 \<longrightarrow> (\<forall>s. (s, False) \<in> set cs \<longrightarrow> s < sz)"
      "c \<noteq> 0 \<longrightarrow> (\<exists>xs s ys. cs = xs @ (s, False) # ys \<and> c = mi_lo_bound info + span xs \<and> sz \<le> s)"
    using search_correct [OF wf proper_size(1,2) [OF rq], folded sz_def] by (elim exE conjE)
  show thesis
  proof (cases "c = 0")
    case True
    then show thesis using c by (intro none) (auto simp: mem_malloc_def Let_def sz_def)
  next
    case False
    then obtain xs s ys where e: "cs = xs @ (s, False) # ys" "c = mi_lo_bound info + span xs" "sz \<le> s"
      using c(3) by blast
    have "mem_malloc info request = Some (mem_take info c sz, c)"
      using c(1) False by (simp add: mem_malloc_def Let_def sz_def)
    then show thesis by (rule chunk [OF e False])
  qed
qed

section \<open>Freeing\<close>

text \<open>Headers survive the unlinking of a chunk.\<close>

lemma unlink_hdr:
  assumes "lists (mi_cells info) (mi_buckets info) lo (xs @ (s, False) # ys)"
    and "CHUNK_SIZE (mi_cells info) c = s" "c = lo + span xs"
    and "hdr (mi_cells info) b t v" "(b, t, w) \<in> tset lo (xs @ (s, True) # ys)"
  shows "hdr (mi_cells (mem_unlink_chunk info c)) b t v"
proof -
  have "sizes_ok (xs @ (s, True) # ys)" using assms(1) by (simp add: lists_def)
  note n = hdr_not_pc [OF this assms(5)]
  show ?thesis
    using unlink_lists(2) [OF assms(1), of b] unlink_lists(2) [OF assms(1), of "b + 8 + t"] n assms(2-4)
    by (simp add: hdr_def)
qed

text \<open>The end of \<open>__mem_free\<close>: the chunks \<open>mid\<close> become one free chunk.\<close>

lemma free_finish:
  assumes wf: "mem_wf info (xs @ mid @ ys)"
    and fields: "mi_lo_bound info1 = mi_lo_bound info" "mi_hi_bound info1 = mi_hi_bound info"
      "mi_total_size info1 = mi_total_size info"
    and l: "lists (mi_cells info1) (mi_buckets info1) (mi_lo_bound info) (xs @ mid1 @ ys)"
    and mid1: "\<forall>d \<in> set mid1. snd d" "span mid1 = span mid" and S: "span mid = S + 16" "24 \<le> S" "8 dvd S"
    and c: "c = mi_lo_bound info + span xs"
    and frame: "\<And>x. x \<in> outside (mi_lo_bound info) xs mid ys \<Longrightarrow> mi_cells info1 x = mi_cells info x"
    and used: "mi_used_size info1 = mi_used_size info - of_nat (used_sum mid)"
    and free: "mi_free_size info1 = mi_free_size info - of_nat (free_sum mid) + of_nat S"
    and co: "xs = [] \<or> snd (last xs)" "ys = [] \<or> snd (hd ys)"
  defines "info' \<equiv> mem_link_chunk (info1\<lparr>mi_cells := mem_set_chunk_size c S (mi_cells info1)\<rparr>) c"
  shows "mem_wf info' (xs @ [(S, False)] @ ys)"
    and "x \<in> outside (mi_lo_bound info) xs mid ys \<Longrightarrow> mi_cells info' x = mi_cells info x"
proof -
  have "lists (mi_cells info1) (mi_buckets info1) (mi_lo_bound info) (xs @ [(S, True)] @ ys)"
    by (rule lists_recut [OF l mid1(1)]) (use mid1(2) S in auto)
  then have "lists (mi_cells info1) (mi_buckets info1) (mi_lo_bound info) (xs @ (S, True) # ys)" by simp
  note F = free_tail [OF this c, folded info'_def]
  have o: "outside (mi_lo_bound info) xs mid ys = outside (mi_lo_bound info) xs [(S, True)] ys"
    by (rule outside_cong) (simp add: S)
  show fr: "mi_cells info' x = mi_cells info x" if "x \<in> outside (mi_lo_bound info) xs mid ys" for x
    using F(3) [of x] frame [OF that] that by (simp add: o)
  have "coalesced (xs @ mid @ ys)" by (rule mem_wfD(5) [OF wf])
  then have co': "coalesced (xs @ [(S, False)] @ ys)"
    using co by (auto simp: coalesced_append coalesced_Cons)
  have T: "tiles (mi_cells info') (mi_lo_bound info + span xs) [(S, False)]"
    using F(2) S c by simp
  show "mem_wf info' (xs @ [(S, False)] @ ys)"
    by (rule wf_replace [OF wf _ _ _ _ T _ fr co']; use F(1) fields S used free in \<open>simp add: info'_def\<close>)
qed

text \<open>The chunk list after freeing the chunk of size \<open>s\<close> between \<open>xs\<close> and \<open>ys\<close>.\<close>

definition freed :: "chunk list \<Rightarrow> nat \<Rightarrow> chunk list \<Rightarrow> chunk list" where
  "freed xs s ys =
     (let (xs', p) = (if xs \<noteq> [] \<and> \<not> snd (last xs) then (butlast xs, fst (last xs) + 16) else (xs, 0));
          (ys', n) = (case ys of (t, False) # zs \<Rightarrow> (zs, t + 16) | _ \<Rightarrow> (ys, 0))
      in xs' @ (p + s + n, False) # ys')"

text \<open>The cells \<open>__mem_free\<close> may write: the chunk, and cells of free chunks.\<close>

definition free_zone :: "nat \<Rightarrow> chunk list \<Rightarrow> nat set" where
  "free_zone lo cs = (\<Union>(b, s, u) \<in> tset lo cs. if u then {} else {b..<b + 16 + s})"

lemma free_zone_simps [simp]:
  "free_zone a [] = {}"
  "free_zone a ((s, u) # cs) = (if u then {} else {a..<a + 16 + s}) \<union> free_zone (a + 16 + s) cs"
  "free_zone a (cs @ ds) = free_zone a cs \<union> free_zone (a + span cs) ds"
  by (auto simp: free_zone_def)

lemma pc_free_zone: "sizes_ok cs \<Longrightarrow> pc a cs \<subseteq> free_zone a cs"
proof
  fix x assume sz: "sizes_ok cs" and "x \<in> pc a cs"
  then obtain c s where c: "(c, s, False) \<in> tset a cs" "x = c + 8 \<or> x = c + 16"
    by (auto simp: pc_def pcells_def)
  have "x \<in> {c..<c + 16 + s}" using sizes_ok_tset [OF sz c(1)] c(2) by auto
  with c(1) show "x \<in> free_zone a cs" unfolding free_zone_def by (intro UN_I [OF c(1)]) simp
qed

lemma outside_zone:
  assumes "sizes_ok (xs @ mid @ ys)" "x \<notin> free_zone lo (xs @ mid @ ys)"
    and "x \<notin> {lo + span xs..<lo + span xs + span mid} \<or> (\<forall>d \<in> set mid. \<not> snd d)"
  shows "x \<in> outside lo xs mid ys"
proof -
  have Z: "{a..<a + span zs} = free_zone a zs" if "\<forall>d \<in> set zs. \<not> snd d" for a zs
    using that
  proof (induction zs arbitrary: a)
    case (Cons z zs)
    obtain s where "z = (s, False)" using Cons.prems by (cases z) auto
    moreover have "free_zone (a + 16 + s) zs = {a + 16 + s..<a + 16 + s + span zs}"
      using Cons by simp
    ultimately show ?case by auto
  qed simp
  have "x \<notin> {lo + span xs..<lo + span xs + span mid}"
  proof (cases "\<forall>d \<in> set mid. \<not> snd d")
    case True
    show ?thesis unfolding Z [OF True] using assms(2) by simp
  qed (use assms(3) in blast)
  moreover have "x \<notin> pc lo xs" "x \<notin> pc (lo + span xs + span mid) ys"
    using assms(1,2) pc_free_zone [of xs lo] pc_free_zone [of ys "lo + span xs + span mid"]
    by (auto simp: ac_simps)
  ultimately show ?thesis by (simp add: outside_def)
qed

end
