(* ===== verification/Mem_Free.thy ===== *)
theory Mem_Free
  imports Mem_Correct
begin

text \<open>
  Freeing and reallocation keep the invariant of the allocator: the four ways \<open>__mem_free\<close>
  merges a chunk with its neighbours, and the five branches of \<open>__mem_realloc\<close>.
\<close>

section \<open>\<open>__mem_free\<close>\<close>

lemma neighbour_free_update [simp]:
  "prev_is_free (info\<lparr>mi_used_size := u\<rparr>) c = prev_is_free info c"
  "prev_is_free (info\<lparr>mi_free_size := u\<rparr>) c = prev_is_free info c"
  "next_is_free (info\<lparr>mi_used_size := u\<rparr>) c = next_is_free info c"
  "next_is_free (info\<lparr>mi_free_size := u\<rparr>) c = next_is_free info c"
  by (simp_all add: prev_is_free_def next_is_free_def)

text \<open>No neighbour is free.\<close>

lemma free_none:
  assumes wf: "mem_wf info (xs @ (s, True) # ys)" and c: "c = mi_lo_bound info + span xs"
    and pf: "\<not> prev_is_free info c" and nf: "\<not> next_is_free info (c + 16 + s)"
    and co: "xs = [] \<or> snd (last xs)" "ys = [] \<or> snd (hd ys)"
  shows "mem_wf (mem_free info (c + 8)) (xs @ (s, False) # ys)"
    and "x \<in> outside (mi_lo_bound info) xs [(s, True)] ys \<Longrightarrow> mi_cells (mem_free info (c + 8)) x = mi_cells info x"
proof -
  define i1 where "i1 = info\<lparr>mi_used_size := mi_used_size info - of_nat s, mi_free_size := mi_free_size info + of_nat s\<rparr>"
  note H = wf_header [OF wf c] and D = mem_wfD [OF wf]
  have e: "c + 8 + s + 8 = c + 16 + s" by simp
  have eq: "mem_free info (c + 8) = mem_link_chunk (i1\<lparr>mi_cells := mem_set_chunk_size c s (mi_cells i1)\<rparr>) c"
    using pf nf H(1) unfolding mem_free_def Let_def diff_add_inverse2 H(1) e
    by (simp add: i1_def)
  have wf': "mem_wf info (xs @ [(s, True)] @ ys)" using wf by simp
  have l: "lists (mi_cells i1) (mi_buckets i1) (mi_lo_bound info) (xs @ [(s, True)] @ ys)"
    using D(2) by (simp add: i1_def)
  have F: "mi_lo_bound i1 = mi_lo_bound info" "mi_hi_bound i1 = mi_hi_bound info" "mi_total_size i1 = mi_total_size info"
    "mi_cells i1 = mi_cells info" "mi_used_size i1 = mi_used_size info - of_nat (used_sum [(s, True)])"
    "mi_free_size i1 = mi_free_size info - of_nat (free_sum [(s, True)]) + of_nat s"
    by (simp_all add: i1_def)
  have B: "\<forall>d \<in> set [(s, True)]. snd d" "span [(s, True)] = s + 16" by simp_all
  have fr: "mi_cells i1 x = mi_cells info x" for x by (simp add: F)
  note R = free_finish [OF wf' F(1-3) l B(1) refl B(2) H(3,4) c fr F(5,6) co, folded eq]
  show "mem_wf (mem_free info (c + 8)) (xs @ (s, False) # ys)" using R(1) by simp
  show "x \<in> outside (mi_lo_bound info) xs [(s, True)] ys \<Longrightarrow> mi_cells (mem_free info (c + 8)) x = mi_cells info x"
    by (rule R(2))
qed

text \<open>Only the next chunk is free.\<close>

lemma free_next:
  assumes wf: "mem_wf info (xs @ (s, True) # (n, False) # ys)" and c: "c = mi_lo_bound info + span xs"
    and pf: "\<not> prev_is_free info c" and co: "xs = [] \<or> snd (last xs)"
  shows "mem_wf (mem_free info (c + 8)) (xs @ (s + 16 + n, False) # ys)"
    and "x \<in> outside (mi_lo_bound info) xs [(s, True), (n, False)] ys \<Longrightarrow>
      mi_cells (mem_free info (c + 8)) x = mi_cells info x"
proof -
  let ?lo = "mi_lo_bound info" and ?N = "c + 16 + s"
  define i0 where "i0 = info\<lparr>mi_used_size := mi_used_size info - of_nat s,
    mi_free_size := mi_free_size info + of_nat s + 16\<rparr>"
  define i1 where "i1 = mem_unlink_chunk i0 ?N"
  have wfn: "mem_wf info ((xs @ [(s, True)]) @ (n, False) # ys)" using wf by simp
  have N: "?N = ?lo + span (xs @ [(s, True)])" using c by simp
  note H = wf_header [OF wf c] and Hn = wf_header [OF wfn N] and D = mem_wfD [OF wfn]
  have nf: "next_is_free info ?N" using wf_next(1) [OF wf, of ?N] c by simp
  have e: "c + 8 + s + 8 = ?N" by simp
  have eq: "mem_free info (c + 8) =
      mem_link_chunk (i1\<lparr>mi_cells := mem_set_chunk_size c (s + 16 + n) (mi_cells i1)\<rparr>) c"
    using pf nf unfolding mem_free_def Let_def diff_add_inverse2 H(1) e Hn(1)
    by (simp add: i1_def i0_def ac_simps)
  have l0: "lists (mi_cells i0) (mi_buckets i0) ?lo ((xs @ [(s, True)]) @ (n, False) # ys)"
    "CHUNK_SIZE (mi_cells i0) (?lo + span (xs @ [(s, True)])) = n"
    using D(2) Hn(1) N by (simp_all add: i0_def)
  note U = unlink_lists [OF l0, folded N, folded i1_def]
  have co': "ys = [] \<or> snd (hd ys)" using D(5) by (auto simp: coalesced_append coalesced_Cons)
  have wf': "mem_wf info (xs @ [(s, True), (n, False)] @ ys)" using wf by simp
  have l: "lists (mi_cells i1) (mi_buckets i1) ?lo (xs @ [(s, True), (n, True)] @ ys)" using U(1) by simp
  have F: "mi_lo_bound i1 = ?lo" "mi_hi_bound i1 = mi_hi_bound info" "mi_total_size i1 = mi_total_size info"
    "mi_used_size i1 = mi_used_size info - of_nat (used_sum [(s, True), (n, False)])"
    "mi_free_size i1 = mi_free_size info - of_nat (free_sum [(s, True), (n, False)]) + of_nat (s + 16 + n)"
    by (simp_all add: i1_def i0_def)
  have B: "\<forall>d \<in> set [(s, True), (n, True)]. snd d" "span [(s, True), (n, True)] = span [(s, True), (n, False)]"
    "span [(s, True), (n, False)] = s + 16 + n + 16" "24 \<le> s + 16 + n" "8 dvd s + 16 + n"
    using H(3,4) Hn(4) by simp_all
  have fr: "mi_cells i1 x = mi_cells info x" if "x \<in> outside ?lo xs [(s, True), (n, False)] ys" for x
    using U(2) [of x] that by (simp add: outside_def i0_def ac_simps)
  note R = free_finish [OF wf' F(1-3) l B c fr F(4,5) co co', folded eq]
  show "mem_wf (mem_free info (c + 8)) (xs @ (s + 16 + n, False) # ys)" using R(1) by simp
  show "x \<in> outside ?lo xs [(s, True), (n, False)] ys \<Longrightarrow> mi_cells (mem_free info (c + 8)) x = mi_cells info x"
    by (rule R(2))
qed

text \<open>Only the previous chunk is free.\<close>

lemma free_prev:
  assumes wf: "mem_wf info (xs @ (p, False) # (s, True) # ys)" and b: "b = mi_lo_bound info + span xs"
    and c: "c = b + 16 + p" and nf: "\<not> next_is_free info (c + 16 + s)" and co: "ys = [] \<or> snd (hd ys)"
  shows "mem_wf (mem_free info (c + 8)) (xs @ (p + 16 + s, False) # ys)"
    and "x \<in> outside (mi_lo_bound info) xs [(p, False), (s, True)] ys \<Longrightarrow>
      mi_cells (mem_free info (c + 8)) x = mi_cells info x"
proof -
  let ?lo = "mi_lo_bound info"
  define i0 where "i0 = info\<lparr>mi_used_size := mi_used_size info - of_nat s,
    mi_free_size := mi_free_size info + of_nat s + 16\<rparr>"
  define i1 where "i1 = mem_unlink_chunk i0 b"
  have wfc: "mem_wf info ((xs @ [(p, False)]) @ (s, True) # ys)" using wf by simp
  have C: "c = ?lo + span (xs @ [(p, False)])" using b c by simp
  note H = wf_header [OF wfc C] and Hp = wf_header [OF wf b] and D = mem_wfD [OF wf]
  have pf: "prev_is_free info c" "CHUNK_SIZE (mi_cells info) (c - 8) = p" "c - 8 - p - 8 = b"
    using wf_prev(2) [OF wfc C refl] b by simp_all
  have e: "c + 8 + s + 8 = c + 16 + s" by simp
  have eq: "mem_free info (c + 8) =
      mem_link_chunk (i1\<lparr>mi_cells := mem_set_chunk_size b (p + 16 + s) (mi_cells i1)\<rparr>) b"
    using pf(1) nf unfolding mem_free_def Let_def diff_add_inverse2 H(1) e pf(2,3) Hp(1)
    by (simp add: i1_def i0_def ac_simps)
  have l0: "lists (mi_cells i0) (mi_buckets i0) ?lo (xs @ (p, False) # (s, True) # ys)"
    "CHUNK_SIZE (mi_cells i0) (?lo + span xs) = p"
    using D(2) Hp(1) b by (simp_all add: i0_def)
  note U = unlink_lists [OF l0, folded b, folded i1_def]
  have co': "xs = [] \<or> snd (last xs)" using D(5) by (auto simp: coalesced_append coalesced_Cons)
  have wf': "mem_wf info (xs @ [(p, False), (s, True)] @ ys)" using wf by simp
  have l: "lists (mi_cells i1) (mi_buckets i1) ?lo (xs @ [(p, True), (s, True)] @ ys)" using U(1) by simp
  have F: "mi_lo_bound i1 = ?lo" "mi_hi_bound i1 = mi_hi_bound info" "mi_total_size i1 = mi_total_size info"
    "mi_used_size i1 = mi_used_size info - of_nat (used_sum [(p, False), (s, True)])"
    "mi_free_size i1 = mi_free_size info - of_nat (free_sum [(p, False), (s, True)]) + of_nat (p + 16 + s)"
    by (simp_all add: i1_def i0_def)
  have B: "\<forall>d \<in> set [(p, True), (s, True)]. snd d" "span [(p, True), (s, True)] = span [(p, False), (s, True)]"
    "span [(p, False), (s, True)] = p + 16 + s + 16" "24 \<le> p + 16 + s" "8 dvd p + 16 + s"
    using H(3,4) Hp(4) by simp_all
  have fr: "mi_cells i1 x = mi_cells info x" if "x \<in> outside ?lo xs [(p, False), (s, True)] ys" for x
    using U(2) [of x] that by (simp add: outside_def i0_def ac_simps)
  note R = free_finish [OF wf' F(1-3) l B b fr F(4,5) co' co, folded eq]
  show "mem_wf (mem_free info (c + 8)) (xs @ (p + 16 + s, False) # ys)" using R(1) by simp
  show "x \<in> outside ?lo xs [(p, False), (s, True)] ys \<Longrightarrow> mi_cells (mem_free info (c + 8)) x = mi_cells info x"
    by (rule R(2))
qed

text \<open>Both neighbours are free.\<close>

lemma free_both:
  assumes wf: "mem_wf info (xs @ (p, False) # (s, True) # (n, False) # ys)"
    and b: "b = mi_lo_bound info + span xs" and c: "c = b + 16 + p"
  shows "mem_wf (mem_free info (c + 8)) (xs @ (p + 16 + s + 16 + n, False) # ys)"
    and "x \<in> outside (mi_lo_bound info) xs [(p, False), (s, True), (n, False)] ys \<Longrightarrow>
      mi_cells (mem_free info (c + 8)) x = mi_cells info x"
proof -
  let ?lo = "mi_lo_bound info" and ?N = "c + 16 + s" and ?mid = "[(p, False), (s, True), (n, False)]"
  define i0 where "i0 = info\<lparr>mi_used_size := mi_used_size info - of_nat s,
    mi_free_size := mi_free_size info + of_nat s + 32\<rparr>"
  define i1 where "i1 = mem_unlink_chunk i0 b"
  define i2 where "i2 = mem_unlink_chunk i1 ?N"
  have wfc: "mem_wf info ((xs @ [(p, False)]) @ (s, True) # (n, False) # ys)" using wf by simp
  have wfn: "mem_wf info ((xs @ [(p, False), (s, True)]) @ (n, False) # ys)" using wf by simp
  have C: "c = ?lo + span (xs @ [(p, False)])" and N: "?N = ?lo + span (xs @ [(p, True), (s, True)])"
    "?N = ?lo + span (xs @ [(p, False), (s, True)])" using b c by simp_all
  note H = wf_header [OF wfc C] and Hp = wf_header [OF wf b] and Hn = wf_header [OF wfn N(2)] and D = mem_wfD [OF wf]
  have pf: "prev_is_free info c" "CHUNK_SIZE (mi_cells info) (c - 8) = p" "c - 8 - p - 8 = b"
    using wf_prev(2) [OF wfc C refl] b by simp_all
  have nf: "next_is_free info ?N" using wf_next(1) [OF wfc, of ?N] C by simp
  have e: "c + 8 + s + 8 = ?N" by simp
  have eq: "mem_free info (c + 8) =
      mem_link_chunk (i2\<lparr>mi_cells := mem_set_chunk_size b (p + 16 + s + 16 + n) (mi_cells i2)\<rparr>) b"
    using pf(1) nf unfolding mem_free_def Let_def diff_add_inverse2 H(1) e pf(2,3) Hp(1) Hn(1)
    by (simp add: i2_def i1_def i0_def ac_simps)
  have l0: "lists (mi_cells i0) (mi_buckets i0) ?lo (xs @ (p, False) # (s, True) # (n, False) # ys)"
    "CHUNK_SIZE (mi_cells i0) (?lo + span xs) = p"
    using D(2) Hp(1) b by (simp_all add: i0_def)
  note U = unlink_lists [OF l0, folded b, folded i1_def]
  have "hdr (mi_cells i0) ?N n False"
    using D(1) N(2) by (simp add: i0_def ac_simps)
  moreover have "(?N, n, False) \<in> tset ?lo (xs @ (p, True) # (s, True) # (n, False) # ys)"
    using N(2) by (simp add: ac_simps)
  ultimately have "hdr (mi_cells i1) ?N n False"
    unfolding i1_def by (rule unlink_hdr [OF l0(1) l0(2) [folded b] b])
  then have "CHUNK_SIZE (mi_cells i1) ?N = n" using hdr_read(1) Hn(5) by blast
  then have l1: "lists (mi_cells i1) (mi_buckets i1) ?lo ((xs @ [(p, True), (s, True)]) @ (n, False) # ys)"
    "CHUNK_SIZE (mi_cells i1) (?lo + span (xs @ [(p, True), (s, True)])) = n"
    using U(1) N(1) by simp_all
  note V = unlink_lists [OF l1, folded N(1), folded i2_def]
  have co: "xs = [] \<or> snd (last xs)" "ys = [] \<or> snd (hd ys)"
    using D(5) by (auto simp: coalesced_append coalesced_Cons)
  have wf': "mem_wf info (xs @ ?mid @ ys)" using wf by simp
  have l: "lists (mi_cells i2) (mi_buckets i2) ?lo (xs @ [(p, True), (s, True), (n, True)] @ ys)" using V(1) by simp
  have F: "mi_lo_bound i2 = ?lo" "mi_hi_bound i2 = mi_hi_bound info" "mi_total_size i2 = mi_total_size info"
    "mi_used_size i2 = mi_used_size info - of_nat (used_sum ?mid)"
    "mi_free_size i2 = mi_free_size info - of_nat (free_sum ?mid) + of_nat (p + 16 + s + 16 + n)"
    by (simp_all add: i2_def i1_def i0_def)
  have B: "\<forall>d \<in> set [(p, True), (s, True), (n, True)]. snd d" "span [(p, True), (s, True), (n, True)] = span ?mid"
    "span ?mid = p + 16 + s + 16 + n + 16" "24 \<le> p + 16 + s + 16 + n" "8 dvd p + 16 + s + 16 + n"
    using H(3,4) Hp(4) Hn(4) by simp_all
  have fr: "mi_cells i2 x = mi_cells info x" if x: "x \<in> outside ?lo xs ?mid ys" for x
  proof -
    have "x \<notin> pcells ?N"
      using x N(2) Hn(3) by (auto simp: outside_def pcells_def)
    then have "x \<notin> pc ?lo (xs @ (p, True) # (s, True) # (n, False) # ys)"
      "x \<notin> pc ?lo ((xs @ [(p, True), (s, True)]) @ (n, True) # ys)"
      using x N(2) by (simp_all add: outside_def ac_simps)
    then show ?thesis using U(2) [of x] V(2) [of x] by (simp add: i0_def)
  qed
  note R = free_finish [OF wf' F(1-3) l B b fr F(4,5) co, folded eq]
  show "mem_wf (mem_free info (c + 8)) (xs @ (p + 16 + s + 16 + n, False) # ys)" using R(1) by simp
  show "x \<in> outside ?lo xs ?mid ys \<Longrightarrow> mi_cells (mem_free info (c + 8)) x = mi_cells info x"
    by (rule R(2))
qed

text \<open>The four cases together.\<close>

lemma chunk_neighbours:
  fixes xs ys :: "chunk list"
  obtains (none) "xs = [] \<or> snd (last xs)" "ys = [] \<or> snd (hd ys)"
    | (next_only) n zs where "xs = [] \<or> snd (last xs)" "ys = (n, False) # zs"
    | (prev_only) zs p where "xs = zs @ [(p, False)]" "ys = [] \<or> snd (hd ys)"
    | (both) zs p n ws where "xs = zs @ [(p, False)]" "ys = (n, False) # ws"
proof -
  have X: "\<exists>zs p. xs = zs @ [(p, False)]" if "\<not> (xs = [] \<or> snd (last xs))" for xs :: "chunk list"
  proof (cases xs rule: rev_cases)
    case (snoc zs z)
    with that show ?thesis by (cases z) auto
  qed (use that in simp)
  have Y: "\<exists>n ws. ys = (n, False) # ws" if "\<not> (ys = [] \<or> snd (hd ys))" for ys :: "chunk list"
  proof (cases ys)
    case (Cons z zs)
    with that show ?thesis by (cases z) auto
  qed (use that in simp)
  show thesis using X [of xs] Y [of ys] none next_only prev_only both by metis
qed

lemma used_before: "xs = [] \<or> snd (last xs) \<Longrightarrow> mem_wf info (xs @ (s, u) # ys) \<Longrightarrow>
  c = mi_lo_bound info + span xs \<Longrightarrow> \<not> prev_is_free info c"
proof (cases xs rule: rev_cases)
  case (snoc zs z)
  moreover obtain t v where "z = (t, v)" by fastforce
  moreover assume "xs = [] \<or> snd (last xs)" "mem_wf info (xs @ (s, u) # ys)" "c = mi_lo_bound info + span xs"
  ultimately show ?thesis using wf_prev(2) [of info xs s u ys c zs t v] by auto
qed (simp add: prev_is_free_def)

lemma used_after: "ys = [] \<or> snd (hd ys) \<Longrightarrow> mem_wf info (xs @ (s, u) # ys) \<Longrightarrow>
  c = mi_lo_bound info + span xs \<Longrightarrow> \<not> next_is_free info (c + 16 + s)"
  using wf_next(1) [of info xs s u ys "c + 16 + s"] by (cases ys) (auto split: prod.splits)

lemma free_correct:
  assumes wf: "mem_wf info (xs @ (s, True) # ys)" and c: "c = mi_lo_bound info + span xs"
  shows "mem_wf (mem_free info (c + 8)) (freed xs s ys) \<and>
    (\<forall>x. x \<notin> free_zone (mi_lo_bound info) (xs @ (s, True) # ys) \<and> x \<notin> {c..<c + 16 + s} \<longrightarrow>
      mi_cells (mem_free info (c + 8)) x = mi_cells info x)"
proof -
  let ?lo = "mi_lo_bound info" and ?i = "mem_free info (c + 8)"
  have sz: "sizes_ok (xs @ (s, True) # ys)" using mem_wfD(1) [OF wf] tiles_sizes by blast
  have zone: "x \<in> outside ?lo zs mid ws"
    if "zs @ mid @ ws = xs @ (s, False) # ys" "\<forall>d \<in> set mid. \<not> snd d"
      "x \<notin> free_zone ?lo (xs @ (s, True) # ys)" "x \<notin> {c..<c + 16 + s}" for x zs mid ws
  proof (rule outside_zone)
    show "sizes_ok (zs @ mid @ ws)" unfolding that(1) using sz by simp
    show "x \<notin> free_zone ?lo (zs @ mid @ ws)" unfolding that(1) using that(3,4) c by simp
  qed (use that in simp)
  show ?thesis
  proof (cases rule: chunk_neighbours [of xs ys])
    case none
    note R = free_none [OF wf c used_before [OF none(1) wf c] used_after [OF none(2) wf c] none]
    have fr: "mi_cells ?i x = mi_cells info x"
      if "x \<notin> free_zone ?lo (xs @ (s, True) # ys)" "x \<notin> {c..<c + 16 + s}" for x
      using R(2) [of x] zone [of xs "[(s, False)]" ys x] outside_cong [of "[(s, True)]" "[(s, False)]"] that by simp
    have "freed xs s ys = xs @ (s, False) # ys"
      using none by (cases ys) (auto simp: freed_def split: bool.splits)
    with R(1) fr show ?thesis by simp
  next
    case (next_only n zs)
    note wf' = wf [unfolded next_only(2)]
    note R = free_next [OF wf' c used_before [OF next_only(1) wf c] next_only(1)]
    have fr: "mi_cells ?i x = mi_cells info x"
      if "x \<notin> free_zone ?lo (xs @ (s, True) # ys)" "x \<notin> {c..<c + 16 + s}" for x
      using R(2) [of x] zone [of xs "[(s, False), (n, False)]" zs x] next_only(2) that
        outside_cong [of "[(s, True), (n, False)]" "[(s, False), (n, False)]"] by simp
    have "freed xs s ys = xs @ (s + 16 + n, False) # zs"
      using next_only by (auto simp: freed_def)
    with R(1) fr show ?thesis by simp
  next
    case (prev_only zs p)
    have wf': "mem_wf info (zs @ (p, False) # (s, True) # ys)" using wf prev_only(1) by simp
    have b: "c = ?lo + span zs + 16 + p" using c prev_only(1) by simp
    note R = free_prev [OF wf' refl b used_after [OF prev_only(2) wf c] prev_only(2)]
    have fr: "mi_cells ?i x = mi_cells info x"
      if "x \<notin> free_zone ?lo (xs @ (s, True) # ys)" "x \<notin> {c..<c + 16 + s}" for x
      using R(2) [of x] zone [of zs "[(p, False), (s, False)]" ys x] prev_only(1) that
        outside_cong [of "[(p, False), (s, True)]" "[(p, False), (s, False)]"] by simp
    have "freed xs s ys = zs @ (p + 16 + s, False) # ys"
      using prev_only by (cases ys) (auto simp: freed_def split: bool.splits)
    with R(1) fr show ?thesis by simp
  next
    case (both zs p n ws)
    have wf': "mem_wf info (zs @ (p, False) # (s, True) # (n, False) # ws)" using wf both by simp
    have b: "c = ?lo + span zs + 16 + p" using c both(1) by simp
    note R = free_both [OF wf' refl b]
    have fr: "mi_cells ?i x = mi_cells info x"
      if "x \<notin> free_zone ?lo (xs @ (s, True) # ys)" "x \<notin> {c..<c + 16 + s}" for x
      using R(2) [of x] zone [of zs "[(p, False), (s, False), (n, False)]" ws x] both that
        outside_cong [of "[(p, False), (s, True), (n, False)]" "[(p, False), (s, False), (n, False)]"] by simp
    have "freed xs s ys = zs @ (p + 16 + s + 16 + n, False) # ws"
      using both by (auto simp: freed_def)
    with R(1) fr show ?thesis by simp
  qed
qed

section \<open>\<open>__mem_realloc\<close> in place\<close>

lemma payload_not_pc:
  assumes "sizes_ok (xs @ (s, True) # ys)" "c = lo + span xs" "c \<le> x" "x < c + 16 + s"
  shows "x \<notin> pc lo (xs @ (s, True) # ys)"
  using assms pc_range [of xs x lo] pc_range [of ys x "lo + span xs + 16 + s"] by auto

text \<open>Cutting a chunk keeps the data of its front part.\<close>

lemma split_tail_payload:
  assumes l: "lists (mi_cells info) (mi_buckets info) lo (xs @ (s + 16 + t, True) # ys)"
    and st: "24 \<le> s" "24 \<le> t" and c: "c = lo + span xs" "n = c + 16 + s" and x: "c + 8 \<le> x" "x < c + 8 + s"
  shows "mem_set_used_chunk_size c s
      (mi_cells (mem_link_chunk (info\<lparr>mi_cells := mem_set_chunk_size n t (mi_cells info)\<rparr>) n)) x = mi_cells info x"
proof -
  let ?info = "info\<lparr>mi_cells := mem_set_chunk_size n t (mi_cells info)\<rparr>"
  have "lists (mi_cells info) (mi_buckets info) lo (xs @ [(s + 16 + t, True)] @ ys)" using l by simp
  from lists_recut [OF this, of "[(s, True), (t, True)]"] st
  have l1: "lists (mi_cells info) (mi_buckets info) lo ((xs @ [(s, True)]) @ (t, True) # ys)" by simp
  have N: "n = lo + span (xs @ [(s, True)])" using c by simp
  have t: "t < 2 ^ 63" using l by (simp add: lists_def)
  have l2: "lists (mi_cells ?info) (mi_buckets ?info) lo ((xs @ [(s, True)]) @ (t, True) # ys)"
    using lists_set_chunk_size(1) [OF l1, of n t True] N by simp
  have "CHUNK_SIZE (mi_cells ?info) (lo + span (xs @ [(s, True)])) = t"
    using hdr_read(1) [OF hdr_set t] N by simp
  note L = link_lists(2) [OF l2 this, folded N]
  have "sizes_ok (xs @ (s, True) # (t, False) # ys)" using l st by (simp add: lists_def)
  then have "x \<notin> pc lo (xs @ (s, True) # (t, False) # ys)"
    by (rule payload_not_pc [OF _ c(1)]) (use x in auto)
  then have "mi_cells (mem_link_chunk ?info n) x = mi_cells ?info x" using L [of x] by simp
  also have "\<dots> = mi_cells info x" using x c by (auto simp: mem_set_chunk_size_def)
  finally show ?thesis using x by (auto simp: mem_set_used_chunk_size_def)
qed

text \<open>
  The invariant after a chunk, possibly with the free chunk after it, is cut into a used and a
  free part. \<open>info1\<close> is the state once the free chunk is unlinked; \<open>mid1\<close> the chunks as its
  lists see them.
\<close>

lemma cut_finish:
  assumes wf: "mem_wf info (xs @ mid @ ys)"
    and fields: "mi_lo_bound info1 = mi_lo_bound info" "mi_hi_bound info1 = mi_hi_bound info"
      "mi_total_size info1 = mi_total_size info"
    and l: "lists (mi_cells info1) (mi_buckets info1) (mi_lo_bound info) (xs @ mid1 @ ys)"
    and mid1: "\<forall>d \<in> set mid1. snd d" "span mid1 = span mid" and S: "span mid = s + 16 + t + 16"
    and st: "24 \<le> s" "24 \<le> t" "8 dvd s" "8 dvd t"
    and c: "c = mi_lo_bound info + span xs" "n = c + 16 + s"
    and frame: "\<And>x. x \<in> outside (mi_lo_bound info) xs mid ys \<Longrightarrow> mi_cells info1 x = mi_cells info x"
    and co: "ys = [] \<or> snd (hd ys)" "coalesced ys"
  defines "info2 \<equiv> mem_link_chunk (info1\<lparr>mi_cells := mem_set_chunk_size n t (mi_cells info1)\<rparr>) n"
  assumes used: "used = mi_used_size info - of_nat (used_sum mid) + of_nat s"
    and free: "free = mi_free_size info - of_nat (free_sum mid) + of_nat t"
  defines "info' \<equiv> info2\<lparr>mi_used_size := used, mi_free_size := free,
      mi_cells := mem_set_used_chunk_size c s (mi_cells info2)\<rparr>"
  shows "mem_wf info' (xs @ (s, True) # (t, False) # ys)"
    and "x \<in> outside (mi_lo_bound info) xs mid ys \<Longrightarrow> mi_cells info' x = mi_cells info x"
    and "c + 8 \<le> x \<Longrightarrow> x < c + 8 + s \<Longrightarrow> mi_cells info' x = mi_cells info1 x"
proof -
  have "lists (mi_cells info1) (mi_buckets info1) (mi_lo_bound info) (xs @ [(s + 16 + t, True)] @ ys)"
    by (rule lists_recut [OF l mid1(1)]) (use mid1(2) S st in auto)
  then have l1: "lists (mi_cells info1) (mi_buckets info1) (mi_lo_bound info) (xs @ (s + 16 + t, True) # ys)" by simp
  note V = split_tail [OF l1 st(1,2) c, folded info2_def]
  have o: "outside (mi_lo_bound info) xs mid ys = outside (mi_lo_bound info) xs [(s + 16 + t, True)] ys"
    by (rule outside_cong) (simp add: S)
  show fr: "mi_cells info' x = mi_cells info x" if "x \<in> outside (mi_lo_bound info) xs mid ys" for x
    using V(4) [of x] frame [OF that] that by (simp add: o info'_def)
  show "c + 8 \<le> x \<Longrightarrow> x < c + 8 + s \<Longrightarrow> mi_cells info' x = mi_cells info1 x"
    using split_tail_payload [OF l1 st(1,2) c, of x] by (simp add: info'_def info2_def)
  have "coalesced (xs @ mid @ ys)" by (rule mem_wfD(5) [OF wf])
  then have co': "coalesced (xs @ [(s, True), (t, False)] @ ys)"
    using co by (auto simp: coalesced_append coalesced_Cons)
  have T: "tiles (mi_cells info') (mi_lo_bound info + span xs) [(s, True), (t, False)]"
    using V(2,3) st c by (simp add: info'_def ac_simps)
  have "mem_wf info' (xs @ [(s, True), (t, False)] @ ys)"
    by (rule wf_replace [OF wf _ _ _ _ T _ fr co'];
        use V(1) fields S used free in \<open>simp add: info'_def info2_def\<close>)
  then show "mem_wf info' (xs @ (s, True) # (t, False) # ys)" by simp
qed

text \<open>Giving the tail of a chunk back.\<close>

definition shrunk :: "chunk list \<Rightarrow> nat \<Rightarrow> nat \<Rightarrow> chunk list \<Rightarrow> chunk list" where
  "shrunk xs s sz ys =
     (if s div 4 < sz then xs @ (s, True) # ys
      else case ys of
        (n, False) # zs \<Rightarrow> xs @ (sz, True) # (n + (s - sz), False) # zs
      | _ \<Rightarrow> xs @ (sz, True) # (s - sz - 16, False) # ys)"

lemma shrink_merge:
  assumes wf: "mem_wf info (xs @ (s, True) # (n, False) # ys)" and c: "c = mi_lo_bound info + span xs"
    and sz: "24 \<le> sz" "8 dvd sz" "sz \<le> s div 4"
  shows "mem_wf (mem_shrink info c sz) (xs @ (sz, True) # (n + (s - sz), False) # ys)"
    and "x \<in> outside (mi_lo_bound info) xs [(s, True), (n, False)] ys \<Longrightarrow> mi_cells (mem_shrink info c sz) x = mi_cells info x"
    and "c + 8 \<le> x \<Longrightarrow> x < c + 8 + sz \<Longrightarrow> mi_cells (mem_shrink info c sz) x = mi_cells info x"
proof -
  let ?lo = "mi_lo_bound info" and ?N = "c + 16 + s" and ?t = "n + (s - sz)" and ?mid = "[(s, True), (n, False)]"
  define i0 where "i0 = info\<lparr>mi_used_size := mi_used_size info - of_nat (s - sz),
    mi_free_size := mi_free_size info + of_nat (s - sz)\<rparr>"
  define i1 where "i1 = mem_unlink_chunk i0 ?N"
  have wfn: "mem_wf info ((xs @ [(s, True)]) @ (n, False) # ys)" using wf by simp
  have N: "?N = ?lo + span (xs @ [(s, True)])" using c by simp
  note H = wf_header [OF wf c] and Hn = wf_header [OF wfn N] and D = mem_wfD [OF wfn]
  have nf: "next_is_free info ?N" using wf_next(1) [OF wf, of ?N] c by simp
  have e: "c + 8 + s + 8 = ?N" "c + 8 + sz + 8 = c + 16 + sz" by simp_all
  have le: "sz \<le> s" using sz(3) by simp
  have l0: "lists (mi_cells i0) (mi_buckets i0) ?lo ((xs @ [(s, True)]) @ (n, False) # ys)"
    "CHUNK_SIZE (mi_cells i0) (?lo + span (xs @ [(s, True)])) = n"
    using D(2) Hn(1) N by (simp_all add: i0_def)
  note U = unlink_lists [OF l0, folded N, folded i1_def]
  have co: "ys = [] \<or> snd (hd ys)" "coalesced ys"
    using D(5) by (auto simp: coalesced_append coalesced_Cons)
  have wf': "mem_wf info (xs @ ?mid @ ys)" using wf by simp
  have l: "lists (mi_cells i1) (mi_buckets i1) ?lo (xs @ [(s, True), (n, True)] @ ys)" using U(1) by simp
  have F: "mi_lo_bound i1 = ?lo" "mi_hi_bound i1 = mi_hi_bound info" "mi_total_size i1 = mi_total_size info"
    by (simp_all add: i1_def i0_def)
  have B: "\<forall>d \<in> set [(s, True), (n, True)]. snd d" "span [(s, True), (n, True)] = span ?mid"
    "span ?mid = sz + 16 + ?t + 16" "24 \<le> ?t" "8 dvd ?t"
    using H(4) Hn(3,4) sz(2) le by (simp_all add: dvd_diff_nat)
  have fr: "mi_cells i1 x = mi_cells info x" if "x \<in> outside ?lo xs ?mid ys" for x
    using U(2) [of x] that by (simp add: outside_def i0_def ac_simps)
  have st: "mi_used_size info - of_nat (s - sz) = mi_used_size info - of_nat (used_sum ?mid) + of_nat sz"
    "mi_free_size info + of_nat (s - sz) = mi_free_size info - of_nat (free_sum ?mid) + of_nat ?t"
    using le by simp_all
  have eq: "mem_shrink info c sz =
      (let info2 = mem_link_chunk (i1\<lparr>mi_cells := mem_set_chunk_size (c + 16 + sz) ?t (mi_cells i1)\<rparr>) (c + 16 + sz)
       in info2\<lparr>mi_used_size := mi_used_size info - of_nat (s - sz),
            mi_free_size := mi_free_size info + of_nat (s - sz),
            mi_cells := mem_set_used_chunk_size c sz (mi_cells info2)\<rparr>)"
    using nf sz(3) unfolding mem_shrink_def Let_def H(1) e Hn(1)
    by (simp add: i1_def i0_def)
  note R = cut_finish [OF wf' F l B(1-3) sz(1) B(4) sz(2) B(5) c refl fr co st, folded eq [unfolded Let_def]]
  show "mem_wf (mem_shrink info c sz) (xs @ (sz, True) # (n + (s - sz), False) # ys)" by (rule R(1))
  show "x \<in> outside ?lo xs ?mid ys \<Longrightarrow> mi_cells (mem_shrink info c sz) x = mi_cells info x" by (rule R(2))
  show "c + 8 \<le> x \<Longrightarrow> x < c + 8 + sz \<Longrightarrow> mi_cells (mem_shrink info c sz) x = mi_cells info x"
  proof -
    assume x: "c + 8 \<le> x" "x < c + 8 + sz"
    have "sizes_ok (xs @ (s, True) # (n, True) # ys)" using U(1) by (simp add: lists_def)
    then have "x \<notin> pc ?lo (xs @ (s, True) # (n, True) # ys)"
      by (rule payload_not_pc [OF _ c]) (use x le in auto)
    then show ?thesis using R(3) [OF _ x] U(2) [of x] by (simp add: i0_def)
  qed
qed

lemma shrink_split:
  assumes wf: "mem_wf info (xs @ (s, True) # ys)" and c: "c = mi_lo_bound info + span xs"
    and nf: "\<not> next_is_free info (c + 16 + s)" and co: "ys = [] \<or> snd (hd ys)"
    and sz: "24 \<le> sz" "8 dvd sz" "sz \<le> s div 4"
  shows "mem_wf (mem_shrink info c sz) (xs @ (sz, True) # (s - sz - 16, False) # ys)"
    and "x \<in> outside (mi_lo_bound info) xs [(s, True)] ys \<Longrightarrow> mi_cells (mem_shrink info c sz) x = mi_cells info x"
    and "c + 8 \<le> x \<Longrightarrow> x < c + 8 + sz \<Longrightarrow> mi_cells (mem_shrink info c sz) x = mi_cells info x"
proof -
  let ?lo = "mi_lo_bound info" and ?t = "s - sz - 16"
  define i1 where "i1 = info\<lparr>mi_used_size := mi_used_size info - of_nat (s - sz),
    mi_free_size := mi_free_size info + of_nat ?t\<rparr>"
  note H = wf_header [OF wf c] and D = mem_wfD [OF wf]
  have e: "c + 8 + s + 8 = c + 16 + s" "c + 8 + sz + 8 = c + 16 + sz" by simp_all
  have le: "sz + 16 \<le> s" "24 \<le> ?t" using sz(1,3) by simp_all
  have co': "coalesced ys" using D(5) by (auto simp: coalesced_append coalesced_Cons)
  have wf': "mem_wf info (xs @ [(s, True)] @ ys)" using wf by simp
  have l: "lists (mi_cells i1) (mi_buckets i1) ?lo (xs @ [(s, True)] @ ys)" using D(2) by (simp add: i1_def)
  have F: "mi_lo_bound i1 = ?lo" "mi_hi_bound i1 = mi_hi_bound info" "mi_total_size i1 = mi_total_size info"
    by (simp_all add: i1_def)
  have B: "\<forall>d \<in> set [(s, True)]. snd d" "span [(s, True)] = sz + 16 + ?t + 16" "8 dvd ?t"
    using H(4) sz(2) le by (simp_all add: dvd_diff_nat)
  have fr: "mi_cells i1 x = mi_cells info x" for x by (simp add: i1_def)
  have st: "mi_used_size info - of_nat (s - sz) = mi_used_size info - of_nat (used_sum [(s, True)]) + of_nat sz"
    "mi_free_size info + of_nat ?t = mi_free_size info - of_nat (free_sum [(s, True)]) + of_nat ?t"
    using le by simp_all
  have eq: "mem_shrink info c sz =
      (let info2 = mem_link_chunk (i1\<lparr>mi_cells := mem_set_chunk_size (c + 16 + sz) ?t (mi_cells i1)\<rparr>) (c + 16 + sz)
       in info2\<lparr>mi_used_size := mi_used_size info - of_nat (s - sz), mi_free_size := mi_free_size info + of_nat ?t,
            mi_cells := mem_set_used_chunk_size c sz (mi_cells info2)\<rparr>)"
    using nf sz(3) unfolding mem_shrink_def Let_def H(1) e
    by (simp add: i1_def)
  note R = cut_finish [OF wf' F l B(1) refl B(2) sz(1) le(2) sz(2) B(3) c refl fr co co' st, folded eq [unfolded Let_def]]
  show "mem_wf (mem_shrink info c sz) (xs @ (sz, True) # (s - sz - 16, False) # ys)" by (rule R(1))
  show "x \<in> outside ?lo xs [(s, True)] ys \<Longrightarrow> mi_cells (mem_shrink info c sz) x = mi_cells info x" by (rule R(2))
  show "c + 8 \<le> x \<Longrightarrow> x < c + 8 + sz \<Longrightarrow> mi_cells (mem_shrink info c sz) x = mi_cells info x"
    using R(3) [of x] by (simp add: i1_def)
qed

text \<open>Extending a chunk into the free chunk after it.\<close>

lemma extend_wf:
  assumes wf: "mem_wf info (xs @ (s, True) # (n, False) # ys)" and c: "c = mi_lo_bound info + span xs"
    and sz: "24 \<le> sz" "8 dvd sz" "s < sz" "sz \<le> s + 16 + n"
  defines "S \<equiv> s + 16 + n"
  shows "mem_wf (mem_extend info c sz)
      (if S < sz + 40 then xs @ (S, True) # ys else xs @ (sz, True) # (S - sz - 16, False) # ys)"
    and "x \<in> outside (mi_lo_bound info) xs [(s, True), (n, False)] ys \<Longrightarrow> mi_cells (mem_extend info c sz) x = mi_cells info x"
    and "c + 8 \<le> x \<Longrightarrow> x < c + 8 + s \<Longrightarrow> mi_cells (mem_extend info c sz) x = mi_cells info x"
proof -
  let ?lo = "mi_lo_bound info" and ?N = "c + 16 + s" and ?mid = "[(s, True), (n, False)]"
  define i0 where "i0 = info\<lparr>mi_used_size := mi_used_size info - of_nat s,
    mi_free_size := mi_free_size info + of_nat (s + 16)\<rparr>"
  define i1 where "i1 = mem_unlink_chunk i0 ?N"
  have wfn: "mem_wf info ((xs @ [(s, True)]) @ (n, False) # ys)" using wf by simp
  have N: "?N = ?lo + span (xs @ [(s, True)])" using c by simp
  note H = wf_header [OF wf c] and Hn = wf_header [OF wfn N] and D = mem_wfD [OF wfn]
  have e: "c + 8 + s + 8 = ?N" "c + 8 + sz + 8 = c + 16 + sz" "s + (2 * 8 + n) = S"
    by (simp_all add: S_def)
  have l0: "lists (mi_cells i0) (mi_buckets i0) ?lo ((xs @ [(s, True)]) @ (n, False) # ys)"
    "CHUNK_SIZE (mi_cells i0) (?lo + span (xs @ [(s, True)])) = n"
    using D(2) Hn(1) N by (simp_all add: i0_def)
  note U = unlink_lists [OF l0, folded N, folded i1_def]
  have co: "ys = [] \<or> snd (hd ys)" "coalesced ys" and cox: "coalesced xs"
    using D(5) by (auto simp: coalesced_append coalesced_Cons)
  have wf': "mem_wf info (xs @ ?mid @ ys)" using wf by simp
  have l: "lists (mi_cells i1) (mi_buckets i1) ?lo (xs @ [(s, True), (n, True)] @ ys)" using U(1) by simp
  have F: "mi_lo_bound i1 = ?lo" "mi_hi_bound i1 = mi_hi_bound info" "mi_total_size i1 = mi_total_size info"
    by (simp_all add: i1_def i0_def)
  have B: "\<forall>d \<in> set [(s, True), (n, True)]. snd d" "span [(s, True), (n, True)] = span ?mid"
    "span ?mid = S + 16" by (simp_all add: S_def)
  have fr: "mi_cells i1 x = mi_cells info x" if "x \<in> outside ?lo xs ?mid ys" for x
    using U(2) [of x] that by (simp add: outside_def i0_def ac_simps)
  have pay: "mi_cells i1 x = mi_cells info x" if x: "c + 8 \<le> x" "x < c + 8 + s" for x
  proof -
    have "sizes_ok (xs @ (s, True) # (n, True) # ys)" using U(1) by (simp add: lists_def)
    then have "x \<notin> pc ?lo (xs @ (s, True) # (n, True) # ys)"
      by (rule payload_not_pc [OF _ c]) (use x in auto)
    then show ?thesis using U(2) [of x] by (simp add: i0_def)
  qed
  have "mem_wf (mem_extend info c sz)
      (if S < sz + 40 then xs @ (S, True) # ys else xs @ (sz, True) # (S - sz - 16, False) # ys) \<and>
    (\<forall>x. x \<in> outside ?lo xs ?mid ys \<longrightarrow> mi_cells (mem_extend info c sz) x = mi_cells info x) \<and>
    (\<forall>x. c + 8 \<le> x \<and> x < c + 8 + s \<longrightarrow> mi_cells (mem_extend info c sz) x = mi_cells info x)"
  proof (cases "S < sz + 40")
    case True
    have "lists (mi_cells i1) (mi_buckets i1) ?lo (xs @ [(S, True)] @ ys)"
      by (rule lists_recut [OF l B(1)]) (use sz in \<open>auto simp: S_def\<close>)
    then have l1: "lists (mi_cells i1) (mi_buckets i1) ?lo (xs @ (S, True) # ys)" by simp
    note V = use_tail [OF l1 c]
    have eq: "mem_extend info c sz = i1\<lparr>mi_used_size := mi_used_size info - of_nat s + of_nat S,
        mi_free_size := mi_free_size info + of_nat (s + 16) - of_nat S,
        mi_cells := mem_set_used_chunk_size c S (mi_cells i1)\<rparr>"
      using True unfolding mem_extend_def Let_def H(1) e Hn(1) by (simp add: i1_def i0_def)
    have co': "coalesced (xs @ [(S, True)] @ ys)"
      using co cox by (auto simp: coalesced_append coalesced_Cons)
    have o: "outside ?lo xs ?mid ys = outside ?lo xs [(S, True)] ys"
      by (rule outside_cong) (simp add: S_def)
    have fr': "mi_cells (mem_extend info c sz) x = mi_cells info x" if "x \<in> outside ?lo xs ?mid ys" for x
      using V(3) [of x] fr [OF that] that by (simp add: o eq)
    have T: "tiles (mi_cells (mem_extend info c sz)) (?lo + span xs) [(S, True)]"
      using V(2) H(3,4) Hn(4) unfolding c [symmetric] eq by (simp add: S_def)
    have "mem_wf (mem_extend info c sz) (xs @ [(S, True)] @ ys)"
      by (rule wf_replace [OF wf' _ _ _ _ T _ fr' co']; use V(1) F in \<open>simp add: eq S_def\<close>)
    moreover have "mi_cells (mem_extend info c sz) x = mi_cells info x" if "c + 8 \<le> x" "x < c + 8 + s" for x
      using pay [OF that] that by (auto simp: eq mem_set_used_chunk_size_def S_def)
    ultimately show ?thesis using True fr' by simp
  next
    case False
    let ?t = "S - sz - 16"
    have t: "24 \<le> ?t" "8 dvd ?t" "S = sz + 16 + ?t" "span ?mid = sz + 16 + ?t + 16"
      using False H(4) Hn(4) sz(2) by (simp_all add: S_def dvd_diff_nat)
    have st: "mi_used_size info - of_nat s + of_nat sz = mi_used_size info - of_nat (used_sum ?mid) + of_nat sz"
      "mi_free_size info + of_nat (s + 16) - of_nat S + of_nat ?t = mi_free_size info - of_nat (free_sum ?mid) + of_nat ?t"
      by (simp_all add: S_def)
    have eq: "mem_extend info c sz =
        (let info2 = mem_link_chunk (i1\<lparr>mi_cells := mem_set_chunk_size (c + 16 + sz) ?t (mi_cells i1)\<rparr>) (c + 16 + sz)
         in info2\<lparr>mi_used_size := mi_used_size info - of_nat s + of_nat sz,
              mi_free_size := mi_free_size info + of_nat (s + 16) - of_nat S + of_nat ?t,
              mi_cells := mem_set_used_chunk_size c sz (mi_cells info2)\<rparr>)"
      using False unfolding mem_extend_def Let_def H(1) e Hn(1) by (simp add: i1_def i0_def)
    note R = cut_finish [OF wf' F l B(1,2) t(4) sz(1) t(1) sz(2) t(2) c refl fr co st, folded eq [unfolded Let_def]]
    have "mi_cells (mem_extend info c sz) x = mi_cells info x" if "c + 8 \<le> x" "x < c + 8 + s" for x
      using R(3) [of x] pay [OF that] that sz(3) by simp
    then show ?thesis using False R(1,2) by simp
  qed
  then show "mem_wf (mem_extend info c sz)
      (if S < sz + 40 then xs @ (S, True) # ys else xs @ (sz, True) # (S - sz - 16, False) # ys)"
    "x \<in> outside ?lo xs ?mid ys \<Longrightarrow> mi_cells (mem_extend info c sz) x = mi_cells info x"
    "c + 8 \<le> x \<Longrightarrow> x < c + 8 + s \<Longrightarrow> mi_cells (mem_extend info c sz) x = mi_cells info x" by blast+
qed

end
