(* ===== verification/Mem_Api.thy ===== *)
theory Mem_Api
  imports Mem_Free
begin

text \<open>
  What the allocator promises its callers, stated on sets of chunks: \<open>mem_view info A F\<close> says
  that the segment is well formed with the allocated chunks \<open>A\<close> and the free chunks \<open>F\<close>, pairs
  of a chunk's address and size. The user's pointer is the address plus 8.
\<close>

section \<open>The abstract state\<close>

definition used_chunks :: "nat \<Rightarrow> chunk list \<Rightarrow> (nat \<times> nat) set" where
  "used_chunks lo cs = {(b, s). (b, s, True) \<in> tset lo cs}"

definition free_chunks :: "nat \<Rightarrow> chunk list \<Rightarrow> (nat \<times> nat) set" where
  "free_chunks lo cs = {(b, s). (b, s, False) \<in> tset lo cs}"

definition mem_view :: "nt_mem_info \<Rightarrow> (nat \<times> nat) set \<Rightarrow> (nat \<times> nat) set \<Rightarrow> bool" where
  "mem_view info A F = (\<exists>cs. mem_wf info cs \<and> A = used_chunks (mi_lo_bound info) cs \<and> F = free_chunks (mi_lo_bound info) cs)"

lemma mem_viewI:
  "mem_wf info cs \<Longrightarrow> mi_lo_bound info = lo \<Longrightarrow> used_chunks lo cs = A \<Longrightarrow> mem_view info A (free_chunks lo cs)"
  by (auto simp: mem_view_def)

definition region :: "nat \<times> nat \<Rightarrow> nat set" where
  "region ch = {fst ch..<fst ch + 16 + snd ch}"

definition payload :: "nat \<times> nat \<Rightarrow> nat set" where
  "payload ch = {fst ch + 8..<fst ch + 8 + snd ch}"

text \<open>The data of the chunks in \<open>A\<close> are the same in two states.\<close>

definition same_data :: "(nat \<times> nat) set \<Rightarrow> nt_mem_info \<Rightarrow> nt_mem_info \<Rightarrow> bool" where
  "same_data A info info' = (\<forall>ch \<in> A. \<forall>x \<in> payload ch. mi_cells info' x = mi_cells info x)"

lemma used_chunks_simps [simp]:
  "used_chunks a [] = {}"
  "used_chunks a ((s, u) # cs) = (if u then insert (a, s) (used_chunks (a + 16 + s) cs) else used_chunks (a + 16 + s) cs)"
  "used_chunks a (cs @ ds) = used_chunks a cs \<union> used_chunks (a + span cs) ds"
  by (auto simp: used_chunks_def)

lemma free_chunks_simps [simp]:
  "free_chunks a [] = {}"
  "free_chunks a ((s, u) # cs) = (if u then free_chunks (a + 16 + s) cs else insert (a, s) (free_chunks (a + 16 + s) cs))"
  "free_chunks a (cs @ ds) = free_chunks a cs \<union> free_chunks (a + span cs) ds"
  by (auto simp: free_chunks_def)

lemma used_split:
  assumes "(c, s) \<in> used_chunks lo cs"
  obtains xs ys where "cs = xs @ (s, True) # ys" "c = lo + span xs"
  using assms tset_split unfolding used_chunks_def by blast

lemma used_range: "(b, s) \<in> used_chunks a cs \<Longrightarrow> a \<le> b \<and> b + 16 + s \<le> a + span cs"
  using tset_range by (auto simp: used_chunks_def)

lemma free_range: "(b, s) \<in> free_chunks a cs \<Longrightarrow> a \<le> b \<and> b + 16 + s \<le> a + span cs"
  using tset_range by (auto simp: free_chunks_def)

lemma used_not_free_zone:
  assumes "(b, s) \<in> used_chunks lo cs" "x \<in> region (b, s)"
  shows "x \<notin> free_zone lo cs"
proof
  assume "x \<in> free_zone lo cs"
  then obtain d t where d: "(d, t, False) \<in> tset lo cs" "d \<le> x" "x < d + 16 + t"
    by (auto simp: free_zone_def split: if_splits)
  have "(b, s, True) \<in> tset lo cs" using assms(1) by (simp add: used_chunks_def)
  from tset_disjoint [OF this d(1)] d(2,3) assms(2) show False by (auto simp: region_def)
qed

lemma payload_region: "payload ch \<subseteq> region ch"
  by (auto simp: payload_def region_def)

text \<open>Chunks of one view do not overlap, lie within the bounds and are aligned.\<close>

lemma view_layout:
  assumes "mem_view info A F"
  shows "\<And>ch ch'. ch \<in> A \<union> F \<Longrightarrow> ch' \<in> A \<union> F \<Longrightarrow> ch \<noteq> ch' \<Longrightarrow> region ch \<inter> region ch' = {}"
    and "\<And>ch. ch \<in> A \<union> F \<Longrightarrow> region ch \<subseteq> {mi_lo_bound info..<mi_hi_bound info}"
    and "A \<inter> F = {}"
proof -
  let ?lo = "mi_lo_bound info"
  obtain cs where cs: "mem_wf info cs" "A = used_chunks ?lo cs" "F = free_chunks ?lo cs"
    using assms by (auto simp: mem_view_def)
  have mem: "\<exists>u. (fst ch, snd ch, u) \<in> tset ?lo cs" if "ch \<in> A \<union> F" for ch
    using that cs by (auto simp: used_chunks_def free_chunks_def)
  show "region ch \<inter> region ch' = {}" if "ch \<in> A \<union> F" "ch' \<in> A \<union> F" "ch \<noteq> ch'" for ch ch'
  proof -
    from mem [OF that(1)] mem [OF that(2)] obtain u v
      where "(fst ch, snd ch, u) \<in> tset ?lo cs" "(fst ch', snd ch', v) \<in> tset ?lo cs" by blast
    from tset_disjoint [OF this] that(3) show ?thesis by (auto simp: region_def prod_eq_iff)
  qed
  show "region ch \<subseteq> {?lo..<mi_hi_bound info}" if "ch \<in> A \<union> F" for ch
  proof -
    from mem [OF that] obtain u where "(fst ch, snd ch, u) \<in> tset ?lo cs" by blast
    from tset_range [OF this] mem_wfD(3) [OF cs(1)] show ?thesis by (auto simp: region_def)
  qed
  have "ch \<notin> F" if "ch \<in> A" for ch
  proof
    assume "ch \<in> F"
    then have "(fst ch, snd ch, True) \<in> tset ?lo cs" "(fst ch, snd ch, False) \<in> tset ?lo cs"
      using that cs(2,3) by (auto simp: used_chunks_def free_chunks_def)
    from tset_inj [OF this] show False by simp
  qed
  then show "A \<inter> F = {}" by blast
qed

lemma view_unique: "mem_view info A F \<Longrightarrow> (c, s) \<in> A \<Longrightarrow> (c, t) \<in> A \<Longrightarrow> s = t"
  using view_layout(1) [of info A F "(c, s)" "(c, t)"] by (fastforce simp: region_def)

lemma view_other: "mem_view info A F \<Longrightarrow> (c, s) \<in> A \<Longrightarrow> (c, t) \<notin> A - {(c, s)}"
  using view_unique by blast

lemma span_8: "tiles m a cs \<Longrightarrow> 8 dvd span cs"
  by (induction m a cs rule: tiles.induct) auto

lemma view_aligned:
  assumes "mem_view info A F" "(c, s) \<in> A \<union> F"
  shows "8 dvd c" "8 dvd s" "24 \<le> s" "c \<noteq> 0"
proof -
  let ?lo = "mi_lo_bound info"
  obtain cs where cs: "mem_wf info cs" "A = used_chunks ?lo cs" "F = free_chunks ?lo cs"
    using assms(1) by (auto simp: mem_view_def)
  then obtain u where "(c, s, u) \<in> tset ?lo cs"
    using assms(2) by (auto simp: used_chunks_def free_chunks_def)
  then obtain xs ys where e: "cs = xs @ (s, u) # ys" "c = ?lo + span xs" using tset_split by blast
  have "tiles (mi_cells info) ?lo xs" using mem_wfD(1) [OF cs(1)] e(1) by simp
  then show "8 dvd c" using span_8 mem_wfD(4) [OF cs(1)] e(2) by simp
  show "8 dvd s" "24 \<le> s" using wf_header [OF cs(1) [unfolded e(1)] e(2)] by blast+
  show "c \<noteq> 0" using mem_wfD(8) [OF cs(1)] e(2) by simp
qed

lemma same_data_zone:
  assumes "\<And>x. x \<notin> free_zone lo cs \<Longrightarrow> x \<notin> Z \<Longrightarrow> mi_cells info' x = mi_cells info x"
    and "A \<subseteq> used_chunks lo cs" "\<And>ch. ch \<in> A \<Longrightarrow> region ch \<inter> Z = {}"
  shows "same_data A info info'"
  unfolding same_data_def
proof (intro ballI)
  fix ch x assume ch: "ch \<in> A" "x \<in> payload ch"
  then have r: "x \<in> region ch" using payload_region by blast
  then have "x \<notin> free_zone lo cs" using used_not_free_zone [of "fst ch" "snd ch" lo cs] ch(1) assms(2) by auto
  moreover have "x \<notin> Z" using assms(3) [OF ch(1)] r by blast
  ultimately show "mi_cells info' x = mi_cells info x" by (rule assms(1))
qed

section \<open>Malloc and free\<close>

lemma malloc_view:
  assumes v: "mem_view info A F" and rq: "request \<le> MEM_MAX_SIZE"
  defines "sz \<equiv> unat (mem_proper_alloc_size request)"
  shows "(mem_malloc info request = Some (info, 0) \<and> (\<forall>ch \<in> F. snd ch < sz)) \<or>
    (\<exists>c s info' F'. mem_malloc info request = Some (info', c) \<and> c \<noteq> 0 \<and> (c, s) \<notin> A \<and> sz \<le> s \<and> s < sz + 40 \<and>
      mem_view info' (insert (c, s) A) F' \<and> same_data A info info' \<and>
      mi_lo_bound info' = mi_lo_bound info \<and> mi_allow_oom info' = mi_allow_oom info \<and> (\<exists>t \<ge> sz. (c, t) \<in> F))"
proof -
  let ?lo = "mi_lo_bound info"
  obtain cs where cs: "mem_wf info cs" "A = used_chunks ?lo cs" "F = free_chunks ?lo cs"
    using v by (auto simp: mem_view_def)
  show ?thesis
  proof (cases rule: malloc_cases [OF cs(1) rq, folded sz_def, case_names none chunk])
    case none
    have "snd ch < sz" if "ch \<in> F" for ch
    proof -
      have "(fst ch, snd ch, False) \<in> tset ?lo cs" using that cs(3) by (auto simp: free_chunks_def)
      then have "(snd ch, False) \<in> set cs" using tset_split by fastforce
      then show ?thesis by (rule none(2))
    qed
    then show ?thesis using none(1) by blast
  next
    case (chunk xs s ys c)
    note wf = cs(1) [unfolded chunk(1)]
    note T = take_wf [OF wf chunk(2) proper_size(1,2) [OF rq, folded sz_def] chunk(3)]
    define mid where "mid = (if s < sz + 40 then [(s, True)] else [(sz, True), (s - sz - 16, False)])"
    define s' where "s' = (if s < sz + 40 then s else sz)"
    have sizes: "sizes_ok (xs @ [(s, False)] @ ys)" using mem_wfD(1) [OF wf] tiles_sizes by fastforce
    have fr: "mi_cells (mem_take info c sz) x = mi_cells info x" if "x \<notin> free_zone ?lo cs" for x
    proof (rule T(2), rule outside_zone [OF sizes])
      show "x \<notin> free_zone ?lo (xs @ [(s, False)] @ ys)" using that chunk(1) by simp
    qed simp
    have "same_data A info (mem_take info c sz)"
      by (rule same_data_zone [of ?lo cs "{}"]) (use fr cs(2) in auto)
    moreover have "used_chunks ?lo (xs @ mid @ ys) = insert (c, s') A"
      using chunk(1-3) cs(2) by (auto simp: mid_def s'_def ac_simps)
    then have "mem_view (mem_take info c sz) (insert (c, s') A) (free_chunks ?lo (xs @ mid @ ys))"
      by (rule mem_viewI [OF T(1) [folded mid_def] T(3)])
    moreover have "(c, s) \<in> F" using chunk(1,2) cs(3) by simp
    moreover have "(c, s') \<notin> A"
    proof
      assume "(c, s') \<in> A"
      then have "(c, s', True) \<in> tset ?lo cs" "(c, s, False) \<in> tset ?lo cs"
        using cs(2) chunk(1,2) by (auto simp: used_chunks_def)
      from tset_inj [OF this] show False by simp
    qed
    moreover have "sz \<le> s'" "s' < sz + 40" using chunk(3) by (auto simp: s'_def)
    ultimately show ?thesis using chunk(3-5) T(3,4) by blast
  qed
qed

lemma freed_used:
  "used_chunks lo (freed xs s ys) = used_chunks lo xs \<union> used_chunks (lo + span xs + 16 + s) ys"
proof (cases rule: chunk_neighbours [of xs ys])
  case none
  then have "freed xs s ys = xs @ (s, False) # ys"
    by (cases ys) (auto simp: freed_def split: bool.splits)
  then show ?thesis by simp
next
  case (next_only n zs)
  then have "freed xs s ys = xs @ (s + 16 + n, False) # zs" by (auto simp: freed_def)
  then show ?thesis using next_only by (simp add: ac_simps)
next
  case (prev_only zs p)
  then have "freed xs s ys = zs @ (p + 16 + s, False) # ys"
    by (cases ys) (auto simp: freed_def split: bool.splits)
  then show ?thesis using prev_only by (simp add: ac_simps)
next
  case (both zs p n ws)
  then have "freed xs s ys = zs @ (p + 16 + s + 16 + n, False) # ws" by (auto simp: freed_def)
  then show ?thesis using both by (simp add: ac_simps)
qed

text \<open>The size of the chunk that freeing \<open>c\<close> gives, as \<open>__mem_realloc\<close> computes it.\<close>

definition merged_size :: "nt_mem_info \<Rightarrow> nat \<Rightarrow> nat \<Rightarrow> nat" where
  "merged_size info c s =
     s + (if next_is_free info (c + 16 + s) then CHUNK_SIZE (mi_cells info) (c + 16 + s) + 16 else 0)
       + (if prev_is_free info c then CHUNK_SIZE (mi_cells info) (c - 8) + 16 else 0)"

lemma freed_merged:
  assumes wf: "mem_wf info (xs @ (s, True) # ys)" and c: "c = mi_lo_bound info + span xs"
  shows "(merged_size info c s, False) \<in> set (freed xs s ys)"
proof -
  have n: "c + 16 + s = mi_lo_bound info + span xs + 16 + s" using c by simp
  show ?thesis
  proof (cases rule: chunk_neighbours [of xs ys])
    case none
    then have "freed xs s ys = xs @ (s, False) # ys"
      by (cases ys) (auto simp: freed_def split: bool.splits)
    then show ?thesis
      using used_before [OF none(1) wf c] used_after [OF none(2) wf c] by (simp add: merged_size_def)
  next
    case (next_only m zs)
    then have "freed xs s ys = xs @ (s + 16 + m, False) # zs" by (auto simp: freed_def)
    then show ?thesis
      using used_before [OF next_only(1) wf c] wf_next(1) [OF wf n] wf_next(2) [OF wf n next_only(2)] next_only(2)
      by (simp add: merged_size_def ac_simps)
  next
    case (prev_only zs p)
    then have "freed xs s ys = zs @ (p + 16 + s, False) # ys"
      by (cases ys) (auto simp: freed_def split: bool.splits)
    then show ?thesis
      using wf_prev(2) [OF wf c prev_only(1)] used_after [OF prev_only(2) wf c]
      by (simp add: merged_size_def ac_simps)
  next
    case (both zs p m ws)
    then have "freed xs s ys = zs @ (p + 16 + s + 16 + m, False) # ws" by (auto simp: freed_def)
    then show ?thesis
      using wf_prev(2) [OF wf c both(1)] wf_next(1) [OF wf n] wf_next(2) [OF wf n both(2)] both(2)
      by (simp add: merged_size_def ac_simps)
  qed
qed

lemma free_chunk_member: "(s, False) \<in> set cs \<Longrightarrow> \<exists>b. (b, s) \<in> free_chunks lo cs"
proof -
  assume "(s, False) \<in> set cs"
  then obtain xs ys where "cs = xs @ (s, False) # ys" by (meson split_list)
  then have "(lo + span xs, s) \<in> free_chunks lo cs" by simp
  then show ?thesis by blast
qed

lemma free_view:
  assumes v: "mem_view info A F" and c: "(c, s) \<in> A"
  shows "\<exists>F'. mem_view (mem_free info (c + 8)) (A - {(c, s)}) F' \<and> same_data (A - {(c, s)}) info (mem_free info (c + 8)) \<and>
    mi_lo_bound (mem_free info (c + 8)) = mi_lo_bound info \<and> mi_allow_oom (mem_free info (c + 8)) = mi_allow_oom info \<and>
    (\<exists>b. (b, merged_size info c s) \<in> F')"
proof -
  let ?lo = "mi_lo_bound info" and ?i = "mem_free info (c + 8)"
  obtain cs where cs: "mem_wf info cs" "A = used_chunks ?lo cs" "F = free_chunks ?lo cs"
    using v by (auto simp: mem_view_def)
  obtain xs ys where e: "cs = xs @ (s, True) # ys" "c = ?lo + span xs"
    using c cs(2) used_split by blast
  note wf = cs(1) [unfolded e(1)]
  note R = free_correct [OF wf e(2)]
  have fields: "mi_lo_bound ?i = ?lo" "mi_allow_oom ?i = mi_allow_oom info"
    by (simp_all add: mem_free_def Let_def)
  have "(c, s) \<notin> used_chunks ?lo xs" "(c, s) \<notin> used_chunks (c + 16 + s) ys"
    using used_range [of c s ?lo xs] used_range [of c s "c + 16 + s" ys] e(2) by auto
  then have "used_chunks ?lo (freed xs s ys) = A - {(c, s)}"
    using e cs(2) by (auto simp: freed_used)
  then have "mem_view ?i (A - {(c, s)}) (free_chunks ?lo (freed xs s ys))"
    by (rule mem_viewI [OF conjunct1 [OF R] fields(1)])
  moreover have "same_data (A - {(c, s)}) info ?i"
  proof (rule same_data_zone [of ?lo cs "{c..<c + 16 + s}"])
    show "mi_cells ?i x = mi_cells info x" if "x \<notin> free_zone ?lo cs" "x \<notin> {c..<c + 16 + s}" for x
      using R that e(1) by blast
    show "region ch \<inter> {c..<c + 16 + s} = {}" if "ch \<in> A - {(c, s)}" for ch
      using view_layout(1) [OF v, of ch "(c, s)"] that c by (auto simp: region_def)
  qed (use cs(2) in auto)
  moreover obtain b where "(b, merged_size info c s) \<in> free_chunks ?lo (freed xs s ys)"
    using free_chunk_member [OF freed_merged [OF wf e(2)]] by blast
  ultimately show ?thesis using fields by blast
qed

section \<open>Reallocation\<close>

text \<open>Writing to the data of an allocated chunk, as the owner and \<open>memcpy\<close> do.\<close>

lemma write_view:
  assumes v: "mem_view info A F" and c: "(c, s) \<in> A"
    and m': "\<And>x. x \<notin> payload (c, s) \<Longrightarrow> m' x = mi_cells info x"
  shows "mem_view (info\<lparr>mi_cells := m'\<rparr>) A F" "same_data (A - {(c, s)}) info (info\<lparr>mi_cells := m'\<rparr>)"
proof -
  let ?lo = "mi_lo_bound info" and ?i = "info\<lparr>mi_cells := m'\<rparr>"
  obtain cs where cs: "mem_wf info cs" "A = used_chunks ?lo cs" "F = free_chunks ?lo cs"
    using v by (auto simp: mem_view_def)
  obtain xs ys where e: "cs = xs @ (s, True) # ys" "c = ?lo + span xs"
    using c cs(2) used_split by blast
  note D = mem_wfD [OF cs(1)]
  have ct: "(c, s, True) \<in> tset ?lo cs" using c cs(2) by (simp add: used_chunks_def)
  have sz: "sizes_ok cs" using D(1) tiles_sizes by blast
  have "tiles m' ?lo cs"
  proof (rule tiles_cong [OF D(1)])
    fix b t u assume b: "(b, t, u) \<in> tset ?lo cs"
    have "x \<notin> payload (c, s)" if "x = b \<or> x = b + 8 + t" for x
      using that tset_disjoint [OF b ct] by (auto simp: payload_def)
    then show "m' b = mi_cells info b \<and> m' (b + 8 + t) = mi_cells info (b + 8 + t)" by (simp add: m')
  qed
  moreover have "lists m' (mi_buckets info) ?lo cs"
  proof (rule lists_cong [OF D(2)])
    fix x assume "x \<in> pc ?lo cs"
    then have "x \<in> free_zone ?lo cs" using pc_free_zone [OF sz] by blast
    then have "x \<notin> region (c, s)" using used_not_free_zone [of c s ?lo cs x] c cs(2) by blast
    then show "m' x = mi_cells info x" using payload_region m' by blast
  qed
  ultimately have "mem_wf ?i cs" using cs(1) by (simp add: mem_wf_def stats_ok_def)
  then show "mem_view ?i A F" using cs(2,3) by (auto simp: mem_view_def)
  show "same_data (A - {(c, s)}) info ?i"
    unfolding same_data_def
  proof (intro ballI)
    fix ch x assume ch: "ch \<in> A - {(c, s)}" "x \<in> payload ch"
    have "region ch \<inter> region (c, s) = {}" using view_layout(1) [OF v, of ch "(c, s)"] ch(1) c by auto
    then have "x \<notin> payload (c, s)" using ch(2) payload_region by blast
    then show "mi_cells ?i x = mi_cells info x" by (simp add: m')
  qed
qed

lemma same_data_trans: "same_data A i j \<Longrightarrow> same_data B j k \<Longrightarrow> same_data (A \<inter> B) i k"
  by (auto simp: same_data_def)

lemma same_data_mono: "same_data A i j \<Longrightarrow> B \<subseteq> A \<Longrightarrow> same_data B i j"
  by (auto simp: same_data_def)

lemma proper_idem:
  assumes "request \<le> MEM_MAX_SIZE"
  defines "sz \<equiv> unat (mem_proper_alloc_size request)"
  shows "of_nat sz \<le> MEM_MAX_SIZE" "unat (mem_proper_alloc_size (of_nat sz)) = sz"
proof -
  note P = proper_size [OF assms(1), folded sz_def]
  have rq: "unat request \<le> 2 ^ 36" using assms(1) by (simp add: MEM_MAX_SIZE_def word_le_nat_alt)
  obtain k where k: "sz = 8 * k" using P(2) by (auto elim: dvdE)
  have "sz < 2 ^ 36 + 8" using P(4) rq by auto
  then have le: "sz \<le> 2 ^ 36" using k by simp
  then have u: "unat (of_nat sz :: u64) = sz" by (intro unat_of_nat_small) simp
  show "of_nat sz \<le> MEM_MAX_SIZE" using le u by (simp add: MEM_MAX_SIZE_def word_le_nat_alt)
  have "unat ((of_nat sz :: u64) AND 7) = 0" unfolding unat_and_7 u using k by simp
  then have "(of_nat sz :: u64) AND 7 = 0" by (simp add: unat_eq_zero)
  moreover have "(24 :: u64) \<le> of_nat sz" using P(1) u by (simp add: word_le_nat_alt)
  ultimately show "unat (mem_proper_alloc_size (of_nat sz)) = sz"
    using u by (simp add: mem_proper_alloc_size_def)
qed

lemma shrink_view:
  assumes v: "mem_view info A F" and c: "(c, s) \<in> A" and sz: "24 \<le> sz" "8 dvd sz" "sz \<le> s"
  shows "\<exists>s' F'. sz \<le> s' \<and> s' \<le> s \<and> mem_view (mem_shrink info c sz) (insert (c, s') (A - {(c, s)})) F' \<and>
    same_data (A - {(c, s)}) info (mem_shrink info c sz) \<and>
    (\<forall>k < sz. mi_cells (mem_shrink info c sz) (c + 8 + k) = mi_cells info (c + 8 + k)) \<and>
    mi_lo_bound (mem_shrink info c sz) = mi_lo_bound info \<and> mi_allow_oom (mem_shrink info c sz) = mi_allow_oom info"
proof -
  let ?lo = "mi_lo_bound info" and ?i = "mem_shrink info c sz"
  obtain cs where cs: "mem_wf info cs" "A = used_chunks ?lo cs" "F = free_chunks ?lo cs"
    using v by (auto simp: mem_view_def)
  obtain xs ys where e: "cs = xs @ (s, True) # ys" "c = ?lo + span xs"
    using c cs(2) used_split by blast
  note wf = cs(1) [unfolded e(1)]
  have fields: "mi_lo_bound ?i = ?lo" "mi_allow_oom ?i = mi_allow_oom info"
    by (simp_all add: mem_shrink_def Let_def)
  have A: "A - {(c, s)} = used_chunks ?lo xs \<union> used_chunks (c + 16 + s) ys"
    using used_range [of c s ?lo xs] used_range [of c s "c + 16 + s" ys] e cs(2) by auto
  have sizes: "sizes_ok cs" using mem_wfD(1) [OF cs(1)] tiles_sizes by blast
  have data: "same_data (A - {(c, s)}) info ?i"
    if "\<And>x. x \<in> outside ?lo xs mid ws \<Longrightarrow> mi_cells ?i x = mi_cells info x" "mid @ ws = (s, True) # ys"
      "mid' @ ws = (s, False) # ys" "span mid' = span mid" "\<forall>d \<in> set mid'. \<not> snd d" for mid mid' ws
  proof (rule same_data_zone [of ?lo cs "region (c, s)"])
    fix x assume x: "x \<notin> free_zone ?lo cs" "x \<notin> region (c, s)"
    have "x \<in> outside ?lo xs mid' ws"
    proof (rule outside_zone)
      show "sizes_ok (xs @ mid' @ ws)" using sizes e(1) that(3) by simp
      show "x \<notin> free_zone ?lo (xs @ mid' @ ws)" using x e that(3) by (simp add: region_def)
    qed (use that(5) in simp)
    then show "mi_cells ?i x = mi_cells info x" using that(1,4) outside_cong [OF that(4)] by metis
  next
    show "region ch \<inter> region (c, s) = {}" if "ch \<in> A - {(c, s)}" for ch
      using view_layout(1) [OF v, of ch "(c, s)"] that c by auto
  qed (use cs(2) in auto)
  show ?thesis
  proof (cases "s div 4 < sz")
    case True
    then have "?i = info" using wf_header(1) [OF wf e(2)] by (simp add: mem_shrink_def Let_def)
    moreover have "insert (c, s) (A - {(c, s)}) = A" using c by auto
    ultimately show ?thesis using v sz by (intro exI [of _ s] exI [of _ F]) (simp add: same_data_def)
  next
    case small: False
    then have sz4: "sz \<le> s div 4" by simp
    show ?thesis
    proof (cases "ys = [] \<or> snd (hd ys)")
      case True
      note R = shrink_split [OF wf e(2) used_after [OF True wf e(2)] True sz(1,2) sz4]
      have "s = sz + 16 + (s - sz - 16)" using sz sz4 by simp
      then have "used_chunks ?lo (xs @ (sz, True) # (s - sz - 16, False) # ys) = insert (c, sz) (A - {(c, s)})"
        unfolding A using e(2) by (simp add: ac_simps)
      then have "mem_view ?i (insert (c, sz) (A - {(c, s)})) (free_chunks ?lo (xs @ (sz, True) # (s - sz - 16, False) # ys))"
        by (rule mem_viewI [OF R(1) fields(1)])
      moreover have "same_data (A - {(c, s)}) info ?i"
        by (rule data [of "[(s, True)]" ys "[(s, False)]"]) (use R(2) in simp_all)
      ultimately show ?thesis using R(3) sz fields by (intro exI [of _ sz] exI conjI) auto
    next
      case False
      then obtain n zs where ys: "ys = (n, False) # zs" by (cases ys) auto
      note R = shrink_merge [OF wf [unfolded ys] e(2) sz(1,2) sz4]
      have "used_chunks ?lo (xs @ (sz, True) # (n + (s - sz), False) # zs) = insert (c, sz) (A - {(c, s)})"
        unfolding A ys using e(2) sz by (simp add: ac_simps)
      then have "mem_view ?i (insert (c, sz) (A - {(c, s)})) (free_chunks ?lo (xs @ (sz, True) # (n + (s - sz), False) # zs))"
        by (rule mem_viewI [OF R(1) fields(1)])
      moreover have "same_data (A - {(c, s)}) info ?i"
        by (rule data [of "[(s, True), (n, False)]" zs "[(s, False), (n, False)]"]) (use R(2) ys in simp_all)
      ultimately show ?thesis using R(3) sz fields by (intro exI [of _ sz] exI conjI) auto
    qed
  qed
qed

lemma extend_view:
  assumes v: "mem_view info A F" and c: "(c, s) \<in> A" and sz: "24 \<le> sz" "8 dvd sz" "s < sz"
    and nf: "next_is_free info (c + 16 + s)" "sz \<le> s + 16 + CHUNK_SIZE (mi_cells info) (c + 16 + s)"
  shows "\<exists>s' F'. sz \<le> s' \<and> mem_view (mem_extend info c sz) (insert (c, s') (A - {(c, s)})) F' \<and>
    same_data (A - {(c, s)}) info (mem_extend info c sz) \<and>
    (\<forall>k < s. mi_cells (mem_extend info c sz) (c + 8 + k) = mi_cells info (c + 8 + k)) \<and>
    mi_lo_bound (mem_extend info c sz) = mi_lo_bound info \<and> mi_allow_oom (mem_extend info c sz) = mi_allow_oom info"
proof -
  let ?lo = "mi_lo_bound info" and ?i = "mem_extend info c sz"
  obtain cs where cs: "mem_wf info cs" "A = used_chunks ?lo cs" "F = free_chunks ?lo cs"
    using v by (auto simp: mem_view_def)
  obtain xs ys where e: "cs = xs @ (s, True) # ys" "c = ?lo + span xs"
    using c cs(2) used_split by blast
  note wf = cs(1) [unfolded e(1)]
  have "\<not> (ys = [] \<or> snd (hd ys))" using used_after [OF _ wf e(2)] nf(1) by blast
  then obtain n zs where ys: "ys = (n, False) # zs" by (cases ys) auto
  have n: "CHUNK_SIZE (mi_cells info) (c + 16 + s) = n"
    using wf_next(2) [OF wf _ ys, of "c + 16 + s"] e(2) by simp
  define S where "S = s + 16 + n"
  note R = extend_wf [OF wf [unfolded ys] e(2) sz nf(2) [unfolded n], folded S_def]
  have fields: "mi_lo_bound ?i = ?lo" "mi_allow_oom ?i = mi_allow_oom info"
    by (simp_all add: mem_extend_def Let_def)
  have A: "A - {(c, s)} = used_chunks ?lo xs \<union> used_chunks (c + 16 + s) ys"
    using used_range [of c s ?lo xs] used_range [of c s "c + 16 + s" ys] e cs(2) by auto
  have sizes: "sizes_ok cs" using mem_wfD(1) [OF cs(1)] tiles_sizes by blast
  have data: "same_data (A - {(c, s)}) info ?i"
  proof (rule same_data_zone [of ?lo cs "region (c, s)"])
    fix x assume x: "x \<notin> free_zone ?lo cs" "x \<notin> region (c, s)"
    have "x \<in> outside ?lo xs [(s, False), (n, False)] zs"
    proof (rule outside_zone)
      show "sizes_ok (xs @ [(s, False), (n, False)] @ zs)" using sizes e(1) ys by simp
      show "x \<notin> free_zone ?lo (xs @ [(s, False), (n, False)] @ zs)" using x e ys by (simp add: region_def)
    qed simp
    then show "mi_cells ?i x = mi_cells info x"
      using R(2) outside_cong [of "[(s, False), (n, False)]" "[(s, True), (n, False)]"] by simp
  next
    show "region ch \<inter> region (c, s) = {}" if "ch \<in> A - {(c, s)}" for ch
      using view_layout(1) [OF v, of ch "(c, s)"] that c by auto
  qed (use cs(2) in auto)
  define s' where "s' = (if S < sz + 40 then S else sz)"
  define cs' where "cs' = (if S < sz + 40 then xs @ (S, True) # zs else xs @ (sz, True) # (S - sz - 16, False) # zs)"
  have u: "used_chunks ?lo cs' = insert (c, s') (A - {(c, s)})"
  proof (cases "S < sz + 40")
    case True
    then show ?thesis unfolding A ys using e(2) by (simp add: cs'_def s'_def S_def ac_simps)
  next
    case False
    then have "16 + sz + 16 + (S - sz - 16) = 16 + s + 16 + n" by (simp add: S_def)
    then show ?thesis unfolding A ys using False e(2) by (simp add: cs'_def s'_def ac_simps)
  qed
  have "mem_view ?i (insert (c, s') (A - {(c, s)})) (free_chunks ?lo cs')"
    by (rule mem_viewI [OF R(1) [folded cs'_def] fields(1) u])
  moreover have "sz \<le> s'" using nf(2) n by (simp add: s'_def S_def)
  ultimately show ?thesis using data R(3) fields by (intro exI [of _ s'] exI conjI) auto
qed

text \<open>What a result of \<open>__mem_realloc\<close> means.\<close>

definition realloc_spec ::
  "nt_mem_info \<Rightarrow> (nat \<times> nat) set \<Rightarrow> (nat \<times> nat) set \<Rightarrow> nat \<Rightarrow> nat \<Rightarrow> nat \<Rightarrow> nt_mem_info \<Rightarrow> nat \<Rightarrow> bool" where
  "realloc_spec info A F c s sz info' c' =
     (if c' = 0 then info' = info \<and> (\<forall>ch \<in> F. snd ch < sz) \<and> merged_size info c s < sz
      else \<exists>s' F'. sz \<le> s' \<and> (c', s') \<notin> A - {(c, s)} \<and> mem_view info' (insert (c', s') (A - {(c, s)})) F' \<and>
        same_data (A - {(c, s)}) info info' \<and>
        (\<forall>k < min s sz. mi_cells info' (c' + 8 + k) = mi_cells info (c + 8 + k)) \<and>
        mi_lo_bound info' = mi_lo_bound info \<and> mi_allow_oom info' = mi_allow_oom info)"

text \<open>The data of the old chunk are copied into a new one, and the old one is freed.\<close>

lemma realloc_move:
  assumes v: "mem_view info A F" and c: "(c, s) \<in> A" and rq: "request \<le> MEM_MAX_SIZE"
  defines "sz \<equiv> unat (mem_proper_alloc_size request)"
  assumes grow: "s < sz" and m: "mem_malloc info (of_nat sz) = Some (info1, n)" "n \<noteq> 0"
  defines "info2 \<equiv> info1\<lparr>mi_cells := copy_cells (n + 8) (\<lambda>k. mi_cells info1 (c + 8 + k)) s (mi_cells info1)\<rparr>"
  shows "realloc_spec info A F c s sz (mem_free info2 (c + 8)) n"
proof -
  note I = proper_idem [OF rq, folded sz_def]
  obtain t F1 where t: "sz \<le> t" "mem_view info1 (insert (n, t) A) F1" "same_data A info info1" "(n, t) \<notin> A"
      "mi_lo_bound info1 = mi_lo_bound info" "mi_allow_oom info1 = mi_allow_oom info"
    using malloc_view [OF v I(1)] m unfolding I(2) by auto
  have ne: "(n, t) \<noteq> (c, s)" using t(4) c by auto
  have m': "copy_cells (n + 8) (\<lambda>k. mi_cells info1 (c + 8 + k)) s (mi_cells info1) x = mi_cells info1 x"
    if "x \<notin> payload (n, t)" for x
    using that grow t(1) by (auto simp: copy_cells_def payload_def)
  note W = write_view [OF t(2) insertI1 m', folded info2_def]
  have c2: "(c, s) \<in> insert (n, t) A" using c by simp
  obtain F' where F': "mem_view (mem_free info2 (c + 8)) (insert (n, t) A - {(c, s)}) F'"
      "same_data (insert (n, t) A - {(c, s)}) info2 (mem_free info2 (c + 8))"
      "mi_lo_bound (mem_free info2 (c + 8)) = mi_lo_bound info2" "mi_allow_oom (mem_free info2 (c + 8)) = mi_allow_oom info2"
    using free_view [OF W(1) c2] by blast
  have A': "insert (n, t) A - {(c, s)} = insert (n, t) (A - {(c, s)})" using ne by auto
  have "same_data (A - {(c, s)}) info (mem_free info2 (c + 8))"
    unfolding same_data_def
  proof (intro ballI)
    fix ch x assume ch: "ch \<in> A - {(c, s)}" "x \<in> payload ch"
    have "mi_cells (mem_free info2 (c + 8)) x = mi_cells info2 x"
      using F'(2) ch unfolding same_data_def by auto
    also have "\<dots> = mi_cells info1 x"
      using W(2) ch t(4) unfolding same_data_def by auto
    also have "\<dots> = mi_cells info x"
      using t(3) ch unfolding same_data_def by auto
    finally show "mi_cells (mem_free info2 (c + 8)) x = mi_cells info x" .
  qed
  moreover have "mi_cells (mem_free info2 (c + 8)) (n + 8 + k) = mi_cells info (c + 8 + k)" if k: "k < min s sz" for k
  proof -
    have "n + 8 + k \<in> payload (n, t)" using k t(1) by (simp add: payload_def)
    then have "mi_cells (mem_free info2 (c + 8)) (n + 8 + k) = mi_cells info2 (n + 8 + k)"
      using F'(2) ne unfolding same_data_def by auto
    also have "\<dots> = mi_cells info1 (c + 8 + k)" using k by (simp add: info2_def copy_cells_def)
    also have "\<dots> = mi_cells info (c + 8 + k)"
    proof -
      have "c + 8 + k \<in> payload (c, s)" using k by (simp add: payload_def)
      then show ?thesis using t(3) c unfolding same_data_def by blast
    qed
    finally show ?thesis .
  qed
  ultimately show ?thesis
    using F' t m(2) unfolding realloc_spec_def A' by (auto simp: info2_def)
qed

text \<open>There is no room until the old chunk is freed.\<close>

lemma realloc_through_tmp:
  assumes v: "mem_view info A F" and c: "(c, s) \<in> A" and rq: "request \<le> MEM_MAX_SIZE"
  defines "sz \<equiv> unat (mem_proper_alloc_size request)"
  assumes grow: "s < sz" and room: "sz \<le> merged_size info c s"
  obtains info2 n where "mem_malloc (mem_free info (c + 8)) (of_nat sz) = Some (info2, n)" "n \<noteq> 0"
    "realloc_spec info A F c s sz
      (info2\<lparr>mi_cells := copy_cells (n + 8) (\<lambda>k. mi_cells info (c + 8 + k)) s (mi_cells info2)\<rparr>) n"
proof -
  note I = proper_idem [OF rq, folded sz_def]
  let ?i1 = "mem_free info (c + 8)" and ?A = "A - {(c, s)}"
  obtain F1 b where F1: "mem_view ?i1 ?A F1" "same_data ?A info ?i1" "mi_lo_bound ?i1 = mi_lo_bound info"
      "mi_allow_oom ?i1 = mi_allow_oom info" "(b, merged_size info c s) \<in> F1"
    using free_view [OF v c] by blast
  have "\<not> (\<forall>ch \<in> F1. snd ch < sz)" using F1(5) room by force
  then obtain info2 n t F2 where m: "mem_malloc ?i1 (of_nat sz) = Some (info2, n)" "n \<noteq> 0" "(n, t) \<notin> ?A" "sz \<le> t"
      "mem_view info2 (insert (n, t) ?A) F2" "same_data ?A ?i1 info2"
      "mi_lo_bound info2 = mi_lo_bound info" "mi_allow_oom info2 = mi_allow_oom info"
    using malloc_view [OF F1(1) I(1)] F1(3,4) unfolding I(2) by auto
  define m' where "m' = copy_cells (n + 8) (\<lambda>k. mi_cells info (c + 8 + k)) s (mi_cells info2)"
  have fr: "m' x = mi_cells info2 x" if "x \<notin> payload (n, t)" for x
    using that grow m(4) by (auto simp: m'_def copy_cells_def payload_def)
  note W = write_view [OF m(5) insertI1 fr]
  have "same_data ?A info (info2\<lparr>mi_cells := m'\<rparr>)"
  proof -
    have "same_data ?A info2 (info2\<lparr>mi_cells := m'\<rparr>)"
      by (rule same_data_mono [OF W(2)]) (use m(3) in auto)
    then show ?thesis using F1(2) m(6) unfolding same_data_def by simp
  qed
  moreover have "\<forall>k < min s sz. m' (n + 8 + k) = mi_cells info (c + 8 + k)"
    by (simp add: m'_def copy_cells_def)
  ultimately have "realloc_spec info A F c s sz (info2\<lparr>mi_cells := m'\<rparr>) n"
    using W(1) m(2,3,4,7,8) unfolding realloc_spec_def by auto
  with m(1,2) show thesis unfolding m'_def by (rule that)
qed

lemma realloc_correct:
  assumes v: "mem_view info A F" and c: "(c, s) \<in> A" and rq: "request \<le> MEM_MAX_SIZE"
  defines "sz \<equiv> unat (mem_proper_alloc_size request)"
  shows "(\<exists>info' c'. mem_realloc tmp_ok info (c + 8) request = Some (Inr (info', c')) \<and>
      realloc_spec info A F c s sz info' c') \<or>
    \<not> tmp_ok \<and> mem_realloc tmp_ok info (c + 8) request = Some (Inl Tmp_Malloc_Failed)"
proof -
  note P = proper_size [OF rq, folded sz_def] and I = proper_idem [OF rq, folded sz_def]
  obtain cs xs ys where "mem_wf info cs" "cs = xs @ (s, True) # ys" "c = mi_lo_bound info + span xs"
    using v c used_split unfolding mem_view_def by metis
  then have s: "CHUNK_SIZE (mi_cells info) c = s" using wf_header(1) by blast
  have c0: "c \<noteq> 0" using view_aligned(4) [OF v, of c s] c by simp
  have e: "c + 8 + s + 8 = c + 16 + s" by simp
  note unf = mem_realloc_def Let_def sz_def [symmetric] diff_add_inverse2 s e
  show ?thesis
  proof (cases "sz \<le> s")
    case True
    then have "mem_realloc tmp_ok info (c + 8) request = Some (Inr (mem_shrink info c sz, c))"
      unfolding unf by simp
    moreover have "realloc_spec info A F c s sz (mem_shrink info c sz) c"
      using shrink_view [OF v c P(1,2) True] view_other [OF v c] c0 unfolding realloc_spec_def by auto
    ultimately show ?thesis by blast
  next
    case grow: False
    then have lt: "s < sz" by simp
    show ?thesis
    proof (cases "next_is_free info (c + 16 + s) \<and> sz \<le> s + 2 * 8 + CHUNK_SIZE (mi_cells info) (c + 16 + s)")
      case True
      then have "mem_realloc tmp_ok info (c + 8) request = Some (Inr (mem_extend info c sz, c))"
        using grow unfolding unf by simp
      moreover have "realloc_spec info A F c s sz (mem_extend info c sz) c"
        using extend_view [OF v c P(1,2) lt] view_other [OF v c] True c0 unfolding realloc_spec_def by auto
      ultimately show ?thesis by blast
    next
      case move: False
      consider (none) "mem_malloc info (of_nat sz) = Some (info, 0)" "\<forall>ch \<in> F. snd ch < sz"
        | (new) info1 n where "mem_malloc info (of_nat sz) = Some (info1, n)" "n \<noteq> 0"
        using malloc_view [OF v I(1)] unfolding I(2) by blast
      then show ?thesis
      proof cases
        case new
        then have "mem_realloc tmp_ok info (c + 8) request = Some (Inr (mem_free (info1\<lparr>mi_cells :=
            copy_cells (n + 8) (\<lambda>k. mi_cells info1 (c + 8 + k)) s (mi_cells info1)\<rparr>) (c + 8), n))"
          using grow move unfolding unf by auto
        then show ?thesis using realloc_move [OF v c rq, folded sz_def, OF lt new] by blast
      next
        case none
        have mg: "s + (if next_is_free info (c + 16 + s) then CHUNK_SIZE (mi_cells info) (c + 16 + s) + 2 * 8 else 0)
            + (if prev_is_free info c then CHUNK_SIZE (mi_cells info) (c - 8) + 2 * 8 else 0) = merged_size info c s"
          by (simp add: merged_size_def)
        show ?thesis
        proof (cases "merged_size info c s < sz")
          case True
          then have "mem_realloc tmp_ok info (c + 8) request = Some (Inr (info, 0))"
            using grow move none unfolding unf by (auto simp: mg)
          then show ?thesis using none(2) True by (auto simp: realloc_spec_def)
        next
          case False
          then have room: "sz \<le> merged_size info c s" by simp
          show ?thesis
          proof (cases tmp_ok)
            case True
            obtain info2 n where m: "mem_malloc (mem_free info (c + 8)) (of_nat sz) = Some (info2, n)" "n \<noteq> 0"
              "realloc_spec info A F c s sz
                (info2\<lparr>mi_cells := copy_cells (n + 8) (\<lambda>k. mi_cells info (c + 8 + k)) s (mi_cells info2)\<rparr>) n"
              using realloc_through_tmp [OF v c rq, folded sz_def, OF lt room] by blast
            have "mem_realloc tmp_ok info (c + 8) request = Some (Inr (info2\<lparr>mi_cells :=
                copy_cells (n + 8) (\<lambda>k. mi_cells info (c + 8 + k)) s (mi_cells info2)\<rparr>, n))"
              using grow move none False True m(1,2) unfolding unf by (auto simp: mg)
            then show ?thesis using m(3) by blast
          next
            case tmp: False
            then have "mem_realloc tmp_ok info (c + 8) request = Some (Inl Tmp_Malloc_Failed)"
              using grow move none False unfolding unf by (auto simp: mg)
            with tmp show ?thesis by blast
          qed
        qed
      qed
    qed
  qed
qed

section \<open>Creation, clearing and statistics\<close>

text \<open>One free chunk that fills the segment.\<close>

lemma single_chunk_view:
  assumes lo: "8 dvd lo" "0 < lo" and t: "24 \<le> t" "8 dvd t" "lo + t + 16 < 2 ^ 63"
    and info: "mi_lo_bound info = lo" "mi_hi_bound info = lo + t + 16" "mi_total_size info = of_nat t"
      "mi_used_size info = 0" "mi_free_size info = of_nat t"
      "mi_buckets info = (replicate 30 0)[mem_bucket_by_size t := lo]"
      "mi_cells info = mem_set_next_chunk lo 0 (mem_set_prev_chunk lo 0 (mem_set_chunk_size lo t m))"
  shows "mem_view info {} {(lo, t)}"
proof -
  let ?cs = "[(t, False)]" and ?b = "mem_bucket_by_size t"
  have h: "hdr (mi_cells info) lo t False"
    using t(1) by (auto simp: info(7) hdr_def mem_set_chunk_size_def set_next_eq set_prev_eq tag_def)
  have "buckets_ok (mi_cells info) (mi_buckets info) (free_at lo ?cs)"
    unfolding buckets_ok_def
  proof (intro conjI allI impI)
    show "length (mi_buckets info) = 30" by (simp add: info(6))
    fix i :: nat assume i: "i < 30"
    show "\<exists>cs. dll (mi_cells info) 0 cs (mi_buckets info ! i) \<and> distinct cs \<and> set cs = free_at lo ?cs i"
    proof (cases "i = ?b")
      case True
      then have "dll (mi_cells info) 0 [lo] (mi_buckets info ! i)"
        using i lo(2) by (simp add: info(6,7) set_next_eq set_prev_eq)
      with True show ?thesis by (intro exI [of _ "[lo]"]) auto
    next
      case False
      then show ?thesis using i by (intro exI [of _ "[]"]) (simp add: info(6))
    qed
  qed
  then have "lists (mi_cells info) (mi_buckets info) lo ?cs"
    using lo(2) t by (simp add: lists_def ac_simps)
  then have "mem_wf info ?cs"
    using h t lo info by (simp add: mem_wf_def stats_ok_def coalesced_def ac_simps)
  then show ?thesis by (auto simp: mem_view_def info(1) intro!: exI [of _ ?cs])
qed

end
