(* ===== verification/Mem_Spec.thy ===== *)
theory Mem_Spec
  imports Mem_Api
begin

text \<open>
  The segment nt_mem_create lays out, the reset and the statistics, and the properties of the
  allocator.
\<close>

section \<open>The layout of a segment\<close>

lemma and_not_7: "(w :: u64) AND NOT 7 = push_bit 3 (drop_bit 3 w)"
proof (rule bit_word_eqI)
  fix i assume "i < LENGTH(64)"
  have e: "(7 :: u64) = mask 3" by (simp add: mask_eq_exp_minus_1)
  have "bit (7 :: u64) i \<longleftrightarrow> i < 3" unfolding e bit_mask_iff by (auto simp: possible_bit_word)
  then show "bit (w AND NOT 7) i = bit (push_bit 3 (drop_bit 3 w)) i"
    using \<open>i < LENGTH(64)\<close>
    unfolding bit_and_iff bit_not_iff bit_push_bit_iff bit_drop_bit_eq by (auto simp: possible_bit_word)
qed

lemma unat_and_not_7: "unat ((w :: u64) AND NOT 7) = unat w - unat w mod 8"
proof -
  have "w = push_bit 3 (drop_bit 3 w) + take_bit 3 w" by (simp add: bits_ident)
  then have e: "w AND NOT 7 = w - take_bit 3 w" unfolding and_not_7 by (metis add_diff_cancel_right')
  note t = unat_take_bit_3 [of w]
  have "unat (take_bit 3 w) \<le> unat w" unfolding t by simp
  then show ?thesis unfolding e using t by (simp add: unat_sub_no_wrap)
qed

lemma align8:
  assumes "unat p + 7 < 2 ^ 64"
  shows "unat p \<le> unat (ALIGN8 p)" "unat (ALIGN8 p) \<le> unat p + 7" "8 dvd unat (ALIGN8 p)"
proof -
  have "unat (p + 7) = unat p + 7" using assms unat_add_no_wrap [of p 7] by simp
  then have e: "unat (ALIGN8 p) = unat p + 7 - (unat p + 7) mod 8"
    unfolding ALIGN8_def unat_and_not_7 by simp
  have "(unat p + 7) mod 8 < 8" by simp
  then show "unat p \<le> unat (ALIGN8 p)" "unat (ALIGN8 p) \<le> unat p + 7" unfolding e by linarith+
  show "8 dvd unat (ALIGN8 p)" unfolding e by (simp add: dvd_minus_mod)
qed

text \<open>The running size is always the rest of the segment.\<close>

lemma mem_layout_eq:
  "mem_layout base sz dlen plen =
     (ALIGN8 (ALIGN8 (ALIGN8 base + 88) + 240 + dlen + plen + 2), ALIGN8 (base + sz - 8))"
  by (simp add: mem_layout_def Let_def sizeof_nt_mem_info_def algebra_simps)

lemma create_bounds:
  assumes base: "0 < unat base" "unat base + unat sz < 2 ^ 62"
    and room: "dl + pl + 397 \<le> unat sz"
  defines "lo \<equiv> unat (fst (mem_layout base sz (of_nat dl) (of_nat pl)))"
    and "hi \<equiv> unat (snd (mem_layout base sz (of_nat dl) (of_nat pl)))"
  shows "0 < lo" "8 dvd lo" "8 dvd hi" "lo + 40 \<le> hi" "unat base + 330 + dl + pl \<le> lo" "hi + 8 \<le> unat base + unat sz + 7"
    "unat sz \<le> hi - lo + 360 + dl + pl"
proof -
  have dp: "unat (of_nat dl :: u64) = dl" "unat (of_nat pl :: u64) = pl"
    using room base by (simp_all add: unat_of_nat_small)
  let ?B = "unat base"
  have small: "?B + dl + pl + 397 < 2 ^ 62" using base room by linarith
  note A1 = align8 [of base]
  have B1: "?B \<le> unat (ALIGN8 base)" "unat (ALIGN8 base) \<le> ?B + 7" using A1 small by simp_all
  have u1: "unat (ALIGN8 base + 88) = unat (ALIGN8 base) + 88"
    using B1 small unat_add_no_wrap [of "ALIGN8 base" 88] by simp
  note A2 = align8 [of "ALIGN8 base + 88"]
  define q where "q = ALIGN8 (ALIGN8 base + 88)"
  have B2: "?B + 88 \<le> unat q" "unat q \<le> ?B + 102" using A2 u1 B1 small by (simp_all add: q_def)
  have u2: "unat (q + 240 + of_nat dl + of_nat pl + 2) = unat q + 240 + dl + pl + 2"
  proof -
    have a: "unat (q + 240) = unat q + 240" using B2 small unat_add_no_wrap [of q 240] by simp
    have b: "unat (q + 240 + of_nat dl) = unat q + 240 + dl"
      using a B2 small dp unat_add_no_wrap [of "q + 240" "of_nat dl"] by simp
    have c: "unat (q + 240 + of_nat dl + of_nat pl) = unat q + 240 + dl + pl"
      using b B2 small dp unat_add_no_wrap [of "q + 240 + of_nat dl" "of_nat pl"] by simp
    show ?thesis using c B2 small unat_add_no_wrap [of "q + 240 + of_nat dl + of_nat pl" 2] by simp
  qed
  have lo: "lo = unat (ALIGN8 (q + 240 + of_nat dl + of_nat pl + 2))"
    by (simp add: lo_def mem_layout_eq q_def)
  note A3 = align8 [of "q + 240 + of_nat dl + of_nat pl + 2"]
  have L: "?B + 330 + dl + pl \<le> lo" "lo \<le> ?B + 351 + dl + pl" "8 dvd lo"
    using A3 u2 B2 small by (simp_all add: lo)
  have "unat (base + sz) = ?B + unat sz" using base by (intro unat_add_no_wrap) simp
  then have u3: "unat (base + sz - 8) = ?B + unat sz - 8"
    using room unat_sub_no_wrap [of 8 "base + sz"] by simp
  have hi: "hi = unat (ALIGN8 (base + sz - 8))" by (simp add: hi_def mem_layout_eq)
  note A4 = align8 [of "base + sz - 8"]
  have H: "?B + unat sz - 8 \<le> hi" "hi \<le> ?B + unat sz - 8 + 7" "8 dvd hi"
    using A4 u3 base by (simp_all add: hi)
  have "8 dvd hi - lo" using L(3) H(3) by (rule dvd_diff_nat [rotated])
  moreover have "38 \<le> hi - lo" "lo \<le> hi" using H(1) L(2) room by linarith+
  ultimately have "40 \<le> hi - lo" by (auto elim!: dvdE)
  then show "lo + 40 \<le> hi" by simp
  show "0 < lo" "8 dvd lo" "8 dvd hi" using L H base by simp_all
  show "unat base + 330 + dl + pl \<le> lo" by (rule L(1))
  show "hi + 8 \<le> unat base + unat sz + 7" using H(2) room by simp
  show "unat sz \<le> hi - lo + 360 + dl + pl" using H(1) L(2) room by linarith
qed

lemma required_size_eq:
  "dl = length descr \<Longrightarrow> pl = length param \<Longrightarrow> dl + pl < 2 ^ 62 \<Longrightarrow>
   unat (nt_mem_required_size 1 descr param) = dl + pl + 397"
proof -
  assume a: "dl = length descr" "pl = length param" "dl + pl < 2 ^ 62"
  have "nt_mem_required_size 1 descr param = of_nat (dl + pl + 397)"
    by (simp add: nt_mem_required_size_def sizeof_nt_mem_info_def a)
  moreover have "unat (of_nat (dl + pl + 397) :: u64) = dl + pl + 397"
    using a(3) by (intro unat_of_nat_small) simp
  ultimately show ?thesis by (simp only:)
qed

lemma create_view:
  assumes base: "0 < unat base" "unat base + unat sz < 2 ^ 62"
    and room: "nt_mem_required_size 1 descr param \<le> sz" "sz \<le> MEM_MAX_SIZE"
    and len: "length descr + length param < 2 ^ 62"
  shows "\<exists>info t. nt_mem_create (Some (shm_id, base, cells)) sz descr param oom = Some info \<and>
    mem_view info {} {(mi_lo_bound info, t)} \<and> 24 \<le> t \<and> mi_hi_bound info = mi_lo_bound info + t + 16 \<and>
    unat base < mi_lo_bound info \<and> mi_hi_bound info < unat base + unat sz"
proof -
  let ?dl = "length descr" and ?pl = "length param"
  obtain lo hi where l: "mem_layout base sz (of_nat ?dl) (of_nat ?pl) = (lo, hi)" by fastforce
  have room': "?dl + ?pl + 397 \<le> unat sz"
    using room(1) required_size_eq [OF refl refl len] by (simp add: word_le_nat_alt)
  note B = create_bounds [OF base room', unfolded l fst_conv snd_conv]
  define t where "t = unat hi - unat lo - 16"
  have t: "unat (hi - lo - 2 * 8) = t" "24 \<le> t" "unat hi = unat lo + t + 16" "8 dvd t"
  proof -
    have "unat (hi - lo) = unat hi - unat lo" using B(4) by (intro unat_sub_no_wrap) simp
    moreover from this have "unat (hi - lo - 16) = unat (hi - lo) - 16"
      using B(4) unat_sub_no_wrap [of 16 "hi - lo"] by simp
    ultimately show "unat (hi - lo - 2 * 8) = t" by (simp add: t_def)
    show "24 \<le> t" "unat hi = unat lo + t + 16" using B(4) by (simp_all add: t_def)
    show "8 dvd t" using B(2,3) by (simp add: t_def dvd_diff_nat)
  qed
  have bounds: "MEM_MIN_SIZE \<le> sz" using room' by (simp add: MEM_MIN_SIZE_def word_le_nat_alt)
  define info where "info = the (nt_mem_create (Some (shm_id, base, cells)) sz descr param oom)"
  have info: "nt_mem_create (Some (shm_id, base, cells)) sz descr param oom = Some info"
    using bounds room(2) l by (simp add: info_def nt_mem_create_def Let_def)
  have f: "mi_lo_bound info = unat lo" "mi_hi_bound info = unat hi" "mi_total_size info = hi - lo - 16"
      "mi_used_size info = 0" "mi_free_size info = hi - lo - 16"
      "mi_buckets info = (replicate 30 0)[mem_bucket_by_size t := unat lo]"
      "mi_cells info = mem_set_next_chunk (unat lo) 0 (mem_set_prev_chunk (unat lo) 0 (mem_set_chunk_size (unat lo) t cells))"
    using bounds room(2) l t(1) by (simp_all add: info_def nt_mem_create_def Let_def)
  have "of_nat (unat (hi - lo - 2 * 8)) = hi - lo - 2 * 8" by (simp only: of_nat_unat ucast_id)
  then have tw: "hi - lo - 16 = of_nat t" unfolding t(1) by simp
  have "mem_view info {} {(unat lo, t)}"
    by (rule single_chunk_view [of "unat lo" t info cells])
      (use B t f tw base in auto)
  then show ?thesis
    using info f(1,2) t(2,3) B(5,6) by (intro exI [of _ info] exI [of _ t] conjI) auto
qed

lemma create_room:
  assumes "nt_mem_create (Some (shm_id, base, cells)) sz descr param oom = Some info"
    and "0 < unat base" "unat base + unat sz < 2 ^ 62" "length descr + length param + 397 \<le> unat sz"
  shows "unat sz \<le> mi_hi_bound info - mi_lo_bound info + 360 + length descr + length param"
proof -
  obtain lo hi where l: "mem_layout base sz (of_nat (length descr)) (of_nat (length param)) = (lo, hi)" by fastforce
  then have "mi_lo_bound info = unat lo" "mi_hi_bound info = unat hi"
    using assms(1) by (auto simp: nt_mem_create_def Let_def split: if_splits)
  with create_bounds(7) [OF assms(2,3,4)] show ?thesis by (simp add: l)
qed

section \<open>Clearing\<close>

lemma view_total:
  assumes v: "mem_view info A F" and ne: "A \<union> F \<noteq> {}"
  obtains t where "mi_hi_bound info = mi_lo_bound info + t + 16" "24 \<le> t" "8 dvd t"
    "mi_total_size info = of_nat t" "mi_hi_bound info < 2 ^ 63" "0 < mi_lo_bound info" "8 dvd mi_lo_bound info"
proof -
  obtain cs where cs: "mem_wf info cs" "A = used_chunks (mi_lo_bound info) cs" "F = free_chunks (mi_lo_bound info) cs"
    using v by (auto simp: mem_view_def)
  note D = mem_wfD [OF cs(1)]
  obtain s u zs where z: "cs = (s, u) # zs" using ne cs(2,3) by (cases cs) auto
  have s: "24 \<le> s" "8 dvd span cs" using D(1) span_8 [OF D(1)] z by auto
  then have "40 \<le> span cs" using z by simp
  show thesis
  proof (rule that)
    show "mi_hi_bound info = mi_lo_bound info + (span cs - 16) + 16" "24 \<le> span cs - 16" "8 dvd span cs - 16"
      using D(3) \<open>40 \<le> span cs\<close> s(2) by (simp_all add: dvd_diff_nat)
    have "mi_total_size info = of_nat (span cs) - 16" using D(6) by (simp add: stats_ok_def eq_diff_eq)
    then show "mi_total_size info = of_nat (span cs - 16)" using \<open>40 \<le> span cs\<close> by (simp add: of_nat_diff)
  qed (use D in simp_all)
qed

lemma clear_view:
  assumes v: "mem_view info A F" and ne: "A \<union> F \<noteq> {}"
  shows "\<exists>t. mem_view (nt_mem_clear info) {} {(mi_lo_bound info, t)} \<and>
    mi_hi_bound (nt_mem_clear info) = mi_lo_bound info + t + 16"
proof -
  obtain t where t: "mi_hi_bound info = mi_lo_bound info + t + 16" "24 \<le> t" "8 dvd t"
    "mi_total_size info = of_nat t" "mi_hi_bound info < 2 ^ 63" "0 < mi_lo_bound info" "8 dvd mi_lo_bound info"
    using view_total [OF v ne] by blast
  have u: "unat (mi_total_size info) = t" using t(1,4,5) by (simp add: unat_of_nat_small)
  have "mem_view (nt_mem_clear info) {} {(mi_lo_bound info, t)}"
    by (rule single_chunk_view [of "mi_lo_bound info" t "nt_mem_clear info" "mi_cells info"])
      (use t u in \<open>simp_all add: nt_mem_clear_def Let_def\<close>)
  moreover have "mi_hi_bound (nt_mem_clear info) = mi_lo_bound info + t + 16"
    using t(1) by (simp add: nt_mem_clear_def Let_def)
  ultimately show ?thesis by blast
qed

section \<open>Statistics\<close>

lemma count_list_dll:
  "dll m p cs h \<Longrightarrow> \<exists>mn mx. mem_count_list m h k a b = Some (k + of_nat (length cs), mn, mx)"
proof (induction cs arbitrary: p h k a b)
  case Nil
  then show ?case by (simp add: mem_count_list.simps)
next
  case (Cons c cs)
  then have h: "h = c" "c \<noteq> 0" and d: "dll m c cs (mem_get_next_chunk m c)" by auto
  show ?case
    using Cons.IH [OF d, of "k + 1" "min a (of_nat (CHUNK_SIZE m c))" "max b (of_nat (CHUNK_SIZE m c))"] h
    by (subst mem_count_list.simps) (simp add: ac_simps)
qed

lemma count_buckets_dll:
  "list_all2 (\<lambda>h n. \<exists>cs. dll m 0 cs h \<and> length cs = n) bk ns \<Longrightarrow>
   \<exists>mn mx. mem_count_buckets m bk k a b = Some (k + of_nat (sum_list ns), mn, mx)"
proof (induction bk ns arbitrary: k a b rule: list_all2_induct)
  case (Cons h bk n ns)
  then obtain cs where cs: "dll m 0 cs h" "length cs = n" by blast
  obtain mn mx where "mem_count_list m h 0 a b = Some (of_nat n, mn, mx)"
    using count_list_dll [OF cs(1), of 0 a b] cs(2) by auto
  then show ?case using Cons.IH [of "k + of_nat n" mn mx] by (simp add: add.assoc)
qed simp

lemma finite_chunks [simp]: "finite (used_chunks a cs)" "finite (free_chunks a cs)" "finite (free_at a cs i)"
  by (induction cs arbitrary: a) auto

lemma chunk_fresh: "(a, s) \<notin> used_chunks (a + 16 + s) cs" "(a, s) \<notin> free_chunks (a + 16 + s) cs"
  using used_range free_range by fastforce+

lemma card_used: "card (used_chunks a cs) = length (filter snd cs)"
proof (induction cs arbitrary: a)
  case (Cons c cs)
  obtain s u where c: "c = (s, u)" by fastforce
  show ?case using Cons c chunk_fresh [of a s cs] by simp
qed simp

lemma card_free: "card (free_chunks a cs) = length (filter (\<lambda>c. \<not> snd c) cs)"
proof (induction cs arbitrary: a)
  case (Cons c cs)
  obtain s u where c: "c = (s, u)" by fastforce
  show ?case using Cons c chunk_fresh [of a s cs] by simp
qed simp

lemma sum_used: "used_sum cs = (\<Sum>ch \<in> used_chunks a cs. snd ch)"
proof (induction cs arbitrary: a)
  case (Cons c cs)
  obtain s u where c: "c = (s, u)" by fastforce
  show ?case using Cons [of "a + 16 + s"] c chunk_fresh [of a s cs] by simp
qed simp

lemma sum_free: "free_sum cs = (\<Sum>ch \<in> free_chunks a cs. snd ch)"
proof (induction cs arbitrary: a)
  case (Cons c cs)
  obtain s u where c: "c = (s, u)" by fastforce
  show ?case using Cons [of "a + 16 + s"] c chunk_fresh [of a s cs] by simp
qed simp

lemma sum_free_at: "(\<Sum>i < 30. card (free_at a cs i)) = length (filter (\<lambda>c. \<not> snd c) cs)"
proof (induction cs arbitrary: a)
  case (Cons c cs)
  obtain s u where c: "c = (s, u)" by fastforce
  have n: "a \<notin> free_at (a + 16 + s) cs i" for i using free_at_range [of a "a + 16 + s" cs i] by auto
  have "card (free_at a (c # cs) i) = card (free_at (a + 16 + s) cs i) + (if mem_bucket_by_size s = i \<and> \<not> u then 1 else 0)" for i
    using c n by simp
  then have "(\<Sum>i < 30. card (free_at a (c # cs) i)) =
      (\<Sum>i < 30. card (free_at (a + 16 + s) cs i)) + (\<Sum>i < 30. if mem_bucket_by_size s = i \<and> \<not> u then 1 else 0)"
    by (simp add: sum.distrib)
  also have "(\<Sum>i < 30. if mem_bucket_by_size s = i \<and> \<not> u then 1 else 0) = (if u then 0 else (1::nat))"
    using mem_bucket_less [of s] by (cases u) auto
  finally show ?case using Cons.IH c by simp
qed simp

lemma word_div_of_nat:
  "a < 2 ^ 64 \<Longrightarrow> b < 2 ^ 64 \<Longrightarrow> (of_nat a :: u64) div of_nat b = of_nat (a div b)"
  unfolding word_arith_nat_div by (simp add: unat_of_nat_small)

lemma stats_view:
  assumes v: "mem_view info A F" and ne: "A \<union> F \<noteq> {}"
  shows "\<exists>mn mx. nt_mem_dump_stats info = Some (of_nat (card A + card F), of_nat (card F), of_nat (card A), mn, mx)"
    and "mi_used_size info = of_nat (\<Sum>ch \<in> A. snd ch)" "mi_free_size info = of_nat (\<Sum>ch \<in> F. snd ch)"
proof -
  let ?lo = "mi_lo_bound info" and ?m = "mi_cells info"
  obtain cs where cs: "mem_wf info cs" "A = used_chunks ?lo cs" "F = free_chunks ?lo cs"
    using v by (auto simp: mem_view_def)
  note D = mem_wfD [OF cs(1)]
  have bk: "buckets_ok ?m (mi_buckets info) (free_at ?lo cs)" using D(2) by (simp add: lists_def)
  define ns where "ns = map (\<lambda>i. card (free_at ?lo cs i)) [0..<30]"
  have "list_all2 (\<lambda>h n. \<exists>cs. dll ?m 0 cs h \<and> length cs = n) (mi_buckets info) ns"
    unfolding list_all2_conv_all_nth
  proof (intro conjI allI impI)
    show "length (mi_buckets info) = length ns" using bk by (simp add: ns_def buckets_ok_def)
    fix i assume "i < length (mi_buckets info)"
    then have i: "i < 30" using bk by (simp add: buckets_ok_def)
    then obtain ds where "dll ?m 0 ds (mi_buckets info ! i)" "distinct ds" "set ds = free_at ?lo cs i"
      using bk unfolding buckets_ok_def by blast
    then show "\<exists>ds. dll ?m 0 ds (mi_buckets info ! i) \<and> length ds = ns ! i"
      using i by (intro exI [of _ ds]) (simp add: ns_def distinct_card [symmetric])
  qed
  moreover have "sum_list ns = card F"
    using sum_free_at [of ?lo cs] card_free [of ?lo cs] cs(3)
    by (simp add: ns_def interv_sum_list_conv_sum_set_nat atLeast0LessThan)
  ultimately obtain mn mx where cb: "mem_count_buckets ?m (mi_buckets info) 0 (- 1) 0 = Some (of_nat (card F), mn, mx)"
    using count_buckets_dll [of ?m "mi_buckets info" ns 0 "- 1" 0] by auto
  have len: "length cs = card A + card F"
    using card_used [of ?lo cs] card_free [of ?lo cs] cs(2,3) sum_length_filter_compl [of snd cs] by simp
  have pos: "0 < length cs" using ne cs(2,3) by (cases cs) auto
  have sp: "span cs < 2 ^ 63" using D(7) by simp
  have "mi_total_size info - mi_used_size info - mi_free_size info =
      of_nat (span cs) - 16 - of_nat (used_sum cs) - of_nat (free_sum cs)"
    using D(6) by (simp add: stats_ok_def eq_diff_eq)
  also have "\<dots> = of_nat (16 * (length cs - 1))"
  proof -
    obtain n where n: "length cs = Suc n" using pos by (cases "length cs") auto
    show ?thesis by (simp add: span_sums n)
  qed
  finally have q: "mi_total_size info - mi_used_size info - mi_free_size info = of_nat (16 * (length cs - 1))" .
  have "16 * (length cs - 1) < 2 ^ 64" using sp by (simp add: span_sums)
  then have d: "(of_nat (16 * (length cs - 1)) :: u64) div of_nat 16 = of_nat (length cs - 1)"
    by (subst word_div_of_nat) simp_all
  have "(of_nat (length cs - 1) :: u64) + 1 = of_nat (card A + card F)"
    using pos len by (metis Suc_pred' of_nat_Suc add.commute)
  then show "\<exists>mn mx. nt_mem_dump_stats info = Some (of_nat (card A + card F), of_nat (card F), of_nat (card A), mn, mx)"
    using cb q d by (simp add: nt_mem_dump_stats_def Let_def)
  show "mi_used_size info = of_nat (\<Sum>ch \<in> A. snd ch)" "mi_free_size info = of_nat (\<Sum>ch \<in> F. snd ch)"
    using D(6) sum_used [of cs ?lo] sum_free [of cs ?lo] cs(2,3) by (simp_all add: stats_ok_def)
qed

end
