(* ===== verification/Mem_Session.thy ===== *)
theory Mem_Session
  imports Mem_Spec
begin

text \<open>
  The use of the allocator by a client: sequences of calls and of writes into the blocks the
  client holds, as a step relation; the properties of the allocator.
\<close>

section \<open>Views\<close>

text \<open>The chunks of a view fill the segment between the bounds, and no two free ones touch.\<close>

lemma tset_cover: "(\<Union>(b, s, u) \<in> tset a cs. {b..<b + 16 + s}) = {a..<a + span cs}"
proof (induction cs arbitrary: a)
  case (Cons c cs)
  obtain s u where c: "c = (s, u)" by fastforce
  have "(\<Union>(b, s, u) \<in> tset a (c # cs). {b..<b + 16 + s}) = {a..<a + 16 + s} \<union> {a + 16 + s..<a + 16 + s + span cs}"
    unfolding Cons.IH [of "a + 16 + s", symmetric] c by simp
  then show ?case using c by auto
qed simp

lemma free_apart:
  "coalesced cs \<Longrightarrow> (b, s, False) \<in> tset a cs \<Longrightarrow> (b + 16 + s, t, v) \<in> tset a cs \<Longrightarrow> v"
proof (induction cs arbitrary: a)
  case (Cons c cs)
  obtain z u where c: "c = (z, u)" by fastforce
  have tail: "coalesced cs" using Cons.prems(1) c by (simp add: coalesced_Cons)
  consider "b = a" "s = z" "\<not> u" | "(b, s, False) \<in> tset (a + 16 + z) cs" using Cons.prems(2) c by auto
  then show ?case
  proof cases
    case 1
    then have m: "(a + 16 + z, t, v) \<in> tset (a + 16 + z) cs" using Cons.prems(3) c by auto
    then obtain w ds where cs: "cs = (w, True) # ds" using Cons.prems(1) c 1(3) by (cases cs) (auto simp: coalesced_Cons)
    have "(a + 16 + z, t, v) \<notin> tset (a + 16 + z + 16 + w) ds" using tset_range by fastforce
    then show ?thesis using m cs by simp
  next
    case 2
    then have "a < b" using tset_range [OF 2] by simp
    then show ?thesis using Cons.IH [OF tail 2] Cons.prems(3) c by auto
  qed
qed simp

lemma view_cover:
  assumes "mem_view info A F"
  shows "\<Union> (region ` (A \<union> F)) = {mi_lo_bound info..<mi_hi_bound info}"
proof -
  obtain cs where cs: "mem_wf info cs" "A = used_chunks (mi_lo_bound info) cs" "F = free_chunks (mi_lo_bound info) cs"
    using assms by (auto simp: mem_view_def)
  define T where "T = tset (mi_lo_bound info) cs"
  have m: "(b, s) \<in> A \<union> F \<longleftrightarrow> (\<exists>u. (b, s, u) \<in> T)" for b s
    unfolding cs(2,3) used_chunks_def free_chunks_def T_def by (simp add: ex_bool_eq)
  have "x \<in> \<Union> (region ` (A \<union> F)) \<longleftrightarrow> x \<in> (\<Union>(b, s, u) \<in> T. {b..<b + 16 + s})" for x
  proof -
    have "x \<in> \<Union> (region ` (A \<union> F)) \<longleftrightarrow> (\<exists>b s. (b, s) \<in> A \<union> F \<and> x \<in> {b..<b + 16 + s})"
      unfolding UN_iff region_def Bex_def split_paired_Ex fst_conv snd_conv ..
    then show ?thesis unfolding m UN_iff Bex_def split_paired_Ex prod.case by blast
  qed
  then have "\<Union> (region ` (A \<union> F)) = (\<Union>(b, s, u) \<in> T. {b..<b + 16 + s})" by blast
  then show ?thesis using tset_cover mem_wfD(3) [OF cs(1)] by (simp add: T_def)
qed

lemma view_apart:
  assumes v: "mem_view info A F" and c: "(b, s) \<in> F" "(b', t) \<in> F"
  shows "b' \<noteq> b + 16 + s"
proof
  assume "b' = b + 16 + s"
  moreover obtain cs where "mem_wf info cs" "F = free_chunks (mi_lo_bound info) cs"
    using v by (auto simp: mem_view_def)
  ultimately show False
    using c free_apart [of cs b s "mi_lo_bound info" t False] mem_wfD(5) by (auto simp: free_chunks_def)
qed

text \<open>The end of the segment never changes.\<close>

lemma let_rule: "(\<And>x. x = a \<Longrightarrow> P (f x)) \<Longrightarrow> P (Let a f)"
  by (simp add: Let_def)

lemma if_rule: "(c \<Longrightarrow> P a) \<Longrightarrow> (\<not> c \<Longrightarrow> P b) \<Longrightarrow> P (if c then a else b)"
  by simp

lemmas same_hi =
  let_rule [where P = "\<lambda>i. mi_hi_bound i = mi_hi_bound info" for info]
  if_rule [where P = "\<lambda>i. mi_hi_bound i = mi_hi_bound info" for info]

lemma hi_bound_take [simp]: "mi_hi_bound (mem_take info c sz) = mi_hi_bound info"
  by (simp add: mem_take_def Let_def)

lemma hi_bound_malloc: "mem_malloc info rq = Some (info', c) \<Longrightarrow> mi_hi_bound info' = mi_hi_bound info"
  by (auto simp: mem_malloc_def Let_def split: option.splits if_splits)

lemma hi_bound_free [simp]: "mi_hi_bound (mem_free info p) = mi_hi_bound info"
  unfolding mem_free_def
  by (intro same_hi; simp (no_asm_simp))

lemma hi_bound_shrink [simp]: "mi_hi_bound (mem_shrink info c sz) = mi_hi_bound info"
  unfolding mem_shrink_def
  by (intro same_hi; simp (no_asm_simp))

lemma hi_bound_extend [simp]: "mi_hi_bound (mem_extend info c sz) = mi_hi_bound info"
  unfolding mem_extend_def
  by (intro same_hi; simp (no_asm_simp))

lemma hi_bound_realloc:
  "mem_realloc tmp_ok info p rq = Some (Inr (info', c)) \<Longrightarrow> mi_hi_bound info' = mi_hi_bound info"
  by (auto simp: mem_realloc_def Let_def dest!: hi_bound_malloc split: option.splits prod.splits if_splits)

section \<open>Sessions\<close>

text \<open>
  A client that keeps to the rules: \<open>A\<close> are the chunks it holds (address and size of the
  header), \<open>w\<close> the values it wrote last into their payloads.
\<close>

type_synonym session = "nt_mem_info \<times> (nat \<times> nat) set \<times> (nat \<Rightarrow> u64 option)"

text \<open>What the writes become when the first \<open>n\<close> bytes of \<open>ch\<close> are kept in \<open>ch'\<close>.\<close>

definition moved :: "nat \<times> nat \<Rightarrow> nat \<times> nat \<Rightarrow> nat \<Rightarrow> (nat \<Rightarrow> u64 option) \<Rightarrow> nat \<Rightarrow> u64 option" where
  "moved ch ch' n w x =
     (if x \<in> payload ch' then (if x - fst ch' < 8 + n then w (x - fst ch' + fst ch) else None)
      else if x \<in> payload ch then None else w x)"

inductive client_step :: "session \<Rightarrow> session \<Rightarrow> bool" where
  client_malloc: "nt_mem_malloc info 0 sz = Some (Inr (info', ptr)) \<Longrightarrow> ptr \<noteq> 0 \<Longrightarrow>
    client_step (info, A, w) (info', insert (ptr - 8, CHUNK_SIZE (mi_cells info') (ptr - 8)) A, w)"
| client_free: "ch \<in> A \<Longrightarrow> nt_mem_free info (fst ch + 8) = Inr info' \<Longrightarrow>
    client_step (info, A, w) (info', A - {ch}, w |` (- payload ch))"
| client_realloc: "ch \<in> A \<Longrightarrow> nt_mem_realloc tmp_ok info (fst ch + 8) sz = Some (Inr (info', ptr)) \<Longrightarrow> ptr \<noteq> 0 \<Longrightarrow>
    ch' = (ptr - 8, CHUNK_SIZE (mi_cells info') (ptr - 8)) \<Longrightarrow>
    client_step (info, A, w) (info', insert ch' (A - {ch}), moved ch ch' (min (snd ch) (unat (mem_proper_alloc_size sz))) w)"
| client_write: "ch \<in> A \<Longrightarrow> x \<in> payload ch \<Longrightarrow>
    client_step (info, A, w) (info\<lparr>mi_cells := (mi_cells info)(x := val)\<rparr>, A, w(x \<mapsto> val))"
| client_clear: "client_step (info, A, w) (nt_mem_clear info, {}, Map.empty)"

definition session_ok :: "nat \<Rightarrow> nat \<Rightarrow> session \<Rightarrow> bool" where
  "session_ok lo hi = (\<lambda>(info, A, w). mi_lo_bound info = lo \<and> mi_hi_bound info = hi \<and> lo < hi \<and> (\<exists>F. mem_view info A F) \<and>
     (\<forall>x v. w x = Some v \<longrightarrow> mi_cells info x = v \<and> (\<exists>ch \<in> A. x \<in> payload ch)))"

lemma session_writes:
  assumes "session_ok lo hi (info, A, w)" and w: "w x = Some y"
  shows "mi_cells info x = y \<and> (\<exists>ch \<in> A. x \<in> payload ch)"
proof -
  have "\<forall>x v. w x = Some v \<longrightarrow> mi_cells info x = v \<and> (\<exists>ch \<in> A. x \<in> payload ch)"
    using assms(1) unfolding session_ok_def by simp
  then show ?thesis using w by blast
qed

lemma view_header: "mem_view info A F \<Longrightarrow> (c, s) \<in> A \<Longrightarrow> CHUNK_SIZE (mi_cells info) c = s"
proof -
  assume v: "mem_view info A F" and c: "(c, s) \<in> A"
  obtain cs where cs: "mem_wf info cs" "A = used_chunks (mi_lo_bound info) cs" using v by (auto simp: mem_view_def)
  obtain xs ys where "cs = xs @ (s, True) # ys" "c = mi_lo_bound info + span xs"
    using tset_split [of c s True "mi_lo_bound info" cs] c cs(2) by (auto simp: used_chunks_def)
  then show "CHUNK_SIZE (mi_cells info) c = s" using wf_header(1) cs(1) by blast
qed

lemma view_nonempty: "mem_view info A F \<Longrightarrow> mi_lo_bound info < mi_hi_bound info \<Longrightarrow> A \<union> F \<noteq> {}"
  using view_cover [of info A F] by auto

lemma session_malloc:
  assumes s: "session_ok lo hi (info, A, w)"
    and m: "nt_mem_malloc info 0 sz = Some (Inr (info', ptr))" "ptr \<noteq> 0"
  shows "session_ok lo hi (info', insert (ptr - 8, CHUNK_SIZE (mi_cells info') (ptr - 8)) A, w)"
proof -
  obtain F where v: "mem_view info A F" using s by (auto simp: session_ok_def)
  have rq: "sz \<le> MEM_MAX_SIZE" using m(1) by (auto simp: nt_mem_malloc_def split: if_splits)
  obtain c where c: "mem_malloc info sz = Some (info', c)" "c \<noteq> 0" "ptr = c + 8"
    using m by (auto simp: nt_mem_malloc_def mem_result_def split: if_splits option.splits)
  then obtain z F' where n: "mem_view info' (insert (c, z) A) F'" "same_data A info info'" "mi_lo_bound info' = mi_lo_bound info"
    using malloc_view [OF v rq] by auto
  have "CHUNK_SIZE (mi_cells info') c = z" using view_header [OF n(1)] by blast
  moreover have "session_ok lo hi (info', insert (c, z) A, w)"
    using s n hi_bound_malloc [OF c(1)] unfolding session_ok_def same_data_def by fastforce
  ultimately show ?thesis using c(3) by simp
qed

lemma session_free:
  assumes s: "session_ok lo hi (info, A, w)" and ch: "ch \<in> A"
  shows "session_ok lo hi (mem_free info (fst ch + 8), A - {ch}, w |` (- payload ch))"
proof -
  obtain F where v: "mem_view info A F" using s by (auto simp: session_ok_def)
  obtain c z where cz: "ch = (c, z)" by fastforce
  obtain F' where "mem_view (mem_free info (c + 8)) (A - {ch}) F'" "same_data (A - {ch}) info (mem_free info (c + 8))"
      "mi_lo_bound (mem_free info (c + 8)) = mi_lo_bound info"
    using free_view [OF v] ch cz by blast
  then show ?thesis
    using s cz unfolding session_ok_def same_data_def by (fastforce simp: restrict_map_def split: if_splits)
qed

lemma session_realloc:
  assumes s: "session_ok lo hi (info, A, w)" and ch: "ch \<in> A"
    and m: "nt_mem_realloc tmp_ok info (fst ch + 8) sz = Some (Inr (info', ptr))" "ptr \<noteq> 0"
    and ch': "ch' = (ptr - 8, CHUNK_SIZE (mi_cells info') (ptr - 8))"
  shows "session_ok lo hi (info', insert ch' (A - {ch}), moved ch ch' (min (snd ch) (unat (mem_proper_alloc_size sz))) w)"
proof -
  let ?n = "min (snd ch) (unat (mem_proper_alloc_size sz))"
  obtain F where v: "mem_view info A F" using s by (auto simp: session_ok_def)
  obtain c z where cz: "ch = (c, z)" by fastforce
  have rq: "sz \<le> MEM_MAX_SIZE" using m(1) by (auto simp: nt_mem_realloc_def split: if_splits)
  obtain c' where c': "mem_realloc tmp_ok info (c + 8) sz = Some (Inr (info', c'))" "c' \<noteq> 0" "ptr = c' + 8"
    using m cz by (auto simp: nt_mem_realloc_def mem_result_def split: if_splits option.splits sum.splits)
  then have "realloc_spec info A F c z (unat (mem_proper_alloc_size sz)) info' c'"
    using realloc_correct [OF v _ rq, of c z tmp_ok] ch cz by auto
  then obtain z' F' where n: "mem_view info' (insert (c', z') (A - {ch})) F'" "same_data (A - {ch}) info info'"
      "\<And>k. k < ?n \<Longrightarrow> mi_cells info' (c' + 8 + k) = mi_cells info (c + 8 + k)" "mi_lo_bound info' = mi_lo_bound info"
    using c'(2) cz unfolding realloc_spec_def by auto
  have h: "ch' = (c', z')" using view_header [OF n(1)] ch' c'(3) by simp
  have "mi_cells info' x = y \<and> (\<exists>d \<in> insert ch' (A - {ch}). x \<in> payload d)" if w: "moved ch ch' ?n w x = Some y" for x y
  proof (cases "x \<in> payload ch'")
    case True
    then have le: "c' + 8 \<le> x" and wy: "x - c' < 8 + ?n" "w (x - c' + c) = Some y"
      using w by (auto simp: moved_def payload_def h split: if_splits) (simp add: cz)
    have "x - c' + c = c + 8 + (x - c' - 8)" using le by simp
    then have x: "x = c' + 8 + (x - c' - 8)" "x - c' - 8 < ?n" "w (c + 8 + (x - c' - 8)) = Some y"
      using le wy by (simp, linarith, simp)
    then have "mi_cells info (c + 8 + (x - c' - 8)) = y" using s by (auto simp: session_ok_def)
    then show ?thesis using n(3) [OF x(2)] x(1) True by auto
  next
    case False
    then have x: "x \<notin> payload ch" "w x = Some y" using w by (auto simp: moved_def split: if_splits)
    then obtain d where "d \<in> A" "x \<in> payload d" "mi_cells info x = y" using session_writes [OF s x(2)] by blast
    moreover from this have "d \<in> A - {ch}" using x(1) by auto
    ultimately show ?thesis using n(2) unfolding same_data_def by auto
  qed
  then show ?thesis
    using s n hi_bound_realloc [OF c'(1)] h unfolding session_ok_def by auto
qed

lemma session_write:
  assumes s: "session_ok lo hi (info, A, w)" and ch: "ch \<in> A" "x \<in> payload ch"
  shows "session_ok lo hi (info\<lparr>mi_cells := (mi_cells info)(x := v)\<rparr>, A, w(x \<mapsto> v))"
proof -
  obtain F where v: "mem_view info A F" using s by (auto simp: session_ok_def)
  obtain c z where cz: "ch = (c, z)" by fastforce
  have "mem_view (info\<lparr>mi_cells := (mi_cells info)(x := v)\<rparr>) A F"
  proof (rule write_view(1) [OF v])
    show "(c, z) \<in> A" using ch(1) cz by simp
    show "((mi_cells info)(x := v)) y = mi_cells info y" if "y \<notin> payload (c, z)" for y
      using that ch(2) cz by auto
  qed
  then show ?thesis using s ch unfolding session_ok_def by auto
qed

lemma session_clear:
  assumes s: "session_ok lo hi (info, A, w)"
  shows "session_ok lo hi (nt_mem_clear info, {}, Map.empty)"
proof -
  obtain F where v: "mem_view info A F" using s by (auto simp: session_ok_def)
  have "A \<union> F \<noteq> {}" using view_nonempty [OF v] s by (simp add: session_ok_def)
  then obtain t where "mem_view (nt_mem_clear info) {} {(mi_lo_bound info, t)}" using clear_view [OF v] by blast
  moreover have "mi_lo_bound (nt_mem_clear info) = mi_lo_bound info" "mi_hi_bound (nt_mem_clear info) = mi_hi_bound info"
    by (simp_all add: nt_mem_clear_def Let_def)
  ultimately show ?thesis using s by (auto simp: session_ok_def)
qed

lemma client_step_ok: "client_step st st' \<Longrightarrow> session_ok lo hi st \<Longrightarrow> session_ok lo hi st'"
proof (induction rule: client_step.induct)
  case (client_free ch A info info' w)
  then have "info' = mem_free info (fst ch + 8)" by (auto simp: nt_mem_free_def)
  then show ?case using session_free client_free by simp
qed (simp_all add: session_malloc session_realloc session_write session_clear)

end
