(* ===== verification/Mem_Props.thy ===== *)
theory Mem_Props
  imports Mem_Session
begin

text \<open>
  The properties of the allocator, with a segment of 64 KB attached at address 4096 as the
  concrete instance of each.
\<close>

section \<open>A concrete segment\<close>

definition demo_mem :: nt_mem_info where
  "demo_mem = the (nt_mem_create (Some (7, 4096, \<lambda>_. 0)) 65536 [] [] 1)"

lemma demo_required: "nt_mem_required_size 1 [] [] = 397"
  by (simp add: nt_mem_required_size_def sizeof_nt_mem_info_def)

lemma demo_layout: "mem_layout 4096 65536 0 0 = (4432, 69624)"
  by (simp add: mem_layout_eq ALIGN8_def)

lemmas demo_defs = demo_mem_def nt_mem_create_def MEM_MIN_SIZE_def MEM_MAX_SIZE_def demo_layout Let_def

lemma demo_create: "nt_mem_create (Some (7, 4096, \<lambda>_. 0)) 65536 [] [] 1 = Some demo_mem"
  by (simp add: demo_defs)

lemma demo_view: "\<exists>lo t. mem_view demo_mem {} {(lo, t)} \<and> 65000 \<le> t"
proof -
  obtain t where v: "mem_view demo_mem {} {(mi_lo_bound demo_mem, t)}"
    "mi_hi_bound demo_mem = mi_lo_bound demo_mem + t + 16"
    using create_view [of 4096 65536 "[]" "[]" 7 "\<lambda>_. 0" 1] demo_create
    by (auto simp: demo_required MEM_MAX_SIZE_def)
  have "mi_lo_bound demo_mem = 4432" "mi_hi_bound demo_mem = 69624"
    by (simp_all add: demo_defs)
  then show ?thesis using v by (intro exI [of _ "4432 :: nat"] exI [of _ t]) simp
qed

text \<open>One block of a request of 100 bytes is allocated.\<close>

lemma demo_malloc:
  "\<exists>info c s F. mem_malloc demo_mem 100 = Some (info, c) \<and> c \<noteq> 0 \<and> 104 \<le> s \<and> s < 144 \<and>
     mem_view info {(c, s)} F \<and> mi_allow_oom info = 1"
proof -
  obtain lo t where v: "mem_view demo_mem {} {(lo, t)}" "65000 \<le> t" using demo_view by blast
  have p: "unat (mem_proper_alloc_size 100) = 104" by (simp add: mem_proper_alloc_size_def)
  have o: "mi_allow_oom demo_mem = 1"
    by (simp add: demo_defs)
  show ?thesis
    using malloc_view [OF v(1), of 100] v(2) p o by (fastforce simp: MEM_MAX_SIZE_def)
qed

section \<open>Sessions\<close>

abbreviation client_steps :: "session \<Rightarrow> session \<Rightarrow> bool" where
  "client_steps \<equiv> client_step\<^sup>*\<^sup>*"

lemma session_start:
  assumes "nt_mem_create (Some (shm_id, base, cells)) sz descr param oom = Some info"
    and "0 < unat base" "unat base + unat sz < 2 ^ 62" "nt_mem_required_size 1 descr param \<le> sz"
    and "length descr + length param < 2 ^ 62"
  shows "\<exists>lo hi. session_ok lo hi (info, {}, Map.empty) \<and> unat base < lo \<and> hi < unat base + unat sz"
proof -
  have "sz \<le> MEM_MAX_SIZE" using assms(1) by (auto simp: nt_mem_create_def split: if_splits)
  then obtain t where "mem_view info {} {(mi_lo_bound info, t)}" "mi_hi_bound info = mi_lo_bound info + t + 16"
      "unat base < mi_lo_bound info" "mi_hi_bound info < unat base + unat sz"
    using create_view [of base sz descr param shm_id cells oom] assms by auto
  then show ?thesis by (intro exI [of _ "mi_lo_bound info"] exI [of _ "mi_hi_bound info"]) (auto simp: session_ok_def)
qed

lemma session_steps:
  assumes "client_steps st st'" "session_ok lo hi st"
  shows "session_ok lo hi st'"
  using assms by (induction rule: rtranclp_induct) (auto intro: client_step_ok)

text \<open>
  C1: Memory safety of the allocator. Whatever sequence of allocations, reallocations, frees,
  clears and writes into its own blocks a client performs on a fresh segment, the blocks it
  holds are aligned, at least 24 bytes long, inside the segment and disjoint, headers included,
  and every value it wrote is still there, also after its block was moved by a reallocation.
\<close>

theorem mem_session_safe:
  assumes "nt_mem_create (Some (shm_id, base, cells)) sz descr param oom = Some info0"
    and "0 < unat base" "unat base + unat sz < 2 ^ 62" "nt_mem_required_size 1 descr param \<le> sz"
    and "length descr + length param < 2 ^ 62"
    and steps: "client_steps (info0, {}, Map.empty) (info, A, w)"
  shows "(\<forall>(c, s) \<in> A. 8 dvd c \<and> 24 \<le> s \<and> region (c, s) \<subseteq> {unat base..<unat base + unat sz}) \<and>
    (\<forall>ch \<in> A. \<forall>ch' \<in> A. ch \<noteq> ch' \<longrightarrow> region ch \<inter> region ch' = {}) \<and>
    (\<forall>x v. w x = Some v \<longrightarrow> mi_cells info x = v \<and> (\<exists>ch \<in> A. x \<in> payload ch))"
proof -
  obtain lo hi where l: "session_ok lo hi (info, A, w)" "unat base < lo" "hi < unat base + unat sz"
    using session_start assms session_steps [OF steps] by meson
  then obtain F where v: "mem_view info A F" and b: "mi_lo_bound info = lo" "mi_hi_bound info = hi"
    by (auto simp: session_ok_def)
  have "region ch \<subseteq> {unat base..<unat base + unat sz}" if "ch \<in> A" for ch
    using view_layout(2) [OF v, of ch] that l(2,3) b by (force dest: subsetD)
  moreover have "region ch \<inter> region ch' = {}" if "ch \<in> A" "ch' \<in> A" "ch \<noteq> ch'" for ch ch'
    using view_layout(1) [OF v] that by blast
  moreover have "8 dvd c" "24 \<le> s" if "(c, s) \<in> A" for c s
    using view_aligned [OF v, of c s] that by auto
  ultimately show ?thesis using session_writes [OF l(1)] by blast
qed

theorem mem_session_safe_witness:
  "\<exists>info c s. client_steps (demo_mem, {}, Map.empty) (info, {(c, s)}, [c + 8 \<mapsto> 5]) \<and> mi_cells info (c + 8) = 5"
proof -
  obtain info c s F where m: "mem_malloc demo_mem 100 = Some (info, c)" "c \<noteq> 0" "104 \<le> s" "mem_view info {(c, s)} F"
    using demo_malloc by blast
  have sz: "CHUNK_SIZE (mi_cells info) c = s" using view_header [OF m(4)] by simp
  have "client_step (demo_mem, {}, Map.empty) (info, insert (c + 8 - 8, CHUNK_SIZE (mi_cells info) (c + 8 - 8)) {}, Map.empty)"
    by (rule client_malloc [of _ 100]) (use m in \<open>simp_all add: nt_mem_malloc_def mem_result_def MEM_MAX_SIZE_def\<close>)
  then have 1: "client_step (demo_mem, {}, Map.empty) (info, {(c, s)}, Map.empty)" by (simp add: sz)
  have 2: "client_step (info, {(c, s)}, Map.empty) (info\<lparr>mi_cells := (mi_cells info)(c + 8 := 5)\<rparr>, {(c, s)}, [c + 8 \<mapsto> 5])"
    by (rule client_write) (use m(3) in \<open>auto simp: payload_def\<close>)
  have steps: "client_steps (demo_mem, {}, Map.empty) (info\<lparr>mi_cells := (mi_cells info)(c + 8 := 5)\<rparr>, {(c, s)}, [c + 8 \<mapsto> 5])"
    using 1 2 by simp
  then show ?thesis
    using mem_session_safe [OF demo_create _ _ _ _ steps] demo_required by fastforce
qed

section \<open>Invariant\<close>

text \<open>
  C22: The chunks and the accounting. In every state a session reaches, the held and the free
  chunks fill the segment from \<open>lo_bound\<close> to \<open>hi_bound\<close> with no gap, no two free chunks are
  adjacent, and \<open>used_size\<close> and \<open>free_size\<close> are the sums of their sizes.
\<close>

theorem mem_segment_invariant:
  assumes "nt_mem_create (Some (shm_id, base, cells)) sz descr param oom = Some info0"
    and "0 < unat base" "unat base + unat sz < 2 ^ 62" "nt_mem_required_size 1 descr param \<le> sz"
    and "length descr + length param < 2 ^ 62"
    and steps: "client_steps (info0, {}, Map.empty) (info, A, w)"
  shows "\<exists>F. \<Union> (region ` (A \<union> F)) = {mi_lo_bound info..<mi_hi_bound info} \<and> A \<inter> F = {} \<and>
    (\<forall>(b, s) \<in> F. \<forall>(b', s') \<in> F. b' \<noteq> b + 16 + s) \<and>
    mi_used_size info = of_nat (\<Sum>ch \<in> A. snd ch) \<and> mi_free_size info = of_nat (\<Sum>ch \<in> F. snd ch)"
proof -
  obtain lo hi where l: "session_ok lo hi (info, A, w)"
    using session_start assms session_steps [OF steps] by meson
  then obtain F where v: "mem_view info A F" and "mi_lo_bound info < mi_hi_bound info"
    by (auto simp: session_ok_def)
  then have ne: "A \<union> F \<noteq> {}" using view_nonempty by blast
  have "\<forall>(b, s) \<in> F. \<forall>(b', s') \<in> F. b' \<noteq> b + 16 + s" using view_apart [OF v] by fast
  then show ?thesis
    using view_cover [OF v] view_layout(3) [OF v] stats_view(2,3) [OF v ne] by (intro exI [of _ F] conjI)
qed

theorem mem_segment_invariant_witness:
  "\<exists>F. \<Union> (region ` F) = {mi_lo_bound demo_mem..<mi_hi_bound demo_mem} \<and> mi_used_size demo_mem = 0"
  using mem_segment_invariant [OF demo_create _ _ _ _ rtranclp.rtrancl_refl] demo_required by auto

section \<open>Allocation\<close>

text \<open>
  C3: An allocation from a well-formed segment always returns. It is refused for a block the
  caller already has, for a size of 0 and for one above the maximum, and runs out of memory
  (NULL or the end of the process, as \<open>allow_oom\<close> says) exactly when no free chunk is big
  enough; otherwise it takes a chunk of at least the rounded size and less than 40 bytes more,
  and leaves the data of every other block.
\<close>

theorem mem_malloc_correct:
  assumes v: "mem_view info A F"
  shows "(old \<noteq> 0 \<longrightarrow> nt_mem_malloc info old sz = Some (Inl Already_Allocated)) \<and>
    (old = 0 \<and> (sz = 0 \<or> MEM_MAX_SIZE < sz) \<longrightarrow> nt_mem_malloc info old sz = Some (Inl Bad_Size)) \<and>
    (old = 0 \<and> sz \<noteq> 0 \<and> sz \<le> MEM_MAX_SIZE \<longrightarrow>
      (if \<exists>ch \<in> F. unat (mem_proper_alloc_size sz) \<le> snd ch then
         \<exists>c s info' F'. nt_mem_malloc info old sz = Some (Inr (info', c + 8)) \<and> (c, s) \<notin> A \<and>
           unat (mem_proper_alloc_size sz) \<le> s \<and> s < unat (mem_proper_alloc_size sz) + 40 \<and>
           mem_view info' (insert (c, s) A) F' \<and> same_data A info info'
       else nt_mem_malloc info old sz = Some (if mi_allow_oom info = 1 then Inr (info, 0) else Inl Out_Of_Memory)))"
proof (cases "old = 0 \<and> sz \<noteq> 0 \<and> sz \<le> MEM_MAX_SIZE")
  case True
  then have rq: "sz \<le> MEM_MAX_SIZE" "\<not> MEM_MAX_SIZE < sz" by (simp_all add: not_less)
  from malloc_view [OF v rq(1)] show ?thesis
  proof (elim disjE exE conjE)
    assume "mem_malloc info sz = Some (info, 0)" "\<forall>ch \<in> F. snd ch < unat (mem_proper_alloc_size sz)"
    moreover from this have "\<not> (\<exists>ch \<in> F. unat (mem_proper_alloc_size sz) \<le> snd ch)" by (force simp: not_le)
    ultimately show ?thesis using True rq by (simp add: nt_mem_malloc_def mem_result_def)
  next
    fix c s info' F' t
    assume m: "mem_malloc info sz = Some (info', c)" "c \<noteq> 0" "(c, s) \<notin> A" "unat (mem_proper_alloc_size sz) \<le> s"
      "s < unat (mem_proper_alloc_size sz) + 40" "mem_view info' (insert (c, s) A) F'" "same_data A info info'"
      "unat (mem_proper_alloc_size sz) \<le> t" "(c, t) \<in> F"
    then have "nt_mem_malloc info old sz = Some (Inr (info', c + 8))"
      using True rq by (simp add: nt_mem_malloc_def mem_result_def)
    moreover have "\<exists>ch \<in> F. unat (mem_proper_alloc_size sz) \<le> snd ch" using m(8,9) by force
    ultimately show ?thesis using True rq m(3-7) by auto
  qed
qed (auto simp: nt_mem_malloc_def)

theorem mem_malloc_correct_witness:
  "\<exists>c s info F. nt_mem_malloc demo_mem 0 100 = Some (Inr (info, c + 8)) \<and> 104 \<le> s \<and> mem_view info {(c, s)} F"
proof -
  obtain lo t where v: "mem_view demo_mem {} {(lo, t)}" "65000 \<le> t" using demo_view by blast
  have "unat (mem_proper_alloc_size 100) = 104" by (simp add: mem_proper_alloc_size_def)
  then show ?thesis using mem_malloc_correct [OF v(1), of 0 100] v(2) by (auto simp: MEM_MAX_SIZE_def)
qed

section \<open>Freeing\<close>

text \<open>
  C4: Freeing a held block returns it and only it: the data of the other blocks stay, and the
  block is merged with a free chunk before it and with one after it, headers included, so that
  an allocation of the merged size succeeds.
\<close>

theorem mem_free_correct:
  assumes v: "mem_view info A F" and c: "(c, s) \<in> A"
  shows "\<exists>info' F' b. nt_mem_free info (c + 8) = Inr info' \<and> mem_view info' (A - {(c, s)}) F' \<and>
    same_data (A - {(c, s)}) info info' \<and> (b, merged_size info c s) \<in> F'"
  using free_view [OF v c] by (auto simp: nt_mem_free_def)

theorem mem_free_correct_witness:
  "\<exists>info c s info' F' b. mem_malloc demo_mem 100 = Some (info, c) \<and> nt_mem_free info (c + 8) = Inr info' \<and>
     mem_view info' {} F' \<and> (b, merged_size info c s) \<in> F'"
proof -
  obtain info c s F where m: "mem_malloc demo_mem 100 = Some (info, c)" "mem_view info {(c, s)} F"
    using demo_malloc by blast
  show ?thesis using mem_free_correct [OF m(2), of c s] m(1) by fastforce
qed

section \<open>Reallocation\<close>

text \<open>
  C2: A reallocation of a held block returns, whichever of its branches it takes (keep, shrink
  with or without a merge, extend, move, free first and allocate after). It answers a block of
  the rounded size, none of the others, with the old bytes as far as both sizes reach, all other
  blocks untouched, or, when neither a free chunk nor the block merged with its neighbours is big enough, runs
  out of memory with the segment unchanged. The branch \<open>THIS_SHOULD_NEVER_HAPPEN\<close> is dead.
\<close>

theorem mem_realloc_correct:
  assumes v: "mem_view info A F" and c: "(c, s) \<in> A" and sz: "sz \<noteq> 0" "sz \<le> MEM_MAX_SIZE"
  defines "psz \<equiv> unat (mem_proper_alloc_size sz)"
  shows "(\<exists>info' c' s' F'. nt_mem_realloc tmp_ok info (c + 8) sz = Some (Inr (info', c' + 8)) \<and> psz \<le> s' \<and>
      (c', s') \<notin> A - {(c, s)} \<and>
      mem_view info' (insert (c', s') (A - {(c, s)})) F' \<and> same_data (A - {(c, s)}) info info' \<and>
      (\<forall>k < min s psz. mi_cells info' (c' + 8 + k) = mi_cells info (c + 8 + k))) \<or>
    (nt_mem_realloc tmp_ok info (c + 8) sz =
       Some (if mi_allow_oom info = 1 then Inr (info, 0) else Inl Out_Of_Memory) \<and>
     (\<forall>ch \<in> F. snd ch < psz) \<and> merged_size info c s < psz) \<or>
    (\<not> tmp_ok \<and> nt_mem_realloc tmp_ok info (c + 8) sz = Some (Inl Tmp_Malloc_Failed))"
proof -
  have n: "\<not> MEM_MAX_SIZE < sz" using sz(2) by (simp add: not_less)
  consider info' c' where "mem_realloc tmp_ok info (c + 8) sz = Some (Inr (info', c'))" "realloc_spec info A F c s psz info' c'"
    | "\<not> tmp_ok" "mem_realloc tmp_ok info (c + 8) sz = Some (Inl Tmp_Malloc_Failed)"
    using realloc_correct [OF v c sz(2), of tmp_ok] unfolding psz_def by blast
  then show ?thesis
  proof cases
    case 1
    have w: "nt_mem_realloc tmp_ok info (c + 8) sz = Some (mem_result info' c')"
      using 1(1) sz(1) n by (simp add: nt_mem_realloc_def)
    show ?thesis
    proof (cases "c' = 0")
      case True
      then show ?thesis using w 1(2) by (auto simp: mem_result_def realloc_spec_def)
    next
      case False
      then have "mem_result info' c' = Inr (info', c' + 8)" by (simp add: mem_result_def)
      moreover obtain s' F' where "psz \<le> s'" "(c', s') \<notin> A - {(c, s)}" "mem_view info' (insert (c', s') (A - {(c, s)})) F'"
          "same_data (A - {(c, s)}) info info'" "\<forall>k < min s psz. mi_cells info' (c' + 8 + k) = mi_cells info (c + 8 + k)"
        using 1(2) False by (auto simp: realloc_spec_def)
      ultimately show ?thesis using w by (intro disjI1 exI conjI) auto
    qed
  next
    case 2
    then show ?thesis using sz(1) n by (simp add: nt_mem_realloc_def)
  qed
qed

theorem mem_realloc_correct_witness:
  "\<exists>info c. mem_malloc demo_mem 100 = Some (info, c) \<and> nt_mem_realloc True info (c + 8) 200 \<noteq> Some (Inl Should_Never_Happen)"
proof -
  obtain info c s F where m: "mem_malloc demo_mem 100 = Some (info, c)" "mem_view info {(c, s)} F" "mi_allow_oom info = 1"
    using demo_malloc by blast
  show ?thesis
    using mem_realloc_correct [OF m(2), of c s 200 True] m(1,3) by (auto simp: MEM_MAX_SIZE_def)
qed

section \<open>The segment\<close>

text \<open>
  C25: \<open>nt_mem_required_size\<close> is enough. A segment of at least the size it computes for one chunk,
  attached anywhere, is laid out as one free chunk inside the segment, and its first allocation
  of 24 bytes succeeds.
\<close>

theorem mem_create_correct:
  assumes base: "0 < unat base" "unat base + unat sz < 2 ^ 62"
    and room: "nt_mem_required_size 1 descr param \<le> sz" "sz \<le> MEM_MAX_SIZE"
    and len: "length descr + length param < 2 ^ 62"
  shows "\<exists>info t. nt_mem_create (Some (shm_id, base, cells)) sz descr param oom = Some info \<and>
    mem_view info {} {(mi_lo_bound info, t)} \<and> mi_hi_bound info = mi_lo_bound info + t + 16 \<and>
    unat base < mi_lo_bound info \<and> mi_hi_bound info < unat base + unat sz \<and>
    (\<exists>info' p. nt_mem_malloc info 0 24 = Some (Inr (info', p)) \<and> p \<noteq> 0)"
proof -
  obtain info t where c: "nt_mem_create (Some (shm_id, base, cells)) sz descr param oom = Some info"
      "mem_view info {} {(mi_lo_bound info, t)}" "24 \<le> t" "mi_hi_bound info = mi_lo_bound info + t + 16"
      "unat base < mi_lo_bound info" "mi_hi_bound info < unat base + unat sz"
    using create_view [OF base room len] by blast
  have "unat (mem_proper_alloc_size 24) = 24" by (simp add: mem_proper_alloc_size_def)
  then obtain info' p where "mem_malloc info 24 = Some (info', p)" "p \<noteq> 0"
    using malloc_view [OF c(2), of 24] c(3) by (auto simp: MEM_MAX_SIZE_def)
  then have "nt_mem_malloc info 0 24 = Some (Inr (info', p + 8))"
    by (simp add: nt_mem_malloc_def mem_result_def MEM_MAX_SIZE_def)
  then show ?thesis using c by (intro exI [of _ info] exI [of _ t]) auto
qed

theorem mem_create_correct_witness:
  "\<exists>info. nt_mem_create (Some (7, 4096, \<lambda>_. 0)) 397 [] [] 0 = Some info \<and>
     (\<exists>info' p. nt_mem_malloc info 0 24 = Some (Inr (info', p)) \<and> p \<noteq> 0)"
  using mem_create_correct [of 4096 397 "[]" "[]" 7 "\<lambda>_. 0" 0] demo_required by (auto simp: MEM_MAX_SIZE_def)

text \<open>
  The least size \<open>nt_mem_create\<close> accepts, 128 bytes, is smaller than the structures it lays
  out first. The call succeeds, but the chunk area starts behind the end of the segment and the
  recorded total size has wrapped around.
\<close>

theorem mem_create_accepts_too_small:
  "\<exists>info. nt_mem_create (Some (7, 4096, \<lambda>_. 0)) MEM_MIN_SIZE [] [] 0 = Some info \<and>
     4096 + unat MEM_MIN_SIZE < mi_lo_bound info \<and> mi_hi_bound info < mi_lo_bound info \<and>
     2 ^ 63 < unat (mi_total_size info)"
proof -
  have "mem_layout 4096 128 0 0 = (4432, 4216)" by (simp add: mem_layout_eq ALIGN8_def)
  then show ?thesis
    by (simp add: nt_mem_create_def MEM_MIN_SIZE_def MEM_MAX_SIZE_def Let_def)
qed

text \<open>
  \<open>nt_mem_clear\<close> makes the whole segment one free chunk again, whatever was allocated.
\<close>

theorem mem_clear_correct:
  assumes "mem_view info A F" "A \<union> F \<noteq> {}"
  shows "\<exists>t. mem_view (nt_mem_clear info) {} {(mi_lo_bound info, t)} \<and>
    mi_hi_bound (nt_mem_clear info) = mi_lo_bound info + t + 16"
  using clear_view [OF assms] .

theorem mem_clear_correct_witness:
  "\<exists>info t. mem_malloc demo_mem 100 = Some info \<and> mem_view (nt_mem_clear (fst info)) {} {(mi_lo_bound (fst info), t)}"
proof -
  obtain info c s F where m: "mem_malloc demo_mem 100 = Some (info, c)" "mem_view info {(c, s)} F"
    using demo_malloc by blast
  then show ?thesis using mem_clear_correct [OF m(2)] by auto
qed

text \<open>
  \<open>nt_mem_dump_stats\<close> ends and reports the exact numbers of chunks, of free and of used
  chunks, although it derives the number of chunks only from the bytes missing in the totals.
\<close>

theorem mem_dump_stats_exact:
  assumes "mem_view info A F" "A \<union> F \<noteq> {}"
  shows "\<exists>mn mx. nt_mem_dump_stats info = Some (of_nat (card A + card F), of_nat (card F), of_nat (card A), mn, mx)"
  using stats_view(1) [OF assms] .

theorem mem_dump_stats_exact_witness:
  "\<exists>mn mx. nt_mem_dump_stats demo_mem = Some (1, 1, 0, mn, mx)"
proof -
  obtain lo t where v: "mem_view demo_mem {} {(lo, t)}" using demo_view by blast
  show ?thesis using mem_dump_stats_exact [OF v] by simp
qed

lemma multiple_of_8:
  assumes "24 \<le> (n :: nat)" "8 dvd n"
  obtains i where "n = 24 + 8 * i"
proof -
  obtain k where "n = 8 * k" using assms(2) by (rule dvdE)
  then have "n = 24 + 8 * (k - 3)" using assms(1) by simp
  then show thesis by (rule that)
qed

text \<open>
  The rounding of a request and the choice of a bucket. A request that the public functions
  let through is rounded to a multiple of 8 that is at least 24, not smaller and less than 24
  bytes bigger; the bucket of a size is one of the 30, a bucket before the last holds one
  rounded size only, and the last holds exactly those from 256 on.
\<close>

theorem mem_rounding_and_buckets:
  assumes rq: "1 \<le> unat sz" "sz \<le> MEM_MAX_SIZE"
  defines "p \<equiv> unat (mem_proper_alloc_size sz)"
  shows "8 dvd p \<and> 24 \<le> p \<and> unat sz \<le> p \<and> p < unat sz + 24 \<and> mem_bucket_by_size p < 30 \<and>
    (mem_bucket_by_size p = 29 \<longleftrightarrow> 256 \<le> p) \<and>
    (\<forall>q. 8 dvd q \<and> 24 \<le> q \<and> p < 256 \<longrightarrow> (mem_bucket_by_size q = mem_bucket_by_size p \<longleftrightarrow> q = p))"
proof -
  note P = proper_size [OF rq(2), folded p_def]
  have "p < unat sz + 24" using P(4) rq(1) by auto
  moreover obtain i where i: "p = 24 + 8 * i" using P(1,2) by (rule multiple_of_8)
  moreover have "mem_bucket_by_size p = 29 \<longleftrightarrow> 256 \<le> p" by (auto simp: mem_bucket_by_size_def i)
  moreover have "mem_bucket_by_size q = mem_bucket_by_size p \<longleftrightarrow> q = p" if q: "8 dvd q" "24 \<le> q" "p < 256" for q
  proof -
    obtain j where "q = 24 + 8 * j" using q(2,1) by (rule multiple_of_8)
    then show ?thesis using q(3) by (auto simp: mem_bucket_by_size_def i)
  qed
  ultimately show ?thesis using P(1-3) mem_bucket_less by blast
qed

theorem mem_rounding_and_buckets_witness:
  "unat (mem_proper_alloc_size 100) < 124 \<and> mem_bucket_by_size (unat (mem_proper_alloc_size 100)) < 29"
proof -
  have "unat (mem_proper_alloc_size 100) = 104" by (simp add: mem_proper_alloc_size_def)
  then show ?thesis
    using mem_rounding_and_buckets [of 100] by (auto simp: MEM_MAX_SIZE_def less_le)
qed

end
