(* ===== verification/Cycle.thy ===== *)
theory Cycle
  imports Prelude
begin

text \<open>
  nt_cycle.c: a ring of tasks in a shared memory object, used by the threads and processes that
  map it, with three semaphores. Pointers into the mapping are absolute addresses, as in the
  code, so each operation takes the address at which its process has mapped the object. A call
  is split into its atomic actions, one per statement; a system is any number of threads that
  interleave.
\<close>

section \<open>Data\<close>

record task_t =
  client_fd :: int
  task_data :: nat
  data_len :: int

record node_t =
  nd_task :: task_t
  nd_next :: nat

record cycle_t =
  cy_head :: nat
  cy_tail :: nat
  cy_max_length :: int
  cy_mutex :: nat
  cy_slots :: nat
  cy_items :: nat
  cy_nodes :: "node_t list"

text \<open>
  \<open>sizeof(cycle_t)\<close> and \<open>sizeof(node_t)\<close> with 8-byte pointers and the 32-byte \<open>sem_t\<close> of 64-bit
  Linux.
\<close>

definition sizeof_cycle_t :: nat where
  "sizeof_cycle_t = 120"

definition sizeof_node_t :: nat where
  "sizeof_node_t = 32"

definition total_size :: "nat \<Rightarrow> nat" where
  "total_size n = sizeof_cycle_t + n * sizeof_node_t"

text \<open>\<open>&queue->nodes[i]\<close> for a queue mapped at \<open>base\<close>, and the node an address points to.\<close>

definition node_addr :: "nat \<Rightarrow> nat \<Rightarrow> nat" where
  "node_addr base i = base + sizeof_cycle_t + i * sizeof_node_t"

definition node_at :: "nat \<Rightarrow> nat \<Rightarrow> nat \<Rightarrow> nat option" where
  "node_at base n a =
     (let off = a - node_addr base 0
      in if node_addr base 0 \<le> a \<and> off mod sizeof_node_t = 0 \<and> off div sizeof_node_t < n
         then Some (off div sizeof_node_t) else None)"

definition link_nodes :: "nat \<Rightarrow> nat \<Rightarrow> node_t list \<Rightarrow> node_t list" where
  "link_nodes base n nodes =
     fold (\<lambda>i nodes. nodes[i := (nodes ! i)\<lparr>nd_next := node_addr base ((i + 1) mod n)\<rparr>]) [0..<n] nodes"

section \<open>Creating, opening and destroying\<close>

text \<open>What the code asks of the system, in order; \<open>perror\<close> is left out.\<close>

datatype os_event =
    Shm_Open string bool
  | Ftruncate nat
  | Mmap nat
  | Sem_Init nat
  | Sem_Destroy
  | Munmap nat
  | Close
  | Shm_Unlink string

text \<open>
  What the system answers: the descriptor, the result of \<open>ftruncate\<close>, the address of the mapping
  (\<open>None\<close> for \<open>MAP_FAILED\<close>), the results of the three \<open>sem_init\<close>; and the nodes the object holds.
\<close>

record os_answers =
  oa_shm_fd :: int
  oa_ftruncate :: int
  oa_mmap :: "nat option"
  oa_sem_mutex :: int
  oa_sem_slots :: int
  oa_sem_items :: int

definition init_cycle :: "nat \<Rightarrow> nat \<Rightarrow> node_t list \<Rightarrow> cycle_t" where
  "init_cycle base n nodes =
     \<lparr>cy_head = node_addr base 0, cy_tail = node_addr base 0, cy_max_length = int n,
      cy_mutex = 1, cy_slots = n, cy_items = 0, cy_nodes = link_nodes base n nodes\<rparr>"

definition task_queue_create ::
  "os_answers \<Rightarrow> node_t list \<Rightarrow> string \<Rightarrow> nat \<Rightarrow> cycle_t option \<times> os_event list" where
  "task_queue_create os nodes name n =
     (let sz = total_size n; ev = [Shm_Open name True]
      in if oa_shm_fd os = -1 then (None, ev)
         else
           let ev = ev @ [Ftruncate sz]
           in if oa_ftruncate os = -1 then (None, ev @ [Close])
              else
                let ev = ev @ [Mmap sz]
                in case oa_mmap os of
                     None \<Rightarrow> (None, ev @ [Close])
                   | Some base \<Rightarrow>
                       let ev = ev @ [Sem_Init 1]
                       in if oa_sem_mutex os = -1 then (None, ev @ [Munmap sz, Close])
                          else
                            let ev = ev @ [Sem_Init n]
                            in if oa_sem_slots os = -1 then (None, ev @ [Munmap sz, Close])
                               else
                                 let ev = ev @ [Sem_Init 0]
                                 in if oa_sem_items os = -1 then (None, ev @ [Munmap sz, Close])
                                    else (Some (init_cycle base n nodes), ev @ [Close]))"

text \<open>
  The object exists, so its contents \<open>q\<close> are given. Only the \<open>next\<close> pointers are set to the
  opener's addresses.
\<close>

definition task_queue_open ::
  "os_answers \<Rightarrow> cycle_t \<Rightarrow> string \<Rightarrow> nat \<Rightarrow> cycle_t option \<times> os_event list" where
  "task_queue_open os q name n =
     (let sz = total_size n; ev = [Shm_Open name False]
      in if oa_shm_fd os = -1 then (None, ev)
         else
           let ev = ev @ [Mmap sz]
           in case oa_mmap os of
                None \<Rightarrow> (None, ev @ [Close])
              | Some base \<Rightarrow> (Some (q\<lparr>cy_nodes := link_nodes base n (cy_nodes q)\<rparr>), ev @ [Close]))"

definition task_queue_destroy :: "string \<Rightarrow> cycle_t \<Rightarrow> os_event list" where
  "task_queue_destroy name q =
     [Sem_Destroy, Sem_Destroy, Sem_Destroy, Munmap (total_size (nat (cy_max_length q))), Shm_Unlink name]"

section \<open>The calls, action by action\<close>

text \<open>\<open>sem_wait\<close> on a semaphore: \<open>None\<close> while the value is 0.\<close>

definition sem_wait :: "nat \<Rightarrow> nat option" where
  "sem_wait s = (if s = 0 then None else Some (s - 1))"

definition sem_post :: "nat \<Rightarrow> nat" where
  "sem_post s = s + 1"

text \<open>
  Where a thread is: \<open>Push_Slots\<close> is before \<open>sem_wait(&queue->slots)\<close>, and so on. \<open>Fault\<close>: it
  dereferenced an address that is no node of its mapping.
\<close>

datatype thread_pc =
    Idle
  | Push_Slots task_t
  | Push_Mutex task_t
  | Push_Store task_t
  | Push_Move task_t
  | Push_Unlock
  | Push_Post
  | Pop_Items
  | Pop_Mutex
  | Pop_Load
  | Pop_Move task_t
  | Pop_Unlock
  | Pop_Post
  | Fault

abbreviation q_node_at :: "nat \<Rightarrow> cycle_t \<Rightarrow> nat \<Rightarrow> nat option" where
  "q_node_at base q a \<equiv> node_at base (length (cy_nodes q)) a"

fun push_action :: "nat \<Rightarrow> cycle_t \<Rightarrow> thread_pc \<Rightarrow> (cycle_t \<times> thread_pc) option" where
  "push_action base q (Push_Slots t) = map_option (\<lambda>s. (q\<lparr>cy_slots := s\<rparr>, Push_Mutex t)) (sem_wait (cy_slots q))"
| "push_action base q (Push_Mutex t) = map_option (\<lambda>s. (q\<lparr>cy_mutex := s\<rparr>, Push_Store t)) (sem_wait (cy_mutex q))"
| "push_action base q (Push_Store t) =
     (case q_node_at base q (cy_tail q) of
        None \<Rightarrow> Some (q, Fault)
      | Some i \<Rightarrow> Some (q\<lparr>cy_nodes := (cy_nodes q)[i := (cy_nodes q ! i)\<lparr>nd_task := t\<rparr>]\<rparr>, Push_Move t))"
| "push_action base q (Push_Move t) =
     (case q_node_at base q (cy_tail q) of
        None \<Rightarrow> Some (q, Fault)
      | Some i \<Rightarrow> Some (q\<lparr>cy_tail := nd_next (cy_nodes q ! i)\<rparr>, Push_Unlock))"
| "push_action base q Push_Unlock = Some (q\<lparr>cy_mutex := sem_post (cy_mutex q)\<rparr>, Push_Post)"
| "push_action base q Push_Post = Some (q\<lparr>cy_items := sem_post (cy_items q)\<rparr>, Idle)"
| "push_action base q _ = None"

fun pop_action :: "nat \<Rightarrow> cycle_t \<Rightarrow> thread_pc \<Rightarrow> (cycle_t \<times> thread_pc) option" where
  "pop_action base q Pop_Items = map_option (\<lambda>s. (q\<lparr>cy_items := s\<rparr>, Pop_Mutex)) (sem_wait (cy_items q))"
| "pop_action base q Pop_Mutex = map_option (\<lambda>s. (q\<lparr>cy_mutex := s\<rparr>, Pop_Load)) (sem_wait (cy_mutex q))"
| "pop_action base q Pop_Load =
     (case q_node_at base q (cy_head q) of
        None \<Rightarrow> Some (q, Fault)
      | Some i \<Rightarrow> Some (q, Pop_Move (nd_task (cy_nodes q ! i))))"
| "pop_action base q (Pop_Move t) =
     (case q_node_at base q (cy_head q) of
        None \<Rightarrow> Some (q, Fault)
      | Some i \<Rightarrow> Some (q\<lparr>cy_head := nd_next (cy_nodes q ! i)\<rparr>, Pop_Unlock))"
| "pop_action base q Pop_Unlock = Some (q\<lparr>cy_mutex := sem_post (cy_mutex q)\<rparr>, Pop_Post)"
| "pop_action base q Pop_Post = Some (q\<lparr>cy_slots := sem_post (cy_slots q)\<rparr>, Idle)"
| "pop_action base q _ = None"

text \<open>\<open>None\<close>: the thread is blocked in \<open>sem_wait\<close>, idle or dead.\<close>

definition thread_action :: "nat \<Rightarrow> cycle_t \<Rightarrow> thread_pc \<Rightarrow> (cycle_t \<times> thread_pc) option" where
  "thread_action base q p =
     (case push_action base q p of None \<Rightarrow> pop_action base q p | Some r \<Rightarrow> Some r)"

text \<open>
  \<open>sem_wait\<close> returns -1 with \<open>errno\<close> \<open>EINTR\<close> and leaves the semaphore when a signal handler
  interrupts it. The code does not look at the result, so the call goes on.
\<close>

fun interrupted :: "thread_pc \<Rightarrow> thread_pc option" where
  "interrupted (Push_Slots t) = Some (Push_Mutex t)"
| "interrupted (Push_Mutex t) = Some (Push_Store t)"
| "interrupted Pop_Items = Some Pop_Mutex"
| "interrupted Pop_Mutex = Some Pop_Load"
| "interrupted _ = None"

section \<open>The whole calls, run alone\<close>

datatype call_error = Blocked | Bad_Access

definition wait_on :: "nat \<Rightarrow> (nat \<Rightarrow> cycle_t) \<Rightarrow> call_error + cycle_t" where
  "wait_on s upd = (case sem_wait s of None \<Rightarrow> Inl Blocked | Some s' \<Rightarrow> Inr (upd s'))"

definition task_queue_push :: "nat \<Rightarrow> cycle_t \<Rightarrow> task_t \<Rightarrow> call_error + cycle_t" where
  "task_queue_push base q t =
     (case wait_on (cy_slots q) (\<lambda>s. q\<lparr>cy_slots := s\<rparr>) of
        Inl e \<Rightarrow> Inl e
      | Inr q \<Rightarrow>
          (case wait_on (cy_mutex q) (\<lambda>s. q\<lparr>cy_mutex := s\<rparr>) of
             Inl e \<Rightarrow> Inl e
           | Inr q \<Rightarrow>
               (case q_node_at base q (cy_tail q) of
                  None \<Rightarrow> Inl Bad_Access
                | Some i \<Rightarrow>
                    (let q = q\<lparr>cy_nodes := (cy_nodes q)[i := (cy_nodes q ! i)\<lparr>nd_task := t\<rparr>]\<rparr>;
                         q = q\<lparr>cy_tail := nd_next (cy_nodes q ! i)\<rparr>;
                         q = q\<lparr>cy_mutex := sem_post (cy_mutex q)\<rparr>
                     in Inr (q\<lparr>cy_items := sem_post (cy_items q)\<rparr>)))))"

definition task_queue_pop :: "nat \<Rightarrow> cycle_t \<Rightarrow> call_error + cycle_t \<times> task_t" where
  "task_queue_pop base q =
     (case wait_on (cy_items q) (\<lambda>s. q\<lparr>cy_items := s\<rparr>) of
        Inl e \<Rightarrow> Inl e
      | Inr q \<Rightarrow>
          (case wait_on (cy_mutex q) (\<lambda>s. q\<lparr>cy_mutex := s\<rparr>) of
             Inl e \<Rightarrow> Inl e
           | Inr q \<Rightarrow>
               (case q_node_at base q (cy_head q) of
                  None \<Rightarrow> Inl Bad_Access
                | Some i \<Rightarrow>
                    (let t = nd_task (cy_nodes q ! i);
                         q = q\<lparr>cy_head := nd_next (cy_nodes q ! i)\<rparr>;
                         q = q\<lparr>cy_mutex := sem_post (cy_mutex q)\<rparr>
                     in Inr (q\<lparr>cy_slots := sem_post (cy_slots q)\<rparr>, t)))))"

text \<open>
  One round of \<open>worker_thread\<close>: the task and the \<open>write\<close> to its client. \<open>worker_rounds\<close>: at most
  \<open>k\<close> rounds of its loop while nobody feeds the ring, until it blocks.
\<close>

definition worker_round :: "nat \<Rightarrow> cycle_t \<Rightarrow> call_error + cycle_t \<times> (int \<times> nat \<times> int)" where
  "worker_round base q =
     (case task_queue_pop base q of
        Inl e \<Rightarrow> Inl e
      | Inr (q', t) \<Rightarrow> Inr (q', (client_fd t, task_data t, data_len t)))"

text \<open>One round of \<open>cycle_worker\<close>, which only prints the client and the data.\<close>

definition cycle_worker_round :: "nat \<Rightarrow> cycle_t \<Rightarrow> call_error + cycle_t \<times> (int \<times> nat)" where
  "cycle_worker_round base q =
     (case task_queue_pop base q of
        Inl e \<Rightarrow> Inl e
      | Inr (q', t) \<Rightarrow> Inr (q', (client_fd t, task_data t)))"

fun worker_rounds :: "nat \<Rightarrow> nat \<Rightarrow> cycle_t \<Rightarrow> cycle_t \<times> (int \<times> nat \<times> int) list \<times> call_error option" where
  "worker_rounds base 0 q = (q, [], None)"
| "worker_rounds base (Suc k) q =
     (case worker_round base q of
        Inl e \<Rightarrow> (q, [], Some e)
      | Inr (q', w) \<Rightarrow> (case worker_rounds base k q' of (q'', ws, r) \<Rightarrow> (q'', w # ws, r)))"

section \<open>Systems\<close>

text \<open>
  The threads, each with the address of its mapping; \<open>rs_pushed\<close> and \<open>rs_popped\<close> record the tasks
  in the order in which \<open>tail\<close> and \<open>head\<close> move over them.
\<close>

record ring_sys =
  rs_queue :: cycle_t
  rs_threads :: "(nat \<times> thread_pc) list"
  rs_pushed :: "task_t list"
  rs_popped :: "task_t list"

fun pushed_by :: "thread_pc \<Rightarrow> task_t list" where
  "pushed_by (Push_Move t) = [t]"
| "pushed_by _ = []"

fun popped_by :: "thread_pc \<Rightarrow> task_t list" where
  "popped_by (Pop_Move t) = [t]"
| "popped_by _ = []"

text \<open>\<open>intr\<close>: signal handlers may interrupt the waiting threads.\<close>

inductive ring_step :: "bool \<Rightarrow> ring_sys \<Rightarrow> ring_sys \<Rightarrow> bool" for intr where
  ring_action: "i < length (rs_threads s) \<Longrightarrow> rs_threads s ! i = (base, p) \<Longrightarrow>
    thread_action base (rs_queue s) p = Some (q', p') \<Longrightarrow>
    ring_step intr s (s\<lparr>rs_queue := q', rs_threads := (rs_threads s)[i := (base, p')],
      rs_pushed := rs_pushed s @ pushed_by p, rs_popped := rs_popped s @ popped_by p\<rparr>)"
| ring_call_push: "i < length (rs_threads s) \<Longrightarrow> rs_threads s ! i = (base, Idle) \<Longrightarrow>
    ring_step intr s (s\<lparr>rs_threads := (rs_threads s)[i := (base, Push_Slots t)]\<rparr>)"
| ring_call_pop: "i < length (rs_threads s) \<Longrightarrow> rs_threads s ! i = (base, Idle) \<Longrightarrow>
    ring_step intr s (s\<lparr>rs_threads := (rs_threads s)[i := (base, Pop_Items)]\<rparr>)"
| ring_interrupt: "intr \<Longrightarrow> i < length (rs_threads s) \<Longrightarrow> rs_threads s ! i = (base, p) \<Longrightarrow>
    interrupted p = Some p' \<Longrightarrow>
    ring_step intr s (s\<lparr>rs_threads := (rs_threads s)[i := (base, p')]\<rparr>)"

definition ring_start :: "cycle_t \<Rightarrow> nat list \<Rightarrow> ring_sys" where
  "ring_start q bases = \<lparr>rs_queue = q, rs_threads = map (\<lambda>b. (b, Idle)) bases, rs_pushed = [], rs_popped = []\<rparr>"

end
