(* ===== verification/Cycle_Inv.thy ===== *)
theory Cycle_Inv
  imports Cycle
begin

text \<open>
  The invariant of the task ring for threads that share one mapping address and whose waits are
  not interrupted: mutual exclusion, the meaning of the two counting semaphores, and the tasks
  between \<open>head\<close> and \<open>tail\<close>.
\<close>

section \<open>Addresses\<close>

lemma node_at_addr [simp]: "i < n \<Longrightarrow> node_at b n (node_addr b i) = Some i"
  by (simp add: node_at_def node_addr_def sizeof_node_t_def)

lemma node_at_outside:
  assumes "b' + total_size n \<le> b \<or> b + total_size n \<le> b'" "i < n"
  shows "node_at b' n (node_addr b i) = None"
proof -
  have "i * 32 + 32 \<le> n * 32" using assms(2) by simp
  then show ?thesis
    using assms(1) by (auto simp: node_at_def node_addr_def total_size_def sizeof_node_t_def Let_def)
qed

definition linked :: "nat \<Rightarrow> node_t list \<Rightarrow> bool" where
  "linked b nodes = (\<forall>i < length nodes. nd_next (nodes ! i) = node_addr b ((i + 1) mod length nodes))"

lemma link_nodes_length [simp]: "length (link_nodes b n nodes) = length nodes"
proof -
  have "length (fold (\<lambda>i nodes. nodes[i := (nodes ! i)\<lparr>nd_next := node_addr b ((i + 1) mod n)\<rparr>]) is nodes) = length nodes" for "is"
    by (induction "is" arbitrary: nodes) simp_all
  then show ?thesis by (simp add: link_nodes_def)
qed

lemma link_nodes_nth:
  assumes "n \<le> length nodes" "j < length nodes"
  shows "link_nodes b n nodes ! j = (if j < n then (nodes ! j)\<lparr>nd_next := node_addr b ((j + 1) mod n)\<rparr> else nodes ! j)"
proof -
  let ?f = "\<lambda>i nodes. nodes[i := (nodes ! i)\<lparr>nd_next := node_addr b ((i + 1) mod n)\<rparr>]"
  have "length (fold ?f [0..<m] nodes) = length nodes \<and> fold ?f [0..<m] nodes ! j =
      (if j < m then (nodes ! j)\<lparr>nd_next := node_addr b ((j + 1) mod n)\<rparr> else nodes ! j)" if "m \<le> n" for m
    using that by (induction m) (use assms in \<open>auto simp: nth_list_update less_Suc_eq\<close>)
  then show ?thesis unfolding link_nodes_def by simp
qed

lemma linked_link_nodes: "length nodes = n \<Longrightarrow> linked b (link_nodes b n nodes)"
  by (simp add: linked_def link_nodes_nth)

lemma linked_update: "linked b nodes \<Longrightarrow> linked b (nodes[i := (nodes ! i)\<lparr>nd_task := t\<rparr>])"
  by (cases "i < length nodes") (auto simp: linked_def nth_list_update)

section \<open>Counting threads\<close>

definition cnt :: "(thread_pc \<Rightarrow> bool) \<Rightarrow> (nat \<times> thread_pc) list \<Rightarrow> int" where
  "cnt P ts = (\<Sum>x \<leftarrow> ts. of_bool (P (snd x)))"

lemma cnt_update:
  "i < length ts \<Longrightarrow> ts ! i = (b, p) \<Longrightarrow> cnt P (ts[i := (b', p')]) = cnt P ts - of_bool (P p) + of_bool (P p')"
proof (induction ts arbitrary: i)
  case (Cons x ts)
  then show ?case by (cases i) (auto simp: cnt_def)
qed simp

lemma cnt_nonneg [simp]: "0 \<le> cnt P ts"
  by (induction ts) (auto simp: cnt_def)

lemma cnt_pos: "i < length ts \<Longrightarrow> P (snd (ts ! i)) \<Longrightarrow> 1 \<le> cnt P ts"
proof (induction ts arbitrary: i)
  case (Cons x ts)
  have c: "cnt P (x # ts) = of_bool (P (snd x)) + cnt P ts" by (simp add: cnt_def)
  show ?case
  proof (cases i)
    case 0
    then show ?thesis using Cons.prems cnt_nonneg [of P ts] unfolding c by simp
  next
    case (Suc j)
    then have "1 \<le> cnt P ts" using Cons by simp
    then show ?thesis unfolding c by simp
  qed
qed simp

lemma cnt_two:
  assumes "i < length ts" "j < length ts" "i \<noteq> j" "P (snd (ts ! i))" "P (snd (ts ! j))" "\<not> P Idle"
  shows "2 \<le> cnt P ts"
proof -
  have "1 \<le> cnt P (ts[i := (0, Idle)])" using assms by (intro cnt_pos [of j]) auto
  then show ?thesis using cnt_update [of i ts "fst (ts ! i)" "snd (ts ! i)" P 0 Idle] assms by simp
qed

lemma cnt_zero: "cnt P ts = 0 \<Longrightarrow> i < length ts \<Longrightarrow> \<not> P (snd (ts ! i))"
  using cnt_pos [of i ts P] by auto

text \<open>The phases of a call.\<close>

fun in_section :: "thread_pc \<Rightarrow> bool" where
  "in_section (Push_Store t) = True"
| "in_section (Push_Move t) = True"
| "in_section Push_Unlock = True"
| "in_section Pop_Load = True"
| "in_section (Pop_Move t) = True"
| "in_section Pop_Unlock = True"
| "in_section _ = False"

fun push_pre :: "thread_pc \<Rightarrow> bool" where
  "push_pre (Push_Mutex t) = True"
| "push_pre (Push_Store t) = True"
| "push_pre (Push_Move t) = True"
| "push_pre _ = False"

fun push_post :: "thread_pc \<Rightarrow> bool" where
  "push_post Push_Unlock = True"
| "push_post Push_Post = True"
| "push_post _ = False"

fun pop_pre :: "thread_pc \<Rightarrow> bool" where
  "pop_pre Pop_Mutex = True"
| "pop_pre Pop_Load = True"
| "pop_pre (Pop_Move t) = True"
| "pop_pre _ = False"

fun pop_post :: "thread_pc \<Rightarrow> bool" where
  "pop_post Pop_Unlock = True"
| "pop_post Pop_Post = True"
| "pop_post _ = False"

section \<open>Invariant\<close>

definition sem_inv :: "nat \<Rightarrow> ring_sys \<Rightarrow> task_t list \<Rightarrow> bool" where
  "sem_inv n s C = (let q = rs_queue s; ts = rs_threads s in
     int (cy_mutex q) + cnt in_section ts = 1 \<and>
     int (cy_slots q) + cnt push_pre ts + int (length C) + cnt pop_post ts = int n \<and>
     int (cy_items q) + cnt pop_pre ts + cnt push_post ts = int (length C))"

definition ring_data :: "nat \<Rightarrow> nat \<Rightarrow> cycle_t \<Rightarrow> nat \<Rightarrow> task_t list \<Rightarrow> bool" where
  "ring_data b n q h C =
     (0 < n \<and> length (cy_nodes q) = n \<and> linked b (cy_nodes q) \<and> cy_head q = node_addr b (h mod n) \<and>
      cy_tail q = node_addr b ((h + length C) mod n) \<and> length C \<le> n \<and>
      (\<forall>j < length C. nd_task (cy_nodes q ! ((h + j) mod n)) = C ! j))"

text \<open>What a thread in the critical section relies on.\<close>

fun pc_ok :: "nat \<Rightarrow> cycle_t \<Rightarrow> nat \<Rightarrow> task_t list \<Rightarrow> thread_pc \<Rightarrow> bool" where
  "pc_ok n q h C (Push_Move t) = (nd_task (cy_nodes q ! ((h + length C) mod n)) = t)"
| "pc_ok n q h C (Pop_Move t) = (nd_task (cy_nodes q ! (h mod n)) = t)"
| "pc_ok n q h C Fault = False"
| "pc_ok n q h C _ = True"

definition ring_inv :: "nat \<Rightarrow> nat \<Rightarrow> ring_sys \<Rightarrow> task_t list \<Rightarrow> bool" where
  "ring_inv b n s C =
     (rs_pushed s = rs_popped s @ C \<and> sem_inv n s C \<and> ring_data b n (rs_queue s) (length (rs_popped s)) C \<and>
      (\<forall>x \<in> set (rs_threads s). fst x = b \<and> pc_ok n (rs_queue s) (length (rs_popped s)) C (snd x)))"

lemma mod_distinct: "j < k \<Longrightarrow> k < n \<Longrightarrow> (h + j) mod n \<noteq> (h + k) mod (n :: nat)"
proof
  assume a: "j < k" "k < n" and e: "(h + j) mod n = (h + k) mod n"
  then have "n dvd (h + k) - (h + j)" by (metis mod_eq_dvd_iff_nat less_imp_le nat_add_left_cancel_le)
  then have "n dvd k - j" by simp
  then show False using a by (auto dest: dvd_imp_le)
qed

lemma ring_data_fields:
  "ring_data b n (q\<lparr>cy_mutex := m\<rparr>) h C = ring_data b n q h C"
  "ring_data b n (q\<lparr>cy_slots := m\<rparr>) h C = ring_data b n q h C"
  "ring_data b n (q\<lparr>cy_items := m\<rparr>) h C = ring_data b n q h C"
  by (simp_all add: ring_data_def)

lemma ring_data_store:
  assumes d: "ring_data b n q h C" and k: "length C < n" and i: "i = (h + length C) mod n"
  shows "ring_data b n (q\<lparr>cy_nodes := (cy_nodes q)[i := (cy_nodes q ! i)\<lparr>nd_task := t\<rparr>]\<rparr>) h C"
proof -
  have ne: "\<forall>j < length C. (h + length C) mod n \<noteq> (h + j) mod n" using mod_distinct [OF _ k] by metis
  show ?thesis using d ne unfolding ring_data_def i by (auto simp: linked_update)
qed

lemma ring_data_push:
  assumes d: "ring_data b n q h C" and k: "length C < n" and i: "i = (h + length C) mod n"
    and t: "nd_task (cy_nodes q ! i) = t"
  shows "ring_data b n (q\<lparr>cy_tail := nd_next (cy_nodes q ! i)\<rparr>) h (C @ [t])"
proof -
  have "i < n" using d unfolding i ring_data_def by simp
  then have "nd_next (cy_nodes q ! i) = node_addr b ((i + 1) mod n)" using d unfolding ring_data_def linked_def by auto
  also have "(i + 1) mod n = (h + Suc (length C)) mod n" unfolding i by (simp add: mod_Suc_eq)
  finally show ?thesis using d k t i unfolding ring_data_def by (auto simp: nth_append less_Suc_eq)
qed

lemma ring_data_pop:
  assumes d: "ring_data b n q h (t # C)"
  shows "ring_data b n (q\<lparr>cy_head := nd_next (cy_nodes q ! (h mod n))\<rparr>) (Suc h) C" "nd_task (cy_nodes q ! (h mod n)) = t"
proof -
  have h: "h mod n < n" using d unfolding ring_data_def by simp
  then have "nd_next (cy_nodes q ! (h mod n)) = node_addr b ((h mod n + 1) mod n)"
    using d unfolding ring_data_def linked_def by auto
  then have e: "nd_next (cy_nodes q ! (h mod n)) = node_addr b (Suc h mod n)" by (simp add: mod_Suc_eq)
  have "nd_task (cy_nodes q ! ((h + j) mod n)) = (t # C) ! j" if "j < Suc (length C)" for j
    using d that unfolding ring_data_def by auto
  from this [of 0] this [of "Suc _"] show "ring_data b n (q\<lparr>cy_head := nd_next (cy_nodes q ! (h mod n))\<rparr>) (Suc h) C"
      "nd_task (cy_nodes q ! (h mod n)) = t"
    using d e unfolding ring_data_def by auto
qed

section \<open>Preservation\<close>

lemma pc_ok_outside: "\<not> in_section p \<Longrightarrow> pc_ok n q h C p \<longleftrightarrow> p \<noteq> Fault"
  by (cases p) simp_all

lemma pc_ok_nodes: "cy_nodes q' = cy_nodes q \<Longrightarrow> pc_ok n q' h C p = pc_ok n q h C p"
  by (cases p) simp_all

lemma others_outside:
  assumes s: "sem_inv n s C" and i: "i < length (rs_threads s)" "in_section (snd (rs_threads s ! i))"
    and j: "j < length (rs_threads s)" "j \<noteq> i"
  shows "\<not> in_section (snd (rs_threads s ! j))"
proof
  assume "in_section (snd (rs_threads s ! j))"
  then have "2 \<le> cnt in_section (rs_threads s)" using cnt_two [of i "rs_threads s" j in_section] i j by simp
  then show False using s by (simp add: sem_inv_def Let_def)
qed

lemma ring_inv_action:
  assumes inv: "ring_inv b n s C" and i: "i < length (rs_threads s)" "rs_threads s ! i = (b, p)"
    and s': "s' = s\<lparr>rs_queue := q', rs_threads := (rs_threads s)[i := (b, p')],
      rs_pushed := rs_pushed s @ u, rs_popped := rs_popped s @ v\<rparr>"
    and hist: "C @ u = v @ C'"
    and sem: "sem_inv n s' C'"
    and data: "ring_data b n q' (length (rs_popped s) + length v) C'"
    and own: "pc_ok n q' (length (rs_popped s) + length v) C' p'"
    and others: "in_section p \<or> cy_nodes q' = cy_nodes (rs_queue s) \<and> v = [] \<and> C' = C"
  shows "ring_inv b n s' C'"
proof -
  let ?h = "length (rs_popped s) + length v"
  have old: "fst (rs_threads s ! j) = b \<and> pc_ok n (rs_queue s) (length (rs_popped s)) C (snd (rs_threads s ! j))"
    if "j < length (rs_threads s)" for j
    using inv that unfolding ring_inv_def by auto
  have pcs: "fst (rs_threads s ! j) = b \<and> pc_ok n q' ?h C' (snd (rs_threads s ! j))"
    if j: "j < length (rs_threads s)" "j \<noteq> i" for j
  proof (cases "in_section p")
    case True
    have "\<not> in_section (snd (rs_threads s ! j))"
      using others_outside [of n s C i j] inv i j True unfolding ring_inv_def by simp
    then show ?thesis using old [OF j(1)] by (simp add: pc_ok_outside)
  next
    case False
    then show ?thesis using old [OF j(1)] others pc_ok_nodes [of q' "rs_queue s"] by simp
  qed
  have "\<forall>x \<in> set ((rs_threads s)[i := (b, p')]). fst x = b \<and> pc_ok n q' ?h C' (snd x)"
    unfolding all_set_conv_all_nth using pcs own i(1) by (auto simp: nth_list_update)
  then show ?thesis
    using inv hist sem data unfolding ring_inv_def s' by simp
qed

lemma sem_waits [simp]: "sem_wait s = Some s' \<longleftrightarrow> s = Suc s'"
  by (auto simp: sem_wait_def)

lemma thread_action_simps [simp]:
  "thread_action b q (Push_Slots t) = push_action b q (Push_Slots t)"
  "thread_action b q (Push_Mutex t) = push_action b q (Push_Mutex t)"
  "thread_action b q (Push_Store t) = push_action b q (Push_Store t)"
  "thread_action b q (Push_Move t) = push_action b q (Push_Move t)"
  "thread_action b q Push_Unlock = push_action b q Push_Unlock"
  "thread_action b q Push_Post = push_action b q Push_Post"
  "thread_action b q Pop_Items = pop_action b q Pop_Items"
  "thread_action b q Pop_Mutex = pop_action b q Pop_Mutex"
  "thread_action b q Pop_Load = pop_action b q Pop_Load"
  "thread_action b q (Pop_Move t) = pop_action b q (Pop_Move t)"
  "thread_action b q Pop_Unlock = pop_action b q Pop_Unlock"
  "thread_action b q Pop_Post = pop_action b q Pop_Post"
  "thread_action b q Idle = None" "thread_action b q Fault = None"
  by (simp_all add: thread_action_def sem_wait_def split: option.split)

text \<open>What the counts give to a thread in the critical section.\<close>

lemma sem_invD:
  assumes "sem_inv n s C"
  shows "int (cy_mutex (rs_queue s)) + cnt in_section (rs_threads s) = 1"
    "int (cy_slots (rs_queue s)) + cnt push_pre (rs_threads s) + int (length C) + cnt pop_post (rs_threads s) = int n"
    "int (cy_items (rs_queue s)) + cnt pop_pre (rs_threads s) + cnt push_post (rs_threads s) = int (length C)"
  using assms by (simp_all add: sem_inv_def Let_def)

lemma push_room:
  assumes "ring_inv b n s C" "i < length (rs_threads s)" "push_pre (snd (rs_threads s ! i))"
  shows "length C < n"
proof -
  have "sem_inv n s C" using assms(1) by (simp add: ring_inv_def)
  then show ?thesis
    using sem_invD(2) [of n s C] cnt_pos [of i "rs_threads s" push_pre] assms(2,3) cnt_nonneg [of pop_post "rs_threads s"]
    by linarith
qed

lemma pop_nonempty:
  assumes "ring_inv b n s C" "i < length (rs_threads s)" "pop_pre (snd (rs_threads s ! i))"
  shows "C \<noteq> []"
proof -
  have "sem_inv n s C" using assms(1) by (simp add: ring_inv_def)
  then have "0 < length C"
    using sem_invD(3) [of n s C] cnt_pos [of i "rs_threads s" pop_pre] assms(2,3) cnt_nonneg [of push_post "rs_threads s"]
    by linarith
  then show ?thesis by simp
qed

lemma ring_tail: "ring_data b n q h C \<Longrightarrow> q_node_at b q (cy_tail q) = Some ((h + length C) mod n)"
  by (auto simp: ring_data_def)

lemma ring_head: "ring_data b n q h C \<Longrightarrow> q_node_at b q (cy_head q) = Some (h mod n)"
  by (auto simp: ring_data_def)

lemma ring_action_inv:
  assumes inv: "ring_inv b n s C" and i: "i < length (rs_threads s)" "rs_threads s ! i = (b, p)"
    and a: "thread_action b (rs_queue s) p = Some (q', p')"
    and s': "s' = s\<lparr>rs_queue := q', rs_threads := (rs_threads s)[i := (b, p')],
      rs_pushed := rs_pushed s @ pushed_by p, rs_popped := rs_popped s @ popped_by p\<rparr>"
  shows "\<exists>C'. ring_inv b n s' C'"
proof -
  let ?q = "rs_queue s" and ?h = "length (rs_popped s)"
  have sem: "sem_inv n s C" and d: "ring_data b n ?q ?h C" and pok: "pc_ok n ?q ?h C p"
    using inv i nth_mem [OF i(1)] unfolding ring_inv_def by auto
  note rule = ring_inv_action [OF inv i s']
  note simps = s' sem_inv_def Let_def cnt_update [OF i] sem_post_def ring_data_fields
  show ?thesis
  proof (cases p)
    case (Push_Slots t)
    then show ?thesis using sem d a by (intro exI [of _ C] rule) (auto simp: simps)
  next
    case (Push_Mutex t)
    then show ?thesis using sem d a by (intro exI [of _ C] rule) (auto simp: simps)
  next
    case (Push_Store t)
    have "length C < n" using push_room [OF inv i(1)] i(2) Push_Store by simp
    note st = ring_data_store [OF d this refl, of t]
    have "(?h + length C) mod n < length (cy_nodes ?q)" using d by (simp add: ring_data_def)
    moreover have "q' = ?q\<lparr>cy_nodes := (cy_nodes ?q)[(?h + length C) mod n :=
        (cy_nodes ?q ! ((?h + length C) mod n))\<lparr>nd_task := t\<rparr>]\<rparr>" "p' = Push_Move t"
      using a Push_Store ring_tail [OF d] by simp_all
    ultimately show ?thesis
      using sem st Push_Store by (intro exI [of _ C] rule) (simp_all add: simps)
  next
    case (Push_Move t)
    have k: "length C < n" using push_room [OF inv i(1)] i(2) Push_Move by simp
    have "ring_data b n q' ?h (C @ [t])"
      using a pok Push_Move ring_tail [OF d] ring_data_push [OF d k refl] by auto
    then show ?thesis
      using sem a Push_Move ring_tail [OF d] by (intro exI [of _ "C @ [t]"] rule) (auto simp: simps)
  next
    case Pop_Load
    then show ?thesis using sem d a ring_head [OF d] by (intro exI [of _ C] rule) (auto simp: simps)
  next
    case (Pop_Move t)
    obtain c cs where C: "C = c # cs" using pop_nonempty [OF inv i(1)] i(2) Pop_Move by (cases C) auto
    note pd = ring_data_pop [OF d [unfolded C]]
    have "q' = ?q\<lparr>cy_head := nd_next (cy_nodes ?q ! (?h mod n))\<rparr>" "p' = Pop_Unlock" "t = c"
      using a pok Pop_Move ring_head [OF d] pd(2) by auto
    then show ?thesis
      using sem pd(1) Pop_Move C by (intro exI [of _ cs] rule) (auto simp: simps)
  qed (use sem d a in \<open>intro exI [of _ C] rule; auto simp: simps\<close>)+
qed

end
