(* ===== verification/Cycle_Props.thy ===== *)
theory Cycle_Props
  imports Cycle_Inv
begin

text \<open>
  The task ring as a bounded queue, for one caller at a time and for interleaved threads, and the
  two ways in which the code leaves this specification: an interrupted wait and a second mapping.
\<close>

section \<open>The contract of a bounded queue\<close>

primrec pop_upto :: "('q \<Rightarrow> 'e + 'q \<times> 'a) \<Rightarrow> nat \<Rightarrow> 'q \<Rightarrow> 'a list \<times> 'q" where
  "pop_upto pop 0 q = ([], q)"
| "pop_upto pop (Suc k) q =
     (case pop q of Inl e \<Rightarrow> ([], q) | Inr (q', x) \<Rightarrow> (case pop_upto pop k q' of (xs, q'') \<Rightarrow> (x # xs, q'')))"

locale bounded_queue =
  fixes inv :: "'q \<Rightarrow> 'a list \<Rightarrow> bool"
    and cap :: nat
    and push :: "'q \<Rightarrow> 'a \<Rightarrow> 'e + 'q"
    and pop :: "'q \<Rightarrow> 'e + 'q \<times> 'a"
  assumes push_ok: "inv q xs \<Longrightarrow> length xs < cap \<Longrightarrow> \<exists>q'. push q x = Inr q' \<and> inv q' (xs @ [x])"
    and pop_ok: "inv q (x # xs) \<Longrightarrow> \<exists>q'. pop q = Inr (q', x) \<and> inv q' xs"
    and pop_empty: "inv q [] \<Longrightarrow> \<exists>e. pop q = Inl e"
begin

lemma push_all_ok:
  "inv q xs \<Longrightarrow> length xs + length ys \<le> cap \<Longrightarrow> \<exists>q'. insert_all push q ys = Inr q' \<and> inv q' (xs @ ys)"
proof (induction ys arbitrary: q xs)
  case (Cons y ys)
  then obtain q' where "push q y = Inr q'" "inv q' (xs @ [y])" using push_ok [of q xs y] by auto
  then show ?case using Cons.IH [of q' "xs @ [y]"] Cons.prems by simp
qed simp

lemma pop_upto_ok:
  "inv q xs \<Longrightarrow> \<exists>q'. pop_upto pop k q = (take k xs, q') \<and> inv q' (drop k xs)"
proof (induction k arbitrary: q xs)
  case (Suc k)
  show ?case
  proof (cases xs)
    case Nil
    then obtain e where "pop q = Inl e" using pop_empty Suc.prems by blast
    then show ?thesis using Suc.prems Nil by simp
  next
    case (Cons x ys)
    then obtain q' where "pop q = Inr (q', x)" "inv q' ys" using pop_ok Suc.prems by blast
    then show ?thesis using Suc.IH [of q' ys] Cons by auto
  qed
qed simp

end

section \<open>One caller at a time\<close>

text \<open>The ring at rest: nobody is inside a call.\<close>

definition ring_rest :: "nat \<Rightarrow> nat \<Rightarrow> cycle_t \<Rightarrow> task_t list \<Rightarrow> bool" where
  "ring_rest b n q C =
     (cy_mutex q = 1 \<and> cy_slots q + length C = n \<and> cy_items q = length C \<and> (\<exists>h. ring_data b n q h C))"

lemma task_queue_push_rest:
  assumes r: "ring_rest b n q C" and k: "length C < n"
  shows "\<exists>q'. task_queue_push b q t = Inr q' \<and> ring_rest b n q' (C @ [t])"
proof -
  obtain h where d: "ring_data b n q h C" using r by (auto simp: ring_rest_def)
  let ?i = "(h + length C) mod n"
  have i: "?i < length (cy_nodes q)" using d by (simp add: ring_data_def)
  let ?q = "q\<lparr>cy_nodes := (cy_nodes q)[?i := (cy_nodes q ! ?i)\<lparr>nd_task := t\<rparr>]\<rparr>"
  have st: "ring_data b n ?q h C" by (rule ring_data_store [OF d k refl])
  have "ring_data b n (?q\<lparr>cy_tail := nd_next (cy_nodes ?q ! ?i)\<rparr>) h (C @ [t])"
    by (rule ring_data_push [OF st k refl]) (use i in simp)
  then show ?thesis
    using r k ring_tail [OF d] i
    by (intro exI [of _ "the (case task_queue_push b q t of Inr q' \<Rightarrow> Some q' | _ \<Rightarrow> None)"])
      (auto simp: task_queue_push_def wait_on_def sem_wait_def sem_post_def ring_rest_def ring_data_def Let_def)
qed

lemma task_queue_pop_rest:
  assumes r: "ring_rest b n q (t # C)"
  shows "\<exists>q'. task_queue_pop b q = Inr (q', t) \<and> ring_rest b n q' C"
proof -
  obtain h where d: "ring_data b n q h (t # C)" using r by (auto simp: ring_rest_def)
  note pd = ring_data_pop [OF d]
  let ?q' = "q\<lparr>cy_head := nd_next (cy_nodes q ! (h mod n)), cy_mutex := 1, cy_items := length C, cy_slots := cy_slots q + 1\<rparr>"
  have "task_queue_pop b q = Inr (?q', t)"
    using r ring_head [OF d] pd(2)
    by (simp add: task_queue_pop_def wait_on_def sem_wait_def sem_post_def ring_rest_def Let_def)
  moreover have "ring_data b n ?q' (Suc h) C" using pd(1) by (simp add: ring_data_def)
  ultimately show ?thesis using r by (auto simp: ring_rest_def)
qed

lemma task_queue_pop_empty: "ring_rest b n q [] \<Longrightarrow> task_queue_pop b q = Inl Blocked"
  by (simp add: ring_rest_def task_queue_pop_def wait_on_def sem_wait_def)

lemma task_queue_push_full: "ring_rest b n q C \<Longrightarrow> length C = n \<Longrightarrow> task_queue_push b q t = Inl Blocked"
  by (simp add: ring_rest_def task_queue_push_def wait_on_def sem_wait_def)

interpretation ring: bounded_queue "ring_rest b n" n "task_queue_push b" "task_queue_pop b" for b n
  by unfold_locales (simp_all add: task_queue_push_rest task_queue_pop_rest task_queue_pop_empty)

lemma init_cycle_data: "0 < n \<Longrightarrow> length nodes = n \<Longrightarrow> ring_data b n (init_cycle b n nodes) 0 []"
  by (simp add: ring_data_def init_cycle_def linked_link_nodes)

lemma init_cycle_rest: "0 < n \<Longrightarrow> length nodes = n \<Longrightarrow> ring_rest b n (init_cycle b n nodes) []"
  using init_cycle_data [of n nodes b] by (auto simp: ring_rest_def init_cycle_def)

text \<open>The rounds of a worker are the pops.\<close>

abbreviation task_out :: "task_t \<Rightarrow> int \<times> nat \<times> int" where
  "task_out t \<equiv> (client_fd t, task_data t, data_len t)"

lemma worker_rounds_rest:
  "ring_rest b n q C \<Longrightarrow>
   \<exists>q'. worker_rounds b k q = (q', map task_out (take k C), if length C < k then Some Blocked else None) \<and>
     ring_rest b n q' (drop k C)"
proof (induction k arbitrary: q C)
  case (Suc k)
  show ?case
  proof (cases C)
    case Nil
    then show ?thesis using Suc.prems task_queue_pop_empty [of b n q] by (simp add: worker_round_def)
  next
    case (Cons t ts)
    then obtain q' where "task_queue_pop b q = Inr (q', t)" "ring_rest b n q' ts"
      using task_queue_pop_rest Suc.prems by blast
    then show ?thesis using Suc.IH [of q' ts] Cons by (auto simp: worker_round_def)
  qed
qed simp

section \<open>Interleaved threads\<close>

lemma ring_call_inv:
  assumes inv: "ring_inv b n s C" and i: "i < length (rs_threads s)" "rs_threads s ! i = (b, Idle)"
    and p': "p' = Push_Slots t \<or> p' = Pop_Items"
  shows "ring_inv b n (s\<lparr>rs_threads := (rs_threads s)[i := (b, p')]\<rparr>) C"
proof (rule ring_inv_action [OF inv i, where u = "[]" and v = "[]" and q' = "rs_queue s"])
  show "sem_inv n (s\<lparr>rs_threads := (rs_threads s)[i := (b, p')]\<rparr>) C"
    using inv p' by (auto simp: ring_inv_def sem_inv_def Let_def cnt_update [OF i])
  show "ring_data b n (rs_queue s) (length (rs_popped s) + length ([] :: task_t list)) C"
    using inv by (simp add: ring_inv_def)
qed (use p' in auto)

lemma ring_step_inv:
  assumes "ring_step False s s'" "ring_inv b n s C"
  shows "\<exists>C'. ring_inv b n s' C'"
  using assms
proof cases
  case (ring_action i base p q' p')
  then have "base = b" using assms(2) nth_mem [of i "rs_threads s"] unfolding ring_inv_def by force
  then show ?thesis using ring_action_inv [OF assms(2)] ring_action by blast
next
  case (ring_call_push i base t)
  then have "base = b" using assms(2) nth_mem [of i "rs_threads s"] unfolding ring_inv_def by force
  then show ?thesis using ring_call_inv [OF assms(2)] ring_call_push by blast
next
  case (ring_call_pop i base)
  then have "base = b" using assms(2) nth_mem [of i "rs_threads s"] unfolding ring_inv_def by force
  then show ?thesis using ring_call_inv [OF assms(2)] ring_call_pop by blast
qed simp

abbreviation ring_run :: "bool \<Rightarrow> ring_sys \<Rightarrow> ring_sys \<Rightarrow> bool" where
  "ring_run intr \<equiv> (ring_step intr)\<^sup>*\<^sup>*"

lemma cnt_idle: "\<not> P Idle \<Longrightarrow> cnt P (replicate k (b, Idle)) = 0"
  by (induction k) (simp_all add: cnt_def)

lemma ring_start_inv:
  assumes "0 < n" "length nodes = n"
  shows "ring_inv b n (ring_start (init_cycle b n nodes) (replicate k b)) []"
  using init_cycle_data [OF assms, of b]
  by (auto simp: ring_inv_def ring_start_def sem_inv_def Let_def cnt_idle) (simp_all add: init_cycle_def)

lemma ring_run_inv:
  assumes "ring_run False (ring_start (init_cycle b n nodes) (replicate k b)) s" "0 < n" "length nodes = n"
  shows "\<exists>C. ring_inv b n s C"
  using assms(1)
proof (induction rule: rtranclp_induct)
  case base
  then show ?case using ring_start_inv [OF assms(2,3)] by blast
next
  case (step s s')
  then show ?case using ring_step_inv by blast
qed

subsection \<open>Progress\<close>

definition can_act :: "ring_sys \<Rightarrow> nat \<Rightarrow> bool" where
  "can_act s i = (thread_action (fst (rs_threads s ! i)) (rs_queue s) (snd (rs_threads s ! i)) \<noteq> None)"

lemma in_section_acts:
  assumes inv: "ring_inv b n s C" and i: "i < length (rs_threads s)" "in_section (snd (rs_threads s ! i))"
  shows "can_act s i"
proof -
  have "ring_data b n (rs_queue s) (length (rs_popped s)) C" "fst (rs_threads s ! i) = b"
    using inv i(1) nth_mem [OF i(1)] unfolding ring_inv_def by auto
  then show ?thesis
    using i(2) ring_tail [of b n "rs_queue s"] ring_head [of b n "rs_queue s"]
    by (cases "snd (rs_threads s ! i)") (auto simp: can_act_def)
qed

lemma cnt_none: "(\<And>i. i < length ts \<Longrightarrow> \<not> P (snd (ts ! i))) \<Longrightarrow> cnt P ts = 0"
proof (induction ts)
  case (Cons x ts)
  have "\<not> P (snd x)" using Cons.prems [of 0] by simp
  moreover have "cnt P ts = 0"
  proof (rule Cons.IH)
    fix i assume "i < length ts"
    then show "\<not> P (snd (ts ! i))" using Cons.prems [of "Suc i"] by simp
  qed
  ultimately show ?case by (simp add: cnt_def)
qed (simp add: cnt_def)

lemma stuck_threads:
  assumes inv: "ring_inv b n s C" and stuck: "\<And>i. i < length (rs_threads s) \<Longrightarrow> \<not> can_act s i"
    and i: "i < length (rs_threads s)"
  shows "snd (rs_threads s ! i) = Idle \<or> (\<exists>t. snd (rs_threads s ! i) = Push_Slots t) \<and> length C = n \<or>
    snd (rs_threads s ! i) = Pop_Items \<and> C = []"
proof -
  let ?q = "rs_queue s" and ?ts = "rs_threads s"
  note S = sem_invD [of n s C]
  have sem: "sem_inv n s C" using inv by (simp add: ring_inv_def)
  have "cnt in_section ?ts = 0" using stuck in_section_acts [OF inv] by (intro cnt_none) blast
  then have m: "cy_mutex ?q = 1" using S(1) [OF sem] by simp
  have phase: "snd (?ts ! j) = Idle \<or> (\<exists>t. snd (?ts ! j) = Push_Slots t) \<or> snd (?ts ! j) = Pop_Items"
    if j: "j < length ?ts" for j
  proof -
    have "\<not> in_section (snd (?ts ! j))" "pc_ok n ?q (length (rs_popped s)) C (snd (?ts ! j))"
      using stuck [OF j] in_section_acts [OF inv j] inv nth_mem [OF j] unfolding ring_inv_def by auto
    then show ?thesis using stuck [OF j] m by (cases "snd (?ts ! j)") (auto simp: can_act_def sem_wait_def)
  qed
  have z: "cnt push_pre ?ts = 0" "cnt push_post ?ts = 0" "cnt pop_pre ?ts = 0" "cnt pop_post ?ts = 0"
    using phase by (fastforce intro!: cnt_none)+
  have e: "cy_slots ?q + length C = n" "cy_items ?q = length C" using S(2,3) [OF sem] z by simp_all
  show ?thesis
    using phase [OF i] stuck [OF i] e by (auto simp: can_act_def sem_wait_def split: if_splits)
qed

section \<open>Schedules\<close>

text \<open>A run given by the choices of the scheduler, so that it can be computed.\<close>

datatype choice = Act nat | Call_Push nat task_t | Call_Pop nat | Interrupt nat

fun schedule :: "choice \<Rightarrow> ring_sys \<Rightarrow> ring_sys option" where
  "schedule (Act i) s =
     (if i < length (rs_threads s) then
        (case rs_threads s ! i of
           (base, p) \<Rightarrow>
             (case thread_action base (rs_queue s) p of
                None \<Rightarrow> None
              | Some (q', p') \<Rightarrow>
                  Some (s\<lparr>rs_queue := q', rs_threads := (rs_threads s)[i := (base, p')],
                    rs_pushed := rs_pushed s @ pushed_by p, rs_popped := rs_popped s @ popped_by p\<rparr>)))
      else None)"
| "schedule (Call_Push i t) s =
     (if i < length (rs_threads s) \<and> snd (rs_threads s ! i) = Idle
      then Some (s\<lparr>rs_threads := (rs_threads s)[i := (fst (rs_threads s ! i), Push_Slots t)]\<rparr>) else None)"
| "schedule (Call_Pop i) s =
     (if i < length (rs_threads s) \<and> snd (rs_threads s ! i) = Idle
      then Some (s\<lparr>rs_threads := (rs_threads s)[i := (fst (rs_threads s ! i), Pop_Items)]\<rparr>) else None)"
| "schedule (Interrupt i) s =
     (if i < length (rs_threads s) then
        (case rs_threads s ! i of
           (base, p) \<Rightarrow> map_option (\<lambda>p'. s\<lparr>rs_threads := (rs_threads s)[i := (base, p')]\<rparr>) (interrupted p))
      else None)"

fun is_interrupt :: "choice \<Rightarrow> bool" where
  "is_interrupt (Interrupt i) = True"
| "is_interrupt _ = False"

fun run_choices :: "choice list \<Rightarrow> ring_sys \<Rightarrow> ring_sys option" where
  "run_choices [] s = Some s"
| "run_choices (c # cs) s = (case schedule c s of None \<Rightarrow> None | Some s' \<Rightarrow> run_choices cs s')"

lemma schedule_step: "schedule c s = Some s' \<Longrightarrow> is_interrupt c \<longrightarrow> intr \<Longrightarrow> ring_step intr s s'"
proof (cases c)
  case (Act i)
  assume "schedule c s = Some s'"
  then show ?thesis using Act ring_action by (fastforce split: if_splits prod.splits option.splits)
next
  case (Call_Push i t)
  assume "schedule c s = Some s'"
  then show ?thesis
    using Call_Push ring_call_push [of i s "fst (rs_threads s ! i)" intr t] by (auto simp: prod_eq_iff split: if_splits)
next
  case (Call_Pop i)
  assume "schedule c s = Some s'"
  then show ?thesis
    using Call_Pop ring_call_pop [of i s "fst (rs_threads s ! i)" intr] by (auto simp: prod_eq_iff split: if_splits)
next
  case (Interrupt i)
  assume "schedule c s = Some s'" "is_interrupt c \<longrightarrow> intr"
  then show ?thesis using Interrupt ring_interrupt by (fastforce split: if_splits prod.splits)
qed

lemma run_choices_run: "run_choices cs s = Some s' \<Longrightarrow> \<forall>c \<in> set cs. is_interrupt c \<longrightarrow> intr \<Longrightarrow> ring_run intr s s'"
proof (induction cs arbitrary: s)
  case (Cons c cs)
  then obtain s1 where "schedule c s = Some s1" "run_choices cs s1 = Some s'" by (auto split: option.splits)
  then show ?case using Cons schedule_step [of c s s1 intr] by (auto intro: converse_rtranclp_into_rtranclp)
qed simp

section \<open>Properties\<close>

abbreviation demo_task :: "nat \<Rightarrow> task_t" where
  "demo_task d \<equiv> \<lparr>client_fd = 5, task_data = d, data_len = 8\<rparr>"

abbreviation demo_ring :: "nat \<Rightarrow> cycle_t" where
  "demo_ring n \<equiv> init_cycle 4096 n (replicate n \<lparr>nd_task = demo_task 0, nd_next = 0\<rparr>)"

text \<open>
  C14: Any number of threads of one process push and pop, interleaved action by action. The tasks
  are popped in the order in which they were pushed, none twice, none lost, none overwritten and
  none read before it was stored; never more than the capacity are in the ring; at most one
  thread is in the critical section, and no thread leaves its mapping.
\<close>

theorem ring_threads_fifo:
  assumes "0 < n" "length nodes = n"
    and "ring_run False (ring_start (init_cycle b n nodes) (replicate k b)) s"
  shows "(\<exists>C. rs_pushed s = rs_popped s @ C \<and> length C \<le> n) \<and>
    (\<forall>i < length (rs_threads s). \<forall>j < length (rs_threads s).
       in_section (snd (rs_threads s ! i)) \<and> in_section (snd (rs_threads s ! j)) \<longrightarrow> i = j) \<and>
    (\<forall>x \<in> set (rs_threads s). snd x \<noteq> Fault)"
proof -
  obtain C where C: "ring_inv b n s C" using ring_run_inv assms by blast
  then have "sem_inv n s C" by (simp add: ring_inv_def)
  then have one: "\<forall>i < length (rs_threads s). \<forall>j < length (rs_threads s).
       in_section (snd (rs_threads s ! i)) \<and> in_section (snd (rs_threads s ! j)) \<longrightarrow> i = j"
    using others_outside by blast
  have "\<forall>x \<in> set (rs_threads s). snd x \<noteq> Fault"
  proof
    fix x assume "x \<in> set (rs_threads s)"
    then have "pc_ok n (rs_queue s) (length (rs_popped s)) C (snd x)" using C by (simp add: ring_inv_def)
    then show "snd x \<noteq> Fault" by auto
  qed
  then show ?thesis using C one by (auto simp: ring_inv_def ring_data_def)
qed

text \<open>One thread pushes while another one waits for the task and takes it.\<close>

definition demo_choices :: "choice list" where
  "demo_choices = [Call_Push 0 (demo_task 1), Act 0, Call_Pop 1, Act 0, Act 0, Act 0, Act 0, Act 0, Act 1, Act 1, Act 1, Act 1]"

definition demo_sys :: "nat \<Rightarrow> ring_sys" where
  "demo_sys n = ring_start (demo_ring n) [4096, 4096]"

lemmas demo_eval = demo_choices_def demo_sys_def ring_start_def init_cycle_def link_nodes_def node_addr_def
  node_at_def sizeof_node_t_def sizeof_cycle_t_def sem_wait_def sem_post_def Let_def

lemma demo_run: "\<exists>s. run_choices demo_choices (demo_sys 1) = Some s \<and> rs_popped s = [demo_task 1]"
  by (simp add: demo_eval)

theorem ring_threads_fifo_witness:
  "\<exists>s. ring_run False (demo_sys 1) s \<and> rs_popped s = [demo_task 1] \<and> (\<exists>C. rs_pushed s = rs_popped s @ C)"
proof -
  obtain s where s: "run_choices demo_choices (demo_sys 1) = Some s" "rs_popped s = [demo_task 1]"
    using demo_run by blast
  have r: "ring_run False (demo_sys 1) s"
    by (rule run_choices_run [OF s(1)]) (simp add: demo_choices_def)
  then have "ring_run False (ring_start (demo_ring 1) (replicate 2 4096)) s"
    by (simp add: demo_sys_def numeral_2_eq_2)
  then show ?thesis
    using ring_threads_fifo [of 1 "replicate 1 \<lparr>nd_task = demo_task 0, nd_next = 0\<rparr>" 4096 2 s] r s(2) by auto
qed

text \<open>
  C15: No deadlock. When no thread can take another step, every thread is idle, or it is in a
  push and the ring is full, or it is in a pop and the ring is empty; so a pusher and a popper
  never block each other.
\<close>

theorem ring_threads_progress:
  assumes "0 < n" "length nodes = n"
    and "ring_run False (ring_start (init_cycle b n nodes) (replicate k b)) s"
    and "\<forall>i < length (rs_threads s). \<not> can_act s i"
  shows "\<exists>C. rs_pushed s = rs_popped s @ C \<and> (\<forall>i < length (rs_threads s). snd (rs_threads s ! i) = Idle \<or>
    (\<exists>t. snd (rs_threads s ! i) = Push_Slots t) \<and> length C = n \<or> snd (rs_threads s ! i) = Pop_Items \<and> C = [])"
proof -
  obtain C where C: "ring_inv b n s C" using ring_run_inv assms by blast
  then have "rs_pushed s = rs_popped s @ C" by (simp add: ring_inv_def)
  then show ?thesis using stuck_threads [OF C] assms(4) by blast
qed

theorem ring_threads_progress_witness:
  "\<exists>s. run_choices [Call_Pop 0] (ring_start (demo_ring 1) [4096]) = Some s \<and> \<not> can_act s 0 \<and> rs_pushed s = rs_popped s"
proof -
  let ?s0 = "ring_start (demo_ring 1) (replicate 1 4096)"
  obtain s where s: "run_choices [Call_Pop 0] ?s0 = Some s" and t: "rs_threads s = [(4096, Pop_Items)]"
      and q: "cy_items (rs_queue s) = 0"
    by (auto simp: demo_eval)
  have "ring_run False ?s0 s" by (rule run_choices_run [OF s]) simp
  moreover have "\<not> can_act s 0" by (simp add: can_act_def t q sem_wait_def)
  ultimately show ?thesis
    using ring_threads_progress [of 1 "replicate 1 \<lparr>nd_task = demo_task 0, nd_next = 0\<rparr>" 4096 1 s] s t by auto
qed

text \<open>
  The result of \<open>sem_wait\<close> is not looked at. When a signal handler interrupts the wait for a
  slot of a full ring, the push goes on and overwrites a task that was not popped: of two pushed
  tasks the second is popped first, and the first never.
\<close>

theorem ring_interrupted_push_overwrites:
  "\<exists>s. ring_run True (demo_sys 1) s \<and> rs_pushed s = [demo_task 1, demo_task 2] \<and> rs_popped s = [demo_task 2]"
proof -
  let ?cs = "[Call_Push 0 (demo_task 1), Act 0, Act 0, Act 0, Act 0, Act 0, Act 0,
    Call_Push 1 (demo_task 2), Interrupt 1, Act 1, Act 1, Act 1, Act 1, Act 1,
    Call_Pop 0, Act 0, Act 0, Act 0, Act 0]"
  have "\<exists>s. run_choices ?cs (demo_sys 1) = Some s \<and> rs_pushed s = [demo_task 1, demo_task 2] \<and> rs_popped s = [demo_task 2]"
    by (simp add: demo_eval)
  then obtain s where s: "run_choices ?cs (demo_sys 1) = Some s" "rs_pushed s = [demo_task 1, demo_task 2]" "rs_popped s = [demo_task 2]"
    by blast
  then show ?thesis using run_choices_run [OF s(1), of True] by auto
qed

text \<open>
  The ring works in one mapping only. A process that opens the object and gets it mapped at
  other addresses leaves its mapping at its first push and at its first pop, and it has relinked
  the nodes to its own addresses, so that after one more push the creator leaves its mapping too.
\<close>

theorem ring_second_mapping_faults:
  assumes apart: "b' + total_size n \<le> b \<or> b + total_size n \<le> b'" and n: "2 \<le> n" "length nodes = n"
    and os: "oa_shm_fd os \<noteq> -1" "oa_mmap os = Some b'"
  shows "\<exists>q ev. task_queue_open os (init_cycle b n nodes) name n = (Some q, ev) \<and>
    task_queue_push b' q t = Inl Bad_Access \<and>
    (\<exists>q1. task_queue_push b q t = Inr q1 \<and> task_queue_push b q1 t' = Inl Bad_Access \<and>
       task_queue_pop b' q1 = Inl Bad_Access)"
proof -
  let ?q = "(init_cycle b n nodes)\<lparr>cy_nodes := link_nodes b' n (link_nodes b n nodes)\<rparr>"
  have l: "length (link_nodes b' n (link_nodes b n nodes)) = n" using n by simp
  have nx: "nd_next (link_nodes b' n (link_nodes b n nodes) ! 0) = node_addr b' 1"
    using n by (simp add: link_nodes_nth)
  have out: "node_at b' n (node_addr b 0) = None" using node_at_outside [OF apart] n by simp
  have out': "node_at b n (node_addr b' 1) = None" using node_at_outside [of b n b' 1] apart n by auto
  have "task_queue_push b' ?q t = Inl Bad_Access"
    using n l out by (simp add: task_queue_push_def wait_on_def sem_wait_def init_cycle_def)
  moreover obtain q1 where q1: "task_queue_push b ?q t = Inr q1" "cy_tail q1 = node_addr b' 1" "cy_head q1 = node_addr b 0"
      "length (cy_nodes q1) = n" "cy_slots q1 = n - 1" "cy_mutex q1 = 1" "cy_items q1 = 1"
    using n l nx by (simp add: task_queue_push_def wait_on_def sem_wait_def sem_post_def init_cycle_def Let_def)
  moreover have "task_queue_push b q1 t' = Inl Bad_Access" "task_queue_pop b' q1 = Inl Bad_Access"
    using q1 n out out' by (simp_all add: task_queue_push_def task_queue_pop_def wait_on_def sem_wait_def)
  ultimately show ?thesis using os by (simp add: task_queue_open_def init_cycle_def)
qed

theorem ring_second_mapping_faults_witness:
  "\<exists>q ev. task_queue_open \<lparr>oa_shm_fd = 3, oa_ftruncate = 0, oa_mmap = Some 8192, oa_sem_mutex = 0, oa_sem_slots = 0, oa_sem_items = 0\<rparr>
       (demo_ring 2) ''/my_task_queue'' 2 = (Some q, ev) \<and> task_queue_push 8192 q (demo_task 1) = Inl Bad_Access"
  using ring_second_mapping_faults [of 8192 2 4096 "replicate 2 \<lparr>nd_task = demo_task 0, nd_next = 0\<rparr>"
      "\<lparr>oa_shm_fd = 3, oa_ftruncate = 0, oa_mmap = Some 8192, oa_sem_mutex = 0, oa_sem_slots = 0, oa_sem_items = 0\<rparr>"
      "''/my_task_queue''" "demo_task 1" "demo_task 1"]
  by (auto simp: total_size_def sizeof_cycle_t_def sizeof_node_t_def)

text \<open>
  From the creation to the client. When every system call succeeds, \<open>task_queue_create\<close> closes
  its descriptor and returns a ring in which tasks up to its capacity can be pushed; a worker
  then writes exactly their data to their clients, in order, and blocks.
\<close>

theorem worker_serves_in_order:
  assumes n: "0 < n" "length nodes = n" "length ts \<le> n" and k: "length ts < k"
    and os: "oa_shm_fd os \<noteq> -1" "oa_ftruncate os \<noteq> -1" "oa_mmap os = Some b" "oa_sem_mutex os \<noteq> -1"
      "oa_sem_slots os \<noteq> -1" "oa_sem_items os \<noteq> -1"
  shows "\<exists>q ev q1 q2. task_queue_create os nodes name n = (Some q, ev) \<and> last ev = Close \<and>
    insert_all (task_queue_push b) q ts = Inr q1 \<and> worker_rounds b k q1 = (q2, map task_out ts, Some Blocked)"
proof -
  obtain q1 where q1: "insert_all (task_queue_push b) (init_cycle b n nodes) ts = Inr q1" "ring_rest b n q1 ts"
    using ring.push_all_ok [OF init_cycle_rest [OF n(1,2), of b], of ts] n(3) by auto
  then obtain q2 where "worker_rounds b k q1 = (q2, map task_out ts, Some Blocked)"
    using worker_rounds_rest [OF q1(2), of k] k by auto
  then show ?thesis using q1(1) os by (simp add: task_queue_create_def Let_def)
qed

theorem worker_serves_in_order_witness:
  "\<exists>q1 q2. insert_all (task_queue_push 4096) (demo_ring 2) [demo_task 1, demo_task 2] = Inr q1 \<and>
     worker_rounds 4096 3 q1 = (q2, [(5, 1, 8), (5, 2, 8)], Some Blocked)"
  using worker_serves_in_order [of 2 "replicate 2 \<lparr>nd_task = demo_task 0, nd_next = 0\<rparr>" "[demo_task 1, demo_task 2]" 3
      "\<lparr>oa_shm_fd = 3, oa_ftruncate = 0, oa_mmap = Some 4096, oa_sem_mutex = 0, oa_sem_slots = 0, oa_sem_items = 0\<rparr>" 4096
      "''/my_task_queue''"]
  by (auto simp: task_queue_create_def Let_def)

end
