(* ===== verification/Hashset.thy ===== *)
theory Hashset
  imports Algo_Num Algo_Hash
begin

text \<open>
  hashset.c: a hash set of byte blocks with chained entries. A chain is the list of its entries;
  an entry has the address of its block, so that pointers returned to the caller, iterators and
  frees can be told apart. What a memory function returns is an argument: the address and the
  old contents of the block, or nothing. Dereferencing a NULL slot array, reading outside a
  block and a size that wraps around are errors.
\<close>

section \<open>Data\<close>

record hs_entry =
  hse_addr :: nat
  hse_hash :: u32
  hse_data :: "u8 list"

text \<open>
  \<open>hs_freed\<close> and \<open>hs_cleaned\<close> record the calls of \<open>mem_free_func\<close> on entries and of \<open>clean_func\<close>.
\<close>

record nt_hashset =
  hs_slots :: "hs_entry list list option"
  hs_num_slots :: nat
  hs_num_data :: nat
  hs_hash_func :: "u8 list \<Rightarrow> u32"
  hs_compare_func :: "u8 list \<Rightarrow> u8 list \<Rightarrow> int"
  hs_clean_func :: bool
  hs_freed :: "nat list"
  hs_cleaned :: "u8 list list"

datatype hs_error =
    Null_Slots
  | Over_Read
  | Size_Underflow
  | Bad_Iterator
  | No_Kv_Memory

section \<open>Helpers\<close>

definition hashset_free_entry :: "nt_hashset \<Rightarrow> hs_entry \<Rightarrow> nt_hashset" where
  "hashset_free_entry hs e =
     (let hs = (if hs_clean_func hs then hs\<lparr>hs_cleaned := hs_cleaned hs @ [hse_data e]\<rparr> else hs)
      in hs\<lparr>hs_freed := hs_freed hs @ [hse_addr e]\<rparr>)"

definition nt_hashset_init_slots :: "bool \<Rightarrow> nt_hashset \<Rightarrow> nat \<Rightarrow> nt_hashset \<times> int" where
  "nt_hashset_init_slots mem_ok hs init_size =
     (let hs = hs\<lparr>hs_num_data := 0\<rparr>
      in if 0 < init_size then
           (let hs = hs\<lparr>hs_num_slots := nat (next_prime (int init_size))\<rparr>
            in if \<not> mem_ok then (hs\<lparr>hs_slots := None\<rparr>, FAIL)
               else (hs\<lparr>hs_slots := Some (replicate (hs_num_slots hs) [])\<rparr>, SUCCEED))
         else (hs\<lparr>hs_num_slots := 0, hs_slots := None\<rparr>, SUCCEED))"

definition nt_hashset_create_ext ::
  "bool \<Rightarrow> nat \<Rightarrow> (u8 list \<Rightarrow> u32) \<Rightarrow> (u8 list \<Rightarrow> u8 list \<Rightarrow> int) \<Rightarrow> bool \<Rightarrow> nt_hashset" where
  "nt_hashset_create_ext mem_ok init_size hash cmp clean =
     fst (nt_hashset_init_slots mem_ok
       \<lparr>hs_slots = None, hs_num_slots = 0, hs_num_data = 0, hs_hash_func = hash, hs_compare_func = cmp,
        hs_clean_func = clean, hs_freed = [], hs_cleaned = []\<rparr> init_size)"

definition nt_hashset_create ::
  "bool \<Rightarrow> nat \<Rightarrow> (u8 list \<Rightarrow> u32) \<Rightarrow> (u8 list \<Rightarrow> u8 list \<Rightarrow> int) \<Rightarrow> nt_hashset" where
  "nt_hashset_create mem_ok init_size hash cmp = nt_hashset_create_ext mem_ok init_size hash cmp False"

definition hs_slot :: "nt_hashset \<Rightarrow> u32 \<Rightarrow> nat" where
  "hs_slot hs h = unat h mod hs_num_slots hs"

text \<open>The loop over a chain: the first entry with the hash that compares equal.\<close>

definition find_in_chain :: "nt_hashset \<Rightarrow> u32 \<Rightarrow> u8 list \<Rightarrow> hs_entry list \<Rightarrow> hs_entry option" where
  "find_in_chain hs h d es = find (\<lambda>e. hse_hash e = h \<and> hs_compare_func hs (hse_data e) d = 0) es"

section \<open>Insertion\<close>

text \<open>
  The rehash of slot \<open>s\<close>: \<open>kept\<close> is the part of its chain that stays, the list is the rest. An
  entry of another slot is unlinked and put in front of the other chain.
\<close>

fun hs_rehash_chain ::
  "nat \<Rightarrow> nat \<Rightarrow> hs_entry list \<Rightarrow> hs_entry list \<Rightarrow> hs_entry list list \<Rightarrow> hs_entry list \<times> hs_entry list list" where
  "hs_rehash_chain inc s kept [] sl = (kept, sl)"
| "hs_rehash_chain inc s kept (e # es) sl =
     (let n = unat (hse_hash e) mod inc
      in if s \<noteq> n then hs_rehash_chain inc s kept es (sl[n := e # sl ! n])
         else hs_rehash_chain inc s (kept @ [e]) es sl)"

definition hs_rehash_slot :: "nat \<Rightarrow> hs_entry list list \<Rightarrow> nat \<Rightarrow> hs_entry list list" where
  "hs_rehash_slot inc sl s = (case hs_rehash_chain inc s [] (sl ! s) sl of (kept, sl') \<Rightarrow> sl'[s := kept])"

definition hs_grow :: "nt_hashset \<Rightarrow> hs_entry list list \<Rightarrow> nt_hashset" where
  "hs_grow hs sl =
     (let inc = nat (next_prime (int (hs_num_slots hs * 3 div 2)));
          sl = sl @ replicate (inc - hs_num_slots hs) []
      in hs\<lparr>hs_slots := Some (foldl (hs_rehash_slot inc) sl [0..<hs_num_slots hs]), hs_num_slots := inc\<rparr>)"

text \<open>\<open>memcpy\<close> from offset on; the bytes before it stay as the memory function left them.\<close>

definition copy_data :: "u8 list \<Rightarrow> u8 list \<Rightarrow> nat \<Rightarrow> nat \<Rightarrow> hs_error + u8 list" where
  "copy_data old d sz offset =
     (if sz < offset then Inl Size_Underflow
      else if length d < sz then Inl Over_Read
      else Inr (take offset old @ take (sz - offset) (drop offset d)))"

text \<open>
  The common body of \<open>nt_hashset_insert_ext\<close> and \<open>nt_hashset_insert_inner_kv\<close>, which differ in what
  they hash. \<open>m1\<close>, \<open>m2\<close>: the slot array can be allocated, reallocated; \<open>m3\<close>: the block of the new
  entry. The result is the address of the entry found or added, or NULL.
\<close>

definition hs_insert_hashed ::
  "bool \<Rightarrow> bool \<Rightarrow> (nat \<times> u8 list) option \<Rightarrow> nt_hashset \<Rightarrow> (u8 list \<Rightarrow> u32) \<Rightarrow> u8 list \<Rightarrow> u8 list \<Rightarrow> nat \<Rightarrow> nat \<Rightarrow>
   hs_error + nt_hashset \<times> nat option" where
  "hs_insert_hashed m1 m2 m3 hs hash key d sz offset =
     (let (hs, r) = (if hs_num_slots hs = 0 then nt_hashset_init_slots m1 hs 10 else (hs, SUCCEED))
      in if r \<noteq> SUCCEED then Inr (hs, None)
         else
           let h = hash key
           in case hs_slots hs of
                None \<Rightarrow> Inl Null_Slots
              | Some sl \<Rightarrow>
                  (case find_in_chain hs h d (sl ! hs_slot hs h) of
                     Some e \<Rightarrow> Inr (hs, Some (hse_addr e))
                   | None \<Rightarrow>
                       if hs_num_slots hs * 4 div 5 \<le> hs_num_data hs + 1 \<and> \<not> m2 then Inr (hs, None)
                       else
                         let hs = (if hs_num_slots hs * 4 div 5 \<le> hs_num_data hs + 1 then hs_grow hs sl else hs)
                         in case m3 of
                              None \<Rightarrow> Inr (hs, None)
                            | Some (a, old) \<Rightarrow>
                                (case copy_data old d sz offset of
                                   Inl err \<Rightarrow> Inl err
                                 | Inr bytes \<Rightarrow>
                                     let sl = the (hs_slots hs); s = hs_slot hs h;
                                         e = \<lparr>hse_addr = a, hse_hash = h, hse_data = bytes\<rparr>
                                     in Inr (hs\<lparr>hs_slots := Some (sl[s := e # sl ! s]),
                                                hs_num_data := hs_num_data hs + 1\<rparr>, Some a))))"

definition nt_hashset_insert_ext ::
  "bool \<Rightarrow> bool \<Rightarrow> (nat \<times> u8 list) option \<Rightarrow> nt_hashset \<Rightarrow> u8 list \<Rightarrow> nat \<Rightarrow> nat \<Rightarrow>
   hs_error + nt_hashset \<times> nat option" where
  "nt_hashset_insert_ext m1 m2 m3 hs d sz offset = hs_insert_hashed m1 m2 m3 hs (hs_hash_func hs) d d sz offset"

definition nt_hashset_insert ::
  "bool \<Rightarrow> bool \<Rightarrow> (nat \<times> u8 list) option \<Rightarrow> nt_hashset \<Rightarrow> u8 list \<Rightarrow> nat \<Rightarrow> hs_error + nt_hashset \<times> nat option" where
  "nt_hashset_insert m1 m2 m3 hs d sz = nt_hashset_insert_ext m1 m2 m3 hs d sz 0"

definition nt_hashset_insert_inner_kv ::
  "bool \<Rightarrow> bool \<Rightarrow> (nat \<times> u8 list) option \<Rightarrow> nt_hashset \<Rightarrow> u8 list \<Rightarrow> u8 list \<Rightarrow> nat \<Rightarrow> nat \<Rightarrow>
   hs_error + nt_hashset \<times> nat option" where
  "nt_hashset_insert_inner_kv m1 m2 m3 hs key d sz offset =
     hs_insert_hashed m1 m2 m3 hs (hs_hash_func hs) key d sz offset"

section \<open>Search and removal\<close>

definition nt_hashset_search :: "nt_hashset \<Rightarrow> u8 list \<Rightarrow> hs_error + hs_entry option" where
  "nt_hashset_search hs d =
     (if hs_num_slots hs = 0 then Inr None
      else
        let h = hs_hash_func hs d
        in case hs_slots hs of
             None \<Rightarrow> Inl Null_Slots
           | Some sl \<Rightarrow> Inr (find_in_chain hs h d (sl ! hs_slot hs h)))"

text \<open>Unlink the first entry of a chain that satisfies a test.\<close>

fun unlink_first :: "('a \<Rightarrow> bool) \<Rightarrow> 'a list \<Rightarrow> 'a list" where
  "unlink_first P [] = []"
| "unlink_first P (e # es) = (if P e then es else e # unlink_first P es)"

definition nt_hashset_remove :: "nt_hashset \<Rightarrow> u8 list \<Rightarrow> hs_error + nt_hashset" where
  "nt_hashset_remove hs d =
     (if hs_num_slots hs = 0 then Inr hs
      else
        let h = hs_hash_func hs d
        in case hs_slots hs of
             None \<Rightarrow> Inl Null_Slots
           | Some sl \<Rightarrow>
               (let s = hs_slot hs h
                in case find_in_chain hs h d (sl ! s) of
                     None \<Rightarrow> Inr hs
                   | Some e \<Rightarrow>
                       (let hs = hs\<lparr>hs_slots := Some (sl[s := unlink_first
                              (\<lambda>e. hse_hash e = h \<and> hs_compare_func hs (hse_data e) d = 0) (sl ! s)])\<rparr>;
                            hs = hashset_free_entry hs e
                        in Inr (hs\<lparr>hs_num_data := hs_num_data hs - 1\<rparr>))))"

text \<open>\<open>e\<close> is the block the data pointer lies in, as its bytes are when the call is made.\<close>

definition nt_hashset_remove_direct :: "nt_hashset \<Rightarrow> hs_entry \<Rightarrow> hs_error + nt_hashset" where
  "nt_hashset_remove_direct hs e =
     (if hs_num_slots hs = 0 then Inr hs
      else
        case hs_slots hs of
          None \<Rightarrow> Inl Null_Slots
        | Some sl \<Rightarrow>
            (let s = hs_slot hs (hse_hash e)
             in if \<exists>x \<in> set (sl ! s). hse_addr x = hse_addr e then
                  (let hs = hs\<lparr>hs_slots := Some (sl[s := unlink_first (\<lambda>x. hse_addr x = hse_addr e) (sl ! s)])\<rparr>;
                       hs = hashset_free_entry hs e
                   in Inr (hs\<lparr>hs_num_data := hs_num_data hs - 1\<rparr>))
                else Inr hs))"

text \<open>Freeing a chain from its head, and all chains.\<close>

definition free_chains :: "nt_hashset \<Rightarrow> hs_entry list list \<Rightarrow> nt_hashset" where
  "free_chains hs sl = foldl (foldl hashset_free_entry) hs sl"

definition nt_hashset_clear :: "nt_hashset \<Rightarrow> hs_error + nt_hashset" where
  "nt_hashset_clear hs =
     (if hs_num_slots hs = 0 then Inr (hs\<lparr>hs_num_data := 0\<rparr>)
      else case hs_slots hs of
             None \<Rightarrow> Inl Null_Slots
           | Some sl \<Rightarrow> Inr ((free_chains hs sl)\<lparr>hs_slots := Some (map (\<lambda>_. []) sl), hs_num_data := 0\<rparr>))"

definition nt_hashset_destroy :: "nt_hashset \<Rightarrow> hs_error + nt_hashset" where
  "nt_hashset_destroy hs =
     (case hs_slots hs of
        None \<Rightarrow> if 0 < hs_num_slots hs then Inl Null_Slots else Inr (hs\<lparr>hs_num_data := 0\<rparr>)
      | Some sl \<Rightarrow> Inr ((free_chains hs sl)\<lparr>hs_slots := None, hs_num_data := 0, hs_num_slots := 0\<rparr>))"

section \<open>Iterators\<close>

definition ITER_START :: int where
  "ITER_START = -1"

definition ITER_FINISH :: int where
  "ITER_FINISH = -2"

record nt_hashset_iter =
  it_slot :: int
  it_entry :: "nat option"

definition nt_hashset_iter_reset :: "nt_hashset_iter \<Rightarrow> nt_hashset_iter" where
  "nt_hashset_iter_reset it = it\<lparr>it_slot := ITER_START\<rparr>"

text \<open>\<open>entry->next\<close> of the entry at an address, and the entry whose \<open>next\<close> is it.\<close>

fun chain_next :: "nat \<Rightarrow> hs_entry list \<Rightarrow> hs_entry option" where
  "chain_next a (x # y # es) = (if hse_addr x = a then Some y else chain_next a (y # es))"
| "chain_next a _ = None"

fun chain_prev :: "nat \<Rightarrow> hs_entry list \<Rightarrow> hs_entry option" where
  "chain_prev a (x # y # es) = (if hse_addr y = a then Some x else chain_prev a (y # es))"
| "chain_prev a _ = None"

text \<open>The endless loop of \<open>nt_hashset_iter_next\<close>, from the slot after \<open>s\<close>.\<close>

function iter_scan :: "hs_entry list list \<Rightarrow> nat \<Rightarrow> nat \<Rightarrow> (nat \<times> hs_entry) option" where
  "iter_scan sl n s =
     (if n \<le> s then None
      else case sl ! s of
             e # es \<Rightarrow> Some (s, e)
           | [] \<Rightarrow> iter_scan sl n (Suc s))"
  by pat_completeness auto
termination by (relation "measure (\<lambda>(sl, n, s). n - s)") auto

declare iter_scan.simps [simp del]

definition iter_advance :: "hs_entry list list \<Rightarrow> nat \<Rightarrow> nt_hashset_iter \<Rightarrow> nt_hashset_iter \<times> hs_entry option" where
  "iter_advance sl n it =
     (case iter_scan sl n (nat (it_slot it + 1)) of
        None \<Rightarrow> (it\<lparr>it_slot := ITER_FINISH\<rparr>, None)
      | Some (s, e) \<Rightarrow> (it\<lparr>it_slot := int s, it_entry := Some (hse_addr e)\<rparr>, Some e))"

definition nt_hashset_iter_next ::
  "nt_hashset \<Rightarrow> nt_hashset_iter \<Rightarrow> hs_error + nt_hashset_iter \<times> hs_entry option" where
  "nt_hashset_iter_next hs it =
     (if it_slot it = ITER_FINISH then Inr (it, None)
      else
        case hs_slots hs of
          None \<Rightarrow> if nat (it_slot it + 1) = hs_num_slots hs then Inr (it\<lparr>it_slot := ITER_FINISH\<rparr>, None) else Inl Null_Slots
        | Some sl \<Rightarrow>
            (case it_entry it of
               None \<Rightarrow> Inr (iter_advance sl (hs_num_slots hs) it)
             | Some a \<Rightarrow>
                 if it_slot it = ITER_START then Inr (iter_advance sl (hs_num_slots hs) it)
                 else
                   (case chain_next a (sl ! nat (it_slot it)) of
                      Some e \<Rightarrow> Inr (it\<lparr>it_entry := Some (hse_addr e)\<rparr>, Some e)
                    | None \<Rightarrow> Inr (iter_advance sl (hs_num_slots hs) it))))"

definition nt_hashset_iter_remove ::
  "nt_hashset \<Rightarrow> nt_hashset_iter \<Rightarrow> hs_error + nt_hashset \<times> nt_hashset_iter" where
  "nt_hashset_iter_remove hs it =
     (case it_entry it of
        None \<Rightarrow> Inl Bad_Iterator
      | Some a \<Rightarrow>
          if it_slot it = ITER_START \<or> it_slot it = ITER_FINISH then Inl Bad_Iterator
          else
            case hs_slots hs of
              None \<Rightarrow> Inl Null_Slots
            | Some sl \<Rightarrow>
                (let s = nat (it_slot it); es = sl ! s
                 in case find (\<lambda>e. hse_addr e = a) es of
                      None \<Rightarrow> Inl Bad_Iterator
                    | Some e \<Rightarrow>
                        (let hs = hs\<lparr>hs_slots := Some (sl[s := unlink_first (\<lambda>x. hse_addr x = a) es])\<rparr>;
                             hs = hashset_free_entry hs e;
                             hs = hs\<lparr>hs_num_data := hs_num_data hs - 1\<rparr>
                         in if hse_addr (hd es) = a then Inr (hs, it\<lparr>it_slot := it_slot it - 1, it_entry := None\<rparr>)
                            else Inr (hs, it\<lparr>it_entry := map_option hse_addr (chain_prev a es)\<rparr>))))"

section \<open>Keys and values\<close>

text \<open>
  \<open>nt_hashset_kv_t\<close>: two pointers, 16 bytes. \<open>key_ptr\<close> and \<open>val_ptr\<close> are what \<open>strdup\<close> and \<open>malloc\<close>
  return; the code uses both results without a test. \<open>behind\<close> is what can be read behind the structure.
\<close>

definition kv_bytes :: "u64 \<Rightarrow> u64 \<Rightarrow> u8 list" where
  "kv_bytes key_ptr val_ptr = u64_bytes key_ptr @ u64_bytes val_ptr"

definition nt_hashset_insert_kv ::
  "bool \<Rightarrow> bool \<Rightarrow> (nat \<times> u8 list) option \<Rightarrow> nt_hashset \<Rightarrow> u64 \<Rightarrow> u64 \<Rightarrow> u8 list \<Rightarrow> u8 list \<Rightarrow> nat \<Rightarrow>
   hs_error + nt_hashset \<times> nat option" where
  "nt_hashset_insert_kv m1 m2 m3 hs key_ptr val_ptr behind key sz =
     (if val_ptr = 0 then Inl No_Kv_Memory
      else nt_hashset_insert_ext m1 m2 m3 hs (kv_bytes key_ptr val_ptr @ behind) (length key + sz) 8)"

text \<open>The value pointer in the entry found for a duplicate of the key at \<open>key_ptr\<close>.\<close>

definition nt_hashset_get_kv :: "nt_hashset \<Rightarrow> u64 \<Rightarrow> hs_error + u64 option" where
  "nt_hashset_get_kv hs key_ptr =
     (case nt_hashset_search hs (kv_bytes key_ptr 0) of
        Inl e \<Rightarrow> Inl e
      | Inr r \<Rightarrow> Inr (map_option (\<lambda>e. load64 (take 8 (drop 8 (hse_data e)))) r))"

end
