(* ===== verification/Hashset_Props.thy ===== *)
theory Hashset_Props
  imports Hashset
begin

text \<open>
  The hash set against a finite map from keys to blocks, for any hash and comparison function
  that look at a key only; iteration with removal; the key-value functions.
\<close>

section \<open>The contract of the hash and comparison functions\<close>

locale hash_key =
  fixes hash :: "u8 list \<Rightarrow> u32"
    and cmp :: "u8 list \<Rightarrow> u8 list \<Rightarrow> int"
    and key :: "u8 list \<Rightarrow> 'k"
  assumes hash_key: "key d = key e \<Longrightarrow> hash d = hash e"
    and cmp_key: "cmp d e = 0 \<longleftrightarrow> key d = key e"

section \<open>Chains\<close>

definition hs_all :: "nt_hashset \<Rightarrow> hs_entry list" where
  "hs_all hs = (case hs_slots hs of None \<Rightarrow> [] | Some sl \<Rightarrow> concat sl)"

text \<open>The entries of the slots in \<open>I\<close> are in the slot their hash names under \<open>n\<close> slots.\<close>

definition in_place :: "nat \<Rightarrow> nat set \<Rightarrow> hs_entry list list \<Rightarrow> bool" where
  "in_place n I sl = (\<forall>i \<in> I. \<forall>e \<in> set (sl ! i). unat (hse_hash e) mod n = i)"

lemma rehash_chain_props:
  assumes "hs_rehash_chain inc s kept es sl = (kept', sl')" "s < length sl" "length sl = inc"
  shows "length sl' = inc \<and> sl' ! s = sl ! s \<and>
    mset (concat (sl'[s := kept'])) = mset (concat (sl[s := kept @ es])) \<and>
    set kept' \<subseteq> set kept \<union> {e \<in> set es. unat (hse_hash e) mod inc = s} \<and>
    (\<forall>j < inc. j \<noteq> s \<longrightarrow> set (sl' ! j) \<subseteq> set (sl ! j) \<union> {e \<in> set es. unat (hse_hash e) mod inc = j})"
  using assms
proof (induction es arbitrary: kept sl)
  case (Cons e es)
  let ?n = "unat (hse_hash e) mod inc"
  have n: "?n < length sl" using Cons.prems by simp
  show ?case
  proof (cases "s = ?n")
    case True
    then have "hs_rehash_chain inc s (kept @ [e]) es sl = (kept', sl')" using Cons.prems(1) by simp
    from Cons.IH [OF this Cons.prems(2,3)] show ?thesis using True by auto
  next
    case False
    let ?sl = "sl[?n := e # sl ! ?n]"
    have "hs_rehash_chain inc s kept es ?sl = (kept', sl')" using Cons.prems(1) False by (simp add: Let_def)
    from Cons.IH [OF this] Cons.prems(2,3) have IH: "length sl' = inc" "sl' ! s = ?sl ! s"
      "mset (concat (sl'[s := kept'])) = mset (concat (?sl[s := kept @ es]))"
      "set kept' \<subseteq> set kept \<union> {e \<in> set es. unat (hse_hash e) mod inc = s}"
      "\<And>j. j < inc \<Longrightarrow> j \<noteq> s \<Longrightarrow> set (sl' ! j) \<subseteq> set (?sl ! j) \<union> {e \<in> set es. unat (hse_hash e) mod inc = j}"
      by simp_all
    have "mset (concat (?sl[s := kept @ es])) = mset (concat (sl[s := kept @ e # es]))"
    proof -
      have sw: "?sl[s := kept @ es] = (sl[s := kept @ es])[?n := e # sl ! ?n]"
        using False by (simp add: list_update_swap)
      have "mset (concat ((sl[s := kept @ es])[?n := e # sl ! ?n])) + mset ((sl[s := kept @ es]) ! ?n) =
          mset (concat (sl[s := kept @ es])) + mset (e # sl ! ?n)"
        using n by (intro mset_concat_update) simp
      then have 1: "mset (concat (?sl[s := kept @ es])) = mset (concat (sl[s := kept @ es])) + {#e#}"
        using False unfolding sw by simp
      have 2: "mset (concat (sl[s := xs])) + mset (sl ! s) = mset (concat sl) + mset xs" for xs
        using Cons.prems(2) by (rule mset_concat_update)
      have "mset (concat (sl[s := kept @ e # es])) + mset (sl ! s) =
          mset (concat (sl[s := kept @ es])) + {#e#} + mset (sl ! s)"
        using 2 [of "kept @ e # es"] 2 [of "kept @ es"] by (simp add: ac_simps)
      then show ?thesis unfolding 1 by simp
    qed
    moreover have "set (?sl ! j) \<subseteq> set (sl ! j) \<union> {x. x = e \<and> ?n = j}" if "j < inc" for j
      using n by (cases "j = ?n") auto
    ultimately show ?thesis using IH False by fastforce
  qed
qed simp

lemma rehash_slot_props:
  assumes "s < length sl" "length sl = inc" "in_place inc I sl" "I \<subseteq> {..<inc}"
  shows "length (hs_rehash_slot inc sl s) = inc" "mset (concat (hs_rehash_slot inc sl s)) = mset (concat sl)"
    "in_place inc (insert s I) (hs_rehash_slot inc sl s)"
proof -
  obtain kept sl' where r: "hs_rehash_chain inc s [] (sl ! s) sl = (kept, sl')" by fastforce
  note P = rehash_chain_props [OF r assms(1,2)]
  have e: "hs_rehash_slot inc sl s = sl'[s := kept]" by (simp add: hs_rehash_slot_def r)
  show "length (hs_rehash_slot inc sl s) = inc" "mset (concat (hs_rehash_slot inc sl s)) = mset (concat sl)"
    using P by (simp_all add: e)
  have "unat (hse_hash x) mod inc = j" if "j \<in> insert s I" "x \<in> set (sl'[s := kept] ! j)" for j x
  proof (cases "j = s")
    case True
    then show ?thesis using that(2) P assms(1,2) by auto
  next
    case False
    then have "x \<in> set (sl ! j) \<or> unat (hse_hash x) mod inc = j" "j \<in> I" "j < inc" using that P assms(4) by auto
    then show ?thesis using assms(3) by (auto simp: in_place_def)
  qed
  then show "in_place inc (insert s I) (hs_rehash_slot inc sl s)" unfolding e in_place_def by blast
qed

lemma rehash_slots_props:
  assumes "length sl = inc" "old \<le> inc" "in_place inc {old..<inc} sl" "m \<le> old"
  shows "length (foldl (hs_rehash_slot inc) sl [0..<m]) = inc \<and>
    mset (concat (foldl (hs_rehash_slot inc) sl [0..<m])) = mset (concat sl) \<and>
    in_place inc ({..<m} \<union> {old..<inc}) (foldl (hs_rehash_slot inc) sl [0..<m])"
  using assms(4)
proof (induction m)
  case 0
  then show ?case using assms by simp
next
  case (Suc m)
  let ?sl = "foldl (hs_rehash_slot inc) sl [0..<m]"
  have "length ?sl = inc" "in_place inc ({..<m} \<union> {old..<inc}) ?sl" "mset (concat ?sl) = mset (concat sl)"
    using Suc by simp_all
  then have "length (hs_rehash_slot inc ?sl m) = inc \<and> mset (concat (hs_rehash_slot inc ?sl m)) = mset (concat sl) \<and>
      in_place inc (insert m ({..<m} \<union> {old..<inc})) (hs_rehash_slot inc ?sl m)"
    using rehash_slot_props [of m ?sl inc "{..<m} \<union> {old..<inc}"] Suc.prems assms(2) by fastforce
  moreover have "insert m ({..<m} \<union> {old..<inc}) = {..<Suc m} \<union> {old..<inc}" by auto
  ultimately show ?case by simp
qed

section \<open>Invariant and abstraction\<close>

definition chains_ok :: "(u8 list \<Rightarrow> u32) \<Rightarrow> (u8 list \<Rightarrow> 'k) \<Rightarrow> nat \<Rightarrow> hs_entry list list \<Rightarrow> bool" where
  "chains_ok hash key n sl =
     (2 \<le> n \<and> length sl = n \<and> in_place n {..<n} sl \<and> distinct (map (key \<circ> hse_data) (concat sl)) \<and>
      (\<forall>e \<in> set (concat sl). hse_hash e = hash (hse_data e)))"

definition hs_inv ::
  "(u8 list \<Rightarrow> u32) \<Rightarrow> (u8 list \<Rightarrow> u8 list \<Rightarrow> int) \<Rightarrow> (u8 list \<Rightarrow> 'k) \<Rightarrow> nt_hashset \<Rightarrow> bool" where
  "hs_inv hash cmp key hs =
     (hs_hash_func hs = hash \<and> hs_compare_func hs = cmp \<and> hs_num_data hs = length (hs_all hs) \<and>
      (case hs_slots hs of None \<Rightarrow> hs_num_slots hs = 0 | Some sl \<Rightarrow> chains_ok hash key (hs_num_slots hs) sl))"

text \<open>The block stored under a key.\<close>

definition hs_alpha :: "(u8 list \<Rightarrow> 'k) \<Rightarrow> nt_hashset \<Rightarrow> 'k \<Rightarrow> u8 list option" where
  "hs_alpha key hs = map_of (map (\<lambda>e. (key (hse_data e), hse_data e)) (hs_all hs))"

lemma map_of_key:
  assumes "distinct (map (key \<circ> hse_data) es)"
  shows "map_of (map (\<lambda>e. (key (hse_data e), hse_data e)) es) k = Some v \<longleftrightarrow>
    (\<exists>e \<in> set es. key (hse_data e) = k \<and> hse_data e = v)"
proof -
  have "distinct (map fst (map (\<lambda>e. (key (hse_data e), hse_data e)) es))" using assms by (simp add: comp_def)
  then show ?thesis by (subst map_of_eq_Some_iff) auto
qed

lemma option_eqI: "(\<And>v. a = Some v \<longleftrightarrow> b = Some v) \<Longrightarrow> a = b"
  by (cases a; cases b) auto

lemma alpha_mset:
  assumes "distinct (map (key \<circ> hse_data) es)" "mset es = mset es'"
  shows "map_of (map (\<lambda>e. (key (hse_data e), hse_data e)) es) = map_of (map (\<lambda>e. (key (hse_data e), hse_data e)) es')"
proof -
  have "mset (map (key \<circ> hse_data) es) = mset (map (key \<circ> hse_data) es')" using assms(2) by simp
  then have "distinct (map (key \<circ> hse_data) es')" using assms(1) mset_eq_imp_distinct_iff by metis
  then have "map_of (map (\<lambda>e. (key (hse_data e), hse_data e)) es) k = Some v \<longleftrightarrow>
      map_of (map (\<lambda>e. (key (hse_data e), hse_data e)) es') k = Some v" for k v
    using map_of_key [OF assms(1)] map_of_key [of key es'] mset_eq_setD [OF assms(2)] by simp
  then show ?thesis by (intro ext option_eqI)
qed

lemma chains_mset:
  assumes "chains_ok hash key n sl" "2 \<le> n'" "length sl' = n'" "in_place n' {..<n'} sl'" "mset (concat sl') = mset (concat sl)"
  shows "chains_ok hash key n' sl'"
proof -
  have "mset (map (key \<circ> hse_data) (concat sl')) = mset (map (key \<circ> hse_data) (concat sl))" using assms(5) by (metis mset_map)
  then have "distinct (map (key \<circ> hse_data) (concat sl'))"
    using assms(1) mset_eq_imp_distinct_iff unfolding chains_ok_def by metis
  then show ?thesis using assms mset_eq_setD [OF assms(5)] by (simp add: chains_ok_def)
qed

lemma next_prime_nat: "2 \<le> nat (next_prime m)" "2 \<le> n \<Longrightarrow> n < nat (next_prime (int (n * 3 div 2)))"
proof -
  show "2 \<le> nat (next_prime m)" using next_prime_gt_1 [of m] by simp
  show "n < nat (next_prime (int (n * 3 div 2)))" if "2 \<le> n"
  proof -
    have "n < n * 3 div 2" using that by linarith
    then show ?thesis using next_prime_ge [of "int (n * 3 div 2)"] by linarith
  qed
qed

lemma grow_chains:
  assumes c: "chains_ok hash key (hs_num_slots hs) sl"
  shows "\<exists>sl'. hs_slots (hs_grow hs sl) = Some sl' \<and> chains_ok hash key (hs_num_slots (hs_grow hs sl)) sl' \<and>
    mset (concat sl') = mset (concat sl)"
proof -
  let ?n = "hs_num_slots hs" and ?inc = "nat (next_prime (int (hs_num_slots hs * 3 div 2)))"
  let ?sl = "sl @ replicate (?inc - ?n) []"
  have n: "2 \<le> ?n" "length sl = ?n" using c by (auto simp: chains_ok_def)
  have i: "?n < ?inc" using next_prime_nat(2) [OF n(1)] by simp
  have "in_place ?inc {?n..<?inc} ?sl" using n by (auto simp: in_place_def nth_append)
  then have P: "length (foldl (hs_rehash_slot ?inc) ?sl [0..<?n]) = ?inc \<and>
      mset (concat (foldl (hs_rehash_slot ?inc) ?sl [0..<?n])) = mset (concat ?sl) \<and>
      in_place ?inc ({..<?n} \<union> {?n..<?inc}) (foldl (hs_rehash_slot ?inc) ?sl [0..<?n])"
    using n i by (intro rehash_slots_props) simp_all
  moreover have "{..<?n} \<union> {?n..<?inc} = {..<?inc}" using i by auto
  moreover have "concat ?sl = concat sl" by simp
  ultimately have "chains_ok hash key ?inc (foldl (hs_rehash_slot ?inc) ?sl [0..<?n])"
    using n i by (intro chains_mset [OF c]) simp_all
  then show ?thesis using P by (simp add: hs_grow_def Let_def)
qed

lemma grow_fields [simp]:
  "hs_num_data (hs_grow hs sl) = hs_num_data hs" "hs_hash_func (hs_grow hs sl) = hs_hash_func hs"
  "hs_compare_func (hs_grow hs sl) = hs_compare_func hs"
  by (simp_all add: hs_grow_def Let_def)

lemma chain_mem: "s < length sl \<Longrightarrow> e \<in> set (sl ! s) \<Longrightarrow> e \<in> set (concat sl)"
  using nth_mem [of s sl] by auto

lemma chains_add:
  assumes c: "chains_ok hash key n sl" and s: "s = unat (hse_hash e) mod n"
    and new: "\<forall>x \<in> set (concat sl). key (hse_data x) \<noteq> key (hse_data e)" and h: "hse_hash e = hash (hse_data e)"
  shows "chains_ok hash key n (sl[s := e # sl ! s])" "mset (concat (sl[s := e # sl ! s])) = add_mset e (mset (concat sl))"
proof -
  have l: "s < length sl" "0 < n" using c s by (auto simp: chains_ok_def)
  show m: "mset (concat (sl[s := e # sl ! s])) = add_mset e (mset (concat sl))"
    using mset_concat_update [OF l(1), of "e # sl ! s"] by simp
  then have st: "set (concat (sl[s := e # sl ! s])) = insert e (set (concat sl))"
    by (metis set_mset_add_mset_insert set_mset_mset)
  have "mset (map (key \<circ> hse_data) (concat (sl[s := e # sl ! s]))) = mset (map (key \<circ> hse_data) (e # concat sl))"
    using m by (metis mset.simps(2) mset_map)
  moreover have "(key \<circ> hse_data) e \<notin> set (map (key \<circ> hse_data) (concat sl))"
    unfolding set_map using new by (metis comp_apply imageE)
  then have "distinct (map (key \<circ> hse_data) (e # concat sl))" using c by (simp add: chains_ok_def)
  ultimately have "distinct (map (key \<circ> hse_data) (concat (sl[s := e # sl ! s])))"
    using mset_eq_imp_distinct_iff by blast
  moreover have "in_place n {..<n} (sl[s := e # sl ! s])"
    using c l s by (auto simp: chains_ok_def in_place_def nth_list_update)
  ultimately show "chains_ok hash key n (sl[s := e # sl ! s])" using c h st by (auto simp: chains_ok_def)
qed

lemma key_new: "distinct (map (key \<circ> hse_data) (e # es)) \<Longrightarrow> \<forall>x \<in> set es. key (hse_data x) \<noteq> key (hse_data e)"
  by (induction es) auto

text \<open>Removing one entry from its chain.\<close>

lemma unlink_first_split: "\<forall>x \<in> set xs. \<not> P x \<Longrightarrow> P e \<Longrightarrow> unlink_first P (xs @ e # ys) = xs @ ys"
  by (induction xs) auto

lemma find_split: "find P es = Some e \<Longrightarrow> \<exists>xs ys. es = xs @ e # ys \<and> (\<forall>x \<in> set xs. \<not> P x) \<and> P e"
proof (induction es)
  case (Cons x es)
  show ?case
  proof (cases "P x")
    case True
    then show ?thesis using Cons.prems by (intro exI [of _ "[]"] exI [of _ es]) simp
  next
    case False
    then obtain xs ys where "es = xs @ e # ys" "\<forall>x \<in> set xs. \<not> P x" "P e" using Cons by auto
    then show ?thesis using False by (intro exI [of _ "x # xs"] exI [of _ ys]) simp
  qed
qed simp

lemma chains_drop:
  assumes c: "chains_ok hash key n sl" and s: "s < n" "sl ! s = xs @ e # ys"
  shows "chains_ok hash key n (sl[s := xs @ ys])" "mset (concat sl) = add_mset e (mset (concat (sl[s := xs @ ys])))"
proof -
  have l: "s < length sl" using c s by (auto simp: chains_ok_def)
  have "mset (concat (sl[s := xs @ ys])) + mset (sl ! s) = mset (concat sl) + mset (xs @ ys)"
    using l by (rule mset_concat_update)
  then show m: "mset (concat sl) = add_mset e (mset (concat (sl[s := xs @ ys])))" using s(2) by simp
  then have st: "set (concat sl) = insert e (set (concat (sl[s := xs @ ys])))"
    by (metis set_mset_add_mset_insert set_mset_mset)
  have "mset (map (key \<circ> hse_data) (concat sl)) = mset (map (key \<circ> hse_data) (e # concat (sl[s := xs @ ys])))"
    using m by (metis mset.simps(2) mset_map)
  then have "distinct (map (key \<circ> hse_data) (e # concat (sl[s := xs @ ys])))"
    using c mset_eq_imp_distinct_iff unfolding chains_ok_def by blast
  moreover have "in_place n {..<n} (sl[s := xs @ ys])"
    using c l s by (auto simp: chains_ok_def in_place_def nth_list_update)
  ultimately show "chains_ok hash key n (sl[s := xs @ ys])" using c st by (auto simp: chains_ok_def)
qed

section \<open>The operations\<close>

lemma free_entry_fields [simp]:
  "hs_slots (hashset_free_entry hs e) = hs_slots hs" "hs_num_slots (hashset_free_entry hs e) = hs_num_slots hs"
  "hs_num_data (hashset_free_entry hs e) = hs_num_data hs" "hs_hash_func (hashset_free_entry hs e) = hs_hash_func hs"
  "hs_compare_func (hashset_free_entry hs e) = hs_compare_func hs"
  "hs_freed (hashset_free_entry hs e) = hs_freed hs @ [hse_addr e]"
  by (simp_all add: hashset_free_entry_def Let_def)

lemma hs_slot_fields [simp]:
  "hs_slot (hs\<lparr>hs_slots := x\<rparr>) h = hs_slot hs h" "hs_slot (hs\<lparr>hs_num_data := y\<rparr>) h = hs_slot hs h"
  by (simp_all add: hs_slot_def)

lemma init_slots_inv:
  assumes "0 < n"
  shows "hs_inv (hs_hash_func hs) (hs_compare_func hs) key (fst (nt_hashset_init_slots True hs n))"
    "hs_all (fst (nt_hashset_init_slots True hs n)) = []" "snd (nt_hashset_init_slots True hs n) = SUCCEED"
    "hs_num_slots (fst (nt_hashset_init_slots True hs n)) \<noteq> 0"
    "\<exists>sl. hs_slots (fst (nt_hashset_init_slots True hs n)) = Some sl"
  using assms next_prime_nat(1) [of "int n"]
  by (auto simp: nt_hashset_init_slots_def hs_inv_def hs_all_def chains_ok_def in_place_def Let_def)

context hash_key
begin

abbreviation ok :: "nt_hashset \<Rightarrow> bool" where
  "ok hs \<equiv> hs_inv hash cmp key hs"

lemma find_in_chain_key:
  assumes ok: "ok hs" and sl: "hs_slots hs = Some sl"
  shows "find_in_chain hs (hash d) d (sl ! hs_slot hs (hash d)) = Some e \<Longrightarrow>
      e \<in> set (concat sl) \<and> e \<in> set (sl ! hs_slot hs (hash d)) \<and> key (hse_data e) = key d"
    and "find_in_chain hs (hash d) d (sl ! hs_slot hs (hash d)) = None \<Longrightarrow>
      \<forall>e \<in> set (concat sl). key (hse_data e) \<noteq> key d"
proof -
  let ?s = "hs_slot hs (hash d)"
  have c: "chains_ok hash key (hs_num_slots hs) sl" and cmp: "hs_compare_func hs = cmp"
    using ok sl by (auto simp: hs_inv_def)
  then have s: "?s < length sl" by (simp add: hs_slot_def chains_ok_def)
  show "e \<in> set (concat sl) \<and> e \<in> set (sl ! ?s) \<and> key (hse_data e) = key d"
    if "find_in_chain hs (hash d) d (sl ! ?s) = Some e"
    using that chain_mem [OF s] unfolding find_in_chain_def find_Some_iff cmp cmp_key by auto
  show "\<forall>e \<in> set (concat sl). key (hse_data e) \<noteq> key d" if n: "find_in_chain hs (hash d) d (sl ! ?s) = None"
  proof
    fix e assume e: "e \<in> set (concat sl)"
    then obtain es where "es \<in> set sl" "e \<in> set es" by auto
    then obtain i where i: "i < length sl" "e \<in> set (sl ! i)" by (metis in_set_conv_nth)
    have h: "hse_hash e = hash (hse_data e)" using c e unfolding chains_ok_def by blast
    show "key (hse_data e) \<noteq> key d"
    proof
      assume k: "key (hse_data e) = key d"
      then have hd: "hse_hash e = hash d" using h hash_key [OF k] by simp
      moreover have "unat (hse_hash e) mod hs_num_slots hs = i" using c i by (auto simp: chains_ok_def in_place_def)
      ultimately have "e \<in> set (sl ! ?s)" using i(2) by (simp add: hs_slot_def)
      then show False using n hd k unfolding find_in_chain_def find_None_iff cmp cmp_key by blast
    qed
  qed
qed

lemma alpha_iff: "ok hs \<Longrightarrow> hs_alpha key hs k = Some v \<longleftrightarrow> (\<exists>e \<in> set (hs_all hs). key (hse_data e) = k \<and> hse_data e = v)"
  unfolding hs_alpha_def by (rule map_of_key) (auto simp: hs_inv_def hs_all_def chains_ok_def split: option.splits)

lemma alpha_none: "ok hs \<Longrightarrow> hs_alpha key hs k = None \<longleftrightarrow> (\<forall>e \<in> set (hs_all hs). key (hse_data e) \<noteq> k)"
  using alpha_iff [of hs k] by (metis not_None_eq)

lemma search_ok:
  assumes ok: "ok hs"
  shows "\<exists>r. nt_hashset_search hs d = Inr r \<and> map_option hse_data r = hs_alpha key hs (key d) \<and>
    (\<forall>e. r = Some e \<longrightarrow> e \<in> set (hs_all hs))"
proof (cases "hs_slots hs")
  case None
  then have "hs_num_slots hs = 0" "hs_all hs = []" using ok by (simp_all add: hs_inv_def hs_all_def)
  then show ?thesis by (simp add: nt_hashset_search_def hs_alpha_def)
next
  case (Some sl)
  have n: "hs_num_slots hs \<noteq> 0" "hs_hash_func hs = hash" "hs_all hs = concat sl"
    using ok Some by (auto simp: hs_inv_def chains_ok_def hs_all_def)
  let ?r = "find_in_chain hs (hash d) d (sl ! hs_slot hs (hash d))"
  have "map_option hse_data ?r = hs_alpha key hs (key d)"
  proof (cases ?r)
    case None
    then have "hs_alpha key hs (key d) = None" using find_in_chain_key(2) [OF ok Some] alpha_none [OF ok] n(3) by simp
    then show ?thesis using None by simp
  next
    case (Some e)
    then have "hs_alpha key hs (key d) = Some (hse_data e)"
      using find_in_chain_key(1) [OF ok \<open>hs_slots hs = Some sl\<close> Some] alpha_iff [OF ok] n(3) by auto
    then show ?thesis using Some by simp
  qed
  then show ?thesis using n Some find_in_chain_key(1) [OF ok Some] by (simp add: nt_hashset_search_def Let_def)
qed

lemma alpha_add:
  assumes ok: "ok hs" and ok': "ok hs'" and m: "mset (hs_all hs') = add_mset e (mset (hs_all hs))"
  shows "hs_alpha key hs' = (hs_alpha key hs)(key (hse_data e) \<mapsto> hse_data e)"
proof (intro ext option_eqI)
  fix k v
  have st: "set (hs_all hs') = insert e (set (hs_all hs))" using m by (metis set_mset_add_mset_insert set_mset_mset)
  have "distinct (map (key \<circ> hse_data) (hs_all hs'))"
    using ok' by (auto simp: hs_inv_def hs_all_def chains_ok_def split: option.splits)
  moreover have "mset (map (key \<circ> hse_data) (hs_all hs')) = mset (map (key \<circ> hse_data) (e # hs_all hs))"
    using m by (metis mset.simps(2) mset_map)
  ultimately have "distinct (map (key \<circ> hse_data) (e # hs_all hs))" using mset_eq_imp_distinct_iff by blast
  then have new: "\<forall>x \<in> set (hs_all hs). key (hse_data x) \<noteq> key (hse_data e)" by (rule key_new)
  show "hs_alpha key hs' k = Some v \<longleftrightarrow> ((hs_alpha key hs)(key (hse_data e) \<mapsto> hse_data e)) k = Some v"
    using alpha_iff [OF ok', of k v] alpha_iff [OF ok, of k v] st new by auto
qed

lemma alpha_drop:
  assumes ok: "ok hs" and ok': "ok hs'" and m: "mset (hs_all hs) = add_mset e (mset (hs_all hs'))"
  shows "hs_alpha key hs' = (hs_alpha key hs)(key (hse_data e) := None)"
proof -
  have a: "hs_alpha key hs = (hs_alpha key hs')(key (hse_data e) \<mapsto> hse_data e)" by (rule alpha_add [OF ok' ok m])
  have "distinct (map (key \<circ> hse_data) (hs_all hs))"
    using ok by (auto simp: hs_inv_def hs_all_def chains_ok_def split: option.splits)
  moreover have "mset (map (key \<circ> hse_data) (hs_all hs)) = mset (map (key \<circ> hse_data) (e # hs_all hs'))"
    using m by (metis mset.simps(2) mset_map)
  ultimately have "distinct (map (key \<circ> hse_data) (e # hs_all hs'))" using mset_eq_imp_distinct_iff by blast
  then have "hs_alpha key hs' (key (hse_data e)) = None" using alpha_none [OF ok'] key_new by blast
  then show ?thesis unfolding a by auto
qed

text \<open>The set an insertion works on after the first slots are there, and after growing.\<close>

lemma first_slots:
  assumes ok: "ok hs"
  defines "hs0 \<equiv> if hs_num_slots hs = 0 then fst (nt_hashset_init_slots True hs 10) else hs"
  shows "ok hs0" "hs_all hs0 = hs_all hs" "\<exists>sl. hs_slots hs0 = Some sl" "hs_num_slots hs0 \<noteq> 0"
    "hs_hash_func hs0 = hash" "(if hs_num_slots hs = 0 then nt_hashset_init_slots True hs 10 else (hs, SUCCEED)) = (hs0, SUCCEED)"
proof -
  have f: "hs_hash_func hs = hash" "hs_compare_func hs = cmp" using ok by (simp_all add: hs_inv_def)
  have z: "hs_num_slots hs = 0 \<Longrightarrow> hs_slots hs = None \<and> hs_all hs = []"
    using ok by (auto simp: hs_inv_def chains_ok_def hs_all_def split: option.splits)
  have p: "0 < (10 :: nat)" by simp
  note I = init_slots_inv(1) [OF p, of hs key, unfolded f] init_slots_inv(2-) [OF p, of hs]
  show "ok hs0" using ok I(1) by (simp add: hs0_def)
  then show "hs_hash_func hs0 = hash" by (simp add: hs_inv_def)
  show "hs_all hs0 = hs_all hs" using z I(2) by (simp add: hs0_def)
  show "\<exists>sl. hs_slots hs0 = Some sl" using ok I(5) by (auto simp: hs0_def hs_inv_def split: option.splits)
  show "hs_num_slots hs0 \<noteq> 0" using I(4) by (simp add: hs0_def)
  show "(if hs_num_slots hs = 0 then nt_hashset_init_slots True hs 10 else (hs, SUCCEED)) = (hs0, SUCCEED)"
    using I(3) by (simp add: hs0_def prod_eq_iff)
qed

lemma maybe_grow:
  fixes b :: bool
  assumes ok: "ok hs" and sl: "hs_slots hs = Some sl"
  defines "hs1 \<equiv> if b then hs_grow hs sl else hs"
  shows "ok hs1" "mset (hs_all hs1) = mset (hs_all hs)" "\<exists>sl. hs_slots hs1 = Some sl"
proof -
  have "chains_ok hash key (hs_num_slots hs) sl" using ok sl by (simp add: hs_inv_def)
  from grow_chains [OF this] obtain sl' where g: "hs_slots (hs_grow hs sl) = Some sl'"
    "chains_ok hash key (hs_num_slots (hs_grow hs sl)) sl'" "mset (concat sl') = mset (concat sl)" by blast
  then have "length (concat sl') = length (concat sl)" by (metis size_mset)
  then show "ok hs1" "mset (hs_all hs1) = mset (hs_all hs)" "\<exists>sl. hs_slots hs1 = Some sl"
    using ok sl g by (auto simp: hs1_def hs_inv_def hs_all_def)
qed

lemma insert_cases:
  assumes ok: "ok hs" and sz: "sz \<le> length d" "offset \<le> sz"
    and st: "\<And>a old. m3 = Some (a, old) \<Longrightarrow> stored = take offset old @ take (sz - offset) (drop offset d)" "key stored = key d"
  obtains (found) hs' e where "nt_hashset_insert_ext True m2 m3 hs d sz offset = Inr (hs', Some (hse_addr e))"
      "ok hs'" "mset (hs_all hs') = mset (hs_all hs)" "e \<in> set (hs_all hs)" "key (hse_data e) = key d"
  | (failed) hs' where "nt_hashset_insert_ext True m2 m3 hs d sz offset = Inr (hs', None)" "ok hs'"
      "mset (hs_all hs') = mset (hs_all hs)" "\<not> m2 \<or> m3 = None" "hs_alpha key hs (key d) = None"
  | (added) hs' a where "nt_hashset_insert_ext True m2 m3 hs d sz offset = Inr (hs', Some a)" "ok hs'"
      "mset (hs_all hs') = add_mset \<lparr>hse_addr = a, hse_hash = hash d, hse_data = stored\<rparr> (mset (hs_all hs))"
      "hs_alpha key hs (key d) = None" "\<exists>old. m3 = Some (a, old)"
proof -
  let ?r = "nt_hashset_insert_ext True m2 m3 hs d sz offset"
  define hs0 where "hs0 = (if hs_num_slots hs = 0 then fst (nt_hashset_init_slots True hs 10) else hs)"
  note F = first_slots [OF ok, folded hs0_def]
  obtain sl where sl: "hs_slots hs0 = Some sl" using F(3) by blast
  have all: "hs_all hs = concat sl" using F(2) sl by (simp add: hs_all_def)
  have hf: "hs_hash_func hs = hash" using ok by (simp add: hs_inv_def)
  note K = find_in_chain_key [OF F(1) sl, of d]
  note unf = nt_hashset_insert_ext_def hs_insert_hashed_def F(6) hf sl Let_def
  show thesis
  proof (cases "find_in_chain hs0 (hash d) d (sl ! hs_slot hs0 (hash d))")
    case (Some e)
    have "?r = Inr (hs0, Some (hse_addr e))" by (simp add: unf Some)
    then show thesis using found [of hs0 e] F(1,2) K(1) [OF Some] all by simp
  next
    case None
    have new: "\<forall>e \<in> set (concat sl). key (hse_data e) \<noteq> key d" by (rule K(2) [OF None])
    then have an: "hs_alpha key hs (key d) = None" using alpha_none [OF ok] all by simp
    define b where "b \<longleftrightarrow> hs_num_slots hs0 * 4 div 5 \<le> hs_num_data hs0 + 1"
    have b: "hs_num_slots hs0 * 4 div 5 \<le> Suc (hs_num_data hs0) \<longleftrightarrow> b" by (simp add: b_def)
    define hs1 where "hs1 = (if b then hs_grow hs0 sl else hs0)"
    note G = maybe_grow [OF F(1) sl, of b, folded hs1_def]
    obtain sl1 where sl1: "hs_slots hs1 = Some sl1" using G(3) by blast
    show thesis
    proof (cases "b \<and> \<not> m2 \<or> m3 = None")
      case True
      then have "?r = Inr (hs0, None) \<or> ?r = Inr (hs1, None)" by (auto simp: unf None hs1_def b)
      then show thesis using failed F(1,2) G(1,2) True an by auto
    next
      case False
      then obtain a old where m3: "m3 = Some (a, old)" by auto
      let ?e = "\<lparr>hse_addr = a, hse_hash = hash d, hse_data = stored\<rparr>" and ?s = "hs_slot hs1 (hash d)"
      let ?hs' = "hs1\<lparr>hs_slots := Some (sl1[?s := ?e # sl1 ! ?s]), hs_num_data := hs_num_data hs1 + 1\<rparr>"
      have "copy_data old d sz offset = Inr stored" using sz st(1) [OF m3] by (simp add: copy_data_def)
      then have r: "?r = Inr (?hs', Some a)"
        using False sl1 by (auto simp: unf None m3 hs1_def b)
      have c1: "chains_ok hash key (hs_num_slots hs1) sl1" using G(1) sl1 by (simp add: hs_inv_def)
      have "set (concat sl1) = set (concat sl)" using G(2) sl1 sl by (metis hs_all_def mset_eq_setD option.simps(5))
      then have "\<forall>x \<in> set (concat sl1). key (hse_data x) \<noteq> key (hse_data ?e)" using new st(2) by simp
      then have A: "chains_ok hash key (hs_num_slots hs1) (sl1[?s := ?e # sl1 ! ?s])"
          "mset (concat (sl1[?s := ?e # sl1 ! ?s])) = add_mset ?e (mset (concat sl1))"
        using chains_add [OF c1, of ?s ?e] hash_key [OF st(2)] by (simp_all add: hs_slot_def)
      have m: "mset (hs_all ?hs') = add_mset ?e (mset (hs_all hs))"
        using A(2) G(2) F(2) sl1 by (simp add: hs_all_def)
      have "length (hs_all ?hs') = Suc (length (hs_all hs1))"
        using arg_cong [OF A(2), of size] sl1 by (simp add: hs_all_def)
      then have "ok ?hs'" using G(1) A(1) by (simp add: hs_inv_def)
      then show thesis using added [OF r _ m an] m3 by blast
    qed
  qed
qed

lemma insert_all_memory:
  assumes ok: "ok hs"
  shows "\<exists>hs' p. nt_hashset_insert True True (Some (a, old)) hs d (length d) = Inr (hs', p) \<and> ok hs' \<and>
    hs_alpha key hs' = (if hs_alpha key hs (key d) = None then (hs_alpha key hs)(key d \<mapsto> d) else hs_alpha key hs)"
proof -
  have same: "hs_alpha key hs' = hs_alpha key hs" if "ok hs'" "mset (hs_all hs') = mset (hs_all hs)" for hs'
    using that alpha_mset [of key "hs_all hs'" "hs_all hs"]
    by (auto simp: hs_alpha_def hs_inv_def hs_all_def chains_ok_def split: option.splits)
  show ?thesis unfolding nt_hashset_insert_def
  proof (rule insert_cases [of hs "length d" d 0 "Some (a, old)" d True])
    fix hs' e
    assume r: "nt_hashset_insert_ext True True (Some (a, old)) hs d (length d) 0 = Inr (hs', Some (hse_addr e))"
      "ok hs'" "mset (hs_all hs') = mset (hs_all hs)" "e \<in> set (hs_all hs)" "key (hse_data e) = key d"
    then have "hs_alpha key hs (key d) \<noteq> None" using alpha_none [OF ok] by blast
    then show "\<exists>hs' p. nt_hashset_insert_ext True True (Some (a, old)) hs d (length d) 0 = Inr (hs', p) \<and> ok hs' \<and>
        hs_alpha key hs' = (if hs_alpha key hs (key d) = None then (hs_alpha key hs)(key d \<mapsto> d) else hs_alpha key hs)"
      using r same by auto
  next
    fix hs' a'
    assume r: "nt_hashset_insert_ext True True (Some (a, old)) hs d (length d) 0 = Inr (hs', Some a')" "ok hs'"
      "mset (hs_all hs') = add_mset \<lparr>hse_addr = a', hse_hash = hash d, hse_data = d\<rparr> (mset (hs_all hs))"
      "hs_alpha key hs (key d) = None"
    then show "\<exists>hs' p. nt_hashset_insert_ext True True (Some (a, old)) hs d (length d) 0 = Inr (hs', p) \<and> ok hs' \<and>
        hs_alpha key hs' = (if hs_alpha key hs (key d) = None then (hs_alpha key hs)(key d \<mapsto> d) else hs_alpha key hs)"
      using alpha_add [OF ok r(2,3)] by auto
  qed (use ok in auto)
qed

lemma remove_full:
  assumes ok: "ok hs"
  shows "\<exists>hs'. nt_hashset_remove hs d = Inr hs' \<and> ok hs' \<and> hs_alpha key hs' = (hs_alpha key hs)(key d := None) \<and>
    (hs' = hs \<or> hs_num_slots hs' = hs_num_slots hs \<and>
      (\<exists>e. hs_freed hs' = hs_freed hs @ [hse_addr e] \<and> mset (hs_all hs) = add_mset e (mset (hs_all hs'))))"
proof (cases "hs_slots hs")
  case None
  then have "hs_num_slots hs = 0" "hs_all hs = []" using ok by (simp_all add: hs_inv_def hs_all_def)
  then show ?thesis using ok by (simp add: nt_hashset_remove_def hs_alpha_def)
next
  case (Some sl)
  have n: "hs_num_slots hs \<noteq> 0" "hs_hash_func hs = hash" "hs_all hs = concat sl" "hs_compare_func hs = cmp"
    and c: "chains_ok hash key (hs_num_slots hs) sl"
    using ok Some by (auto simp: hs_inv_def chains_ok_def hs_all_def)
  let ?s = "hs_slot hs (hash d)" and ?P = "\<lambda>e. hse_hash e = hash d \<and> cmp (hse_data e) d = 0"
  note K = find_in_chain_key [OF ok Some, of d]
  show ?thesis
  proof (cases "find_in_chain hs (hash d) d (sl ! ?s)")
    case None
    then have "hs_alpha key hs (key d) = None" using K(2) alpha_none [OF ok] n(3) by simp
    then have "hs_alpha key hs = (hs_alpha key hs)(key d := None)" by (auto simp: fun_eq_iff)
    then show ?thesis using None n Some ok by (simp add: nt_hashset_remove_def Let_def)
  next
    case (Some e)
    note sl = \<open>hs_slots hs = Some sl\<close>
    have f: "find ?P (sl ! ?s) = Some e" using Some by (simp add: find_in_chain_def n)
    obtain xs ys where split: "sl ! ?s = xs @ e # ys" "\<forall>x \<in> set xs. \<not> ?P x" "?P e"
      using find_split [OF f] by blast
    have s: "?s < hs_num_slots hs" using n(1) by (simp add: hs_slot_def)
    note D = chains_drop [OF c s split(1)]
    have u: "unlink_first ?P (sl ! ?s) = xs @ ys" using unlink_first_split [of xs ?P e ys] split by simp
    let ?hs1 = "hashset_free_entry (hs\<lparr>hs_slots := Some (sl[?s := xs @ ys])\<rparr>) e"
    let ?hs' = "?hs1\<lparr>hs_num_data := hs_num_data hs - 1\<rparr>"
    have r: "nt_hashset_remove hs d = Inr ?hs'"
      using n(1) Some sl u by (simp add: nt_hashset_remove_def Let_def n(2,4))
    have al: "hs_all ?hs' = concat (sl[?s := xs @ ys])" by (simp add: hs_all_def)
    then have m: "mset (hs_all hs) = add_mset e (mset (hs_all ?hs'))" using D(2) n(3) by simp
    have "length (hs_all hs) = Suc (length (concat (sl[?s := xs @ ys])))"
      using arg_cong [OF m, of size] unfolding al by simp
    moreover have "hs_num_data hs = length (hs_all hs)" using ok by (simp add: hs_inv_def)
    ultimately have ok': "ok ?hs'" using n D(1) unfolding hs_inv_def al by simp
    have "hs_alpha key ?hs' = (hs_alpha key hs)(key d := None)"
      using alpha_drop [OF ok ok' m] K(1) [OF Some] by simp
    then show ?thesis using r ok' m by (intro exI [of _ ?hs'] conjI disjI2 exI [of _ e]) simp_all
  qed
qed

lemma remove_ok:
  "ok hs \<Longrightarrow> \<exists>hs'. nt_hashset_remove hs d = Inr hs' \<and> ok hs' \<and> hs_alpha key hs' = (hs_alpha key hs)(key d := None)"
  using remove_full by blast

lemma free_chains_fields:
  "hs_hash_func (free_chains hs sl) = hs_hash_func hs" "hs_compare_func (free_chains hs sl) = hs_compare_func hs"
  "hs_num_slots (free_chains hs sl) = hs_num_slots hs" "hs_num_data (free_chains hs sl) = hs_num_data hs"
proof -
  have "hs_hash_func (foldl hashset_free_entry hs es) = hs_hash_func hs \<and> hs_compare_func (foldl hashset_free_entry hs es) = hs_compare_func hs \<and>
      hs_num_slots (foldl hashset_free_entry hs es) = hs_num_slots hs \<and> hs_num_data (foldl hashset_free_entry hs es) = hs_num_data hs" for hs es
    by (induction es arbitrary: hs) simp_all
  then have "hs_hash_func (free_chains hs sl) = hs_hash_func hs \<and> hs_compare_func (free_chains hs sl) = hs_compare_func hs \<and>
      hs_num_slots (free_chains hs sl) = hs_num_slots hs \<and> hs_num_data (free_chains hs sl) = hs_num_data hs"
    unfolding free_chains_def by (induction sl arbitrary: hs) simp_all
  then show "hs_hash_func (free_chains hs sl) = hs_hash_func hs" "hs_compare_func (free_chains hs sl) = hs_compare_func hs"
    "hs_num_slots (free_chains hs sl) = hs_num_slots hs" "hs_num_data (free_chains hs sl) = hs_num_data hs" by simp_all
qed

lemma free_chains_freed: "hs_freed (free_chains hs sl) = hs_freed hs @ map hse_addr (concat sl)"
proof -
  have "hs_freed (foldl hashset_free_entry hs es) = hs_freed hs @ map hse_addr es" for hs es
    by (induction es arbitrary: hs) simp_all
  then show ?thesis unfolding free_chains_def by (induction sl arbitrary: hs) simp_all
qed

lemma clear_full:
  assumes ok: "ok hs"
  shows "\<exists>hs'. nt_hashset_clear hs = Inr hs' \<and> ok hs' \<and> hs_all hs' = [] \<and> hs_num_slots hs' = hs_num_slots hs \<and>
    hs_freed hs' = hs_freed hs @ map hse_addr (hs_all hs)"
proof (cases "hs_slots hs")
  case None
  then have "hs_num_slots hs = 0" "hs_all hs = []" "hs_num_data hs = 0" using ok by (simp_all add: hs_inv_def hs_all_def)
  then show ?thesis using ok None by (simp add: nt_hashset_clear_def hs_inv_def hs_all_def)
next
  case (Some sl)
  have z: "concat (map (\<lambda>_. []) sl) = ([] :: hs_entry list)" by simp
  have "chains_ok hash key (hs_num_slots hs) (map (\<lambda>_. []) sl)"
    using ok Some unfolding hs_inv_def chains_ok_def z by (auto simp: in_place_def)
  then show ?thesis
    using ok Some
    by (auto simp: z nt_hashset_clear_def free_chains_fields free_chains_freed hs_inv_def hs_all_def chains_ok_def)
qed

lemma clear_ok: "ok hs \<Longrightarrow> \<exists>hs'. nt_hashset_clear hs = Inr hs' \<and> ok hs' \<and> hs_alpha key hs' = Map.empty"
  using clear_full [of hs] by (auto simp: hs_alpha_def)

lemma destroy_full:
  assumes ok: "ok hs"
  shows "\<exists>hs'. nt_hashset_destroy hs = Inr hs' \<and> hs_freed hs' = hs_freed hs @ map hse_addr (hs_all hs)"
  using ok by (auto simp: nt_hashset_destroy_def hs_inv_def hs_all_def free_chains_freed split: option.splits)

lemma create_ok: "ok (nt_hashset_create_ext True n hash cmp clean)" "hs_all (nt_hashset_create_ext True n hash cmp clean) = []"
proof -
  let ?hs = "\<lparr>hs_slots = None, hs_num_slots = 0, hs_num_data = 0, hs_hash_func = hash, hs_compare_func = cmp,
    hs_clean_func = clean, hs_freed = [], hs_cleaned = []\<rparr>"
  show "ok (nt_hashset_create_ext True n hash cmp clean)" "hs_all (nt_hashset_create_ext True n hash cmp clean) = []"
    using init_slots_inv(1,2) [of n ?hs]
    by (cases "n = 0"; auto simp: nt_hashset_create_ext_def nt_hashset_init_slots_def hs_inv_def hs_all_def)+
qed

lemma num_data_dom: "ok hs \<Longrightarrow> hs_num_data hs = card (dom (hs_alpha key hs))"
proof -
  assume ok: "ok hs"
  have "distinct (map (key \<circ> hse_data) (hs_all hs))"
    using ok by (auto simp: hs_inv_def hs_all_def chains_ok_def split: option.splits)
  then have "card ((key \<circ> hse_data) ` set (hs_all hs)) = length (hs_all hs)" using distinct_card by fastforce
  moreover have "dom (hs_alpha key hs) = (key \<circ> hse_data) ` set (hs_all hs)"
    using alpha_iff [OF ok] by (auto simp: dom_def image_iff)
  ultimately show "hs_num_data hs = card (dom (hs_alpha key hs))" using ok by (simp add: hs_inv_def)
qed

end

end
