(* ===== verification/Hashset_Spec.thy ===== *)
theory Hashset_Spec
  imports Hashset_Props Compare
begin

text \<open>
  The properties of the hash set: refinement of a finite map, memory failures, iteration with
  removal, and what the key-value functions store.
\<close>

section \<open>The contract on the code's own functions\<close>

text \<open>Blocks that begin with a \<open>nt_uint64_t\<close> key, hashed and compared by the default functions.\<close>

abbreviation u64_key :: "u8 list \<Rightarrow> u64" where
  "u64_key d \<equiv> load64 (take 8 d)"

interpretation uint64_blocks:
  hash_key "\<lambda>d. nt_default_uint64_hash_func (u64_key d)"
    "\<lambda>d e. nt_default_uint64_compare_func (u64_key d) (u64_key e)" u64_key
  by unfold_locales (simp_all add: uint64_cmp.cmp_zero_iff)

section \<open>Sequences of operations\<close>

text \<open>Insertions with the address and the old contents of the block the memory function gives.\<close>

datatype hs_op = Hs_Insert nat "u8 list" "u8 list" | Hs_Remove "u8 list" | Hs_Clear

fun hs_exec :: "nt_hashset \<Rightarrow> hs_op \<Rightarrow> hs_error + nt_hashset" where
  "hs_exec hs (Hs_Insert a old d) =
     (case nt_hashset_insert True True (Some (a, old)) hs d (length d) of Inl e \<Rightarrow> Inl e | Inr (hs', _) \<Rightarrow> Inr hs')"
| "hs_exec hs (Hs_Remove d) = nt_hashset_remove hs d"
| "hs_exec hs Hs_Clear = nt_hashset_clear hs"

text \<open>The same on a map from keys to blocks: an insertion keeps the block that is there.\<close>

fun hs_map_exec :: "(u8 list \<Rightarrow> 'k) \<Rightarrow> ('k \<Rightarrow> u8 list option) \<Rightarrow> hs_op \<Rightarrow> 'k \<Rightarrow> u8 list option" where
  "hs_map_exec key m (Hs_Insert a old d) = (if m (key d) = None then m(key d \<mapsto> d) else m)"
| "hs_map_exec key m (Hs_Remove d) = m(key d := None)"
| "hs_map_exec key m Hs_Clear = Map.empty"

lemma hs_exec_ok:
  assumes "hash_key hash cmp key" "hs_inv hash cmp key hs"
  shows "\<exists>hs'. hs_exec hs c = Inr hs' \<and> hs_inv hash cmp key hs' \<and> hs_alpha key hs' = hs_map_exec key (hs_alpha key hs) c"
proof (cases c)
  case (Hs_Insert a old d)
  then show ?thesis using hash_key.insert_all_memory [OF assms, of a old d] by (auto simp del: fun_upd_apply)
qed (use hash_key.remove_ok [OF assms] hash_key.clear_ok [OF assms] in auto)

lemma hs_run_ok:
  assumes "hash_key hash cmp key"
  shows "hs_inv hash cmp key hs \<Longrightarrow>
    \<exists>hs'. insert_all hs_exec hs ops = Inr hs' \<and> hs_inv hash cmp key hs' \<and>
      hs_alpha key hs' = foldl (hs_map_exec key) (hs_alpha key hs) ops"
proof (induction ops arbitrary: hs)
  case (Cons c ops)
  obtain hs1 where "hs_exec hs c = Inr hs1" "hs_inv hash cmp key hs1" "hs_alpha key hs1 = hs_map_exec key (hs_alpha key hs) c"
    using hs_exec_ok [OF assms Cons.prems] by blast
  then show ?case using Cons.IH [of hs1] by simp
qed simp

text \<open>
  C6: With hash and comparison functions that look at a key only, and memory available, the hash
  set is a finite map from keys to blocks: after any sequence of insertions, removals and
  clearings, growth included, a search finds the block inserted first under the key since it was
  last removed, and \<open>num_data\<close> is the number of keys. No operation leaves the slots.
\<close>

theorem hashset_refines_map:
  assumes "hash_key hash cmp key"
  shows "\<exists>hs. insert_all hs_exec (nt_hashset_create True n hash cmp) ops = Inr hs \<and>
    (\<forall>d. \<exists>r. nt_hashset_search hs d = Inr r \<and>
       map_option hse_data r = foldl (hs_map_exec key) Map.empty ops (key d)) \<and>
    hs_num_data hs = card (dom (foldl (hs_map_exec key) Map.empty ops))"
proof -
  note create = hash_key.create_ok [OF assms, of n False, folded nt_hashset_create_def]
  have "hs_alpha key (nt_hashset_create True n hash cmp) = Map.empty" using create(2) by (simp add: hs_alpha_def)
  then obtain hs where hs: "insert_all hs_exec (nt_hashset_create True n hash cmp) ops = Inr hs" "hs_inv hash cmp key hs"
      "hs_alpha key hs = foldl (hs_map_exec key) Map.empty ops"
    using hs_run_ok [OF assms create(1)] by auto
  then show ?thesis using hash_key.search_ok [OF assms hs(2)] hash_key.num_data_dom [OF assms hs(2)] by metis
qed

theorem hashset_refines_map_witness:
  "\<exists>hs. insert_all hs_exec (nt_hashset_create True 0 (\<lambda>d. nt_default_uint64_hash_func (u64_key d))
       (\<lambda>d e. nt_default_uint64_compare_func (u64_key d) (u64_key e)))
     [Hs_Insert 1 [] [1, 0, 0, 0, 0, 0, 0, 0, 65], Hs_Insert 2 [] [1, 0, 0, 0, 0, 0, 0, 0, 66]] = Inr hs \<and>
   (\<exists>r. nt_hashset_search hs [1, 0, 0, 0, 0, 0, 0, 0] = Inr r \<and>
      map_option hse_data r = Some [1, 0, 0, 0, 0, 0, 0, 0, 65])"
  using hashset_refines_map [OF uint64_blocks.hash_key_axioms, of 0
      "[Hs_Insert 1 [] [1, 0, 0, 0, 0, 0, 0, 0, 65], Hs_Insert 2 [] [1, 0, 0, 0, 0, 0, 0, 0, 66]]"]
  by (fastforce dest: spec [of _ "[1, 0, 0, 0, 0, 0, 0, 0]"])

section \<open>Memory failures\<close>

text \<open>
  C40: A block that cannot be allocated makes an insertion answer NULL, with the set as before.
  When the first slot array cannot be allocated the insertion answers NULL too, but the number
  of slots is already set: the next insertion or search dereferences the NULL array.
\<close>

theorem hashset_memory_failures:
  assumes "hash_key hash cmp key" "hs_inv hash cmp key hs" "hs_alpha key hs (key d) = None"
  shows "(\<exists>hs'. nt_hashset_insert True m2 None hs d (length d) = Inr (hs', None) \<and> hs_inv hash cmp key hs' \<and>
      mset (hs_all hs') = mset (hs_all hs)) \<and>
    (\<exists>hs'. nt_hashset_insert False m2 m3 (nt_hashset_create True 0 hash cmp) d (length d) = Inr (hs', None) \<and>
      nt_hashset_insert True True m4 hs' d (length d) = Inl Null_Slots \<and> nt_hashset_search hs' d = Inl Null_Slots)"
proof -
  have 1: "\<exists>hs'. nt_hashset_insert_ext True m2 None hs d (length d) 0 = Inr (hs', None) \<and> hs_inv hash cmp key hs' \<and>
      mset (hs_all hs') = mset (hs_all hs)"
  proof (rule hash_key.insert_cases [OF assms(1,2), of "length d" d 0 None d m2])
    fix hs' e assume "e \<in> set (hs_all hs)" "key (hse_data e) = key d"
    then have False using assms(3) hash_key.alpha_none [OF assms(1,2)] by blast
    then show ?thesis ..
  next
    fix hs' a
    assume "\<exists>old. None = Some (a, old :: u8 list)"
    then have False by simp
    then show ?thesis ..
  qed auto
  have "nat (next_prime 10) \<noteq> 0" using next_prime_gt_1 [of 10] by simp
  then have 2: "\<exists>hs'. nt_hashset_insert False m2 m3 (nt_hashset_create True 0 hash cmp) d (length d) = Inr (hs', None) \<and>
      nt_hashset_insert True True m4 hs' d (length d) = Inl Null_Slots \<and> nt_hashset_search hs' d = Inl Null_Slots"
    by (auto simp: nt_hashset_insert_def nt_hashset_insert_ext_def hs_insert_hashed_def nt_hashset_create_def
        nt_hashset_create_ext_def nt_hashset_init_slots_def nt_hashset_search_def SUCCEED_def FAIL_def Let_def)
  from 1 2 show ?thesis unfolding nt_hashset_insert_def by blast
qed

theorem hashset_memory_failures_witness:
  "\<exists>hs'. nt_hashset_insert True True None (nt_hashset_create True 0 (\<lambda>d. nt_default_uint64_hash_func (u64_key d))
       (\<lambda>d e. nt_default_uint64_compare_func (u64_key d) (u64_key e))) [1, 0, 0, 0, 0, 0, 0, 0] 8 = Inr (hs', None) \<and>
     hs_all hs' = []"
proof -
  let ?hs = "nt_hashset_create True 0 (\<lambda>d. nt_default_uint64_hash_func (u64_key d))
       (\<lambda>d e. nt_default_uint64_compare_func (u64_key d) (u64_key e))"
  note c = uint64_blocks.create_ok [of 0 False, folded nt_hashset_create_def]
  have "hs_alpha u64_key ?hs (u64_key [1, 0, 0, 0, 0, 0, 0, 0]) = None" using c(2) by (simp add: hs_alpha_def)
  moreover have len: "length [1, 0, 0, 0, 0, 0, 0, 0 :: u8] = 8" by simp
  ultimately show ?thesis
    using hashset_memory_failures [OF uint64_blocks.hash_key_axioms c(1), of "[1, 0, 0, 0, 0, 0, 0, 0]" True] c(2)
    unfolding len by fastforce
qed

section \<open>Iteration\<close>

lemma chain_next_at:
  "distinct (map hse_addr (xs @ e # ys)) \<Longrightarrow>
   chain_next (hse_addr e) (xs @ e # ys) = (case ys of [] \<Rightarrow> None | y # _ \<Rightarrow> Some y)"
proof (induction xs)
  case Nil
  then show ?case by (cases ys) simp_all
next
  case (Cons x xs)
  then show ?case by (cases xs) auto
qed

lemma chain_prev_at:
  "distinct (map hse_addr (xs @ e # ys)) \<Longrightarrow> xs \<noteq> [] \<Longrightarrow> chain_prev (hse_addr e) (xs @ e # ys) = Some (last xs)"
proof (induction xs)
  case (Cons x xs)
  then show ?case by (cases xs) auto
qed simp

lemma iter_scan_spec:
  "s \<le> length sl \<Longrightarrow>
   (concat (drop s sl) = [] \<longrightarrow> iter_scan sl (length sl) s = None) \<and>
   (\<forall>e rest. concat (drop s sl) = e # rest \<longrightarrow> (\<exists>t ys. iter_scan sl (length sl) s = Some (t, e) \<and> t < length sl \<and>
      sl ! t = e # ys \<and> rest = ys @ concat (drop (Suc t) sl) \<and> concat (take t sl) = concat (take s sl)))"
proof (induction "length sl - s" arbitrary: s)
  case 0
  then show ?case by (subst iter_scan.simps) simp
next
  case (Suc k)
  then have s: "s < length sl" by simp
  then have d: "drop s sl = sl ! s # drop (Suc s) sl" "take (Suc s) sl = take s sl @ [sl ! s]"
    by (simp_all add: Cons_nth_drop_Suc take_Suc_conv_app_nth)
  show ?case
  proof (cases "sl ! s")
    case Nil
    have "iter_scan sl (length sl) s = iter_scan sl (length sl) (Suc s)" using s Nil by (subst iter_scan.simps) simp
    moreover have "concat (drop s sl) = concat (drop (Suc s) sl)" "concat (take (Suc s) sl) = concat (take s sl)"
      using d Nil by simp_all
    ultimately show ?thesis using Suc.hyps(1) [of "Suc s"] Suc.hyps(2) s by simp
  next
    case (Cons e es)
    have "iter_scan sl (length sl) s = Some (s, e)" using s Cons by (subst iter_scan.simps) simp
    then show ?thesis using d Cons s by simp
  qed
qed

text \<open>
  Where an iterator is: before a slot, or on an entry; \<open>pre\<close> are the entries it has passed, \<open>rest\<close>
  those to come.
\<close>

definition before_slot :: "hs_entry list list \<Rightarrow> nt_hashset_iter \<Rightarrow> hs_entry list \<Rightarrow> hs_entry list \<Rightarrow> bool" where
  "before_slot sl it pre rest =
     ((it_slot it = ITER_START \<or> it_entry it = None) \<and> ITER_START \<le> it_slot it \<and> it_slot it < int (length sl) \<and>
      pre = concat (take (nat (it_slot it + 1)) sl) \<and> rest = concat (drop (nat (it_slot it + 1)) sl))"

definition on_entry :: "hs_entry list list \<Rightarrow> nt_hashset_iter \<Rightarrow> hs_entry list \<Rightarrow> hs_entry \<Rightarrow> hs_entry list \<Rightarrow> bool" where
  "on_entry sl it pre e rest =
     (\<exists>s xs ys. s < length sl \<and> it_slot it = int s \<and> it_entry it = Some (hse_addr e) \<and> sl ! s = xs @ e # ys \<and>
        pre = concat (take s sl) @ xs \<and> rest = ys @ concat (drop (Suc s) sl))"

definition iter_at :: "hs_entry list list \<Rightarrow> nt_hashset_iter \<Rightarrow> hs_entry list \<Rightarrow> hs_entry list \<Rightarrow> bool" where
  "iter_at sl it pre rest =
     (before_slot sl it pre rest \<or> (\<exists>pre' e. pre = pre' @ [e] \<and> on_entry sl it pre' e rest))"

lemma concat_split: "s < length sl \<Longrightarrow> concat sl = concat (take s sl) @ sl ! s @ concat (drop (Suc s) sl)"
  by (metis append_take_drop_id concat.simps(2) concat_append Cons_nth_drop_Suc)

lemma iter_at_concat: "iter_at sl it pre rest \<Longrightarrow> concat sl = pre @ rest"
  unfolding iter_at_def before_slot_def on_entry_def
  by (elim disjE exE conjE) (simp_all add: concat_split flip: concat_append)

lemma advance_spec:
  assumes b: "it_slot it = int s - 1" "s \<le> length sl"
  shows "concat (drop s sl) = [] \<Longrightarrow> snd (iter_advance sl (length sl) it) = None"
    and "concat (drop s sl) = e # rest \<Longrightarrow>
      \<exists>it'. iter_advance sl (length sl) it = (it', Some e) \<and> on_entry sl it' (concat (take s sl)) e rest"
proof -
  have n: "nat (it_slot it + 1) = s" using b by simp
  show "snd (iter_advance sl (length sl) it) = None" if "concat (drop s sl) = []"
    using iter_scan_spec [OF b(2)] that by (simp add: iter_advance_def n)
  show "\<exists>it'. iter_advance sl (length sl) it = (it', Some e) \<and> on_entry sl it' (concat (take s sl)) e rest"
    if c: "concat (drop s sl) = e # rest"
  proof -
    obtain t ys where t: "iter_scan sl (length sl) s = Some (t, e)" "t < length sl" "sl ! t = e # ys"
      "rest = ys @ concat (drop (Suc t) sl)" "concat (take t sl) = concat (take s sl)"
      using iter_scan_spec [OF b(2)] c by blast
    have "on_entry sl (it\<lparr>it_slot := int t, it_entry := Some (hse_addr e)\<rparr>) (concat (take s sl)) e rest"
      unfolding on_entry_def using t by (intro exI [of _ t] exI [of _ "[]"] exI [of _ ys]) simp
    then show ?thesis using t(1) by (simp add: iter_advance_def n)
  qed
qed

lemma distinct_chain:
  assumes "distinct (map hse_addr (concat sl))" "s < length sl"
  shows "distinct (map hse_addr (sl ! s))"
  using assms(1) concat_split [OF assms(2)] by (simp add: distinct_map)

lemma iter_next_spec:
  assumes sl: "hs_slots hs = Some sl" "hs_num_slots hs = length sl" and d: "distinct (map hse_addr (concat sl))"
    and at: "iter_at sl it pre rest"
  shows "rest = [] \<Longrightarrow> \<exists>it'. nt_hashset_iter_next hs it = Inr (it', None)"
    and "rest = e # rest' \<Longrightarrow> \<exists>it'. nt_hashset_iter_next hs it = Inr (it', Some e) \<and> on_entry sl it' pre e rest'"
proof -
  have "(rest = [] \<longrightarrow> (\<exists>it'. nt_hashset_iter_next hs it = Inr (it', None))) \<and>
    (\<forall>e rest'. rest = e # rest' \<longrightarrow> (\<exists>it'. nt_hashset_iter_next hs it = Inr (it', Some e) \<and> on_entry sl it' pre e rest'))"
    using at unfolding iter_at_def
  proof (elim disjE exE conjE)
    assume b: "before_slot sl it pre rest"
    define s where "s = nat (it_slot it + 1)"
    have s: "it_slot it = int s - 1" "s \<le> length sl" "pre = concat (take s sl)" "rest = concat (drop s sl)"
      using b by (auto simp: before_slot_def s_def ITER_START_def)
    have r: "nt_hashset_iter_next hs it = Inr (iter_advance sl (length sl) it)"
      using b sl by (auto simp: nt_hashset_iter_next_def before_slot_def ITER_START_def ITER_FINISH_def split: option.splits)
    show ?thesis using advance_spec [OF s(1,2)] s(3,4) unfolding r by (metis prod.collapse)
  next
    fix pre' e0 assume p: "pre = pre' @ [e0]" and o: "on_entry sl it pre' e0 rest"
    then obtain s xs ys where s: "s < length sl" "it_slot it = int s" "it_entry it = Some (hse_addr e0)" "sl ! s = xs @ e0 # ys"
      "pre' = concat (take s sl) @ xs" "rest = ys @ concat (drop (Suc s) sl)" by (auto simp: on_entry_def)
    have nx: "chain_next (hse_addr e0) (sl ! s) = (case ys of [] \<Rightarrow> None | y # _ \<Rightarrow> Some y)"
      using chain_next_at [of xs e0 ys] distinct_chain [OF d s(1)] s(4) by simp
    have pc: "pre = concat (take s sl) @ xs @ [e0]" using p s(5) by simp
    show ?thesis
    proof (cases ys)
      case Nil
      have r: "nt_hashset_iter_next hs it = Inr (iter_advance sl (length sl) it)"
        using s sl nx Nil by (simp add: nt_hashset_iter_next_def ITER_START_def ITER_FINISH_def)
      have "concat (take (Suc s) sl) = pre" "rest = concat (drop (Suc s) sl)"
        using s Nil pc by (simp_all add: take_Suc_conv_app_nth)
      then show ?thesis using advance_spec [of it "Suc s" sl] s(1,2) unfolding r by (simp, metis prod.collapse)
    next
      case (Cons y zs)
      have r: "nt_hashset_iter_next hs it = Inr (it\<lparr>it_entry := Some (hse_addr y)\<rparr>, Some y)"
        using s sl nx Cons by (simp add: nt_hashset_iter_next_def ITER_START_def ITER_FINISH_def)
      have "on_entry sl (it\<lparr>it_entry := Some (hse_addr y)\<rparr>) pre y (zs @ concat (drop (Suc s) sl))"
        unfolding on_entry_def using s Cons pc by (intro exI [of _ s] exI [of _ "xs @ [e0]"] exI [of _ zs]) simp
      then show ?thesis using r s(6) Cons by simp
    qed
  qed
  then show "rest = [] \<Longrightarrow> \<exists>it'. nt_hashset_iter_next hs it = Inr (it', None)"
    "rest = e # rest' \<Longrightarrow> \<exists>it'. nt_hashset_iter_next hs it = Inr (it', Some e) \<and> on_entry sl it' pre e rest'" by blast+
qed

lemma iter_remove_spec:
  assumes sl: "hs_slots hs = Some sl" "hs_num_slots hs = length sl" and d: "distinct (map hse_addr (concat sl))"
    and o: "on_entry sl it pre e rest"
  shows "\<exists>hs' it' sl'. nt_hashset_iter_remove hs it = Inr (hs', it') \<and> hs_slots hs' = Some sl' \<and>
    hs_num_slots hs' = length sl' \<and> iter_at sl' it' pre rest \<and> hs_num_data hs' = hs_num_data hs - 1 \<and>
    hs_freed hs' = hs_freed hs @ [hse_addr e]"
proof -
  obtain s xs ys where s: "s < length sl" "it_slot it = int s" "it_entry it = Some (hse_addr e)" "sl ! s = xs @ e # ys"
    "pre = concat (take s sl) @ xs" "rest = ys @ concat (drop (Suc s) sl)" using o by (auto simp: on_entry_def)
  have da: "distinct (map hse_addr (xs @ e # ys))" using distinct_chain [OF d s(1)] s(4) by simp
  then have "hse_addr e \<notin> hse_addr ` set xs" by auto
  then have "\<forall>x \<in> set xs. hse_addr x \<noteq> hse_addr e" by (metis imageI)
  then have f: "find (\<lambda>x. hse_addr x = hse_addr e) (sl ! s) = Some e"
      "unlink_first (\<lambda>x. hse_addr x = hse_addr e) (sl ! s) = xs @ ys"
    unfolding s(4) by (induction xs) auto
  let ?sl = "sl[s := xs @ ys]"
  let ?hs = "(hashset_free_entry (hs\<lparr>hs_slots := Some ?sl\<rparr>) e)\<lparr>hs_num_data := hs_num_data hs - 1\<rparr>"
  have tk: "take s ?sl = take s sl" "drop (Suc s) ?sl = drop (Suc s) sl" "?sl ! s = xs @ ys" using s(1) by simp_all
  show ?thesis
  proof (cases xs)
    case Nil
    let ?it = "it\<lparr>it_slot := int s - 1, it_entry := None\<rparr>"
    have "nt_hashset_iter_remove hs it = Inr (?hs, ?it)"
      using s(2,3) sl f s(4) Nil by (simp add: nt_hashset_iter_remove_def ITER_START_def ITER_FINISH_def Let_def)
    moreover have "before_slot ?sl ?it pre rest"
      using s tk Nil by (simp add: before_slot_def ITER_START_def Cons_nth_drop_Suc [symmetric])
    ultimately show ?thesis using sl by (intro exI [of _ ?hs] exI [of _ ?it] exI [of _ ?sl]) (simp add: iter_at_def)
  next
    case (Cons x zs)
    have ne: "xs \<noteq> []" using Cons by simp
    have pv: "chain_prev (hse_addr e) (sl ! s) = Some (last xs)" using chain_prev_at [OF da ne] s(4) by simp
    have "hse_addr (hd (sl ! s)) \<noteq> hse_addr e" using da s(4) Cons by auto
    let ?it = "it\<lparr>it_entry := Some (hse_addr (last xs))\<rparr>"
    have "nt_hashset_iter_remove hs it = Inr (?hs, ?it)"
      using s(2,3) sl f pv \<open>hse_addr (hd (sl ! s)) \<noteq> hse_addr e\<close>
      by (simp add: nt_hashset_iter_remove_def ITER_START_def ITER_FINISH_def Let_def)
    moreover have "on_entry ?sl ?it (concat (take s sl) @ butlast xs) (last xs) rest"
      unfolding on_entry_def using s tk ne
      by (intro exI [of _ s] exI [of _ "butlast xs"] exI [of _ ys]) (simp flip: append_assoc append_butlast_last_id)
    moreover have "pre = (concat (take s sl) @ butlast xs) @ [last xs]" using s(5) ne by simp
    ultimately show ?thesis
      using sl by (intro exI [of _ ?hs] exI [of _ ?it] exI [of _ ?sl]) (auto simp: iter_at_def)
  qed
qed

text \<open>
  The loop of a client that visits all entries and removes those that satisfy a test. \<open>None\<close>: more
  than \<open>k\<close> rounds.
\<close>

fun iter_filter ::
  "(hs_entry \<Rightarrow> bool) \<Rightarrow> nat \<Rightarrow> nt_hashset \<Rightarrow> nt_hashset_iter \<Rightarrow> (hs_error + nt_hashset \<times> hs_entry list) option" where
  "iter_filter P 0 hs it = None"
| "iter_filter P (Suc k) hs it =
     (case nt_hashset_iter_next hs it of
        Inl err \<Rightarrow> Some (Inl err)
      | Inr (it', None) \<Rightarrow> Some (Inr (hs, []))
      | Inr (it', Some e) \<Rightarrow>
          (if P e then
             (case nt_hashset_iter_remove hs it' of
                Inl err \<Rightarrow> Some (Inl err)
              | Inr (hs', it'') \<Rightarrow> map_option (map_sum id (apsnd (Cons e))) (iter_filter P k hs' it''))
           else map_option (map_sum id (apsnd (Cons e))) (iter_filter P k hs it')))"

lemma on_entry_passed: "on_entry sl it pre e rest \<Longrightarrow> iter_at sl it (pre @ [e]) rest"
  by (auto simp: iter_at_def)

lemma iter_filter_spec:
  "hs_slots hs = Some sl \<Longrightarrow> hs_num_slots hs = length sl \<Longrightarrow> distinct (map hse_addr (concat sl)) \<Longrightarrow>
   iter_at sl it pre rest \<Longrightarrow> hs_num_data hs = length (pre @ rest) \<Longrightarrow>
   \<exists>hs'. iter_filter P (Suc (length rest)) hs it = Some (Inr (hs', rest)) \<and>
     hs_all hs' = pre @ filter (\<lambda>e. \<not> P e) rest \<and> hs_num_data hs' = length (hs_all hs') \<and>
     hs_freed hs' = hs_freed hs @ map hse_addr (filter P rest)"
proof (induction rest arbitrary: hs sl it pre)
  case Nil
  obtain it' where "nt_hashset_iter_next hs it = Inr (it', None)"
    using iter_next_spec(1) [OF Nil.prems(1-4)] by blast
  then show ?case using Nil.prems iter_at_concat [OF Nil.prems(4)] by (simp add: hs_all_def)
next
  case (Cons e rest)
  obtain it1 where it1: "nt_hashset_iter_next hs it = Inr (it1, Some e)" "on_entry sl it1 pre e rest"
    using iter_next_spec(2) [OF Cons.prems(1-4)] by blast
  show ?case
  proof (cases "P e")
    case False
    obtain hs' where "iter_filter P (Suc (length rest)) hs it1 = Some (Inr (hs', rest))"
        "hs_all hs' = (pre @ [e]) @ filter (\<lambda>e. \<not> P e) rest" "hs_num_data hs' = length (hs_all hs')"
        "hs_freed hs' = hs_freed hs @ map hse_addr (filter P rest)"
      using Cons.IH [OF Cons.prems(1-3) on_entry_passed [OF it1(2)]] Cons.prems(5) by auto
    then show ?thesis using it1(1) False by simp
  next
    case True
    obtain hs1 it2 sl1 where r: "nt_hashset_iter_remove hs it1 = Inr (hs1, it2)" "hs_slots hs1 = Some sl1"
        "hs_num_slots hs1 = length sl1" "iter_at sl1 it2 pre rest" "hs_num_data hs1 = hs_num_data hs - 1"
        "hs_freed hs1 = hs_freed hs @ [hse_addr e]"
      using iter_remove_spec [OF Cons.prems(1-3) it1(2)] by blast
    have "concat sl = pre @ e # rest" "concat sl1 = pre @ rest"
      using iter_at_concat [OF Cons.prems(4)] iter_at_concat [OF r(4)] by simp_all
    then have "distinct (map hse_addr (concat sl1))" using Cons.prems(3) by auto
    then obtain hs' where "iter_filter P (Suc (length rest)) hs1 it2 = Some (Inr (hs', rest))"
        "hs_all hs' = pre @ filter (\<lambda>e. \<not> P e) rest" "hs_num_data hs' = length (hs_all hs')"
        "hs_freed hs' = hs_freed hs1 @ map hse_addr (filter P rest)"
      using Cons.IH [OF r(2,3) _ r(4)] Cons.prems(5) r(5) by auto
    then show ?thesis using it1(1) r True by simp
  qed
qed

text \<open>
  C12: A client that iterates over the set and removes entries through its iterator as it goes
  visits every entry exactly once and ends; exactly the removed entries are freed, each once,
  the others stay in their order, and \<open>num_data\<close> is right.
\<close>

theorem hashset_iteration_complete:
  assumes "hs_slots hs = Some sl" "hs_num_slots hs = length sl" "hs_num_data hs = length (concat sl)"
    and "distinct (map hse_addr (concat sl))"
  shows "\<exists>hs'. iter_filter P (Suc (length (concat sl))) hs (nt_hashset_iter_reset it) = Some (Inr (hs', concat sl)) \<and>
    hs_all hs' = filter (\<lambda>e. \<not> P e) (concat sl) \<and> hs_num_data hs' = length (hs_all hs') \<and>
    hs_freed hs' = hs_freed hs @ map hse_addr (filter P (concat sl))"
proof -
  have "before_slot sl (nt_hashset_iter_reset it) [] (concat sl)"
    by (simp add: before_slot_def nt_hashset_iter_reset_def ITER_START_def)
  then have "iter_at sl (nt_hashset_iter_reset it) [] (concat sl)" by (simp add: iter_at_def)
  then show ?thesis using iter_filter_spec [OF assms(1,2,4)] assms(3) by fastforce
qed

text \<open>A set of three entries in two slots, of which the first of each slot is removed.\<close>

abbreviation demo_entry :: "nat \<Rightarrow> hs_entry" where
  "demo_entry a \<equiv> \<lparr>hse_addr = a, hse_hash = 0, hse_data = []\<rparr>"

definition demo_set :: nt_hashset where
  "demo_set = \<lparr>hs_slots = Some [[demo_entry 1, demo_entry 2], [], [demo_entry 3]], hs_num_slots = 3, hs_num_data = 3,
     hs_hash_func = (\<lambda>_. 0), hs_compare_func = (\<lambda>_ _. 0), hs_clean_func = False, hs_freed = [], hs_cleaned = []\<rparr>"

theorem hashset_iteration_complete_witness:
  "\<exists>hs'. iter_filter (\<lambda>e. odd (hse_addr e)) 4 demo_set \<lparr>it_slot = -1, it_entry = None\<rparr> =
     Some (Inr (hs', [demo_entry 1, demo_entry 2, demo_entry 3])) \<and> hs_all hs' = [demo_entry 2] \<and> hs_freed hs' = [1, 3]"
proof -
  let ?sl = "[[demo_entry 1, demo_entry 2], [], [demo_entry 3]]" and ?it = "\<lparr>it_slot = -1, it_entry = None\<rparr>"
  have n: "Suc (length (concat ?sl)) = 4" by simp
  have "nt_hashset_iter_reset ?it = ?it" by (simp add: nt_hashset_iter_reset_def ITER_START_def)
  moreover have "hs_slots demo_set = Some ?sl" "hs_num_slots demo_set = length ?sl" "hs_num_data demo_set = length (concat ?sl)"
      "distinct (map hse_addr (concat ?sl))" "hs_freed demo_set = []" by (simp_all add: demo_set_def)
  ultimately show ?thesis
    using hashset_iteration_complete [of demo_set ?sl "\<lambda>e. odd (hse_addr e)" ?it] unfolding n
    by (auto simp del: iter_filter.simps)
qed

section \<open>Keys and values\<close>

lemma u64_bytes_length [simp]: "length (u64_bytes v) = 8"
  by (simp add: u64_bytes_def)

text \<open>
  \<open>nt_hashset_insert_kv\<close> does not store the key. The bytes it copies begin behind the key
  pointer, so the key field of the entry keeps what the memory function left there; it copies as
  many bytes as the key and the value are long, which runs past the 16-byte structure when they
  are more than 16, and past all that can be read behind it when they are longer still, and wraps around
  when they are less than 8.
\<close>

theorem hashset_kv_key_not_stored:
  assumes "val_ptr \<noteq> 0"
    and r_def: "r = nt_hashset_insert_kv True True (Some (a, old)) (nt_hashset_create True 0 hash cmp) key_ptr val_ptr behind key sz"
  shows "(length key + sz < 8 \<longrightarrow> r = Inl Size_Underflow) \<and>
    (8 \<le> length key + sz \<and> 16 + length behind < length key + sz \<longrightarrow> r = Inl Over_Read) \<and>
    (8 \<le> length key + sz \<and> length key + sz \<le> 16 + length behind \<longrightarrow> (\<exists>hs. r = Inr (hs, Some a) \<and>
      map hse_data (hs_all hs) = [take 8 old @ take (length key + sz - 8) (u64_bytes val_ptr @ behind)]))"
proof -
  let ?d = "kv_bytes key_ptr val_ptr @ behind" and ?z = "length key + sz"
  obtain p where p: "next_prime 10 = p" "5 \<le> p" using next_prime_ge [of 10] by auto
  define hs where "hs = nt_hashset_create True 0 hash cmp"
  define n where "n = nat p"
  have n: "5 \<le> n" "nat (next_prime 10) = n" using p by (simp_all add: n_def)
  have i: "nt_hashset_init_slots True hs 10 = (hs\<lparr>hs_num_data := 0, hs_num_slots := n, hs_slots := Some (replicate n [])\<rparr>, SUCCEED)"
    using n by (simp add: nt_hashset_init_slots_def)
  have h: "hs_num_slots hs = 0" "hs_hash_func hs = hash"
    by (simp_all add: hs_def nt_hashset_create_def nt_hashset_create_ext_def nt_hashset_init_slots_def)
  have s: "unat (hash ?d) mod n < n" using n by simp
  have cp: "copy_data old ?d ?z 8 = (if ?z < 8 then Inl Size_Underflow else if 16 + length behind < ?z then Inl Over_Read
      else Inr (take 8 old @ take (?z - 8) (u64_bytes val_ptr @ behind)))"
    by (simp add: copy_data_def kv_bytes_def)
  have "\<not> n * 4 div 5 \<le> 1" using n(1) by presburger
  then have r: "r = (case copy_data old ?d ?z 8 of Inl err \<Rightarrow> Inl err
      | Inr bytes \<Rightarrow> Inr (hs\<lparr>hs_num_slots := n, hs_slots := Some ((replicate n [])[unat (hash ?d) mod n :=
          [\<lparr>hse_addr = a, hse_hash = hash ?d, hse_data = bytes\<rparr>]]), hs_num_data := 1\<rparr>, Some a))"
    using assms(1) h i s
    by (simp add: r_def hs_def [symmetric] nt_hashset_insert_kv_def nt_hashset_insert_ext_def hs_insert_hashed_def hs_slot_def
        find_in_chain_def Let_def split: sum.split)
  have "concat ((replicate n [])[unat (hash ?d) mod n := [e]]) = [e]" for e :: hs_entry
    using mset_concat_update [of "unat (hash ?d) mod n" "replicate n []" "[e]"] s by simp
  then show ?thesis unfolding r cp by (simp add: hs_all_def)
qed

theorem hashset_kv_key_not_stored_witness:
  "nt_hashset_insert_kv True True (Some (1, replicate 8 0)) (nt_hashset_create True 0 (\<lambda>_. 0) (\<lambda>_ _. 0)) 4096 8192 []
     [110, 97, 109, 101] 100 = Inl Over_Read"
  using hashset_kv_key_not_stored [OF _ refl, where val_ptr = 8192 and key = "[110, 97, 109, 101]" and sz = 100 and behind = "[]"
      and a = 1 and old = "replicate 8 0" and hash = "\<lambda>_. 0" and cmp = "\<lambda>_ _. 0" and key_ptr = 4096]
  by simp

end
