(* ===== verification/Sha1.thy ===== *)
theory Sha1
  imports Prelude
begin

text \<open>
  The SHA-1 code of nt_ptcl.c, with its in-place message schedule, its renamed working variables
  and its streaming interface, for a little-endian machine; and the hash function of FIPS 180-4,
  against which it is proved.
\<close>

section \<open>The code\<close>

text \<open>The \<open>rol\<close>, \<open>blk0\<close> macros; the \<open>uint32_t\<close> that a little-endian machine sees in four bytes.\<close>

definition rol :: "u32 \<Rightarrow> nat \<Rightarrow> u32" where
  "rol w n = push_bit n w OR drop_bit (32 - n) w"

definition le32 :: "u8 list \<Rightarrow> u32" where
  "le32 p = ucast (p ! 0) OR push_bit 8 (ucast (p ! 1)) OR push_bit 16 (ucast (p ! 2)) OR push_bit 24 (ucast (p ! 3))"

definition blk0 :: "u32 \<Rightarrow> u32" where
  "blk0 l = (rol l 24 AND 0xFF00FF00) OR (rol l 8 AND 0x00FF00FF)"

definition blk :: "u32 list \<Rightarrow> nat \<Rightarrow> u32" where
  "blk l i = rol (l ! ((i + 13) mod 16) XOR l ! ((i + 8) mod 16) XOR l ! ((i + 2) mod 16) XOR l ! (i mod 16)) 1"

text \<open>The functions and constants of the macros \<open>R0\<close> to \<open>R4\<close>, by the round that uses them.\<close>

definition round_f :: "nat \<Rightarrow> u32 \<Rightarrow> u32 \<Rightarrow> u32 \<Rightarrow> u32" where
  "round_f i w x y =
     (if i < 20 then (w AND (x XOR y)) XOR y
      else if i < 40 then w XOR x XOR y
      else if i < 60 then ((w OR x) AND y) OR (w AND x)
      else w XOR x XOR y)"

definition round_k :: "nat \<Rightarrow> u32" where
  "round_k i = (if i < 20 then 0x5A827999 else if i < 40 then 0x6ED9EBA1 else if i < 60 then 0x8F1BBCDC else 0xCA62C1D6)"

text \<open>
  One of the 80 macro calls. The working variables \<open>a\<close> to \<open>e\<close> are \<open>vs ! 0\<close> to \<open>vs ! 4\<close>; from one
  call to the next the parameters \<open>v, w, x, y, z\<close> move down by one variable.
\<close>

definition sha1_round :: "u32 list \<times> u32 list \<Rightarrow> nat \<Rightarrow> u32 list \<times> u32 list" where
  "sha1_round = (\<lambda>(l, vs) i.
     let v = (5 - i mod 5) mod 5; w = (v + 1) mod 5; x = (v + 2) mod 5; y = (v + 3) mod 5; z = (v + 4) mod 5;
         b = (if i < 16 then blk0 (l ! i) else blk l i);
         l = l[i mod 16 := b];
         vs = vs[z := vs ! z + (round_f i (vs ! w) (vs ! x) (vs ! y) + b + round_k i + rol (vs ! v) 5)];
         vs = vs[w := rol (vs ! w) 30]
     in (l, vs))"

definition SHA1Transform :: "u32 list \<Rightarrow> u8 list \<Rightarrow> u32 list" where
  "SHA1Transform st buffer =
     (let l = map (\<lambda>i. le32 (drop (4 * i) buffer)) [0..<16];
          (l, vs) = foldl sha1_round (l, st) [0..<80]
      in map2 (+) st vs)"

record sha1_ctx =
  sha_state :: "u32 list"
  sha_count0 :: u32
  sha_count1 :: u32
  sha_buffer :: "u8 list"

definition sha1_iv :: "u32 list" where
  "sha1_iv = [0x67452301, 0xEFCDAB89, 0x98BADCFE, 0x10325476, 0xC3D2E1F0]"

definition SHA1Init :: "sha1_ctx \<Rightarrow> sha1_ctx" where
  "SHA1Init c = c\<lparr>sha_state := sha1_iv, sha_count0 := 0, sha_count1 := 0\<rparr>"

text \<open>
  \<open>len\<close>, \<open>i\<close> and \<open>j\<close> are \<open>uint32_t\<close>, so their sums are taken modulo \<open>2 ^ 32\<close>; the loop over the
  whole blocks may not end for a length close to that.
\<close>

partial_function (option) update_loop :: "u32 list \<Rightarrow> u8 list \<Rightarrow> nat \<Rightarrow> (u32 list \<times> nat) option" where
  "update_loop st data i =
     (if (i + 63) mod 2 ^ 32 < length data
      then update_loop (SHA1Transform st (take 64 (drop i data))) data ((i + 64) mod 2 ^ 32)
      else Some (st, i))"

text \<open>\<open>memcpy(&buffer[j], p, length p)\<close>\<close>

definition put_bytes :: "u8 list \<Rightarrow> nat \<Rightarrow> u8 list \<Rightarrow> u8 list" where
  "put_bytes buffer j p = take j buffer @ p @ drop (j + length p) buffer"

definition SHA1Update :: "sha1_ctx \<Rightarrow> u8 list \<Rightarrow> sha1_ctx option" where
  "SHA1Update c data =
     (let len = of_nat (length data) :: u32;
          j = sha_count0 c;
          c = c\<lparr>sha_count0 := j + push_bit 3 len\<rparr>;
          c = (if sha_count0 c < j then c\<lparr>sha_count1 := sha_count1 c + 1\<rparr> else c);
          c = c\<lparr>sha_count1 := sha_count1 c + drop_bit 29 len\<rparr>;
          j = unat (take_bit 6 (drop_bit 3 j))
      in if 63 < (j + length data) mod 2 ^ 32 then
           (let buffer = put_bytes (sha_buffer c) j (take (64 - j) data)
            in case update_loop (SHA1Transform (sha_state c) buffer) data (64 - j) of
                 None \<Rightarrow> None
               | Some (st, i) \<Rightarrow>
                   Some (c\<lparr>sha_state := st, sha_buffer := put_bytes buffer 0 (drop i data)\<rparr>))
         else Some (c\<lparr>sha_buffer := put_bytes (sha_buffer c) j data\<rparr>))"

text \<open>The loop that appends zero bytes until 8 bytes are left in the block.\<close>

partial_function (option) pad_loop :: "sha1_ctx \<Rightarrow> sha1_ctx option" where
  "pad_loop c =
     (if sha_count0 c AND 504 \<noteq> 448 then
        (case SHA1Update c [0] of None \<Rightarrow> None | Some c' \<Rightarrow> pad_loop c')
      else Some c)"

text \<open>The digest and the context, which is wiped.\<close>

definition SHA1Final :: "sha1_ctx \<Rightarrow> (u8 list \<times> sha1_ctx) option" where
  "SHA1Final c =
     (let finalcount = map (\<lambda>i. ucast (drop_bit ((3 - i mod 4) * 8) (if 4 \<le> i then sha_count0 c else sha_count1 c)))
            [0..<8] :: u8 list
      in case SHA1Update c [0x80] of
           None \<Rightarrow> None
         | Some c \<Rightarrow>
             (case pad_loop c of
                None \<Rightarrow> None
              | Some c \<Rightarrow>
                  (case SHA1Update c finalcount of
                     None \<Rightarrow> None
                   | Some c \<Rightarrow>
                       Some (map (\<lambda>i. ucast (drop_bit ((3 - i mod 4) * 8) (sha_state c ! (i div 4)))) [0..<20],
                             \<lparr>sha_state = replicate 5 0, sha_count0 = 0, sha_count1 = 0,
                              sha_buffer = replicate 64 0\<rparr>))))"

text \<open>\<open>update_all\<close>: the loop of \<open>SHA1\<close>, one call per byte. \<open>ctx\<close> is the uninitialised local.\<close>

fun update_all :: "sha1_ctx \<Rightarrow> u8 list \<Rightarrow> sha1_ctx option" where
  "update_all c [] = Some c"
| "update_all c (b # bs) = (case SHA1Update c [b] of None \<Rightarrow> None | Some c' \<Rightarrow> update_all c' bs)"

definition SHA1 :: "sha1_ctx \<Rightarrow> u8 list \<Rightarrow> u8 list option" where
  "SHA1 ctx str =
     (case update_all (SHA1Init ctx) str of
        None \<Rightarrow> None
      | Some c \<Rightarrow> map_option fst (SHA1Final c))"

section \<open>FIPS 180-4\<close>

definition be32 :: "u8 list \<Rightarrow> u32" where
  "be32 p = push_bit 24 (ucast (p ! 0)) OR push_bit 16 (ucast (p ! 1)) OR push_bit 8 (ucast (p ! 2)) OR ucast (p ! 3)"

definition rotl :: "nat \<Rightarrow> u32 \<Rightarrow> u32" where
  "rotl n x = word_rotl n x"

definition Ch :: "u32 \<Rightarrow> u32 \<Rightarrow> u32 \<Rightarrow> u32" where
  "Ch x y z = (x AND y) XOR (NOT x AND z)"

definition Parity :: "u32 \<Rightarrow> u32 \<Rightarrow> u32 \<Rightarrow> u32" where
  "Parity x y z = x XOR y XOR z"

definition Maj :: "u32 \<Rightarrow> u32 \<Rightarrow> u32 \<Rightarrow> u32" where
  "Maj x y z = (x AND y) XOR (x AND z) XOR (y AND z)"

definition fips_f :: "nat \<Rightarrow> u32 \<Rightarrow> u32 \<Rightarrow> u32 \<Rightarrow> u32" where
  "fips_f t = (if t < 20 then Ch else if t < 40 then Parity else if t < 60 then Maj else Parity)"

definition fips_K :: "nat \<Rightarrow> u32" where
  "fips_K t = [0x5A827999, 0x6ED9EBA1, 0x8F1BBCDC, 0xCA62C1D6] ! (t div 20)"

text \<open>The message schedule: its first \<open>n\<close> words.\<close>

fun fips_schedule :: "u8 list \<Rightarrow> nat \<Rightarrow> u32 list" where
  "fips_schedule M 0 = []"
| "fips_schedule M (Suc t) =
     (let W = fips_schedule M t
      in W @ [if t < 16 then be32 (drop (4 * t) M)
              else rotl 1 (W ! (t - 3) XOR W ! (t - 8) XOR W ! (t - 14) XOR W ! (t - 16))])"

definition fips_W :: "u8 list \<Rightarrow> nat \<Rightarrow> u32" where
  "fips_W M t = fips_schedule M 80 ! t"

type_synonym regs = "u32 \<times> u32 \<times> u32 \<times> u32 \<times> u32"

definition fips_step :: "u8 list \<Rightarrow> regs \<Rightarrow> nat \<Rightarrow> regs" where
  "fips_step M = (\<lambda>(a, b, c, d, e) t.
     let T = rotl 5 a + fips_f t b c d + e + fips_K t + fips_W M t
     in (T, a, rotl 30 b, c, d))"

definition fips_compress :: "regs \<Rightarrow> u8 list \<Rightarrow> regs" where
  "fips_compress H M =
     (case H of (h0, h1, h2, h3, h4) \<Rightarrow>
        case foldl (fips_step M) H [0..<80] of (a, b, c, d, e) \<Rightarrow> (a + h0, b + h1, c + h2, d + h3, e + h4))"

definition be_bytes :: "nat \<Rightarrow> nat \<Rightarrow> u8 list" where
  "be_bytes n v = map (\<lambda>i. of_nat (v div 256 ^ (n - 1 - i))) [0..<n]"

definition fips_pad :: "u8 list \<Rightarrow> u8 list" where
  "fips_pad m = m @ [0x80] @ replicate ((119 - length m mod 64) mod 64) 0 @ be_bytes 8 (8 * length m)"

fun blocks :: "nat \<Rightarrow> u8 list \<Rightarrow> u8 list list" where
  "blocks 0 m = []"
| "blocks (Suc n) m = take 64 m # blocks n (drop 64 m)"

definition fips_hash :: "u8 list \<Rightarrow> regs" where
  "fips_hash p =
     foldl fips_compress (0x67452301, 0xEFCDAB89, 0x98BADCFE, 0x10325476, 0xC3D2E1F0) (blocks (length p div 64) p)"

definition fips_sha1 :: "u8 list \<Rightarrow> u8 list" where
  "fips_sha1 m =
     (case fips_hash (fips_pad m) of (a, b, c, d, e) \<Rightarrow> concat (map (\<lambda>h. be_bytes 4 (unat h)) [a, b, c, d, e]))"

end
