(* ===== verification/Sha1_Correct.thy ===== *)
theory Sha1_Correct
  imports Sha1
begin

text \<open>
  The block function of the code is that of FIPS 180-4: the byte order, the rotating names of the
  working variables and the in-place message schedule are shown away here.
\<close>

section \<open>Bits\<close>

lemma rol_rotl:
  assumes "0 < n" "n < 32"
  shows "rol w n = rotl n w"
  unfolding rol_def rotl_def
proof (rule bit_word_eqI)
  fix k assume "k < LENGTH(32)"
  then have k: "k < 32" by simp
  have "(k + 32 - n) mod 32 = (if n \<le> k then k - n else k + 32 - n)"
    using assms k by (auto simp: le_mod_geq)
  moreover have "\<not> bit w (k + 32 - n)" if "n \<le> k"
    using that by (auto dest: bit_imp_le_length)
  ultimately show "bit (push_bit n w OR drop_bit (32 - n) w) k \<longleftrightarrow> bit (word_rotl n w) k"
    using assms k by (auto simp: bit_simps add.commute [of 32])
qed

lemma less_32_cases:
  assumes "(k::nat) < 32"
    "P 0" "P 1" "P 2" "P 3" "P 4" "P 5" "P 6" "P 7" "P 8" "P 9" "P 10" "P 11" "P 12" "P 13" "P 14" "P 15" "P 16"
    "P 17" "P 18" "P 19" "P 20" "P 21" "P 22" "P 23" "P 24" "P 25" "P 26" "P 27" "P 28" "P 29" "P 30" "P 31"
  shows "P k"
proof -
  have "k \<in> set [0..<32]" using assms(1) by simp
  moreover have "[0..<32] = [0, 1, 2, 3, 4, 5, 6, 7, 8, 9, 10, 11, 12, 13, 14, 15, 16, 17, 18, 19, 20, 21, 22, 23,
      24, 25, 26, 27, 28, 29, 30, 31::nat]" by (simp add: upt_rec)
  ultimately show ?thesis using assms(2-) by auto
qed

lemma byte_high_bits:
  assumes "8 \<le> n"
  shows "bit (b::u8) n \<longleftrightarrow> False"
  using assms by (auto dest: bit_imp_le_length)

lemma blk0_le32: "blk0 (le32 p) = be32 p"
proof (rule bit_word_eqI)
  fix k assume "k < LENGTH(32)"
  then have "k < 32" by simp
  then show "bit (blk0 (le32 p)) k \<longleftrightarrow> bit (be32 p) k"
    by (rule less_32_cases)
      (simp_all add: blk0_def rol_def le32_def be32_def bit_simps byte_high_bits)
qed

lemma round_f_fips: "round_f i x y z = fips_f i x y z"
proof -
  have "(x AND (y XOR z)) XOR z = Ch x y z" for x y z :: u32
    unfolding Ch_def by (rule bit_word_eqI) (auto simp: bit_simps)
  moreover have "((x OR y) AND z) OR (x AND y) = Maj x y z" for x y z :: u32
    unfolding Maj_def by (rule bit_word_eqI) (auto simp: bit_simps)
  ultimately show ?thesis by (simp add: round_f_def fips_f_def Parity_def)
qed

lemma round_k_fips:
  assumes "i < 80"
  shows "round_k i = fips_K i"
proof -
  have "i div 20 = 0 \<and> i < 20 \<or> i div 20 = 1 \<and> 20 \<le> i \<and> i < 40 \<or> i div 20 = 2 \<and> 40 \<le> i \<and> i < 60
      \<or> i div 20 = 3 \<and> 60 \<le> i" using assms by linarith
  then show ?thesis unfolding round_k_def fips_K_def by (elim disjE conjE) simp_all
qed

section \<open>The message schedule\<close>

lemma length_schedule[simp]: "length (fips_schedule M n) = n"
  by (induction n) (simp_all add: Let_def)

lemma schedule_nth: "t < n \<Longrightarrow> n \<le> k \<Longrightarrow> fips_schedule M k ! t = fips_schedule M n ! t"
proof (induction k)
  case (Suc k)
  then show ?case by (cases "n = Suc k") (simp_all add: Let_def nth_append del: fips_schedule.simps(2), simp add: Let_def nth_append)
qed simp

lemma fips_W_rec:
  assumes "t < 80"
  shows "fips_W M t = (if t < 16 then be32 (drop (4 * t) M)
      else rotl 1 (fips_W M (t - 3) XOR fips_W M (t - 8) XOR fips_W M (t - 14) XOR fips_W M (t - 16)))"
proof -
  have W: "fips_W M s = fips_schedule M (Suc s) ! s" if "s < 80" for s
    unfolding fips_W_def using that by (intro schedule_nth) simp_all
  have W': "fips_schedule M t ! s = fips_W M s" if "s < t" for s
    unfolding fips_W_def using that assms by (intro schedule_nth [symmetric]) simp_all
  show ?thesis
    unfolding W [OF assms] by (simp add: Let_def nth_append W')
qed

definition schedule_inv :: "u8 list \<Rightarrow> nat \<Rightarrow> u32 list \<Rightarrow> bool" where
  "schedule_inv M i l \<longleftrightarrow> length l = 16
     \<and> (\<forall>t. t < i \<and> i \<le> t + 16 \<longrightarrow> l ! (t mod 16) = fips_W M t)
     \<and> (\<forall>t<16. i \<le> t \<longrightarrow> l ! t = le32 (drop (4 * t) M))"

lemma schedule_word:
  assumes inv: "schedule_inv M i l" and i: "i < 80"
  shows "(if i < 16 then blk0 (l ! i) else blk l i) = fips_W M i"
proof (cases "i < 16")
  case True
  with inv have "l ! i = le32 (drop (4 * i) M)" unfolding schedule_inv_def by simp
  with True i show ?thesis by (simp add: blk0_le32 fips_W_rec)
next
  case False
  have old: "l ! ((i + k) mod 16) = fips_W M (i + k - 16)" if "k < 16" for k
  proof -
    have "(i + k) mod 16 = (i + k - 16) mod 16" using False that by (simp add: le_mod_geq)
    then show ?thesis using inv False that unfolding schedule_inv_def by simp
  qed
  have "i + 13 - 16 = i - 3" "i + 8 - 16 = i - 8" "i + 2 - 16 = i - 14" using False by simp_all
  then show ?thesis
    using False i old [of 13] old [of 8] old [of 2] old [of 0] by (simp add: blk_def rol_rotl fips_W_rec)
qed

lemma schedule_inv_step:
  assumes inv: "schedule_inv M i l"
  shows "schedule_inv M (Suc i) (l[i mod 16 := fips_W M i])"
proof -
  have "l[i mod 16 := fips_W M i] ! (t mod 16) = fips_W M t" if t: "t < Suc i" "Suc i \<le> t + 16" for t
  proof (cases "t = i")
    case False
    have "t mod 16 \<noteq> i mod 16"
    proof
      assume "t mod 16 = i mod 16"
      then have "16 dvd i - t" using t mod_eq_dvd_iff_nat [of t i 16] by simp
      with False t show False by (auto dest: dvd_imp_le)
    qed
    with False t inv show ?thesis unfolding schedule_inv_def by simp
  qed (use inv in \<open>simp add: schedule_inv_def\<close>)
  then show ?thesis using inv unfolding schedule_inv_def by simp
qed

section \<open>The rounds\<close>

text \<open>The working variables in the order the next round sees them.\<close>

definition regs_of :: "nat \<Rightarrow> u32 list \<Rightarrow> regs" where
  "regs_of i vs = (let v = (5 - i mod 5) mod 5
     in (vs ! v, vs ! ((v + 1) mod 5), vs ! ((v + 2) mod 5), vs ! ((v + 3) mod 5), vs ! ((v + 4) mod 5)))"

lemma round_regs:
  assumes vs: "length vs = 5" and v: "v = (5 - i mod 5) mod 5"
    and w: "w = (v + 1) mod 5" and x: "x = (v + 2) mod 5" and y: "y = (v + 3) mod 5" and z: "z = (v + 4) mod 5"
  shows "regs_of i vs = (vs ! v, vs ! w, vs ! x, vs ! y, vs ! z)"
    "regs_of (Suc i) (vs[z := T, w := rotl 30 (vs[z := T] ! w)]) = (T, vs ! v, rotl 30 (vs ! w), vs ! x, vs ! y)"
proof -
  show "regs_of i vs = (vs ! v, vs ! w, vs ! x, vs ! y, vs ! z)"
    unfolding regs_of_def Let_def v [symmetric] w [symmetric] x [symmetric] y [symmetric] z [symmetric] ..
  have s: "Suc i mod 5 = (if i mod 5 = 4 then 0 else i mod 5 + 1)" by presburger
  have "i mod 5 < 5" by simp
  then consider "i mod 5 = 0" | "i mod 5 = 1" | "i mod 5 = 2" | "i mod 5 = 3" | "i mod 5 = 4" by linarith
  then show "regs_of (Suc i) (vs[z := T, w := rotl 30 (vs[z := T] ! w)]) = (T, vs ! v, rotl 30 (vs ! w), vs ! x, vs ! y)"
    by cases (simp_all add: regs_of_def vs s v w x y z numeral_2_eq_2)
qed

lemma sha1_round_fips:
  assumes inv: "schedule_inv M i l" and i: "i < 80" and vs: "length vs = 5"
  shows "\<exists>l' vs'. sha1_round (l, vs) i = (l', vs') \<and> schedule_inv M (Suc i) l' \<and> length vs' = 5
      \<and> regs_of (Suc i) vs' = fips_step M (regs_of i vs) i"
proof -
  have rol: "rol w 5 = rotl 5 w" "rol w 30 = rotl 30 w" for w by (simp_all add: rol_rotl)
  define v where "v = (5 - i mod 5) mod 5"
  define w where "w = (v + 1) mod 5"
  define x where "x = (v + 2) mod 5"
  define y where "y = (v + 3) mod 5"
  define z where "z = (v + 4) mod 5"
  define T where "T = vs ! z + (fips_f i (vs ! w) (vs ! x) (vs ! y) + fips_W M i + fips_K i + rotl 5 (vs ! v))"
  note regs = round_regs [OF vs v_def w_def x_def y_def z_def]
  have "sha1_round (l, vs) i = (l[i mod 16 := fips_W M i], vs[z := T, w := rotl 30 (vs[z := T] ! w)])"
    unfolding sha1_round_def Let_def prod.case schedule_word [OF inv i] round_f_fips round_k_fips [OF i] rol
      v_def [symmetric] w_def [symmetric] x_def [symmetric] y_def [symmetric] z_def [symmetric] T_def ..
  moreover have "fips_step M (regs_of i vs) i = (T, vs ! v, rotl 30 (vs ! w), vs ! x, vs ! y)"
    unfolding regs(1) fips_step_def Let_def prod.case T_def by (simp only: ac_simps)
  ultimately show ?thesis
    using schedule_inv_step [OF inv] vs regs(2) [of T] by simp
qed

lemma sha1_rounds_fips:
  assumes "n \<le> 80" "schedule_inv M 0 l" "length vs = 5"
  shows "\<exists>l' vs'. foldl sha1_round (l, vs) [0..<n] = (l', vs') \<and> schedule_inv M n l' \<and> length vs' = 5
      \<and> regs_of n vs' = foldl (fips_step M) (regs_of 0 vs) [0..<n]"
  using assms(1)
proof (induction n)
  case (Suc n)
  then obtain l' vs' where "foldl sha1_round (l, vs) [0..<n] = (l', vs')" "schedule_inv M n l'" "length vs' = 5"
    "regs_of n vs' = foldl (fips_step M) (regs_of 0 vs) [0..<n]" by auto
  with sha1_round_fips [of M n l' vs'] Suc.prems show ?case by auto
qed (use assms in simp)

fun regs_list :: "regs \<Rightarrow> u32 list" where
  "regs_list (a, b, c, d, e) = [a, b, c, d, e]"

lemma length_regs_list[simp]: "length (regs_list H) = 5" by (cases H) auto

lemma SHA1Transform_fips:
  assumes "64 \<le> length M"
  shows "SHA1Transform (regs_list H) M = regs_list (fips_compress H M)"
proof -
  obtain h0 h1 h2 h3 h4 where H: "H = (h0, h1, h2, h3, h4)" by (cases H)
  have "schedule_inv M 0 (map (\<lambda>i. le32 (drop (4 * i) M)) [0..<16])"
    unfolding schedule_inv_def by simp
  from sha1_rounds_fips [OF le_refl this, of "regs_list H"] obtain l' vs' where
    r: "foldl sha1_round (map (\<lambda>i. le32 (drop (4 * i) M)) [0..<16], regs_list H) [0..<80] = (l', vs')"
    and vs: "length vs' = 5"
    and regs: "regs_of 80 vs' = foldl (fips_step M) (regs_of 0 (regs_list H)) [0..<80]" by auto
  obtain a b c d e where v: "vs' = [a, b, c, d, e]" using vs by (auto simp: length_Suc_conv eval_nat_numeral)
  have "foldl (fips_step M) H [0..<80] = (a, b, c, d, e)"
    using regs unfolding v H regs_of_def Let_def by simp
  then show ?thesis
    unfolding SHA1Transform_def Let_def r prod.case v fips_compress_def by (simp add: H ac_simps)
qed

end
