(* ===== verification/Sha1_Stream.thy ===== *)
theory Sha1_Stream
  imports Sha1_Correct
begin

text \<open>
  The streaming interface: what a context stands for (the bytes hashed so far), every update
  appends to them, the padding loop ends, and the digest is that of FIPS 180-4.
\<close>

section \<open>Blocks\<close>

lemma blocks_append: "length p = 64 * n \<Longrightarrow> blocks (n + k) (p @ q) = blocks n p @ blocks k q"
  by (induction n arbitrary: p) simp_all

lemma blocks_prefix: "64 * k \<le> length q \<Longrightarrow> blocks k (q @ r) = blocks k q"
  by (induction k arbitrary: q) simp_all

definition hash_from :: "regs \<Rightarrow> nat \<Rightarrow> u8 list \<Rightarrow> regs" where
  "hash_from H k q = foldl fips_compress H (blocks k q)"

lemma hash_from_add: "length p = 64 * n \<Longrightarrow> hash_from H (n + k) (p @ q) = hash_from (hash_from H n p) k q"
  by (simp add: hash_from_def blocks_append)

lemma hash_from_Suc: "hash_from H (Suc k) q = hash_from (fips_compress H (take 64 q)) k (drop 64 q)"
  by (simp add: hash_from_def)

definition fips_iv :: regs where
  "fips_iv = (0x67452301, 0xEFCDAB89, 0x98BADCFE, 0x10325476, 0xC3D2E1F0)"

lemma fips_hash_eq: "fips_hash m = hash_from fips_iv (length m div 64) m"
  by (simp add: fips_hash_def hash_from_def fips_iv_def)

lemma fips_hash_whole:
  assumes "length p = 64 * n"
  shows "fips_hash (p @ q) = hash_from (hash_from fips_iv n p) (length q div 64) q"
  using assms by (simp add: fips_hash_eq hash_from_add)

lemma update_loop_hash:
  assumes "length data + 64 \<le> 2 ^ 32" "i + 64 * k \<le> length data" "length data < i + 64 * k + 64"
  shows "update_loop (regs_list H) data i = Some (regs_list (hash_from H k (drop i data)), i + 64 * k)"
  using assms(2-3)
proof (induction k arbitrary: i H)
  case 0
  with assms(1) show ?case
    by (subst update_loop.simps) (simp add: hash_from_def)
next
  case (Suc k)
  have "SHA1Transform (regs_list H) (take 64 (drop i data)) = regs_list (fips_compress H (take 64 (drop i data)))"
    using Suc.prems by (intro SHA1Transform_fips) simp
  with Suc.IH [of "i + 64"] Suc.prems assms(1) show ?case
    by (subst update_loop.simps) (simp add: hash_from_Suc add.commute)
qed

section \<open>What a context stands for\<close>

definition ctx_of :: "u8 list \<Rightarrow> sha1_ctx \<Rightarrow> bool" where
  "ctx_of m c \<longleftrightarrow> sha_state c = regs_list (fips_hash m)
     \<and> sha_count0 c = of_nat (8 * length m) \<and> sha_count1 c = of_nat (8 * length m div 2 ^ 32)
     \<and> length (sha_buffer c) = 64
     \<and> take (length m mod 64) (sha_buffer c) = drop (64 * (length m div 64)) m"

lemma ctx_of_init: "length (sha_buffer c) = 64 \<Longrightarrow> ctx_of [] (SHA1Init c)"
  by (simp add: ctx_of_def SHA1Init_def sha1_iv_def fips_hash_def)

lemma count_bytes: "unat (take_bit 6 (drop_bit 3 (of_nat (8 * n) :: u32))) = n mod 64"
proof -
  have "unat (take_bit 6 (drop_bit 3 w)) = unat w div 8 mod 64" for w :: u32
  proof -
    have "take_bit 32 (unat w) = unat w"
      using unsigned_less [of w, where 'a = nat] by (simp add: take_bit_nat_eq_self)
    then show ?thesis
      unfolding unsigned_take_bit_eq unsigned_drop_bit_eq
      by (simp add: take_bit_eq_mod drop_bit_eq_div)
  qed
  then have *: "unat (take_bit 6 (drop_bit 3 (of_nat X :: u32))) = X mod 2 ^ 32 div 8 mod 64" for X
    by (simp only: unat_of_nat) simp
  have "8 * n mod 2 ^ 32 = 8 * (n mod 2 ^ 29)" by (simp add: mult_mod_right)
  then show ?thesis unfolding * by (simp add: mod_mod_cancel)
qed

lemma count_carry:
  fixes n len :: nat
  defines "a \<equiv> of_nat (8 * n) :: u32" and "l \<equiv> of_nat len :: u32"
  assumes "len < 2 ^ 32"
  shows "a + push_bit 3 l = of_nat (8 * (n + len))"
    "(if a + push_bit 3 l < a then of_nat (8 * n div 2 ^ 32) + 1 else of_nat (8 * n div 2 ^ 32)) + drop_bit 29 l
       = (of_nat (8 * (n + len) div 2 ^ 32) :: u32)"
proof -
  show eq: "a + push_bit 3 l = of_nat (8 * (n + len))"
    by (simp add: a_def l_def push_bit_eq_mult)
  define A where "A = 8 * n"
  define B where "B = 8 * len"
  have d: "drop_bit 29 l = of_nat (B div 2 ^ 32)"
  proof -
    have "unat (drop_bit 29 l) = len div 2 ^ 29"
      using assms(3) unfolding l_def unsigned_drop_bit_eq
      by (simp add: unat_of_nat drop_bit_eq_div take_bit_nat_eq_self)
    moreover have "len div 2 ^ 29 = B div 2 ^ 32" unfolding B_def by simp
    ultimately show ?thesis by (metis of_nat_unat ucast_id)
  qed
  have lt: "a + push_bit 3 l < a \<longleftrightarrow> (A + B) mod 2 ^ 32 < A mod 2 ^ 32"
    unfolding eq unfolding a_def word_less_nat_alt unat_of_nat add_mult_distrib2 A_def B_def by (simp only: len_of_numeral_defs) simp
  have sum: "(A + B) div 2 ^ 32 = A div 2 ^ 32 + B div 2 ^ 32 + (if (A + B) mod 2 ^ 32 < A mod 2 ^ 32 then 1 else 0)"
  proof -
    define M where "M = (2::nat) ^ 32"
    have M: "0 < M" by (simp add: M_def)
    have 1: "A mod M < M" "B mod M < M" using M by simp_all
    have s: "(A + B) div M = A div M + B div M + (A mod M + B mod M) div M" by (rule div_add1_eq)
    have m: "(A + B) mod M = (A mod M + B mod M) mod M" by (rule mod_add_eq [symmetric])
    show ?thesis unfolding M_def [symmetric]
    proof (cases "A mod M + B mod M < M")
      case True
      then show "(A + B) div M = A div M + B div M + (if (A + B) mod M < A mod M then 1 else 0)"
        unfolding s m by simp
    next
      case False
      have "A mod M + B mod M - M < M" using 1 False by linarith
      with False have "(A mod M + B mod M) mod M = A mod M + B mod M - M" "(A mod M + B mod M) div M = 1"
        using M by (simp_all add: le_mod_geq le_div_geq)
      then show "(A + B) div M = A div M + B div M + (if (A + B) mod M < A mod M then 1 else 0)"
        unfolding s m using 1 False by simp
    qed
  qed
  have AB: "8 * (n + len) = A + B" by (simp add: A_def B_def)
  show "(if a + push_bit 3 l < a then of_nat (8 * n div 2 ^ 32) + 1 else of_nat (8 * n div 2 ^ 32)) + drop_bit 29 l
       = (of_nat (8 * (n + len) div 2 ^ 32) :: u32)"
    unfolding lt AB d A_def [symmetric] sum by simp
qed

lemma length_put_bytes[simp]: "j + length p \<le> length b \<Longrightarrow> length (put_bytes b j p) = length b"
  by (simp add: put_bytes_def)

lemma take_put_bytes: "j \<le> length b \<Longrightarrow> take (j + length p) (put_bytes b j p) = take j b @ p"
  by (simp add: put_bytes_def)

section \<open>Updates\<close>

lemma update_counts:
  assumes "ctx_of m c" "length data < 2 ^ 32"
  shows "\<exists>c1. SHA1Update c data =
      (if 63 < (length m mod 64 + length data) mod 2 ^ 32 then
         (let buffer = put_bytes (sha_buffer c) (length m mod 64) (take (64 - length m mod 64) data)
          in case update_loop (SHA1Transform (sha_state c) buffer) data (64 - length m mod 64) of
               None \<Rightarrow> None
             | Some (st, i) \<Rightarrow> Some (c1\<lparr>sha_state := st, sha_buffer := put_bytes buffer 0 (drop i data)\<rparr>))
       else Some (c1\<lparr>sha_buffer := put_bytes (sha_buffer c) (length m mod 64) data\<rparr>))
    \<and> sha_count0 c1 = of_nat (8 * length (m @ data)) \<and> sha_count1 c1 = of_nat (8 * length (m @ data) div 2 ^ 32)
    \<and> sha_state c1 = sha_state c \<and> sha_buffer c1 = sha_buffer c"
proof -
  define l where "l = (of_nat (length data) :: u32)"
  define c1 where "c1 = c\<lparr>sha_count0 := of_nat (8 * length (m @ data)), sha_count1 := of_nat (8 * length (m @ data) div 2 ^ 32)\<rparr>"
  have c: "sha_count0 c = of_nat (8 * length m)" "sha_count1 c = of_nat (8 * length m div 2 ^ 32)"
    using assms(1) unfolding ctx_of_def by blast+
  define a where "a = (of_nat (8 * length m) :: u32)"
  note k = count_carry [OF assms(2), of "length m", folded l_def a_def]
  define c0 where "c0 = c\<lparr>sha_count0 := a + push_bit 3 l\<rparr>"
  define c2 where "c2 = (if sha_count0 c0 < a then c0\<lparr>sha_count1 := sha_count1 c0 + 1\<rparr> else c0)"
  have c3: "c2\<lparr>sha_count1 := sha_count1 c2 + drop_bit 29 l\<rparr> = c1"
    unfolding c2_def c0_def c1_def length_append k(1) [symmetric] k(2) [symmetric]
    by (simp add: c(2))
  have proj: "sha_state c2 = sha_state c" "sha_buffer c2 = sha_buffer c"
      "sha_state c1 = sha_state c" "sha_buffer c1 = sha_buffer c"
    by (simp_all add: c2_def c1_def c0_def)
  show ?thesis
    unfolding SHA1Update_def c(1) a_def [symmetric] l_def [symmetric]
      count_bytes [of "length m", folded a_def] Let_def c0_def [symmetric] c2_def [symmetric]
    unfolding c3 proj by (intro exI [of _ c1] conjI refl) (simp_all add: c1_def)
qed

lemma SHA1Update_ctx:
  assumes c: "ctx_of m c" and len: "length data + 64 \<le> 2 ^ 32"
  shows "\<exists>c'. SHA1Update c data = Some c' \<and> ctx_of (m @ data) c'"
proof -
  define t where "t = length m mod 64"
  define n where "n = length m div 64"
  define p where "p = take (64 * n) m"
  define tail where "tail = drop (64 * n) m"
  have m: "m = p @ tail" "length p = 64 * n" "length tail = t" "length m = 64 * n + t" "t < 64"
    by (simp_all add: p_def tail_def n_def t_def minus_mult_div_eq_mod [symmetric])
  define H where "H = hash_from fips_iv n p"
  have H: "fips_hash m = H"
    using fips_hash_whole [OF m(2), of tail] m(1,3,5) by (simp add: H_def hash_from_def)
  have st: "sha_state c = regs_list H" and buf: "length (sha_buffer c) = 64" "take t (sha_buffer c) = tail"
    using c H unfolding ctx_of_def by (simp_all add: t_def tail_def n_def)
  obtain c1 where upd: "SHA1Update c data =
      (if 63 < (t + length data) mod 2 ^ 32 then
         (let buffer = put_bytes (sha_buffer c) t (take (64 - t) data)
          in case update_loop (SHA1Transform (sha_state c) buffer) data (64 - t) of
               None \<Rightarrow> None
             | Some (st, i) \<Rightarrow> Some (c1\<lparr>sha_state := st, sha_buffer := put_bytes buffer 0 (drop i data)\<rparr>))
       else Some (c1\<lparr>sha_buffer := put_bytes (sha_buffer c) t data\<rparr>))"
    and c1: "sha_count0 c1 = of_nat (8 * length (m @ data))" "sha_count1 c1 = of_nat (8 * length (m @ data) div 2 ^ 32)"
      "sha_state c1 = sha_state c" "sha_buffer c1 = sha_buffer c"
    using update_counts [OF c, of data] len unfolding t_def by auto
  have small: "(t + length data) mod 2 ^ 32 = t + length data" using len m(5) by simp
  have md: "m @ data = p @ (tail @ data)" by (simp add: m(1))
  show ?thesis
  proof (cases "t + length data < 64")
    case True
    have "fips_hash (m @ data) = H"
      unfolding md fips_hash_whole [OF m(2)] using True by (simp add: H_def m(3) hash_from_def)
    moreover have "take (t + length data) (put_bytes (sha_buffer c) t data) = tail @ data"
      using True buf by (subst take_put_bytes) simp_all
    moreover have "length (m @ data) mod 64 = t + length data" "length (m @ data) div 64 = n"
      using True m(4) by (simp_all add: add.assoc)
    ultimately show ?thesis
      unfolding upd small using True c1 st buf m(2) by (simp add: ctx_of_def md del: append_assoc)
  next
    case False
    define first where "first = take (64 - t) data"
    define rest where "rest = drop (64 - t) data"
    define k where "k = length rest div 64"
    define buffer where "buffer = put_bytes (sha_buffer c) t first"
    have f: "length first = 64 - t" "data = first @ rest" using False by (simp_all add: first_def rest_def)
    have "take (t + (64 - t)) buffer = tail @ first"
      unfolding buffer_def f(1) [symmetric] using buf m(5) by (subst take_put_bytes) simp_all
    moreover have lb: "length buffer = 64" using buf f(1) m(5) by (simp add: buffer_def)
    ultimately have b: "buffer = tail @ first" using m(5) by simp
    have k: "64 - t + 64 * k \<le> length data" "length data < 64 - t + 64 * k + 64"
      using f(1,2) by (simp_all add: k_def) 
    have loop: "update_loop (SHA1Transform (sha_state c) buffer) data (64 - t)
        = Some (regs_list (hash_from (fips_compress H buffer) k rest), 64 - t + 64 * k)"
      using update_loop_hash [OF len k] lb by (simp add: st SHA1Transform_fips rest_def)
    have "fips_hash (m @ data) = hash_from (fips_compress H buffer) k rest"
    proof -
      have "tail @ data = buffer @ rest" by (simp add: b f(2))
      moreover have "length (buffer @ rest) div 64 = Suc k" by (simp add: lb k_def)
      ultimately show ?thesis
        unfolding md fips_hash_whole [OF m(2)] using lb by (simp add: H_def [symmetric] hash_from_Suc)
    qed
    moreover have "length (m @ data) mod 64 = length rest mod 64" "64 * (length (m @ data) div 64) = 64 * (n + 1 + k)"
    proof -
      define N where "N = n + 1 + k"
      define r where "r = length rest mod 64"
      have "r < 64" by (simp add: r_def)
      have "length rest = r + 64 * k" by (simp add: r_def k_def)
      then have "length (m @ data) = r + 64 * N" using m(4,5) f by (simp add: N_def)
      with \<open>r < 64\<close> have "length (m @ data) mod 64 = r" "length (m @ data) div 64 = N" by simp_all
      then show "length (m @ data) mod 64 = length rest mod 64" "64 * (length (m @ data) div 64) = 64 * (n + 1 + k)"
        by (simp_all add: r_def N_def)
    qed
    moreover have "drop (64 * (n + 1 + k)) (m @ data) = drop (64 * k) rest"
      using m(4,5) f by (simp add: m(1,2,3))
    moreover have "take (length rest mod 64) (put_bytes buffer 0 (drop (64 * k) rest)) = drop (64 * k) rest"
      by (simp add: put_bytes_def k_def minus_mult_div_eq_mod)
    moreover have "length (put_bytes buffer 0 (drop (64 * k) rest)) = 64"
      using lb by (simp add: k_def minus_mult_div_eq_mod)
    moreover have "drop (64 - t + 64 * k) data = drop (64 * k) rest" by (simp add: rest_def add.commute)
    ultimately show ?thesis
      unfolding upd small Let_def first_def [symmetric] buffer_def [symmetric] loop
      using False c1 by (simp add: ctx_of_def)
  qed
qed

section \<open>Padding and digest\<close>

lemma pad_test: "ctx_of m c \<Longrightarrow> sha_count0 c AND 504 = 448 \<longleftrightarrow> length m mod 64 = 56"
proof -
  assume c: "ctx_of m c"
  define w where "w = sha_count0 c"
  have "w AND 504 = push_bit 3 (take_bit 6 (drop_bit 3 w))"
  proof (rule bit_word_eqI)
    fix k assume "k < LENGTH(32)"
    then have "k < 32" by simp
    then show "bit (w AND 504) k \<longleftrightarrow> bit (push_bit 3 (take_bit 6 (drop_bit 3 w))) k"
      by (rule less_32_cases) (simp_all add: bit_simps)
  qed
  moreover have u: "unat (take_bit 6 (drop_bit 3 w)) = length m mod 64"
    using c unfolding w_def ctx_of_def by (simp only: count_bytes)
  moreover have "push_bit 3 v = 448 \<longleftrightarrow> unat v = 56" if "unat v < 64" for v :: u32
  proof -
    have "unat (push_bit 3 v) = 8 * unat v"
      using that unfolding push_bit_eq_mult by (simp add: unat_word_ariths)
    then show ?thesis by (simp add: word_unat_eq_iff)
  qed
  ultimately show ?thesis unfolding w_def by simp
qed

lemma pad_count:
  fixes r :: nat
  assumes "r < 64"
  shows "(120 - r) mod 64 = (if r \<le> 56 then 56 - r else 120 - r)"
  using assms by (simp add: le_mod_geq)

lemma pad_count_step:
  fixes r :: nat
  assumes "r < 64" "Suc z = (120 - r) mod 64"
  shows "r \<noteq> 56" "z = (120 - (if Suc r = 64 then 0 else Suc r)) mod 64"
proof -
  have z: "(120 - r) mod 64 = (if r \<le> 56 then 56 - r else 120 - r)"
    using assms(1) by (rule pad_count)
  then show "r \<noteq> 56" using assms(2) by auto
  show "z = (120 - (if Suc r = 64 then 0 else Suc r)) mod 64"
  proof (cases "r < 56")
    case True
    then have "120 - Suc r = 55 - r + 64" by simp
    with True z assms(2) show ?thesis by (simp add: le_mod_geq)
  next
    case False
    with z assms show ?thesis by (auto split: if_splits)
  qed
qed

lemma pad_loop_ctx:
  assumes "ctx_of m c" "z = (120 - length m mod 64) mod 64"
  shows "\<exists>c'. pad_loop c = Some c' \<and> ctx_of (m @ replicate z 0) c'"
  using assms
proof (induction z arbitrary: m c)
  case 0
  then have "length m mod 64 = 56"
    using pad_count [of "length m mod 64"] mod_less_divisor [of 64 "length m"]
    by (simp split: if_splits)
  with 0 show ?case by (subst pad_loop.simps) (simp add: pad_test)
next
  case (Suc z)
  have n: "length m mod 64 \<noteq> 56" "z = (120 - length (m @ [0]) mod 64) mod 64"
    using pad_count_step [OF _ Suc.prems(2)] by (simp_all add: mod_Suc)
  obtain c' where c': "SHA1Update c [0] = Some c'" "ctx_of (m @ [0]) c'"
    using SHA1Update_ctx [OF Suc.prems(1), of "[0]"] by auto
  from Suc.IH [OF c'(2) n(2)] n(1) c' Suc.prems(1) show ?case
    by (subst pad_loop.simps) (simp add: pad_test)
qed

lemma byte_of_word:
  assumes "k \<le> 24"
  shows "(ucast (drop_bit k (of_nat n :: u32)) :: u8) = of_nat (n div 2 ^ k)"
proof (rule bit_word_eqI)
  fix j assume "j < LENGTH(8)"
  then show "bit (ucast (drop_bit k (of_nat n :: u32)) :: u8) j \<longleftrightarrow> bit (of_nat (n div 2 ^ k) :: u8) j"
    using assms by (simp add: bit_simps flip: drop_bit_eq_div)
qed

lemma upt_bytes: "[0..<8] = [0, 1, 2, 3, 4, 5, 6, 7::nat]" "[0..<4] = [0, 1, 2, 3::nat]"
  "[0..<20] = [0, 1, 2, 3, 4, 5, 6, 7, 8, 9, 10, 11, 12, 13, 14, 15, 16, 17, 18, 19::nat]"
  by (simp_all add: upt_rec)

lemma final_count:
  assumes "ctx_of m c"
  shows "map (\<lambda>i. ucast (drop_bit ((3 - i mod 4) * 8) (if 4 \<le> i then sha_count0 c else sha_count1 c)))
            [0..<8] = be_bytes 8 (8 * length m)"
proof -
  define X where "X = 8 * length m"
  have c: "sha_count0 c = of_nat X" "sha_count1 c = of_nat (X div 2 ^ 32)"
    using assms by (simp_all only: ctx_of_def X_def)
  show ?thesis
    unfolding X_def [symmetric] be_bytes_def upt_bytes c by (simp add: byte_of_word byte_of_word [of 0, simplified] div_mult2_eq [symmetric])
qed

lemma digest_bytes:
  fixes st :: "u32 list"
  assumes "st = [a, b, c, d, e]"
  shows "map (\<lambda>i. ucast (drop_bit ((3 - i mod 4) * 8) (st ! (i div 4)))) [0..<20]
    = concat (map (\<lambda>h. be_bytes 4 (unat h)) [a, b, c, d, e])"
proof -
  have "(ucast (drop_bit k w) :: u8) = of_nat (unat w div 2 ^ k)" if "k \<le> 24" for w :: u32 and k
    using byte_of_word [OF that, of "unat w"] by simp
  note byte = this this [of 0, simplified]
  show ?thesis
    unfolding assms be_bytes_def upt_bytes by (simp add: byte)
qed

lemma SHA1Final_ctx:
  assumes "ctx_of m c"
  shows "\<exists>c'. SHA1Final c = Some (fips_sha1 m, c')"
proof -
  define z where "z = (119 - length m mod 64) mod 64"
  obtain c1 where c1: "SHA1Update c [0x80] = Some c1" "ctx_of (m @ [0x80]) c1"
    using SHA1Update_ctx [OF assms, of "[0x80]"] by auto
  have "z = (120 - length (m @ [0x80]) mod 64) mod 64"
    unfolding z_def by (simp add: mod_Suc)
  then obtain c2 where c2: "pad_loop c1 = Some c2" "ctx_of ((m @ [0x80]) @ replicate z 0) c2"
    using pad_loop_ctx [OF c1(2)] by blast
  obtain c3 where c3: "SHA1Update c2 (be_bytes 8 (8 * length m)) = Some c3"
      "ctx_of (((m @ [0x80]) @ replicate z 0) @ be_bytes 8 (8 * length m)) c3"
    using SHA1Update_ctx [OF c2(2), of "be_bytes 8 (8 * length m)"] by (auto simp: be_bytes_def)
  have "sha_state c3 = regs_list (fips_hash (fips_pad m))"
    using c3(2) by (simp add: ctx_of_def fips_pad_def z_def)
  then show ?thesis
    unfolding SHA1Final_def final_count [OF assms] Let_def c1 c2 c3 option.case fips_sha1_def
    by (cases "fips_hash (fips_pad m)") (simp add: digest_bytes)
qed

fun update_chunks :: "sha1_ctx \<Rightarrow> u8 list list \<Rightarrow> sha1_ctx option" where
  "update_chunks c [] = Some c"
| "update_chunks c (d # ds) = (case SHA1Update c d of None \<Rightarrow> None | Some c' \<Rightarrow> update_chunks c' ds)"

lemma update_chunks_ctx:
  assumes "ctx_of m c" "\<forall>d\<in>set ds. length d + 64 \<le> 2 ^ 32"
  shows "\<exists>c'. update_chunks c ds = Some c' \<and> ctx_of (m @ concat ds) c'"
  using assms
proof (induction ds arbitrary: m c)
  case (Cons d ds)
  then obtain c' where "SHA1Update c d = Some c'" "ctx_of (m @ d) c'"
    using SHA1Update_ctx [of m c d] by auto
  with Cons.IH [of "m @ d" c'] Cons.prems show ?case by simp
qed simp

lemma update_all_chunks: "update_all c bs = update_chunks c (map (\<lambda>b. [b]) bs)"
  by (induction bs arbitrary: c) (simp_all split: option.split)

lemma SHA1_eq_fips: "length (sha_buffer ctx) = 64 \<Longrightarrow> SHA1 ctx str = Some (fips_sha1 str)"
  using update_chunks_ctx [OF ctx_of_init, of ctx "map (\<lambda>b. [b]) str"] SHA1Final_ctx [of str]
  by (fastforce simp: SHA1_def update_all_chunks)

lemma length_fips_sha1[simp]: "length (fips_sha1 m) = 20"
  by (cases "fips_hash (fips_pad m)") (simp add: fips_sha1_def be_bytes_def)

section \<open>The properties\<close>

text \<open>
  C29: the digest is the one of FIPS 180-4, for every string given to \<open>SHA1\<close> and for every way
  to cut a message into pieces for \<open>SHA1Update\<close>: the byte count with its carry, the
  partly filled block, the padding loop and the big-endian output included. Every loop ends.
\<close>

theorem sha1_fips_180_4:
  assumes "length (sha_buffer ctx) = 64" "\<forall>d\<in>set ds. length d + 64 \<le> 2 ^ 32"
  shows "SHA1 ctx str = Some (fips_sha1 str)
    \<and> (\<exists>c c'. update_chunks (SHA1Init ctx) ds = Some c \<and> SHA1Final c = Some (fips_sha1 (concat ds), c'))"
proof -
  obtain c where c: "update_chunks (SHA1Init ctx) ds = Some c" "ctx_of (concat ds) c"
    using update_chunks_ctx [OF ctx_of_init [OF assms(1)] assms(2)] by auto
  show ?thesis
    using c SHA1Final_ctx [OF c(2)] SHA1_eq_fips [OF assms(1)] by blast
qed

definition demo_ctx :: sha1_ctx where
  "demo_ctx = \<lparr>sha_state = replicate 5 7, sha_count0 = 3, sha_count1 = 1, sha_buffer = replicate 64 0xAA\<rparr>"

theorem sha1_fips_180_4_witness:
  "SHA1 demo_ctx [97, 98, 99] = Some (fips_sha1 [97, 98, 99])
    \<and> (\<exists>c c'. update_chunks (SHA1Init demo_ctx) [[97], [98, 99]] = Some c
        \<and> SHA1Final c = Some (fips_sha1 [97, 98, 99], c'))"
  using sha1_fips_180_4 [of demo_ctx "[[97], [98, 99]]" "[97, 98, 99]"] by (simp add: demo_ctx_def)

end
