(* ===== verification/Common_Str.thy ===== *)
theory Common_Str
  imports Prelude
begin

text \<open>
  The string and allocation helpers of common.c. A buffer is the list of its bytes; reading or
  writing behind it is an error. \<open>size_t\<close> is a 64-bit word, so a decrement below 0 wraps around.
  What \<open>malloc\<close> and its relatives answer on each attempt, and what \<open>vsnprintf\<close> answers for
  each size, are arguments.
\<close>

section \<open>Bounded copies\<close>

datatype str_error = Over_Read | Over_Write | Int_Overflow | Exit_Failure

text \<open>\<open>d\<close> is the write position in \<open>dst\<close>, \<open>n\<close> is \<open>s - src\<close>.\<close>

definition put_zero :: "u8 list \<Rightarrow> nat \<Rightarrow> nat \<Rightarrow> str_error + (u8 list \<times> nat)" where
  "put_zero dst d n = (if d < length dst then Inr (dst[d := 0], n) else Inl Over_Write)"

fun strlcpy_loop :: "u8 list \<Rightarrow> nat \<Rightarrow> u8 list \<Rightarrow> u64 \<Rightarrow> nat \<Rightarrow> str_error + (u8 list \<times> nat)" where
  "strlcpy_loop dst d [] siz n = (if siz - 1 = 0 then put_zero dst d n else Inl Over_Read)"
| "strlcpy_loop dst d (c # s) siz n =
     (if siz - 1 = 0 \<or> c = 0 then put_zero dst d n
      else if d < length dst then strlcpy_loop (dst[d := c]) (d + 1) s (siz - 1) (n + 1)
      else Inl Over_Write)"

text \<open>\<open>nt_strlcpy(dst + d, src, siz)\<close>: the buffer afterwards and the return value.\<close>

definition nt_strlcpy :: "u8 list \<Rightarrow> nat \<Rightarrow> u8 list \<Rightarrow> u64 \<Rightarrow> str_error + (u8 list \<times> nat)" where
  "nt_strlcpy dst d src siz = (if siz \<noteq> 0 then strlcpy_loop dst d src siz 0 else Inr (dst, 0))"

fun strlcat_skip :: "u8 list \<Rightarrow> nat \<Rightarrow> u64 \<Rightarrow> (nat \<times> u64) option" where
  "strlcat_skip [] d siz = None"
| "strlcat_skip (c # p) d siz = (if c \<noteq> 0 then strlcat_skip p (d + 1) (siz - 1) else Some (d, siz))"

definition nt_strlcat :: "u8 list \<Rightarrow> u8 list \<Rightarrow> u64 \<Rightarrow> str_error + u8 list" where
  "nt_strlcat dst src siz =
     (case strlcat_skip dst 0 siz of
        None \<Rightarrow> Inl Over_Read
      | Some (d, siz) \<Rightarrow> (case nt_strlcpy dst d src siz of Inl e \<Rightarrow> Inl e | Inr (dst, _) \<Rightarrow> Inr dst))"

text \<open>\<open>nt_guaranteed_memset\<close>\<close>

fun memset_loop :: "u8 list \<Rightarrow> nat \<Rightarrow> u8 \<Rightarrow> nat \<Rightarrow> str_error + u8 list" where
  "memset_loop v i c 0 = Inr v"
| "memset_loop v i c (Suc n) = (if i < length v then memset_loop (v[i := c]) (i + 1) c n else Inl Over_Write)"

definition nt_guaranteed_memset :: "u8 list \<Rightarrow> u8 \<Rightarrow> nat \<Rightarrow> str_error + u8 list" where
  "nt_guaranteed_memset v c n = memset_loop v 0 c n"

section \<open>Allocation with retries\<close>

text \<open>
  \<open>answer i\<close> is what the \<open>i\<close>-th call answers; \<open>max_attempts\<close> counts down from 10. The result is
  the pointer, or the exit of the process, and the number of calls made.
\<close>

fun retry :: "(nat \<Rightarrow> 'p option) \<Rightarrow> nat \<Rightarrow> nat \<Rightarrow> 'p option \<times> nat" where
  "retry answer i 0 = (None, i)"
| "retry answer i (Suc max_attempts) =
     (case answer i of Some p \<Rightarrow> (Some p, Suc i) | None \<Rightarrow> retry answer (Suc i) max_attempts)"

definition ptr_or_exit :: "'p option \<times> nat \<Rightarrow> str_error + 'p" where
  "ptr_or_exit r = (case fst r of None \<Rightarrow> Inl Exit_Failure | Some p \<Rightarrow> Inr p)"

text \<open>
  The allocator is asked for a number of bytes. A warning is logged when an old pointer is given.
\<close>

definition nt_malloc2 :: "(nat \<Rightarrow> nat \<Rightarrow> 'p option) \<Rightarrow> 'p option \<Rightarrow> nat \<Rightarrow> bool \<times> (str_error + 'p)" where
  "nt_malloc2 malloc old sz =
     (let sz = max sz 1 in (old \<noteq> None, ptr_or_exit (retry (malloc sz) 0 10)))"

definition nt_calloc2 ::
  "(nat \<Rightarrow> nat \<Rightarrow> nat \<Rightarrow> 'p option) \<Rightarrow> 'p option \<Rightarrow> nat \<Rightarrow> nat \<Rightarrow> bool \<times> (str_error + 'p)" where
  "nt_calloc2 calloc old nmemb sz =
     (let nmemb = max nmemb 1; sz = max sz 1 in (old \<noteq> None, ptr_or_exit (retry (calloc nmemb sz) 0 10)))"

definition nt_realloc2 :: "('p option \<Rightarrow> nat \<Rightarrow> nat \<Rightarrow> 'p option) \<Rightarrow> 'p option \<Rightarrow> nat \<Rightarrow> str_error + 'p" where
  "nt_realloc2 realloc old sz = (let sz = max sz 1 in ptr_or_exit (retry (realloc old sz) 0 10))"

text \<open>\<open>strdup\<close> copies the string with its terminating zero, if its allocation succeeds.\<close>

definition nt_strdup2 :: "(nat \<Rightarrow> bool) \<Rightarrow> u8 list \<Rightarrow> str_error + u8 list" where
  "nt_strdup2 strdup_ok str =
     (case c_string str of
        None \<Rightarrow> Inl Over_Read
      | Some t \<Rightarrow> ptr_or_exit (retry (\<lambda>i. if strdup_ok i then Some (t @ [0]) else None) 0 10))"

text \<open>
  \<open>nt_strdcat\<close>; the strings are blocks or \<open>NULL\<close>. \<open>junk\<close> are the uninitialised bytes of
  the grown block, which keeps the bytes of the old one up to the new size.
\<close>

definition nt_strdcat ::
  "(nat \<Rightarrow> bool) \<Rightarrow> (nat \<Rightarrow> u8) \<Rightarrow> u8 list option \<Rightarrow> u8 list option \<Rightarrow> str_error + u8 list option" where
  "nt_strdcat alloc_ok junk dest src =
     (case src of
        None \<Rightarrow> Inr dest
      | Some src \<Rightarrow>
          (case dest of
             None \<Rightarrow> (case nt_strdup2 alloc_ok src of Inl e \<Rightarrow> Inl e | Inr p \<Rightarrow> Inr (Some p))
           | Some dest \<Rightarrow>
               (case (c_string dest, c_string src) of
                  (Some a, Some b) \<Rightarrow>
                    (let len_dest = length a; len_src = length b
                     in case nt_realloc2
                               (\<lambda>old sz i. if alloc_ok i then Some (take sz (the old @ map junk [0..<sz])) else None)
                               (Some dest) (len_dest + len_src + 1) of
                          Inl e \<Rightarrow> Inl e
                        | Inr p \<Rightarrow>
                            (case nt_strlcpy p len_dest src (of_nat (len_src + 1)) of
                               Inl e \<Rightarrow> Inl e
                             | Inr (p, _) \<Rightarrow> Inr (Some p)))
                | _ \<Rightarrow> Inl Over_Read)))"

section \<open>Formatting\<close>

text \<open>
  \<open>vsnprintf\<close> as the code calls it: for a size it answers a number, negative on an error, and
  leaves the buffer. The buffer and the answer are the arguments of what nt_vsnprintf makes of
  them. \<open>cnt\<close> is below \<open>2 ^ 31\<close>.
\<close>

definition nt_vsnprintf :: "(u8 list \<times> int) \<Rightarrow> u8 list \<Rightarrow> nat \<Rightarrow> str_error + (u8 list \<times> nat)" where
  "nt_vsnprintf answer str cnt =
     (let (str, written_len) =
        (if 0 < cnt then
           (fst answer, if snd answer < 0 then int cnt - 1 else min (snd answer) (int cnt - 1))
         else (str, 0))
      in if nat written_len < length str then Inr (str[nat written_len := 0], nat written_len) else Inl Over_Write)"

text \<open>
  The loop of nt_dvsprintf: \<open>vsn sz\<close> is the number \<open>vsnprintf\<close> answers for a buffer of \<open>sz\<close>
  bytes; the loop gives the size of the buffer it ends with. Its calls of nt_malloc are taken to succeed.
\<close>

partial_function (option) dvsprintf_loop :: "(int \<Rightarrow> int) \<Rightarrow> int \<Rightarrow> (str_error + int) option" where
  "dvsprintf_loop vsn sz =
     (let n = vsn sz
      in if 0 \<le> n \<and> n < sz then Some (Inr sz)
         else if n = -1 then
           (if INT_MAX < sz * 3 then Some (Inl Int_Overflow) else dvsprintf_loop vsn (sz * 3 div 2 + 1))
         else if INT_MAX < n + 1 then Some (Inl Int_Overflow)
         else dvsprintf_loop vsn (n + 1))"

definition nt_dvsprintf :: "(int \<Rightarrow> int) \<Rightarrow> (str_error + int) option" where
  "nt_dvsprintf vsn = dvsprintf_loop vsn 1024"

section \<open>The copies\<close>

lemma strlcpy_loop_spec:
  assumes "c_string src = Some t" "siz \<noteq> 0" "k = min (length t) (unat siz - 1)" "d + k < length dst"
  shows "strlcpy_loop dst d src siz n = Inr (take d dst @ take k t @ [0] @ drop (d + k + 1) dst, n + k)"
  using assms
proof (induction src arbitrary: dst d siz n t k)
  case (Cons c src)
  have s: "siz - 1 = 0 \<longleftrightarrow> unat siz = 1"
    using Cons.prems(2) by (auto simp: word_unat_eq_iff unat_minus_one)
  show ?case
  proof (cases "siz - 1 = 0 \<or> c = 0")
    case True
    then have "k = 0" using Cons.prems(1,3) s by auto
    with True Cons.prems(4) show ?thesis by (auto simp: put_zero_def upd_conv_take_nth_drop)
  next
    case False
    obtain t' where t': "c_string src = Some t'" "t = c # t'" using Cons.prems(1) False by auto
    have u: "unat (siz - 1) = unat siz - 1" using Cons.prems(2) by (simp add: unat_minus_one)
    have "unat siz \<noteq> 0" using Cons.prems(2) by (simp add: unat_eq_zero)
    then obtain k' where k': "k = Suc k'" "k' = min (length t') (unat (siz - 1) - 1)"
      using False s u Cons.prems(3) t'(2) by (cases "unat siz") auto
    have "strlcpy_loop (dst[d := c]) (d + 1) src (siz - 1) (n + 1)
        = Inr (take (d + 1) (dst[d := c]) @ take k' t' @ [0] @ drop (d + 1 + k' + 1) (dst[d := c]), n + 1 + k')"
      using Cons.IH [OF t'(1) _ k'(2)] False Cons.prems(4) k'(1) by simp
    moreover have "take (d + 1) (dst[d := c]) = take d dst @ [c]"
      using Cons.prems(4) by (simp add: take_Suc_conv_app_nth)
    ultimately show ?thesis using False Cons.prems(4) by (simp add: k'(1) t'(2))
  qed
qed simp

lemma strlcat_skip_spec:
  assumes "c_string p = Some a"
  shows "strlcat_skip p d siz = Some (d + length a, siz - of_nat (length a))"
  using assms
proof (induction p arbitrary: d siz a)
  case (Cons c p)
  show ?case
  proof (cases "c = 0")
    case False
    then obtain a' where a': "c_string p = Some a'" "a = c # a'" using Cons.prems by auto
    from Cons.IH [OF a'(1)] show ?thesis using False by (simp add: a'(2) algebra_simps)
  qed (use Cons.prems in simp)
qed simp

lemma c_string_decomp: "c_string p = Some a \<Longrightarrow> \<exists>q. p = a @ 0 # q \<and> 0 \<notin> set a"
proof (induction p arbitrary: a)
  case (Cons c p)
  then show ?case by (cases "c = 0") fastforce+
qed simp

lemma c_string_append: "0 \<notin> set a \<Longrightarrow> c_string (a @ 0 # q) = Some a"
  by (induction a) auto

section \<open>The properties\<close>

text \<open>The cut that \<open>siz\<close> bytes of buffer allow, as a buffer.\<close>

definition cut_into :: "nat \<Rightarrow> u8 list \<Rightarrow> u8 list \<Rightarrow> u8 list" where
  "cut_into siz t dst = take (siz - 1) t @ [0] @ drop (min (length t) (siz - 1) + 1) dst"

lemma strlcpy_correct:
  assumes "c_string src = Some t" "0 < siz" "unat siz \<le> length dst - d" "d \<le> length dst"
  shows "nt_strlcpy dst d src siz
     = Inr (take d dst @ cut_into (unat siz) t (drop d dst), min (length t) (unat siz - 1))"
proof -
  have "siz \<noteq> 0" "unat siz \<noteq> 0" using assms(2) by (auto simp: unat_eq_zero)
  then show ?thesis
    using strlcpy_loop_spec [OF assms(1) _ refl, of siz d dst 0] assms(3,4)
    by (simp add: nt_strlcpy_def cut_into_def add.commute min_def)
qed

lemma c_string_prefix: "0 \<notin> set a \<Longrightarrow> c_string (a @ q) = map_option ((@) a) (c_string q)"
  by (induction a; cases "c_string q") auto

lemma cut_into_props:
  assumes "0 \<notin> set t" "0 < siz" "siz \<le> length dst"
  shows "c_string (cut_into siz t dst) = Some (take (siz - 1) t)" "length (cut_into siz t dst) = length dst"
    "drop siz (cut_into siz t dst) = drop siz dst"
proof -
  have "0 \<notin> set (take (siz - 1) t)" using assms(1) by (metis in_set_takeD)
  then show "c_string (cut_into siz t dst) = Some (take (siz - 1) t)"
    unfolding cut_into_def by (simp add: c_string_append)
  show "length (cut_into siz t dst) = length dst" "drop siz (cut_into siz t dst) = drop siz dst"
    using assms(2,3) by (auto simp: cut_into_def min_def drop_Cons')
qed

text \<open>
  C31: nt_strlcpy copies what fits, terminates the string, returns the number of bytes copied and
  leaves the rest of the buffer; nt_strlcat appends what fits to the string in the buffer,
  never writing behind the given size. When the string in the buffer is longer than the size, the
  remaining size wraps around and the whole source is appended.
\<close>

theorem strlcpy_strlcat_correct:
  assumes "c_string src = Some t" "c_string dst = Some a" "0 < siz" "unat siz \<le> length dst"
    "length dst < 2 ^ 63" "length t < 2 ^ 62"
  shows "(\<exists>dst'. nt_strlcpy dst 0 src siz = Inr (dst', min (length t) (unat siz - 1))
        \<and> c_string dst' = Some (take (unat siz - 1) t) \<and> length dst' = length dst
        \<and> drop (unat siz) dst' = drop (unat siz) dst)
    \<and> (length a < unat siz \<longrightarrow> (\<exists>dst'. nt_strlcat dst src siz = Inr dst'
        \<and> c_string dst' = Some (take (unat siz - 1) (a @ t)) \<and> length dst' = length dst
        \<and> drop (unat siz) dst' = drop (unat siz) dst))
    \<and> (length a = unat siz \<longrightarrow> nt_strlcat dst src siz = Inr dst)
    \<and> (unat siz < length a \<and> length a + length t < length dst \<longrightarrow>
        (\<exists>dst'. nt_strlcat dst src siz = Inr dst' \<and> c_string dst' = Some (a @ t)))"
proof (intro conjI impI)
  define s where "s = unat siz"
  have t0: "0 \<notin> set t" using c_string_decomp [OF assms(1)] by blast
  obtain q where dst: "dst = a @ 0 # q" and a0: "0 \<notin> set a" using c_string_decomp [OF assms(2)] by blast
  have s: "0 < s" "s \<le> length dst" using assms(3,4) by (simp_all add: s_def word_less_nat_alt)
  note skip = strlcat_skip_spec [OF assms(2), of 0 siz]
  show "\<exists>dst'. nt_strlcpy dst 0 src siz = Inr (dst', min (length t) (unat siz - 1))
        \<and> c_string dst' = Some (take (unat siz - 1) t) \<and> length dst' = length dst
        \<and> drop (unat siz) dst' = drop (unat siz) dst"
    using strlcpy_correct [OF assms(1,3), of dst 0] cut_into_props [OF t0 s] s(2) by (simp add: s_def)
  show "\<exists>dst'. nt_strlcat dst src siz = Inr dst'
        \<and> c_string dst' = Some (take (unat siz - 1) (a @ t)) \<and> length dst' = length dst
        \<and> drop (unat siz) dst' = drop (unat siz) dst" if l: "length a < unat siz"
  proof -
    define z where "z = siz - of_nat (length a)"
    have la: "unat (of_nat (length a) :: u64) = length a"
      using assms(5) by (intro unat_of_nat_small) (simp add: dst)
    then have z: "unat z = s - length a"
      using l by (simp add: z_def s_def unat_sub word_le_nat_alt)
    then have z0: "0 < z" using l by (simp add: word_less_nat_alt s_def)
    have "nt_strlcpy dst (length a) src z
        = Inr (a @ cut_into (s - length a) t (0 # q), min (length t) (unat z - 1))"
      using strlcpy_correct [OF assms(1) z0, of dst "length a"] s(2) by (simp add: z) (simp add: dst)
    then have "nt_strlcat dst src siz = Inr (a @ cut_into (s - length a) t (0 # q))"
      by (simp add: nt_strlcat_def skip flip: z_def)
    moreover have "s - length a \<le> length (0 # q)" "0 < s - length a" using s l by (simp_all add: dst s_def)
    note cut_into_props [OF t0 this(2,1)]
    ultimately show ?thesis
      using l a0 by (auto simp: c_string_prefix dst simp flip: s_def)
  qed
  show "nt_strlcat dst src siz = Inr dst" if "length a = unat siz"
    using that skip by (simp add: nt_strlcat_def nt_strlcpy_def)
  show "\<exists>dst'. nt_strlcat dst src siz = Inr dst' \<and> c_string dst' = Some (a @ t)"
    if l: "unat siz < length a \<and> length a + length t < length dst"
  proof -
    define z where "z = siz - of_nat (length a)"
    have la: "unat (of_nat (length a) :: u64) = length a"
      using assms(5) by (intro unat_of_nat_small) (simp add: dst)
    have "unat z = 2 ^ 64 + s - length a"
      using l assms(5) la by (simp add: z_def s_def unat_sub_if' word_le_nat_alt dst)
    then have z: "length t \<le> unat z - 1" "z \<noteq> 0"
      using l assms(5,6) by (auto simp: dst unat_eq_zero simp flip: unat_eq_0)
    have "nt_strlcpy dst (length a) src z = Inr (a @ t @ [0] @ drop (length a + length t + 1) dst, length t)"
      using strlcpy_loop_spec [OF assms(1) z(2) refl, of "length a" dst 0] z l
      by (simp add: nt_strlcpy_def min_absorb1) (simp add: dst)
    then show ?thesis
      using a0 t0 by (simp add: nt_strlcat_def skip c_string_prefix c_string_append flip: z_def)
  qed
qed

theorem strlcpy_strlcat_correct_witness:
  "nt_strlcat [97, 0, 7, 7, 7] [98, 99, 100, 0] 4 = Inr [97, 98, 99, 0, 7]
    \<and> (\<exists>dst'. nt_strlcat [97, 98, 99, 0, 7] [100, 0] 2 = Inr dst' \<and> c_string dst' = Some [97, 98, 99, 100])"
  using strlcpy_strlcat_correct [of "[100, 0]" "[100]" "[97, 98, 99, 0, 7]" "[97, 98, 99]" 2]
  by (simp add: nt_strlcat_def nt_strlcpy_def put_zero_def)

section \<open>Allocation and formatting\<close>

lemma retry_spec:
  "fst (retry answer i m) = (if \<forall>j<m. answer (i + j) = None then None
     else answer (i + (LEAST j. answer (i + j) \<noteq> None)))"
proof (induction m arbitrary: i)
  case (Suc m)
  show ?case
  proof (cases "answer i")
    case (Some p)
    then have "(LEAST j. answer (i + j) \<noteq> None) = 0" by (intro Least_eq_0) simp
    with Some show ?thesis by auto
  next
    case None
    have all: "(\<forall>j<Suc m. answer (i + j) = None) \<longleftrightarrow> (\<forall>j<m. answer (Suc i + j) = None)"
      using None by (auto simp: All_less_Suc2)
    have least: "(LEAST j. answer (i + j) \<noteq> None) = Suc (LEAST j. answer (Suc i + j) \<noteq> None)"
      if "\<not> (\<forall>j<m. answer (Suc i + j) = None)"
    proof -
      from that obtain j where "answer (i + Suc j) \<noteq> None" by auto
      then show ?thesis
        using Least_Suc [of "\<lambda>j. answer (i + j) \<noteq> None" "Suc j"] None by simp
    qed
    show ?thesis
      using Suc.IH [of "Suc i"] least unfolding all by (auto simp: None)
  qed
qed simp

text \<open>The process exits only when ten calls in a row have failed.\<close>

lemma malloc2_exit:
  "snd (nt_malloc2 malloc old sz) = Inl Exit_Failure \<longleftrightarrow> (\<forall>i<10. malloc (max sz 1) i = None)"
  (is "?l \<longleftrightarrow> ?r")
proof
  assume ?r
  then show ?l by (simp add: nt_malloc2_def ptr_or_exit_def retry_spec)
next
  assume l: ?l
  show ?r
  proof (rule ccontr)
    assume r: "\<not> ?r"
    then obtain i where "malloc (max sz 1) i \<noteq> None" by blast
    then have "malloc (max sz 1) (LEAST j. malloc (max sz 1) j \<noteq> None) \<noteq> None" by (rule LeastI)
    with r have "fst (retry (malloc (max sz 1)) 0 10) \<noteq> None" unfolding retry_spec by simp
    with l show False by (auto simp: nt_malloc2_def ptr_or_exit_def Let_def)
  qed
qed

lemma strdcat_correct:
  assumes "c_string dest = Some a" "c_string src = Some t" "alloc_ok 0" "length t + 1 < 2 ^ 64"
  shows "\<exists>p. nt_strdcat alloc_ok junk (Some dest) (Some src) = Inr (Some p)
    \<and> p = a @ t @ [0] \<and> c_string p = Some (a @ t)"
proof -
  have t0: "0 \<notin> set t" using c_string_decomp [OF assms(2)] by blast
  obtain q where d: "dest = a @ 0 # q" "0 \<notin> set a" using c_string_decomp [OF assms(1)] by blast
  define m where "m = length a + length t + 1"
  define p where "p = take m (dest @ map junk [0..<m])"
  have p: "length p = m" "take (length a) p = a" by (simp_all add: p_def d m_def)
  have len: "unat (of_nat (length t + 1) :: u64) = length t + 1"
    using assms(4) by (intro unat_of_nat_small) simp
  then have nz: "(of_nat (length t + 1) :: u64) \<noteq> 0" by (metis add_eq_0_iff_both_eq_0 unat_0 zero_neq_one)
  have "nt_strlcpy p (length a) src (of_nat (length t + 1)) = Inr (a @ t @ [0], length t)"
    using strlcpy_loop_spec [OF assms(2) nz refl, of "length a" p 0] nz p len
    by (simp add: nt_strlcpy_def m_def min_def)
  note cpy = this
  have re: "nt_realloc2 (\<lambda>old sz i. if alloc_ok i then Some (take sz (the old @ map junk [0..<sz])) else None)
      (Some dest) m = Inr p"
    using assms(3) by (simp add: nt_realloc2_def eval_nat_numeral ptr_or_exit_def p_def m_def)
  have "nt_strdcat alloc_ok junk (Some dest) (Some src) = Inr (Some (a @ t @ [0]))"
    unfolding nt_strdcat_def assms option.case prod.case Let_def m_def [symmetric] re sum.case cpy ..
  then show ?thesis using d(2) t0 by (simp add: c_string_prefix c_string_append)
qed

lemma memset_loop_spec:
  "i + n \<le> length v \<Longrightarrow> memset_loop v i c n = Inr (take i v @ replicate n c @ drop (i + n) v)"
proof (induction n arbitrary: i v)
  case (Suc n)
  from Suc.IH [of "i + 1" "v[i := c]"] Suc.prems show ?case
    by (simp add: take_Suc_conv_app_nth)
qed simp

lemma dvsprintf_old:
  assumes "\<And>s. vsn s = (if s \<le> L then -1 else L)" "0 \<le> L" "L * 3 \<le> INT_MAX" "0 < sz"
  shows "\<exists>s. dvsprintf_loop vsn sz = Some (Inr s) \<and> L < s \<and> (s = sz \<or> s \<le> L * 3 div 2 + 1)"
  using assms(4)
proof (induction "nat (L + 1 - sz)" arbitrary: sz rule: less_induct)
  case less
  show ?case
  proof (cases "L < sz")
    case True
    then show ?thesis using assms(1,2) by (subst dvsprintf_loop.simps) (simp add: Let_def)
  next
    case False
    define s where "s = sz * 3 div 2 + 1"
    have "sz < s" "s \<le> L * 3 div 2 + 1" "0 < s" using less.prems False by (simp_all add: s_def) 
    moreover have "dvsprintf_loop vsn sz = dvsprintf_loop vsn s"
      using assms(1,3) False by (subst dvsprintf_loop.simps) (simp add: Let_def s_def)
    ultimately show ?thesis using less.hyps [of s] False by auto
  qed
qed

lemma dvsprintf_failing:
  assumes "\<And>s. vsn s = -1" "0 < sz"
  shows "dvsprintf_loop vsn sz = Some (Inl Int_Overflow)"
  using assms(2)
proof (induction "nat (INT_MAX - sz)" arbitrary: sz rule: less_induct)
  case less
  define s where "s = sz * 3 div 2 + 1"
  have "sz < s" using less.prems by (simp add: s_def)
  with less.hyps [of s] less.prems show ?case
    using assms(1) by (subst dvsprintf_loop.simps) (auto simp: Let_def s_def)
qed

text \<open>
  The loop of nt_dvsprintf ends. With a \<open>vsnprintf\<close> that answers the length it needs, the
  second round succeeds with exactly that length; with one that answers -1 for a buffer that
  is too small, the buffer grows by half until it is long enough; with one that always fails, the
  size overflows an \<open>int\<close>.
\<close>

theorem dvsprintf_ends:
  assumes "0 \<le> L" "L * 3 \<le> INT_MAX"
  shows "nt_dvsprintf (\<lambda>s. L) = Some (Inr (if L < 1024 then 1024 else L + 1))
    \<and> (\<exists>s. nt_dvsprintf (\<lambda>s. if s \<le> L then -1 else L) = Some (Inr s) \<and> L < s \<and> (s = 1024 \<or> s \<le> L * 3 div 2 + 1))
    \<and> nt_dvsprintf (\<lambda>s. -1) = Some (Inl Int_Overflow)"
proof (intro conjI)
  show "nt_dvsprintf (\<lambda>s. L) = Some (Inr (if L < 1024 then 1024 else L + 1))"
    using assms unfolding nt_dvsprintf_def
    by (subst dvsprintf_loop.simps, subst dvsprintf_loop.simps) (simp add: Let_def INT_MAX_def)
  show "\<exists>s. nt_dvsprintf (\<lambda>s. if s \<le> L then -1 else L) = Some (Inr s) \<and> L < s \<and> (s = 1024 \<or> s \<le> L * 3 div 2 + 1)"
    unfolding nt_dvsprintf_def using assms by (intro dvsprintf_old) simp_all
qed (simp add: nt_dvsprintf_def dvsprintf_failing)

theorem dvsprintf_ends_witness:
  "nt_dvsprintf (\<lambda>s. 5000) = Some (Inr 5001)"
  using dvsprintf_ends [of 5000] by (simp add: INT_MAX_def)

end
