(* ===== verification/Log.thy ===== *)
theory Log
  imports Common_Str
begin

text \<open>
  The log of nt_log.c: levels, types, opening, and the log file with its rotation. The file system
  is a map from paths to contents. What the system answers (\<open>rename\<close>, \<open>fopen\<close>, the mutex) and the
  text of a time stamp are arguments. Locking is not part of the state: each call holds the log's
  mutex from before the rotation until after the line is written.
\<close>

section \<open>Levels and types\<close>

definition LOG_LEVEL_EMPTY :: int where "LOG_LEVEL_EMPTY = 0"
definition LOG_LEVEL_CRIT :: int where "LOG_LEVEL_CRIT = 1"
definition LOG_LEVEL_ERR :: int where "LOG_LEVEL_ERR = 2"
definition LOG_LEVEL_WARNING :: int where "LOG_LEVEL_WARNING = 3"
definition LOG_LEVEL_DEBUG :: int where "LOG_LEVEL_DEBUG = 4"
definition LOG_LEVEL_TRACE :: int where "LOG_LEVEL_TRACE = 5"
definition LOG_LEVEL_INFORMATION :: int where "LOG_LEVEL_INFORMATION = 127"

lemmas log_level_defs = LOG_LEVEL_EMPTY_def LOG_LEVEL_CRIT_def LOG_LEVEL_ERR_def LOG_LEVEL_WARNING_def
  LOG_LEVEL_DEBUG_def LOG_LEVEL_TRACE_def LOG_LEVEL_INFORMATION_def

datatype nt_log_type = LOG_TYPE_UNDEFINED | LOG_TYPE_SYSTEM | LOG_TYPE_FILE | LOG_TYPE_CONSOLE | Log_Type_Other

definition NT_CHECK_LOG_LEVEL :: "int \<Rightarrow> int \<Rightarrow> int" where
  "NT_CHECK_LOG_LEVEL nt_log_level level =
     (if LOG_LEVEL_INFORMATION \<noteq> level \<and> (nt_log_level < level \<or> LOG_LEVEL_EMPTY = level) then FAIL else SUCCEED)"

text \<open>\<open>None\<close>: the impossible case, which exits.\<close>

definition nt_get_log_level_string :: "int \<Rightarrow> string option" where
  "nt_get_log_level_string nt_log_level =
     (if nt_log_level = LOG_LEVEL_EMPTY then Some ''0 (none)''
      else if nt_log_level = LOG_LEVEL_CRIT then Some ''1 (critical)''
      else if nt_log_level = LOG_LEVEL_ERR then Some ''2 (error)''
      else if nt_log_level = LOG_LEVEL_WARNING then Some ''3 (warning)''
      else if nt_log_level = LOG_LEVEL_DEBUG then Some ''4 (debug)''
      else if nt_log_level = LOG_LEVEL_TRACE then Some ''5 (trace)''
      else None)"

definition nt_increase_log_level :: "int \<Rightarrow> int \<times> int" where
  "nt_increase_log_level nt_log_level =
     (if LOG_LEVEL_TRACE = nt_log_level then (FAIL, nt_log_level) else (SUCCEED, nt_log_level + 1))"

definition nt_decrease_log_level :: "int \<Rightarrow> int \<times> int" where
  "nt_decrease_log_level nt_log_level =
     (if LOG_LEVEL_EMPTY = nt_log_level then (FAIL, nt_log_level) else (SUCCEED, nt_log_level - 1))"

definition nt_get_log_type :: "string \<Rightarrow> nt_log_type" where
  "nt_get_log_type logtype =
     (if logtype = ''system'' then LOG_TYPE_SYSTEM
      else if logtype = ''file'' then LOG_TYPE_FILE
      else if logtype = ''console'' then LOG_TYPE_CONSOLE
      else LOG_TYPE_UNDEFINED)"

text \<open>\<open>task\<close>: whether the task is the start, and whether its flags ask for the foreground.\<close>

definition nt_validate_log_parameters :: "nt_log_type \<Rightarrow> u8 list option \<Rightarrow> bool \<Rightarrow> bool \<Rightarrow> int" where
  "nt_validate_log_parameters CONFIG_LOG_TYPE CONFIG_LOG_FILE task_start foreground =
     (if LOG_TYPE_UNDEFINED = CONFIG_LOG_TYPE then FAIL
      else if LOG_TYPE_CONSOLE = CONFIG_LOG_TYPE \<and> \<not> foreground \<and> task_start then FAIL
      else if LOG_TYPE_FILE = CONFIG_LOG_TYPE \<and> (CONFIG_LOG_FILE = None \<or> CONFIG_LOG_FILE = Some []) then FAIL
      else SUCCEED)"

section \<open>The log\<close>

type_synonym path = "u8 list"

text \<open>
  The static variables of the file, the files, and the file standard output was last redirected to.
  A path is its bytes without the terminating zero.
\<close>

record log_state =
  log_type :: nt_log_type
  log_level :: int
  log_filename :: path
  log_old_size :: u64
  log_files :: "path \<rightharpoonup> u8 list"
  log_stdio :: "path option"

definition MAX_STRING_LEN :: nat where "MAX_STRING_LEN = 2048"

text \<open>\<open>mutex_ok\<close>, \<open>fopen_ok\<close>: what nt_mutex_create and \<open>fopen\<close> answer; opening creates the file.\<close>

definition nt_open_log :: "log_state \<Rightarrow> nt_log_type \<Rightarrow> int \<Rightarrow> path \<Rightarrow> bool \<Rightarrow> bool \<Rightarrow> int \<times> log_state" where
  "nt_open_log s type level filename mutex_ok fopen_ok =
     (let s = s\<lparr>log_type := type, log_level := level\<rparr>
      in case type of
           LOG_TYPE_SYSTEM \<Rightarrow> (SUCCEED, s)
         | LOG_TYPE_FILE \<Rightarrow>
             if MAX_STRING_LEN \<le> length filename then (FAIL, s)
             else if \<not> mutex_ok then (FAIL, s)
             else if \<not> fopen_ok then (FAIL, s)
             else (SUCCEED, s\<lparr>log_filename := filename,
                    log_files := (log_files s)(filename \<mapsto>
                      (case log_files s filename of None \<Rightarrow> [] | Some c \<Rightarrow> c))\<rparr>)
         | LOG_TYPE_CONSOLE \<Rightarrow> if \<not> mutex_ok then (FAIL, s) else (SUCCEED, s)
         | LOG_TYPE_UNDEFINED \<Rightarrow> if \<not> mutex_ok then (FAIL, s) else (SUCCEED, s)
         | Log_Type_Other \<Rightarrow> (FAIL, s))"

text \<open>
  \<open>strscpy\<close> and \<open>nt_strlcat\<close> into a buffer of \<open>MAX_STRING_LEN\<close> bytes: a suffix that does not fit
  is cut off.
\<close>

definition old_name :: "path \<Rightarrow> path" where
  "old_name filename = take (MAX_STRING_LEN - 1) (filename @ [46, 111, 108, 100])"

definition file_content :: "log_state \<Rightarrow> path \<Rightarrow> u8 list" where
  "file_content s p = (case log_files s p of None \<Rightarrow> [] | Some c \<Rightarrow> c)"

text \<open>
  \<open>open_ok\<close>: whether a file can be opened. \<open>dup2\<close> is taken to succeed; when it fails the code only reports it.
\<close>

definition dev_null :: path where "dev_null = map of_char ''/dev/null''"

definition nt_redirect_stdio :: "(path \<Rightarrow> bool) \<Rightarrow> path option \<Rightarrow> log_state \<Rightarrow> int \<times> log_state" where
  "nt_redirect_stdio open_ok filename s =
     (let (file, s1) =
        (case filename of
           Some (c # p) \<Rightarrow> (c # p, s\<lparr>log_files := (log_files s)(c # p \<mapsto> file_content s (c # p))\<rparr>)
         | _ \<Rightarrow> (dev_null, s))
      in if \<not> open_ok file then (FAIL, s)
         else if \<not> open_ok dev_null then (FAIL, s1\<lparr>log_stdio := Some file\<rparr>)
         else (SUCCEED, s1\<lparr>log_stdio := Some file\<rparr>))"

lemma file_content_updates[simp]:
  "file_content (s\<lparr>log_old_size := n\<rparr>) = file_content s" "file_content (s\<lparr>log_stdio := x\<rparr>) = file_content s"
  by (simp_all add: file_content_def fun_eq_iff)

lemma file_content_redirect[simp]:
  "file_content (snd (nt_redirect_stdio open_ok filename s)) p = file_content s p"
  "log_type (snd (nt_redirect_stdio open_ok filename s)) = log_type s"
  "log_level (snd (nt_redirect_stdio open_ok filename s)) = log_level s"
  "log_filename (snd (nt_redirect_stdio open_ok filename s)) = log_filename s"
  "log_old_size (snd (nt_redirect_stdio open_ok filename s)) = log_old_size s"
  by (auto simp: nt_redirect_stdio_def file_content_def Let_def split: option.split list.split)

definition NT_MEBIBYTE :: nat where "NT_MEBIBYTE = 1048576"

text \<open>
  \<open>rename_ok\<close>, \<open>fopen_ok\<close>: what \<open>rename\<close> and \<open>fopen(filename, "w")\<close> answer; \<open>notice\<close>: the lines
  written when the file could not be renamed. nt_redirect_stdio is taken to succeed.
\<close>

definition rotate_log ::
  "nat \<Rightarrow> bool \<Rightarrow> bool \<Rightarrow> u8 list \<Rightarrow> log_state \<Rightarrow> path \<Rightarrow> log_state" where
  "rotate_log CONFIG_LOG_FILE_SIZE rename_ok fopen_ok notice s filename =
     (case log_files s filename of
        None \<Rightarrow> snd (nt_redirect_stdio (\<lambda>p. True) (Some filename) s)
      | Some content \<Rightarrow>
          (let new_size = of_nat (length content) :: u64;
               (s, new_size) =
                 (if 0 \<noteq> CONFIG_LOG_FILE_SIZE \<and> CONFIG_LOG_FILE_SIZE * NT_MEBIBYTE < length content then
                    (let filename_old = old_name filename;
                         s = s\<lparr>log_files := (log_files s)(filename_old := None)\<rparr>
                     in if \<not> rename_ok then
                          (if fopen_ok then (s\<lparr>log_files := (log_files s)(filename \<mapsto> notice)\<rparr>, 0) else (s, new_size))
                        else
                          (s\<lparr>log_files := (log_files s)(filename := None, filename_old \<mapsto> content)\<rparr>, 0))
                  else (s, new_size));
               s = (if new_size < log_old_size s then snd (nt_redirect_stdio (\<lambda>p. True) (Some filename) s) else s)
           in s\<lparr>log_old_size := new_size\<rparr>))"

text \<open>The level's name in the line; the last one stands for every other level.\<close>

definition level_title :: "int \<Rightarrow> string" where
  "level_title level =
     (if level = LOG_LEVEL_CRIT then ''CRIT  '' else if level = LOG_LEVEL_ERR then ''ERR   ''
      else if level = LOG_LEVEL_WARNING then ''WARN  '' else if level = LOG_LEVEL_DEBUG then ''DEBUG ''
      else if level = LOG_LEVEL_TRACE then ''TRACE '' else ''UNKNOW'')"

text \<open>The line for a message: \<open>stamp\<close> is the process number and the time.\<close>

definition log_line :: "int \<Rightarrow> u8 list \<Rightarrow> u8 list \<Rightarrow> u8 list" where
  "log_line level stamp message = [91] @ map of_char (level_title level) @ [93] @ stamp @ [32] @ message @ [10]"

text \<open>
  nt_log for a log in a file. \<open>append_ok\<close> is what \<open>fopen(log_filename, "a+")\<close> answers; a message
  that cannot be written goes to standard error.
\<close>

definition nt_log_file ::
  "nat \<Rightarrow> bool \<Rightarrow> bool \<Rightarrow> bool \<Rightarrow> u8 list \<Rightarrow> log_state \<Rightarrow> int \<Rightarrow> u8 list \<Rightarrow> u8 list \<Rightarrow> log_state" where
  "nt_log_file CONFIG_LOG_FILE_SIZE rename_ok fopen_ok append_ok notice s level stamp message =
     (if SUCCEED \<noteq> NT_CHECK_LOG_LEVEL (log_level s) level then s
      else if log_type s \<noteq> LOG_TYPE_FILE then s
      else
        let s = (if 0 \<noteq> CONFIG_LOG_FILE_SIZE
                 then rotate_log CONFIG_LOG_FILE_SIZE rename_ok fopen_ok notice s (log_filename s) else s)
        in if append_ok then
             s\<lparr>log_files := (log_files s)(log_filename s \<mapsto>
                 (case log_files s (log_filename s) of None \<Rightarrow> [] | Some c \<Rightarrow> c) @ log_line level stamp message)\<rparr>
           else s)"

definition nt_handle_log :: "nat \<Rightarrow> bool \<Rightarrow> bool \<Rightarrow> u8 list \<Rightarrow> log_state \<Rightarrow> log_state" where
  "nt_handle_log CONFIG_LOG_FILE_SIZE rename_ok fopen_ok notice s =
     (if LOG_TYPE_FILE \<noteq> log_type s then s
      else rotate_log CONFIG_LOG_FILE_SIZE rename_ok fopen_ok notice s (log_filename s))"

section \<open>The window of lines kept\<close>

text \<open>
  \<open>kept_pieces limit ps old cur\<close>: of the texts \<open>ps\<close> written in turn, the current file holds the last ones
  and the renamed file those before them, whole; earlier ones are lost only to a renamed file
  above the limit. \<open>log_window\<close>: the two files of the log are in this relation to \<open>ps\<close>.
\<close>

definition kept_pieces :: "nat \<Rightarrow> u8 list list \<Rightarrow> u8 list \<Rightarrow> u8 list \<Rightarrow> bool" where
  "kept_pieces limit ps old cur \<longleftrightarrow>
     (\<exists>lost b c. ps = lost @ b @ c \<and> old = concat b \<and> cur = concat c
        \<and> (lost = [] \<or> 0 < limit \<and> limit * NT_MEBIBYTE < length old))"

definition log_window :: "nat \<Rightarrow> log_state \<Rightarrow> u8 list list \<Rightarrow> bool" where
  "log_window limit s ps \<longleftrightarrow>
     kept_pieces limit ps (file_content s (old_name (log_filename s))) (file_content s (log_filename s))
     \<and> length (log_filename s) < MAX_STRING_LEN - 4"

lemma kept_start: "kept_pieces limit [old, cur] old cur"
  unfolding kept_pieces_def by (intro exI [of _ "[]"] exI [of _ "[old]"] exI [of _ "[cur]"]) simp

lemma kept_append:
  assumes "kept_pieces limit ps old cur"
  shows "kept_pieces limit (ps @ [t]) old (cur @ t)"
proof -
  obtain lost b c where k: "ps = lost @ b @ c" "old = concat b" "cur = concat c"
    "lost = [] \<or> 0 < limit \<and> limit * NT_MEBIBYTE < length old" using assms by (auto simp: kept_pieces_def)
  then have "ps @ [t] = lost @ b @ (c @ [t])" "cur @ t = concat (c @ [t])" by simp_all
  with k(2,4) show ?thesis unfolding kept_pieces_def by blast
qed

lemma kept_rotate:
  assumes "kept_pieces limit ps old cur" "0 < limit" "limit * NT_MEBIBYTE < length cur"
  shows "kept_pieces limit ps cur []"
proof -
  obtain lost b c where "ps = lost @ b @ c" "cur = concat c" using assms(1) by (auto simp: kept_pieces_def)
  then have "ps = (lost @ b) @ c @ []" "cur = concat c" "[] = concat []" by simp_all
  then show ?thesis using assms(2,3) unfolding kept_pieces_def by blast
qed

lemma old_name_neq: "length f < MAX_STRING_LEN - 4 \<Longrightarrow> old_name f = f @ [46, 111, 108, 100]"
  by (simp add: old_name_def MAX_STRING_LEN_def)

lemma rotate_window:
  assumes w: "log_window limit s ps" and s'_def: "s' = rotate_log limit True fopen_ok notice s (log_filename s)"
  shows "log_window limit s' ps" "log_filename s' = log_filename s" "log_type s' = log_type s" "log_level s' = log_level s"
    "0 < limit \<Longrightarrow> length (file_content s' (log_filename s)) \<le> limit * NT_MEBIBYTE"
proof -
  define f where "f = log_filename s"
  have f: "length f < MAX_STRING_LEN - 4" "old_name f \<noteq> f"
    using w old_name_neq [of f] by (auto simp: log_window_def f_def)
  have k: "kept_pieces limit ps (file_content s (old_name f)) (file_content s f)" using w by (simp add: log_window_def f_def)
  have keep: "log_filename s' = f" "log_type s' = log_type s" "log_level s' = log_level s"
    unfolding s'_def rotate_log_def f_def [symmetric]
    by (simp_all add: f_def Let_def split: option.split)
  then show "log_filename s' = log_filename s" "log_type s' = log_type s" "log_level s' = log_level s"
    by (simp_all add: f_def)
  consider "log_files s f = None" | c where "log_files s f = Some c" "limit = 0 \<or> length c \<le> limit * NT_MEBIBYTE"
    | c where "log_files s f = Some c" "0 < limit" "limit * NT_MEBIBYTE < length c"
    by (metis linorder_not_less gr0I option.exhaust)
  then have "kept_pieces limit ps (file_content s' (old_name f)) (file_content s' f)
      \<and> (0 < limit \<longrightarrow> length (file_content s' f) \<le> limit * NT_MEBIBYTE)"
  proof cases
    case 1
    then have c: "file_content s' p = file_content s p" for p
      by (simp add: s'_def rotate_log_def f_def [symmetric])
    from 1 have "file_content s f = []" by (simp add: file_content_def)
    with k show ?thesis by (simp add: c)
  next
    case 2
    then have c: "file_content s' p = file_content s p" for p
      by (auto simp: s'_def rotate_log_def f_def [symmetric] Let_def)
    from 2 have "file_content s f = c" by (simp add: file_content_def)
    with 2 k show ?thesis by (auto simp: c)
  next
    case 3
    then have c: "file_content s' p = file_content (s\<lparr>log_files := (log_files s)(f := None, old_name f \<mapsto> c)\<rparr>) p" for p
      using f(2) by (simp add: s'_def rotate_log_def f_def [symmetric] Let_def)
    with 3 f(2) have e: "file_content s' f = []" "file_content s' (old_name f) = file_content s f" "file_content s f = c"
      by (simp_all add: file_content_def)
    then show ?thesis using kept_rotate [OF k] 3 by simp
  qed
  then show "log_window limit s' ps" "0 < limit \<Longrightarrow> length (file_content s' (log_filename s)) \<le> limit * NT_MEBIBYTE"
    using f(1) by (auto simp: log_window_def keep f_def)
qed

text \<open>A message: its level, time stamp and text. All that a sequence of messages writes.\<close>

type_synonym log_message = "int \<times> u8 list \<times> u8 list"

definition written :: "int \<Rightarrow> log_message \<Rightarrow> u8 list" where
  "written lvl m = (case m of (level, stamp, message) \<Rightarrow>
     if NT_CHECK_LOG_LEVEL lvl level = SUCCEED then log_line level stamp message else [])"

definition log_all :: "nat \<Rightarrow> log_state \<Rightarrow> log_message list \<Rightarrow> log_state" where
  "log_all limit = foldl (\<lambda>s (level, stamp, message). nt_log_file limit True True True [] s level stamp message)"

lemma nt_log_file_window:
  assumes w: "log_window limit s ps" and t: "log_type s = LOG_TYPE_FILE"
    and b: "0 < limit \<longrightarrow> length (file_content s (log_filename s)) \<le> limit * NT_MEBIBYTE + k"
    and k: "length (written (log_level s) (level, stamp, message)) \<le> k"
    and s'_def: "s' = nt_log_file limit True True True [] s level stamp message"
  shows "log_window limit s' (ps @ [written (log_level s) (level, stamp, message)])
    \<and> log_type s' = LOG_TYPE_FILE \<and> log_level s' = log_level s \<and> log_filename s' = log_filename s
    \<and> (0 < limit \<longrightarrow> length (file_content s' (log_filename s)) \<le> limit * NT_MEBIBYTE + k)"
proof (cases "NT_CHECK_LOG_LEVEL (log_level s) level = SUCCEED")
  case False
  then show ?thesis
    using w t b kept_append [of limit ps _ _ "[]"] by (simp add: s'_def nt_log_file_def written_def log_window_def)
next
  case True
  define s1 where "s1 = (if 0 \<noteq> limit then rotate_log limit True True [] s (log_filename s) else s)"
  have r: "log_window limit s1 ps" "log_filename s1 = log_filename s" "log_type s1 = log_type s"
    "log_level s1 = log_level s" "0 < limit \<longrightarrow> length (file_content s1 (log_filename s)) \<le> limit * NT_MEBIBYTE"
    using rotate_window [OF w refl, of True "[]"] w by (auto simp: s1_def)
  define line where "line = log_line level stamp message"
  have wr: "written (log_level s) (level, stamp, message) = line" using True by (simp add: written_def line_def)
  have s': "s' = s1\<lparr>log_files := (log_files s1)(log_filename s \<mapsto> file_content s1 (log_filename s) @ line)\<rparr>"
    using True t r(2) by (simp add: s'_def nt_log_file_def s1_def Let_def file_content_def line_def)
  have f: "old_name (log_filename s) \<noteq> log_filename s"
    using w old_name_neq [of "log_filename s"] by (auto simp: log_window_def)
  have "file_content s' (log_filename s) = file_content s1 (log_filename s) @ line"
    "file_content s' (old_name (log_filename s)) = file_content s1 (old_name (log_filename s))"
    using f by (simp_all add: s' file_content_def)
  then show ?thesis
    using r t k unfolding wr by (auto simp: s' log_window_def intro: kept_append)
qed

lemma log_all_window:
  assumes "log_window limit s ps" "log_type s = LOG_TYPE_FILE" "\<forall>m\<in>set ms. length (written (log_level s) m) \<le> k"
    "0 < limit \<longrightarrow> length (file_content s (log_filename s)) \<le> limit * NT_MEBIBYTE + k"
  shows "log_window limit (log_all limit s ms) (ps @ map (written (log_level s)) ms)
    \<and> log_filename (log_all limit s ms) = log_filename s
    \<and> log_type (log_all limit s ms) = LOG_TYPE_FILE \<and> log_level (log_all limit s ms) = log_level s
    \<and> (0 < limit \<longrightarrow> length (file_content (log_all limit s ms) (log_filename s)) \<le> limit * NT_MEBIBYTE + k)"
  using assms
proof (induction ms arbitrary: s ps)
  case Nil
  then show ?case by (simp add: log_all_def)
next
  case (Cons m ms)
  obtain level stamp message where m: "m = (level, stamp, message)" by (cases m)
  define s1 where "s1 = nt_log_file limit True True True [] s level stamp message"
  have "length (written (log_level s) (level, stamp, message)) \<le> k" using Cons.prems(3) by (simp add: m)
  from nt_log_file_window [OF Cons.prems(1,2,4) this s1_def]
  have s1: "log_window limit s1 (ps @ [written (log_level s) m])" "log_type s1 = LOG_TYPE_FILE"
    "log_level s1 = log_level s" "log_filename s1 = log_filename s"
    "0 < limit \<longrightarrow> length (file_content s1 (log_filename s)) \<le> limit * NT_MEBIBYTE + k"
    by (simp_all add: m)
  have "log_all limit s (m # ms) = log_all limit s1 ms" by (simp add: log_all_def m s1_def)
  with Cons.IH [OF s1(1,2)] Cons.prems(3) s1 show ?case by simp
qed

lemma log_files_redirect:
  "log_files (snd (nt_redirect_stdio (\<lambda>p. True) (Some f) s)) p =
    (if f \<noteq> [] \<and> p = f then Some (file_content s p) else log_files s p)"
  by (auto simp: nt_redirect_stdio_def split: list.split)

text \<open>A message when the file is above the limit and \<open>rename\<close> fails.\<close>

lemma rename_fails:
  assumes "0 < limit" "limit * NT_MEBIBYTE < length (file_content s (log_filename s))" "log_type s = LOG_TYPE_FILE"
    "old_name (log_filename s) \<noteq> log_filename s" "NT_CHECK_LOG_LEVEL (log_level s) level = SUCCEED"
    and s': "s' = nt_log_file limit False True True notice s level stamp message"
  shows "log_files s' (old_name (log_filename s)) = None
    \<and> file_content s' (log_filename s) = notice @ log_line level stamp message"
proof -
  obtain c where c: "log_files s (log_filename s) = Some c" "limit * NT_MEBIBYTE < length c"
    using assms(2) by (auto simp: file_content_def split: option.splits)
  let ?f = "log_filename s" and ?r = "rotate_log limit False True notice s (log_filename s)"
  have r: "log_files ?r ?f = Some notice" "log_files ?r (old_name ?f) = None" "log_filename ?r = ?f"
    using c assms(1,4) by (simp_all add: rotate_log_def Let_def log_files_redirect file_content_def)
  then show ?thesis using assms(1,3,4,5) by (simp add: s' nt_log_file_def Let_def file_content_def)
qed


definition full_log :: "u8 list" where
  "full_log = replicate 1048577 65"

lemma full_log_length: "length full_log = 1048577"
  by (simp only: full_log_def length_replicate)

definition demo_log :: log_state where
  "demo_log = \<lparr>log_type = LOG_TYPE_FILE, log_level = 3, log_filename = [120], log_old_size = - 1,
     log_files = [[120] \<mapsto> full_log], log_stdio = None\<rparr>"

definition demo_messages :: "log_message list" where
  "demo_messages = [(2, [48], [97]), (4, [49], [98])]"


end
