(* ===== verification/Ptcl.thy ===== *)
theory Ptcl
  imports Sha1_Stream Log
begin

text \<open>
  The frames of nt_ptcl.c: what ntptcl_send builds (and frees again, the call that would send it
  is commented out) and what ntptcl_handle does with a received buffer.
  A buffer is the list of its bytes; reading behind it is the error \<open>Over_Read\<close>. The layout is
  that of a little-endian machine with 4-byte alignment of \<open>int\<close>: in \<open>struct ntptcli\<close> \<open>head\<close> is
  at 0, \<open>len\<close> at 16, \<open>ckcode\<close> at 20 and the size is 64; \<open>struct ntptclii\<close> is its \<open>type\<close>, 4 bytes.
\<close>

section \<open>Frames\<close>

datatype nt_type = NT_FILE | NT_STRING | NT_CMD | NT_STATUS | NT_SYNC

fun nt_type_code :: "nt_type \<Rightarrow> nat" where
  "nt_type_code NT_FILE = 0"
| "nt_type_code NT_STRING = 1"
| "nt_type_code NT_CMD = 2"
| "nt_type_code NT_STATUS = 3"
| "nt_type_code NT_SYNC = 4"

definition bytes_of :: "string \<Rightarrow> u8 list" where
  "bytes_of s = map of_char s"

definition NTPTCLIHEAD :: "u8 list" where "NTPTCLIHEAD = bytes_of ''nt head data''"

definition NTPTCLITAIL :: "u8 list" where "NTPTCLITAIL = bytes_of ''nt tail data''"

definition le_bytes :: "nat \<Rightarrow> nat \<Rightarrow> u8 list" where
  "le_bytes n v = map (\<lambda>i. of_nat (v div 256 ^ i)) [0..<n]"

text \<open>The loop of \<open>sprintf(hexresult + 2 * offset, "%02x", result[offset] & 0xff)\<close>.\<close>

definition hex_digit :: "nat \<Rightarrow> u8" where
  "hex_digit d = (if d < 10 then of_nat (48 + d) else of_nat (87 + d))"

definition hexresult :: "u8 list \<Rightarrow> u8 list" where
  "hexresult result = concat (map (\<lambda>b. [hex_digit (unat b div 16), hex_digit (unat b mod 16)]) result)"

definition ntptcli_bytes :: "nat \<Rightarrow> u8 list \<Rightarrow> u8 list" where
  "ntptcli_bytes len ckcode =
     put_bytes (put_bytes (put_bytes (replicate 64 0) 0 NTPTCLIHEAD) 20 ckcode) 16 (le_bytes 4 len)"

definition build_frame :: "u8 list \<Rightarrow> nt_type \<Rightarrow> u8 list \<Rightarrow> u8 list" where
  "build_frame ntptclid ty data =
     (let lilen = 64; liilen = 4; len = length data; tlen = length NTPTCLITAIL;
          slen = lilen + liilen + len + tlen + 1;
          sdata = replicate slen 0;
          sdata = put_bytes sdata 0 ntptclid;
          sdata = put_bytes sdata lilen (le_bytes 4 (nt_type_code ty));
          sdata = put_bytes sdata (lilen + liilen) data
      in put_bytes sdata (lilen + liilen + len) NTPTCLITAIL)"

text \<open>
  The buffer built when the function comes to \<open>free(sdata)\<close>, if it builds one. SHA1 takes the
  length as an \<open>int\<close> and compares with it as an \<open>unsigned\<close>; the field \<open>len\<close> is an \<open>unsigned\<close>.
\<close>

definition ntptcl_send :: "sha1_ctx \<Rightarrow> u8 list \<Rightarrow> nt_type \<Rightarrow> u8 list option option" where
  "ntptcl_send ctx data ty =
     (case SHA1 ctx (take (length data mod 2 ^ 32) data) of
        None \<Rightarrow> None
      | Some result \<Rightarrow>
          (let ntptclid = ntptcli_bytes (length data) (hexresult result)
           in case ty of
                NT_STRING \<Rightarrow> Some (Some (build_frame ntptclid NT_STRING data))
              | NT_CMD \<Rightarrow> Some (Some (build_frame ntptclid NT_CMD data))
              | NT_FILE \<Rightarrow> Some None
              | NT_SYNC \<Rightarrow> Some None
              | NT_STATUS \<Rightarrow> Some (Some (build_frame ntptclid NT_STATUS data))))"

section \<open>Handling a buffer\<close>

datatype ptcl_event =
    Warn_Source
  | Warn_Length u32
  | Trace (tr_head: "u8 list") (tr_len: u32) (tr_type: u32) (tr_data: "u8 list") (tr_tail: "u8 list")

datatype ptcl_error = Over_Read

text \<open>\<open>strncmp(a, p, n) != 0\<close>; \<open>None\<close> if it reads behind \<open>p\<close>.\<close>

fun strncmp_ne :: "nat \<Rightarrow> u8 list \<Rightarrow> u8 list \<Rightarrow> bool option" where
  "strncmp_ne 0 a p = Some False"
| "strncmp_ne (Suc n) (x # a) (y # p) =
     (if x \<noteq> y then Some True else if x = 0 then Some False else strncmp_ne n a p)"
| "strncmp_ne (Suc n) a p = None"

text \<open>
  What the function logs; the branches of its \<open>switch\<close> are empty, so nothing else happens.
  \<open>nt_log\<close> formats a message, and so reads its strings, only when its level is enabled. The last
  parameter is \<open>rlen\<close>, the length of the received buffer, which the code never looks at.
\<close>

definition ntptcl_handle ::
  "int \<Rightarrow> sha1_ctx \<Rightarrow> u8 list \<Rightarrow> nat \<Rightarrow> (ptcl_error + ptcl_event list) option" where
  "ntptcl_handle nt_log_level ctx data rlen =
     (if length data < 20 then Some (Inl Over_Read)
      else
        let len = le32 (drop 16 data)
        in if 0 < unat len \<and> length data < 68 + unat len then Some (Inl Over_Read)
           else
             case SHA1 ctx (take (unat len) (drop 68 data)) of
               None \<Rightarrow> None
             | Some result \<Rightarrow>
                 (case strncmp_ne 41 (hexresult result @ [0]) (drop 20 data) of
                    None \<Rightarrow> Some (Inl Over_Read)
                  | Some differs \<Rightarrow>
                      (let warnings = (if differs \<and> NT_CHECK_LOG_LEVEL nt_log_level LOG_LEVEL_WARNING = SUCCEED
                                       then [Warn_Source, Warn_Length len] else [])
                       in if length data < 68 then Some (Inl Over_Read)
                          else if NT_CHECK_LOG_LEVEL nt_log_level LOG_LEVEL_TRACE \<noteq> SUCCEED then Some (Inr warnings)
                          else
                            case (c_string data, c_string (drop 68 data), c_string (drop (68 + unat len) data)) of
                              (Some head, Some dat, Some tail) \<Rightarrow>
                                Some (Inr (warnings @ [Trace head len (le32 (drop 64 data)) dat tail]))
                            | _ \<Rightarrow> Some (Inl Over_Read))))"

section \<open>The layout of a frame\<close>

lemma bytes_literals:
  "NTPTCLIHEAD = [110, 116, 32, 104, 101, 97, 100, 32, 100, 97, 116, 97]"
  "NTPTCLITAIL = [110, 116, 32, 116, 97, 105, 108, 32, 100, 97, 116, 97]"
  by (simp_all add: NTPTCLIHEAD_def NTPTCLITAIL_def bytes_of_def of_char_def)

lemma length_le_bytes[simp]: "length (le_bytes n v) = n"
  by (simp add: le_bytes_def)

lemma length_literals[simp]: "length NTPTCLIHEAD = 12" "length NTPTCLITAIL = 12"
  by (simp_all add: bytes_literals)

lemma length_hexresult[simp]: "length (hexresult result) = 2 * length result"
  by (induction result) (simp_all add: hexresult_def)

lemma hex_digit_nonzero:
  assumes "d < 16"
  shows "hex_digit d \<noteq> 0"
proof -
  have "\<forall>d\<in>set [0..<16]. hex_digit d \<noteq> 0" by code_simp
  with assms show ?thesis by simp
qed

lemma hexresult_nonzero: "0 \<notin> set (hexresult result)"
proof (induction result)
  case (Cons b result)
  have "unat b < 256" using unsigned_less [of b, where 'a = nat] by simp
  then have "unat b div 16 < 16" "unat b mod 16 < 16" by simp_all
  with Cons hex_digit_nonzero show ?case
    unfolding hexresult_def by fastforce
qed (simp add: hexresult_def)

lemma hex_digit_inj:
  assumes "d < 16" "e < 16" "hex_digit d = hex_digit e"
  shows "d = e"
proof -
  have "\<forall>d\<in>set [0..<16]. \<forall>e\<in>set [0..<16]. hex_digit d = hex_digit e \<longrightarrow> d = e" by code_simp
  with assms show ?thesis by simp
qed

lemma hexresult_inj: "length a = length b \<Longrightarrow> hexresult a = hexresult b \<longleftrightarrow> a = b"
proof (induction a b rule: list_induct2)
  case (Cons x a y b)
  have b: "unat z < 256" for z :: u8 using unsigned_less [of z, where 'a = nat] by simp
  have "x = y" if "hex_digit (unat x div 16) = hex_digit (unat y div 16)" "hex_digit (unat x mod 16) = hex_digit (unat y mod 16)"
  proof -
    have "unat x div 16 = unat y div 16"
      using hex_digit_inj [OF _ _ that(1)] b [of x] b [of y] by simp
    moreover have "unat x mod 16 = unat y mod 16" using hex_digit_inj [OF _ _ that(2)] by simp
    ultimately have "unat x = unat y" by (metis div_mult_mod_eq)
    then show ?thesis by (simp only: word_unat_eq_iff)
  qed
  with Cons.IH show ?case by (auto simp: hexresult_def)
qed simp

lemma le32_le_bytes: "le32 (le_bytes 4 n @ q) = of_nat n"
proof (rule bit_word_eqI)
  fix k assume "k < LENGTH(32)"
  then have "k < 32" by simp
  have d: "n div 256 = drop_bit 8 n" "n div 65536 = drop_bit 16 n" "n div 16777216 = drop_bit 24 n"
    by (simp_all add: drop_bit_eq_div)
  from \<open>k < 32\<close> show "bit (le32 (le_bytes 4 n @ q)) k \<longleftrightarrow> bit (of_nat n :: u32) k"
    by (rule less_32_cases)
      (simp_all add: le32_def le_bytes_def bit_simps upt_bytes byte_high_bits d)
qed

lemma put_bytes_here: "length a = j \<Longrightarrow> length b = length p \<Longrightarrow> put_bytes (a @ b @ c) j p = a @ p @ c"
  by (simp add: put_bytes_def)

definition frame_bytes :: "nat \<Rightarrow> u8 list \<Rightarrow> nat \<Rightarrow> u8 list \<Rightarrow> u8 list" where
  "frame_bytes len ckcode code data =
     NTPTCLIHEAD @ replicate 4 0 @ le_bytes 4 len @ ckcode @ replicate 4 0 @ le_bytes 4 code @ data @ NTPTCLITAIL @ [0]"

lemma ntptcli_bytes_eq:
  assumes "length ck = 40"
  shows "ntptcli_bytes len ck = NTPTCLIHEAD @ replicate 4 0 @ le_bytes 4 len @ ck @ replicate 4 0"
proof -
  have z: "replicate 64 0 = [] @ replicate 12 0 @ (replicate 8 0 @ replicate 40 0 @ replicate 4 (0::u8))"
    by (simp add: replicate_add [symmetric] del: replicate_0)
  have "put_bytes (replicate 64 0) 0 NTPTCLIHEAD = (NTPTCLIHEAD @ replicate 8 0) @ replicate 40 0 @ replicate 4 0"
    unfolding z by (subst put_bytes_here) simp_all
  moreover have "put_bytes ((NTPTCLIHEAD @ replicate 8 0) @ replicate 40 0 @ replicate 4 0) 20 ck
      = (NTPTCLIHEAD @ replicate 8 0) @ ck @ replicate 4 0"
    using assms by (subst put_bytes_here) simp_all
  moreover have "(NTPTCLIHEAD @ replicate 8 0) @ ck @ replicate 4 0
      = (NTPTCLIHEAD @ replicate 4 0) @ replicate 4 0 @ (ck @ replicate 4 0)"
    by (simp add: replicate_add [of 4 4, simplified])
  moreover have "put_bytes ((NTPTCLIHEAD @ replicate 4 0) @ replicate 4 0 @ (ck @ replicate 4 0)) 16 (le_bytes 4 len)
      = (NTPTCLIHEAD @ replicate 4 0) @ le_bytes 4 len @ (ck @ replicate 4 0)"
    by (subst put_bytes_here) simp_all
  ultimately show ?thesis unfolding ntptcli_bytes_def by (simp del: append_assoc)
qed

lemma build_frame_eq:
  assumes "length ck = 40"
  shows "build_frame (ntptcli_bytes len ck) ty data = frame_bytes len ck (nt_type_code ty) data"
proof -
  define h where "h = ntptcli_bytes len ck"
  have h: "length h = 64" using assms by (simp add: h_def ntptcli_bytes_eq)
  have z: "replicate (64 + 4 + length data + 12 + 1) 0
      = [] @ replicate 64 0 @ (replicate 4 0 @ replicate (length data) 0 @ replicate 12 0 @ [0::u8])"
    by (simp only: replicate_add append_assoc append_Nil One_nat_def replicate_Suc replicate_0)
  have "put_bytes ([] @ replicate 64 0 @ (replicate 4 0 @ replicate (length data) 0 @ replicate 12 0 @ [0])) 0 h
      = h @ replicate 4 0 @ (replicate (length data) 0 @ replicate 12 0 @ [0])"
    using h by (subst put_bytes_here) simp_all
  moreover have "put_bytes (h @ replicate 4 0 @ (replicate (length data) 0 @ replicate 12 0 @ [0])) 64 (le_bytes 4 c)
      = (h @ le_bytes 4 c) @ replicate (length data) 0 @ (replicate 12 0 @ [0])" for c
    using h by (subst put_bytes_here) simp_all
  moreover have "put_bytes ((h @ le_bytes 4 c) @ replicate (length data) 0 @ (replicate 12 0 @ [0])) (64 + 4) data
      = (h @ le_bytes 4 c @ data) @ replicate 12 0 @ [0]" for c
    using h by (subst put_bytes_here) simp_all
  moreover have "put_bytes ((h @ le_bytes 4 c @ data) @ replicate 12 0 @ [0]) (64 + 4 + length data) NTPTCLITAIL
      = (h @ le_bytes 4 c @ data) @ NTPTCLITAIL @ [0]" for c
    using h by (subst put_bytes_here) simp_all
  ultimately show ?thesis
    unfolding build_frame_def h_def [symmetric] Let_def length_literals z
    by (simp only:) (simp add: h_def ntptcli_bytes_eq [OF assms] frame_bytes_def)
qed

lemma frame_fields:
  assumes "length ck = 40" and f_def: "f = frame_bytes len ck code data"
  shows "length f = 68 + length data + 13"
    "drop 16 f = le_bytes 4 len @ ck @ replicate 4 0 @ le_bytes 4 code @ data @ NTPTCLITAIL @ [0]"
    "drop 20 f = ck @ [0] @ replicate 3 0 @ le_bytes 4 code @ data @ NTPTCLITAIL @ [0]"
    "drop 64 f = le_bytes 4 code @ data @ NTPTCLITAIL @ [0]"
    "drop 68 f = data @ NTPTCLITAIL @ [0]"
    "drop (68 + length data) f = NTPTCLITAIL @ [0]"
proof -
  show 68: "drop 68 f = data @ NTPTCLITAIL @ [0]"
    using assms(1) by (simp add: f_def frame_bytes_def)
  have "drop (length data) (drop 68 f) = NTPTCLITAIL @ [0]" unfolding 68 by simp
  then show "drop (68 + length data) f = NTPTCLITAIL @ [0]" by (simp add: add.commute)
  have "drop 20 f = ck @ replicate 4 0 @ le_bytes 4 code @ data @ NTPTCLITAIL @ [0]"
    using assms(1) by (simp add: f_def frame_bytes_def)
  then show "drop 20 f = ck @ [0] @ replicate 3 0 @ le_bytes 4 code @ data @ NTPTCLITAIL @ [0]"
    by (simp add: replicate_add [of 1 3, simplified])
qed (use assms(1) in \<open>simp_all add: f_def frame_bytes_def\<close>)

lemma strncmp_ne_eq:
  assumes "length a = n" "length b = n" "0 \<notin> set a"
  shows "strncmp_ne (Suc n) (a @ [0]) (b @ 0 # q) = Some (a \<noteq> b)"
  using assms
proof (induction n arbitrary: a b)
  case (Suc n)
  then obtain x a' y b' where "a = x # a'" "b = y # b'" by (metis length_Suc_conv)
  with Suc show ?case by auto
qed simp

lemma takeWhile_literals:
  "takeWhile (\<lambda>b. b \<noteq> 0) (NTPTCLIHEAD @ q) = NTPTCLIHEAD @ takeWhile (\<lambda>b. b \<noteq> 0) q"
  "takeWhile (\<lambda>b. b \<noteq> 0) (NTPTCLITAIL @ q) = NTPTCLITAIL @ takeWhile (\<lambda>b. b \<noteq> 0) q"
  by (simp_all add: bytes_literals)

text \<open>What the handler logs for the data \<open>dat\<close> in a frame: its \<open>%s\<close> runs on into the tail.\<close>

definition data_string :: "u8 list \<Rightarrow> u8 list" where
  "data_string dat = takeWhile (\<lambda>b. b \<noteq> 0) (dat @ NTPTCLITAIL)"

lemma handle_frame:
  assumes ctx: "length (sha_buffer ctx) = 64" and ck: "length ck = 40" and len: "length dat < 2 ^ 32"
  shows "ntptcl_handle lvl ctx (frame_bytes (length dat) ck code dat) rlen = Some (Inr
     ((if hexresult (fips_sha1 dat) \<noteq> ck \<and> 3 \<le> lvl then [Warn_Source, Warn_Length (of_nat (length dat))] else [])
      @ (if lvl < 5 then [] else
          [Trace NTPTCLIHEAD (of_nat (length dat)) (of_nat code) (data_string dat) NTPTCLITAIL])))"
proof -
  define f where "f = frame_bytes (length dat) ck code dat"
  note fields = frame_fields [OF ck f_def]
  have l: "le32 (drop 16 f) = of_nat (length dat)" unfolding fields by (rule le32_le_bytes)
  have u: "unat (of_nat (length dat) :: u32) = length dat" using len by (simp add: unat_of_nat)
  have ty: "le32 (drop 64 f) = of_nat code" unfolding fields by (rule le32_le_bytes)
  have sha: "SHA1 ctx (take (length dat) (drop 68 f)) = Some (fips_sha1 dat)"
    unfolding fields by (simp add: SHA1_eq_fips [OF ctx])
  have cmp: "strncmp_ne 41 (hexresult (fips_sha1 dat) @ [0]) (drop 20 f) = Some (hexresult (fips_sha1 dat) \<noteq> ck)"
    unfolding fields using strncmp_ne_eq [of "hexresult (fips_sha1 dat)" 40 ck] ck
    by (simp add: hexresult_nonzero)
  have "takeWhile (\<lambda>b. b \<noteq> 0) ((dat @ NTPTCLITAIL) @ [0]) = data_string dat"
    unfolding data_string_def by (rule takeWhile_tail) simp
  then have s: "c_string f = Some NTPTCLIHEAD" "c_string (drop 68 f) = Some (data_string dat)"
    "c_string (drop (68 + length dat) f) = Some NTPTCLITAIL"
    unfolding fields(5,6)
    by (simp_all add: f_def frame_bytes_def c_string_takeWhile takeWhile_literals)
  show ?thesis
    unfolding f_def [symmetric] ntptcl_handle_def Let_def l u ty sha cmp s option.case prod.case
    by (simp add: fields(1) NT_CHECK_LOG_LEVEL_def log_level_defs SUCCEED_def FAIL_def)
qed

lemma ntptcl_send_eq:
  assumes "length (sha_buffer ctx) = 64" "length data < 2 ^ 32"
  shows "ntptcl_send ctx data ty = Some (if ty = NT_FILE \<or> ty = NT_SYNC then None
     else Some (frame_bytes (length data) (hexresult (fips_sha1 data)) (nt_type_code ty) data))"
  using assms by (cases ty) (simp_all add: ntptcl_send_def SHA1_eq_fips build_frame_eq)

section \<open>The properties\<close>

text \<open>
  C30: what ntptcl_send builds for a string, a command or a status is what ntptcl_handle
  expects: it logs no warning, whatever its log level, and at the trace level it reads back the
  head, the length, the type and the tail; as data it logs the data up to their first NUL, and if
  they have none, the tail with them. Files and synchronisation messages are not built at all.
\<close>

theorem ptcl_frame_roundtrip:
  assumes "length (sha_buffer ctx) = 64" "length (sha_buffer ctx') = 64" "length data < 2 ^ 32"
  shows "if ty = NT_FILE \<or> ty = NT_SYNC then ntptcl_send ctx data ty = Some None
    else \<exists>f. ntptcl_send ctx data ty = Some (Some f) \<and> length f = 64 + 4 + length data + 12 + 1
      \<and> (\<forall>lvl rlen. ntptcl_handle lvl ctx' f rlen = Some (Inr (if lvl < 5 then [] else
            [Trace NTPTCLIHEAD (of_nat (length data)) (of_nat (nt_type_code ty))
               (takeWhile (\<lambda>b. b \<noteq> 0) (data @ NTPTCLITAIL)) NTPTCLITAIL])))"
  using ntptcl_send_eq [OF assms(1,3)] handle_frame [OF assms(2) _ assms(3)]
    frame_fields(1) [OF _ refl, of "hexresult (fips_sha1 data)" "length data" "nt_type_code ty" data]
  by (auto simp: data_string_def)

theorem ptcl_frame_roundtrip_witness:
  "\<exists>f. ntptcl_send demo_ctx [104, 105] NT_CMD = Some (Some f) \<and> length f = 83
     \<and> ntptcl_handle 5 demo_ctx f 83
        = Some (Inr [Trace NTPTCLIHEAD 2 2 ([104, 105] @ NTPTCLITAIL) NTPTCLITAIL])"
  using ptcl_frame_roundtrip [of demo_ctx demo_ctx "[104, 105]" NT_CMD]
  by (auto simp: demo_ctx_def takeWhile_literals bytes_literals)

text \<open>
  The checksum and the length of a frame protect nothing. A frame whose data were
  exchanged is handled like a good one, up to two warnings; a frame that was cut off is read
  behind its end, although the length of the buffer is passed to the handler.
\<close>

theorem ptcl_damaged_frame_handled:
  assumes "length (sha_buffer ctx) = 64" "length data < 2 ^ 32" "length data' = length data"
    "ty \<noteq> NT_FILE" "ty \<noteq> NT_SYNC" "20 \<le> k" "k < 68 + length data" "data \<noteq> []"
  shows "\<exists>f. ntptcl_send ctx data ty = Some (Some f)
    \<and> ntptcl_handle 5 ctx (take 68 f @ data' @ drop (68 + length data) f) rlen
       = Some (Inr ((if fips_sha1 data' = fips_sha1 data then [] else [Warn_Source, Warn_Length (of_nat (length data))])
            @ [Trace NTPTCLIHEAD (of_nat (length data)) (of_nat (nt_type_code ty))
                (takeWhile (\<lambda>b. b \<noteq> 0) (data' @ NTPTCLITAIL)) NTPTCLITAIL]))
    \<and> ntptcl_handle lvl ctx (take k f) k = Some (Inl Over_Read)"
proof -
  define ck where "ck = hexresult (fips_sha1 data)"
  have ck: "length ck = 40" by (simp add: ck_def)
  define f where "f = frame_bytes (length data) ck (nt_type_code ty) data"
  note fields = frame_fields [OF ck f_def]
  have "take 68 f @ data' @ drop (68 + length data) f = frame_bytes (length data') ck (nt_type_code ty) data'"
    unfolding fields(6) using ck by (simp add: f_def frame_bytes_def assms(3))
  moreover have "le32 (drop 16 (take k f)) = of_nat (length data)"
  proof -
    have "drop 16 (take k f) = le_bytes 4 (length data)
        @ take (k - 16 - 4) (ck @ replicate 4 0 @ le_bytes 4 (nt_type_code ty) @ data @ NTPTCLITAIL @ [0])"
      unfolding drop_take fields(2) take_append [of _ "le_bytes 4 (length data)"] using assms(6) by simp
    then show ?thesis by (simp add: le32_le_bytes)
  qed
  then have "ntptcl_handle lvl ctx (take k f) k = Some (Inl Over_Read)"
    using assms(2,6-8) fields(1) by (simp add: ntptcl_handle_def Let_def unat_of_nat)
  ultimately show ?thesis
    using ntptcl_send_eq [OF assms(1,2), of ty] handle_frame [OF assms(1) ck, of data'] assms(2-5)
    by (simp add: f_def ck_def hexresult_inj data_string_def)
qed

theorem ptcl_damaged_frame_handled_witness:
  "\<exists>f. ntptcl_send demo_ctx [104, 105] NT_CMD = Some (Some f)
     \<and> ntptcl_handle 3 demo_ctx (take 69 f) 69 = Some (Inl Over_Read)"
  using ptcl_damaged_frame_handled [of demo_ctx "[104, 105]" "[104, 106]" NT_CMD 69 0 3]
  by (auto simp: demo_ctx_def)

end
