(* ===== verification/Ddl.thy ===== *)
theory Ddl
  imports Prelude
begin

text \<open>
  The doubly linked list of ddl.c. The heap is a map from addresses to the nodes allocated
  there; address 0 is \<open>NULL\<close>, and reading or writing at \<open>NULL\<close>, at a freed address or behind
  a block is the error \<open>Bad_Access\<close>. What \<open>malloc\<close> answers is an argument.
\<close>

section \<open>Data\<close>

record ddl =
  d_data :: "u8 list"
  d_dln :: u64
  d_next :: nat
  d_prev :: nat

record ddlh =
  h_entr :: nat
  h_tail :: nat
  h_curr :: nat
  h_pos :: nat
  h_num :: u64

datatype ddlctr = up | dn

datatype ddl_error = Bad_Access

type_synonym nodes = "nat \<rightharpoonup> ddl"

text \<open>The list: the heap and the header block.\<close>

type_synonym ddl_state = "nodes \<times> ddlh"

definition ddl_at :: "nodes \<Rightarrow> nat \<Rightarrow> ddl_error + ddl" where
  "ddl_at h a = (if a = 0 then Inl Bad_Access else case h a of None \<Rightarrow> Inl Bad_Access | Some d \<Rightarrow> Inr d)"

definition set_node :: "nat \<Rightarrow> (ddl \<Rightarrow> ddl) \<Rightarrow> nodes \<Rightarrow> ddl_error + nodes" where
  "set_node a f h = (case ddl_at h a of Inl e \<Rightarrow> Inl e | Inr d \<Rightarrow> Inr (h(a \<mapsto> f d)))"

section \<open>Operations\<close>

definition ddl_init :: "nodes \<Rightarrow> bool \<Rightarrow> ddl_error + ddl_state" where
  "ddl_init h malloc_ok =
     (if \<not> malloc_ok then Inl Bad_Access
      else Inr (h, \<lparr>h_entr = 0, h_tail = 0, h_curr = 0, h_pos = 0, h_num = 0\<rparr>))"

definition ddl_insert_first :: "ddl_state \<Rightarrow> nat \<Rightarrow> ddl_error + ddl_state" where
  "ddl_insert_first = (\<lambda>(h, dh) di.
     if h_entr dh = 0 then
       Inr (h, dh\<lparr>h_entr := di, h_curr := di, h_pos := di, h_tail := di, h_num := 1\<rparr>)
     else
       let dp = h_entr dh; dh = dh\<lparr>h_entr := di\<rparr>
       in case set_node di (\<lambda>d. d\<lparr>d_next := dp\<rparr>) h of
            Inl e \<Rightarrow> Inl e
          | Inr h \<Rightarrow> (case set_node dp (\<lambda>d. d\<lparr>d_prev := di\<rparr>) h of Inl e \<Rightarrow> Inl e | Inr h \<Rightarrow> Inr (h, dh)))"

definition ddl_insert_end :: "ddl_state \<Rightarrow> nat \<Rightarrow> ddl_error + ddl_state" where
  "ddl_insert_end = (\<lambda>(h, dh) di.
     if h_entr dh = 0 then
       Inr (h, dh\<lparr>h_entr := di, h_curr := di, h_pos := di, h_tail := di, h_num := 1\<rparr>)
     else
       let dp = h_curr dh
       in case set_node dp (\<lambda>d. d\<lparr>d_next := di\<rparr>) h of
            Inl e \<Rightarrow> Inl e
          | Inr h \<Rightarrow>
              (let dh = dh\<lparr>h_curr := di, h_num := h_num dh + 1\<rparr>
               in case set_node di (\<lambda>d. d\<lparr>d_prev := dp\<rparr>) h of
                    Inl e \<Rightarrow> Inl e
                  | Inr h \<Rightarrow> Inr (h, dh\<lparr>h_tail := di\<rparr>)))"

text \<open>
  \<open>node\<close> and \<open>block\<close> say what the two calls of \<open>malloc\<close> answer: an unused address, or \<open>NULL\<close>.
\<close>

definition ddl_insert :: "ddl_state \<Rightarrow> nat option \<Rightarrow> bool \<Rightarrow> u8 list \<Rightarrow> nat \<Rightarrow> int \<Rightarrow> ddl_error + ddl_state" where
  "ddl_insert = (\<lambda>(h, dh) node block data len flg.
     case node of
       None \<Rightarrow> Inr (h, dh)
     | Some di \<Rightarrow>
         if \<not> block then Inr (h, dh)
         else if length data < len then Inl Bad_Access
         else
           let h = h(di \<mapsto> \<lparr>d_data = take len data, d_dln = 0, d_next = 0, d_prev = 0\<rparr>)
           in if flg = 1 then ddl_insert_end (h, dh) di
              else if flg = 0 then ddl_insert_first (h, dh) di
              else Inr (h, dh))"

text \<open>The two iterators differ in the start and in the link they follow. They give what they print with \<open>%s\<close>.\<close>

partial_function (option) print_from ::
  "(ddl \<Rightarrow> nat) \<Rightarrow> nodes \<Rightarrow> nat \<Rightarrow> u8 list list \<Rightarrow> (ddl_error + u8 list list) option" where
  "print_from link h dp out =
     (if dp = 0 then Some (Inr out)
      else case ddl_at h dp of
             Inl e \<Rightarrow> Some (Inl e)
           | Inr d \<Rightarrow> (case c_string (d_data d) of
                          None \<Rightarrow> Some (Inl Bad_Access)
                        | Some s \<Rightarrow> print_from link h (link d) (out @ [s])))"

definition ddl_positive_iterator :: "ddl_state \<Rightarrow> (ddl_error + u8 list list) option" where
  "ddl_positive_iterator = (\<lambda>(h, dh). print_from d_next h (h_entr dh) [])"

definition ddl_reverse_iterator :: "ddl_state \<Rightarrow> (ddl_error + u8 list list) option" where
  "ddl_reverse_iterator = (\<lambda>(h, dh). print_from d_prev h (h_tail dh) [])"

partial_function (option) destroy_from :: "nodes \<Rightarrow> nat \<Rightarrow> (ddl_error + nodes) option" where
  "destroy_from h dp =
     (if dp = 0 then Some (Inr h)
      else case ddl_at h dp of
             Inl e \<Rightarrow> Some (Inl e)
           | Inr d \<Rightarrow> destroy_from (h(dp := None)) (d_next d))"

definition ddl_destory :: "ddl_state \<Rightarrow> (ddl_error + nodes) option" where
  "ddl_destory = (\<lambda>(h, dh). destroy_from h (h_entr dh))"

definition ddl_control :: "ddl_state \<Rightarrow> ddlctr option \<Rightarrow> ddl_error + (nat \<times> ddl_state)" where
  "ddl_control = (\<lambda>(h, dh) op.
     case op of
       Some up \<Rightarrow>
         (case ddl_at h (h_pos dh) of
            Inl e \<Rightarrow> Inl e
          | Inr d \<Rightarrow> if d_prev d \<noteq> 0 then Inr (d_prev d, (h, dh\<lparr>h_pos := d_prev d\<rparr>))
                     else Inr (h_pos dh, (h, dh)))
     | Some dn \<Rightarrow>
         if h_pos dh = 0 then Inr (0, (h, dh))
         else (case ddl_at h (h_pos dh) of
                 Inl e \<Rightarrow> Inl e
               | Inr d \<Rightarrow> if d_next d \<noteq> 0 then Inr (d_next d, (h, dh\<lparr>h_pos := d_next d\<rparr>))
                          else Inr (h_pos dh, (h, dh)))
     | None \<Rightarrow> Inr (0, (h, dh)))"

text \<open>The body of the loop of \<open>ddl_delete\<close> for the node found, and the loop.\<close>

definition delete_found :: "ddl_state \<Rightarrow> nat \<Rightarrow> nat \<Rightarrow> ddl_error + ddl_state" where
  "delete_found = (\<lambda>(h, dh) tp dp.
     let dh = dh\<lparr>h_num := h_num dh - 1\<rparr>
     in case ddl_at h dp of
          Inl e \<Rightarrow> Inl e
        | Inr d \<Rightarrow>
            (let dh = (if dp = h_curr dh then dh\<lparr>h_curr := d_next d\<rparr> else dh);
                 dh = (if dp = h_pos dh then dh\<lparr>h_pos := tp\<rparr> else dh)
             in case set_node tp (\<lambda>t. t\<lparr>d_next := d_next d\<rparr>) h of
                  Inl e \<Rightarrow> Inl e
                | Inr h \<Rightarrow>
                    if d_next d \<noteq> 0 then
                      (case set_node (d_next d) (\<lambda>n. n\<lparr>d_prev := tp\<rparr>) h of
                         Inl e \<Rightarrow> Inl e
                       | Inr h \<Rightarrow> Inr (h(dp := None), dh))
                    else Inr (h(dp := None), dh\<lparr>h_tail := tp\<rparr>)))"

partial_function (option) delete_loop :: "ddl_state \<Rightarrow> nat \<Rightarrow> nat \<Rightarrow> nat \<Rightarrow> (ddl_error + ddl_state) option" where
  "delete_loop s di tp dp =
     (if dp = 0 then Some (Inr s)
      else if dp = di then Some (delete_found s tp dp)
      else case ddl_at (fst s) dp of
             Inl e \<Rightarrow> Some (Inl e)
           | Inr d \<Rightarrow> delete_loop s di dp (d_next d))"

definition ddl_delete :: "ddl_state \<Rightarrow> nat \<Rightarrow> (ddl_error + ddl_state) option" where
  "ddl_delete = (\<lambda>(h, dh) di.
     let tp = h_entr dh
     in if tp = 0 \<or> di = 0 then Some (Inr (h, dh))
        else case ddl_at h tp of
          Inl e \<Rightarrow> Some (Inl e)
        | Inr t \<Rightarrow>
            if tp = di then
              Some (Inr (h(di := None), dh\<lparr>h_curr := 0, h_pos := 0, h_entr := 0, h_tail := 0, h_num := 0\<rparr>))
            else delete_loop (h, dh) di tp (d_next t))"

section \<open>Chains of nodes\<close>

text \<open>
  The nodes of a list in the heap: each item is an address with the data stored there, each node
  links back to the one before and forward to the next one.
\<close>

type_synonym items = "(nat \<times> u8 list) list"

fun first_of :: "items \<Rightarrow> nat \<Rightarrow> nat" where
  "first_of [] q = q"
| "first_of (x # xs) q = fst x"

fun last_of :: "nat \<Rightarrow> items \<Rightarrow> nat" where
  "last_of p [] = p"
| "last_of p (x # xs) = last_of (fst x) xs"

fun chain :: "nodes \<Rightarrow> nat \<Rightarrow> items \<Rightarrow> nat \<Rightarrow> bool" where
  "chain h p [] q \<longleftrightarrow> True"
| "chain h p (x # xs) q \<longleftrightarrow> fst x \<noteq> 0
     \<and> h (fst x) = Some \<lparr>d_data = snd x, d_dln = 0, d_next = first_of xs q, d_prev = p\<rparr>
     \<and> chain h (fst x) xs q"

lemma first_of_append[simp]: "first_of (xs @ ys) q = first_of xs (first_of ys q)"
  by (cases xs) simp_all

lemma last_of_append[simp]: "last_of p (xs @ ys) = last_of (last_of p xs) ys"
  by (induction xs arbitrary: p) simp_all

lemma chain_append[simp]:
  "chain h p (xs @ ys) q \<longleftrightarrow> chain h p xs (first_of ys q) \<and> chain h (last_of p xs) ys q"
  by (induction xs arbitrary: p) auto

lemma chain_cong:
  "\<forall>x\<in>set xs. h' (fst x) = h (fst x) \<Longrightarrow> chain h' p xs q = chain h p xs q"
  by (induction xs arbitrary: p) auto

lemma chain_update[simp]: "a \<notin> fst ` set xs \<Longrightarrow> chain (h(a := v)) p xs q = chain h p xs q"
  by (rule chain_cong) auto

lemma chain_nonzero: "chain h p xs q \<Longrightarrow> x \<in> set xs \<Longrightarrow> fst x \<noteq> 0"
  by (induction xs arbitrary: p) auto

lemma chain_member: "chain h p xs q \<Longrightarrow> x \<in> set xs \<Longrightarrow> h (fst x) \<noteq> None"
  by (induction xs arbitrary: p) auto

lemma chain_last:
  assumes "chain h p (xs @ [x]) q"
  shows "h (fst x) = Some \<lparr>d_data = snd x, d_dln = 0, d_next = q, d_prev = last_of p xs\<rparr>" "fst x \<noteq> 0"
  using assms by simp_all

lemma first_of_zero: "chain h p xs q \<Longrightarrow> first_of xs 0 = 0 \<longleftrightarrow> xs = []"
  by (cases xs) simp_all

section \<open>Lists\<close>

text \<open>
  \<open>ddl_list s xs i k\<close>: the state holds the list \<open>xs\<close> with the position at its item \<open>i\<close>; the
  counter is \<open>k\<close> too small.
\<close>

definition ddl_list :: "ddl_state \<Rightarrow> items \<Rightarrow> nat \<Rightarrow> nat \<Rightarrow> bool" where
  "ddl_list s xs i k \<longleftrightarrow> (let (h, dh) = s in
     chain h 0 xs 0 \<and> distinct (map fst xs)
     \<and> h_entr dh = first_of xs 0 \<and> h_tail dh = last_of 0 xs \<and> h_curr dh = last_of 0 xs
     \<and> (if xs = [] then h_pos dh = 0 \<and> i = 0 else i < length xs \<and> h_pos dh = fst (xs ! i))
     \<and> h_num dh + of_nat k = of_nat (length xs))"

lemma ddl_listD:
  assumes "ddl_list (h, dh) xs i k"
  shows "chain h 0 xs 0" "distinct (map fst xs)" "h_entr dh = first_of xs 0" "h_tail dh = last_of 0 xs"
    "h_curr dh = last_of 0 xs" "h_num dh + of_nat k = of_nat (length xs)"
    "if xs = [] then h_pos dh = 0 \<and> i = 0 else i < length xs \<and> h_pos dh = fst (xs ! i)"
  using assms by (simp_all add: ddl_list_def)

lemma init_list: "ddl_init h True = Inr s \<Longrightarrow> ddl_list s [] 0 0"
  by (auto simp: ddl_init_def ddl_list_def)

definition fresh_node :: "nodes \<Rightarrow> nat \<Rightarrow> bool" where
  "fresh_node h a \<longleftrightarrow> a \<noteq> 0 \<and> h a = None"

lemma fresh_notin: "fresh_node h a \<Longrightarrow> chain h p xs q \<Longrightarrow> a \<notin> fst ` set xs"
  using chain_member by (fastforce simp: fresh_node_def)

lemma insert_end_list:
  assumes l: "ddl_list (h, dh) xs i k" and a: "fresh_node h a" and len: "len \<le> length data"
  shows "\<exists>s. ddl_insert (h, dh) (Some a) True data len 1 = Inr s
    \<and> ddl_list s (xs @ [(a, take len data)]) i (if xs = [] then 0 else k) \<and> dom (fst s) = insert a (dom h)"
proof (cases xs rule: rev_cases)
  case Nil
  then show ?thesis
    using l a len by (auto simp: ddl_insert_def ddl_insert_end_def ddl_list_def fresh_node_def)
next
  case (snoc ys y)
  note L = ddl_listD [OF l]
  have n: "a \<notin> fst ` set xs" using fresh_notin [OF a L(1)] .
  obtain b d where y: "y = (b, d)" by (cases y)
  have b: "h b = Some \<lparr>d_data = d, d_dln = 0, d_next = 0, d_prev = last_of 0 ys\<rparr>" "b \<noteq> 0"
    using chain_last [of h 0 ys y 0] L(1) by (simp_all add: snoc y)
  have "b \<notin> fst ` set ys" using L(2) by (simp add: snoc y)
  then have "chain h 0 ys b" "b \<noteq> a" "a \<notin> fst ` set ys" "last_of 0 xs = b" "first_of xs 0 \<noteq> 0"
    using L(1) n first_of_zero [OF L(1)] by (auto simp: snoc y)
  moreover have "h_num dh + 1 + of_nat k = of_nat (Suc (length xs))" using L(6) by (simp add: algebra_simps)
  ultimately show ?thesis
    using L a b n \<open>b \<notin> fst ` set ys\<close> len
    by (auto simp: ddl_insert_def ddl_insert_end_def set_node_def ddl_at_def ddl_list_def Let_def snoc y nth_append
        fresh_node_def)
qed

lemma insert_first_list:
  assumes l: "ddl_list (h, dh) xs i k" and a: "fresh_node h a" and len: "len \<le> length data"
  shows "\<exists>s. ddl_insert (h, dh) (Some a) True data len 0 = Inr s
    \<and> ddl_list s ((a, take len data) # xs) (if xs = [] then 0 else Suc i) (if xs = [] then 0 else Suc k)
    \<and> dom (fst s) = insert a (dom h) \<and> (xs \<noteq> [] \<longrightarrow> h_num (snd s) = h_num dh)"
proof (cases xs)
  case Nil
  then show ?thesis
    using l a len by (auto simp: ddl_insert_def ddl_insert_first_def ddl_list_def fresh_node_def)
next
  case (Cons y ys)
  note L = ddl_listD [OF l]
  have n: "a \<notin> fst ` set xs" using fresh_notin [OF a L(1)] .
  have "h_num dh + of_nat (Suc k) = of_nat (Suc (length xs))" using L(6) by (simp add: algebra_simps)
  then show ?thesis
    using L a n len
    by (auto simp: ddl_insert_def ddl_insert_first_def set_node_def ddl_at_def ddl_list_def Let_def Cons fresh_node_def)
qed

lemma delete_walk:
  assumes "chain h p (us @ (a, d) # zs) q" "a \<notin> fst ` set us"
  shows "delete_loop (h, dh) a tp (first_of (us @ (a, d) # zs) q) = Some (delete_found (h, dh) (last_of tp us) a)"
  using assms
proof (induction us arbitrary: tp p)
  case Nil
  then show ?case by (subst delete_loop.simps) simp
next
  case (Cons u us)
  from Cons.IH [of "fst u" "fst u"] Cons.prems show ?case
    by (subst delete_loop.simps) (simp add: ddl_at_def)
qed

lemma delete_walk_absent:
  assumes "chain h p us 0" "a \<notin> fst ` set us"
  shows "delete_loop (h, dh) a tp (first_of us 0) = Some (Inr (h, dh))"
  using assms
proof (induction us arbitrary: tp p)
  case Nil
  then show ?case by (subst delete_loop.simps) simp
next
  case (Cons u us)
  from Cons.IH [of "fst u" "fst u"] Cons.prems show ?case
    by (subst delete_loop.simps) (simp add: ddl_at_def)
qed

lemma delete_absent:
  assumes l: "ddl_list (h, dh) xs i k" and a: "a \<notin> fst ` set xs"
  shows "ddl_delete (h, dh) a = Some (Inr (h, dh))"
proof (cases xs)
  case Nil
  then show ?thesis using ddl_listD [OF l] by (simp add: ddl_delete_def)
next
  case (Cons y ys)
  note L = ddl_listD [OF l, unfolded Cons]
  show ?thesis
    using L a delete_walk_absent [of h "fst y" ys a dh "fst y"]
    by (auto simp: ddl_delete_def ddl_at_def Cons Let_def)
qed

text \<open>The node after the first one up to the node to delete.\<close>

lemma delete_found_at:
  assumes l: "ddl_list (h, dh) (y # us @ (a, d) # zs) i k"
  shows "ddl_delete (h, dh) a = Some (delete_found (h, dh) (last_of (fst y) us) a)"
proof -
  note L = ddl_listD [OF l]
  have "a \<noteq> 0" "h_entr dh = fst y" "a \<noteq> fst y" "a \<notin> fst ` set us" using L(1-3) by auto
  moreover have "ddl_at h (fst y)
      = Inr \<lparr>d_data = snd y, d_dln = 0, d_next = first_of (us @ (a, d) # zs) 0, d_prev = 0\<rparr>"
    using L(1) by (simp add: ddl_at_def)
  ultimately show ?thesis
    using L(1) delete_walk [of h "fst y" us a d zs 0 dh "fst y"] by (simp add: ddl_delete_def Let_def)
qed

lemma split_last_of: "\<exists>b e ws. y # us = ws @ [(b, e)] \<and> last_of (fst y) us = b"
proof -
  obtain ws w where w: "y # us = ws @ [w]" by (metis append_butlast_last_id list.discI)
  then have "last_of (fst y) us = last_of 0 (ws @ [w])" by (metis last_of.simps(2))
  with w show ?thesis by (cases w) auto
qed

lemma nth_fst_eq:
  assumes "distinct (map fst zs)" "i < length zs" "j < length zs"
  shows "fst (zs ! i) = fst (zs ! j) \<longleftrightarrow> i = j"
  using nth_eq_iff_index_eq [OF assms(1), of i j] assms(2,3) by simp

lemma delete_inner:
  assumes l: "ddl_list (h, dh) (ys @ (a, d) # zs) i k" and "ys \<noteq> []" "zs \<noteq> []"
  shows "\<exists>s. ddl_delete (h, dh) a = Some (Inr s)
    \<and> ddl_list s (ys @ zs) (if i < length ys then i else i - 1) k \<and> dom (fst s) = dom h - {a}"
proof -
  obtain y us where ys: "ys = y # us" using assms(2) by (cases ys) auto
  obtain b e ws where w: "y # us = ws @ [(b, e)]" "last_of (fst y) us = b" using split_last_of by blast
  obtain c f vs where zs: "zs = (c, f) # vs" using assms(3) by (cases zs) auto
  have xs: "ys @ (a, d) # zs = ws @ (b, e) # (a, d) # (c, f) # vs" "ys @ zs = ws @ (b, e) # (c, f) # vs"
    using w by (simp_all add: ys zs)
  note L = ddl_listD [OF l, unfolded xs]
  have ne: "a \<noteq> 0" "b \<noteq> 0" "c \<noteq> 0" "a \<noteq> b" "a \<noteq> c" "b \<noteq> c" "a \<notin> fst ` set ws" "b \<notin> fst ` set ws" "c \<notin> fst ` set ws"
    "a \<notin> fst ` set vs" "b \<notin> fst ` set vs" "c \<notin> fst ` set vs"
    using L(1,2) by auto
  define h' where "h' = h(b \<mapsto> \<lparr>d_data = e, d_dln = 0, d_next = c, d_prev = last_of 0 ws\<rparr>,
      c \<mapsto> \<lparr>d_data = f, d_dln = 0, d_next = first_of vs 0, d_prev = b\<rparr>, a := None)"
  have last: "last_of c vs \<noteq> a"
    using ne by (cases vs rule: rev_cases) (auto simp: image_iff)
  define dh' where "dh' = dh\<lparr>h_num := h_num dh - 1, h_pos := if h_pos dh = a then b else h_pos dh\<rparr>"
  have "delete_found (h, dh) b a = Inr (h', dh')"
    using L ne last
    by (auto simp: delete_found_def ddl_at_def set_node_def Let_def h'_def dh'_def fun_upd_twist)
  moreover have "ddl_list (h', dh') (ws @ (b, e) # (c, f) # vs) (if i < length ys then i else i - 1) k"
  proof -
    have ly: "length ys = Suc (length ws)" using arg_cong [OF w(1), of length] by (simp add: ys)
    have "h_num dh - 1 + of_nat k = of_nat (length (ws @ (b, e) # (c, f) # vs))"
      using L(6) by (simp add: algebra_simps)
    moreover have "chain h' 0 (ws @ (b, e) # (c, f) # vs) 0"
      using L(1) ne by (simp add: h'_def)
    moreover have "h_pos dh' = fst ((ws @ (b, e) # (c, f) # vs) ! (if i < length ys then i else i - 1))"
      "(if i < length ys then i else i - 1) < length (ws @ (b, e) # (c, f) # vs)"
    proof -
      have i: "i < length (ws @ (b, e) # (a, d) # (c, f) # vs)" "h_pos dh = fst ((ws @ (b, e) # (a, d) # (c, f) # vs) ! i)"
        using L(7) by simp_all
      then show "(if i < length ys then i else i - 1) < length (ws @ (b, e) # (c, f) # vs)" by (auto simp: ly)
      have eq: "h_pos dh = a \<longleftrightarrow> i = length ys"
      proof -
        have "(ws @ (b, e) # (a, d) # (c, f) # vs) ! length ys = (a, d)" by (simp add: ly nth_append)
        then show ?thesis
          using nth_fst_eq [OF L(2) i(1), of "length ys"] i(2) ly by simp
      qed
      consider "i < length ys" | "i = length ys" | j where "i = Suc (length ys + j)"
        by (metis less_imp_Suc_add linorder_neqE_nat)
      then show "h_pos dh' = fst ((ws @ (b, e) # (c, f) # vs) ! (if i < length ys then i else i - 1))"
      proof cases
        case 1
        then have "i = length ws \<or> i < length ws" using ly by auto
        with i(2) eq 1 show ?thesis by (auto simp: dh'_def nth_append)
      next
        case 2
        with eq show ?thesis by (simp add: dh'_def ly nth_append)
      next
        case 3
        with i(2) eq show ?thesis by (simp add: dh'_def ly nth_append)
      qed
    qed
    ultimately show ?thesis using L by (simp add: ddl_list_def dh'_def)
  qed
  moreover have "dom h' = dom h - {a}" using L(1) ne by (auto simp: h'_def)
  ultimately show ?thesis
    using delete_found_at [of h dh y us a d zs i k] l unfolding ys xs(2) [unfolded ys] w(2) by auto
qed

end
