(* ===== verification/Ddl_Props.thy ===== *)
theory Ddl_Props
  imports Ddl
begin

text \<open>
  The linked list as an abstract list: moving the position, printing in both directions,
  destroying; sequences of calls; and the calls that break the list.
\<close>

section \<open>Position, printing, destruction\<close>

lemma chain_nth:
  assumes "chain h p xs q" "i < length xs"
  shows "h (fst (xs ! i)) = Some \<lparr>d_data = snd (xs ! i), d_dln = 0,
      d_next = (if Suc i < length xs then fst (xs ! Suc i) else q),
      d_prev = (if i = 0 then p else fst (xs ! (i - 1)))\<rparr> \<and> fst (xs ! i) \<noteq> 0"
  using assms
proof (induction xs arbitrary: p i)
  case (Cons x xs)
  show ?case
  proof (cases i)
    case 0
    with Cons.prems show ?thesis by (cases xs) auto
  next
    case (Suc j)
    with Cons.IH [of "fst x" j] Cons.prems show ?thesis by (cases j) auto
  qed
qed simp

lemma control_list:
  assumes l: "ddl_list (h, dh) xs i k" and ne: "xs \<noteq> []"
  shows "\<exists>s. ddl_control (h, dh) (Some up) = Inr (fst (xs ! (i - 1)), s) \<and> ddl_list s xs (i - 1) k \<and> fst s = h"
    "\<exists>s. ddl_control (h, dh) (Some dn) = Inr (fst (xs ! (min (Suc i) (length xs - 1))), s)
       \<and> ddl_list s xs (min (Suc i) (length xs - 1)) k \<and> fst s = h"
proof -
  note L = ddl_listD [OF l]
  have i: "i < length xs" "h_pos dh = fst (xs ! i)" using L(7) ne by simp_all
  note N = chain_nth [OF L(1) i(1)]
  have nz: "fst (xs ! j) \<noteq> 0" if "j < length xs" for j using chain_nth [OF L(1) that] by simp
  have pos: "ddl_list (h, dh\<lparr>h_pos := fst (xs ! j)\<rparr>) xs j k" if "j < length xs" for j
    using L that ne by (simp add: ddl_list_def)
  show "\<exists>s. ddl_control (h, dh) (Some up) = Inr (fst (xs ! (i - 1)), s) \<and> ddl_list s xs (i - 1) k \<and> fst s = h"
    using N i l pos [of "i - 1"] nz [of "i - 1"]
    by (cases i) (simp_all add: ddl_control_def ddl_at_def)
  show "\<exists>s. ddl_control (h, dh) (Some dn) = Inr (fst (xs ! (min (Suc i) (length xs - 1))), s)
       \<and> ddl_list s xs (min (Suc i) (length xs - 1)) k \<and> fst s = h"
  proof (cases "Suc i < length xs")
    case True
    then have "min (Suc i) (length xs - 1) = Suc i" by simp
    with True N i pos [of "Suc i"] nz [of "Suc i"] show ?thesis by (simp add: ddl_control_def ddl_at_def)
  next
    case False
    then have "min (Suc i) (length xs - 1) = i" using i(1) by simp
    with False N i l show ?thesis by (simp add: ddl_control_def ddl_at_def)
  qed
qed

definition printable :: "items \<Rightarrow> bool" where
  "printable xs \<longleftrightarrow> (\<forall>x\<in>set xs. c_string (snd x) \<noteq> None)"

definition strings :: "items \<Rightarrow> u8 list list" where
  "strings xs = map (\<lambda>x. the (c_string (snd x))) xs"

lemma print_forward:
  assumes "chain h p xs 0" "printable xs"
  shows "print_from d_next h (first_of xs 0) out = Some (Inr (out @ strings xs))"
  using assms
proof (induction xs arbitrary: p out)
  case Nil
  then show ?case by (subst print_from.simps) (simp add: strings_def)
next
  case (Cons x xs)
  from Cons.IH [of "fst x"] Cons.prems show ?case
    by (subst print_from.simps) (auto simp: ddl_at_def printable_def strings_def)
qed

lemma print_backward:
  assumes "chain h 0 xs q" "printable xs"
  shows "print_from d_prev h (last_of 0 xs) out = Some (Inr (out @ rev (strings xs)))"
  using assms
proof (induction xs arbitrary: q out rule: rev_induct)
  case Nil
  then show ?case by (subst print_from.simps) (simp add: strings_def)
next
  case (snoc x xs)
  from snoc.IH [of "fst x"] snoc.prems show ?case
    by (subst print_from.simps) (auto simp: ddl_at_def printable_def strings_def)
qed

lemma destroy_chain:
  assumes "chain h p xs 0" "distinct (map fst xs)"
  shows "\<exists>h'. destroy_from h (first_of xs 0) = Some (Inr h') \<and> dom h' = dom h - fst ` set xs"
  using assms
proof (induction xs arbitrary: p h)
  case Nil
  then show ?case by (subst destroy_from.simps) simp
next
  case (Cons x xs)
  have c: "chain (h(fst x := None)) (fst x) xs 0" using Cons.prems by simp
  have d: "distinct (map fst xs)" using Cons.prems(2) by simp
  obtain h' where h': "destroy_from (h(fst x := None)) (first_of xs 0) = Some (Inr h')"
    "dom h' = dom (h(fst x := None)) - fst ` set xs"
    using Cons.IH [OF c d] by blast
  have "destroy_from h (first_of (x # xs) 0) = Some (Inr h')"
    using Cons.prems h'(1) by (subst destroy_from.simps) (simp add: ddl_at_def)
  with h'(2) show ?case by auto
qed

section \<open>Sequences of calls\<close>

text \<open>
  Calls on one list; the address of a new node is what \<open>malloc\<close> gives. The abstract state is the
  set of allocated addresses, the list, the position and the deficit of the counter.
\<close>

datatype list_op =
    Insert_End nat "u8 list"
  | Insert_First nat "u8 list"
  | Delete nat
  | Control ddlctr

definition exec_op :: "list_op \<Rightarrow> ddl_state \<Rightarrow> (ddl_error + ddl_state) option" where
  "exec_op op s = (case op of
     Insert_End a data \<Rightarrow> Some (ddl_insert s (Some a) True data (length data) 1)
   | Insert_First a data \<Rightarrow> Some (ddl_insert s (Some a) True data (length data) 0)
   | Delete a \<Rightarrow> ddl_delete s a
   | Control c \<Rightarrow> Some (case ddl_control s (Some c) of Inl e \<Rightarrow> Inl e | Inr (_, s') \<Rightarrow> Inr s'))"

fun exec_ops :: "list_op list \<Rightarrow> ddl_state \<Rightarrow> (ddl_error + ddl_state) option" where
  "exec_ops [] s = Some (Inr s)"
| "exec_ops (op # ops) s =
     (case exec_op op s of None \<Rightarrow> None | Some (Inl e) \<Rightarrow> Some (Inl e) | Some (Inr s') \<Rightarrow> exec_ops ops s')"

type_synonym list_abs = "nat set \<times> items \<times> nat \<times> nat"

text \<open>What the calls mean, and when the list allows them: the first and the last item stay.\<close>

fun op_spec :: "list_op \<Rightarrow> list_abs \<Rightarrow> list_abs" where
  "op_spec (Insert_End a data) (D, xs, i, k) = (insert a D, xs @ [(a, data)], i, if xs = [] then 0 else k)"
| "op_spec (Insert_First a data) (D, xs, i, k) =
     (insert a D, (a, data) # xs, if xs = [] then 0 else Suc i, if xs = [] then 0 else Suc k)"
| "op_spec (Delete a) (D, xs, i, k) =
     (if a \<in> fst ` set xs then
        (D - {a}, filter (\<lambda>x. fst x \<noteq> a) xs,
         if i < length (takeWhile (\<lambda>x. fst x \<noteq> a) xs) then i else i - 1, k)
      else (D, xs, i, k))"
| "op_spec (Control up) (D, xs, i, k) = (D, xs, i - 1, k)"
| "op_spec (Control dn) (D, xs, i, k) = (D, xs, min (Suc i) (length xs - 1), k)"

fun op_allowed :: "list_op \<Rightarrow> list_abs \<Rightarrow> bool" where
  "op_allowed (Insert_End a data) (D, xs, i, k) \<longleftrightarrow> a \<noteq> 0 \<and> a \<notin> D"
| "op_allowed (Insert_First a data) (D, xs, i, k) \<longleftrightarrow> a \<noteq> 0 \<and> a \<notin> D"
| "op_allowed (Delete a) (D, xs, i, k) \<longleftrightarrow> xs = [] \<or> a \<noteq> fst (hd xs) \<and> a \<noteq> fst (last xs)"
| "op_allowed (Control c) (D, xs, i, k) \<longleftrightarrow> c = dn \<or> xs \<noteq> []"

fun ops_spec :: "list_op list \<Rightarrow> list_abs \<Rightarrow> list_abs" where
  "ops_spec [] t = t"
| "ops_spec (op # ops) t = ops_spec ops (op_spec op t)"

fun ops_allowed :: "list_op list \<Rightarrow> list_abs \<Rightarrow> bool" where
  "ops_allowed [] t \<longleftrightarrow> True"
| "ops_allowed (op # ops) t \<longleftrightarrow> op_allowed op t \<and> ops_allowed ops (op_spec op t)"

fun list_abs_ok :: "nat set \<Rightarrow> ddl_state \<Rightarrow> list_abs \<Rightarrow> bool" where
  "list_abs_ok D0 s (D, xs, i, k) \<longleftrightarrow> ddl_list s xs i k \<and> dom (fst s) = D \<and> D - fst ` set xs = D0"

lemma split_item:
  assumes "distinct (map fst xs)" "a \<in> fst ` set xs"
  obtains ys d zs where "xs = ys @ (a, d) # zs" "filter (\<lambda>x. fst x \<noteq> a) xs = ys @ zs"
    "takeWhile (\<lambda>x. fst x \<noteq> a) xs = ys"
proof -
  from assms(2) obtain d where "(a, d) \<in> set xs" by force
  then obtain ys zs where xs: "xs = ys @ (a, d) # zs" by (metis split_list)
  have "\<forall>x\<in>set ys. fst x \<noteq> a" "\<forall>x\<in>set zs. fst x \<noteq> a" using assms(1) by (force simp: xs)+
  then have "filter (\<lambda>x. fst x \<noteq> a) xs = ys @ zs" "takeWhile (\<lambda>x. fst x \<noteq> a) xs = ys"
    by (simp_all add: xs)
  with xs that show thesis by blast
qed

lemma exec_op_ok:
  assumes ok: "list_abs_ok D0 s t" and al: "op_allowed op t"
  shows "\<exists>s'. exec_op op s = Some (Inr s') \<and> list_abs_ok D0 s' (op_spec op t)"
proof -
  obtain h dh where s: "s = (h, dh)" by (cases s)
  obtain D xs i k where t: "t = (D, xs, i, k)" by (cases t)
  have l: "ddl_list (h, dh) xs i k" and D: "dom h = D" "D - fst ` set xs = D0" using ok by (simp_all add: s t)
  note L = ddl_listD [OF l]
  show ?thesis
  proof (cases op)
    case (Insert_End a data)
    then have "fresh_node h a" "a \<notin> D" using al D by (auto simp: t fresh_node_def)
    with insert_end_list [OF l this(1) le_refl, of data] show ?thesis
      using D by (auto simp: Insert_End exec_op_def s t)
  next
    case (Insert_First a data)
    then have "fresh_node h a" "a \<notin> D" using al D by (auto simp: t fresh_node_def)
    with insert_first_list [OF l this(1) le_refl, of data] show ?thesis
      using D by (auto simp: Insert_First exec_op_def s t)
  next
    case (Delete a)
    show ?thesis
    proof (cases "a \<in> fst ` set xs")
      case False
      then show ?thesis using ok delete_absent [OF l False] by (simp add: Delete exec_op_def s t)
    next
      case True
      with L(2) obtain ys d zs where sp: "xs = ys @ (a, d) # zs" "filter (\<lambda>x. fst x \<noteq> a) xs = ys @ zs"
        "takeWhile (\<lambda>x. fst x \<noteq> a) xs = ys" by (rule split_item)
      have "ys \<noteq> []" "zs \<noteq> []" using al by (auto simp: Delete t sp(1))
      from delete_inner [OF l [unfolded sp(1)] this] obtain s' where
        d: "ddl_delete (h, dh) a = Some (Inr s')" and l': "ddl_list s' (ys @ zs) (if i < length ys then i else i - 1) k"
        and dom: "dom (fst s') = dom h - {a}" by blast
      have spec: "op_spec op t = (D - {a}, ys @ zs, if i < length ys then i else i - 1, k)"
        unfolding Delete t op_spec.simps sp(2,3) using True by simp
      have "D - {a} - fst ` set (ys @ zs) = D0"
        using D(2) L(2) by (auto simp: sp(1))
      with d l' dom D(1) show ?thesis unfolding spec by (simp add: Delete exec_op_def s)
    qed
  next
    case (Control c)
    show ?thesis
    proof (cases "xs = []")
      case True
      with al L(7) have "c = dn" "h_pos dh = 0" "i = 0" by (simp_all add: Control t)
      then show ?thesis using ok by (simp add: Control exec_op_def s t ddl_control_def True)
    next
      case False
      from control_list [OF l False] D show ?thesis by (cases c) (auto simp: Control exec_op_def s t)
    qed
  qed
qed

lemma exec_ops_ok:
  assumes "list_abs_ok D0 s t" "ops_allowed ops t"
  shows "\<exists>s'. exec_ops ops s = Some (Inr s') \<and> list_abs_ok D0 s' (ops_spec ops t)"
  using assms
proof (induction ops arbitrary: s t)
  case (Cons op ops)
  then obtain s1 where "exec_op op s = Some (Inr s1)" "list_abs_ok D0 s1 (op_spec op t)"
    using exec_op_ok [of D0 s t op] by auto
  with Cons.IH [of s1 "op_spec op t"] Cons.prems show ?case by simp
qed simp

section \<open>The properties\<close>

text \<open>
  C28: on a fresh list, any sequence of insertions at both ends, moves of the position and
  deletions of items other than the first and the last is that sequence on an abstract list with a
  position. Afterwards both iterators end and print the list forwards and backwards, and
  destroying frees every node of the list and no other block. The counter is short by the
  insertions at the front of a list that was not empty.
\<close>

theorem ddl_refines_list:
  assumes "ddl_init h True = Inr s0" "ops_allowed ops (dom h, [], 0, 0)"
    "ops_spec ops (dom h, [], 0, 0) = (D, xs, i, k)" "printable xs"
  shows "\<exists>s. exec_ops ops s0 = Some (Inr s)
    \<and> ddl_positive_iterator s = Some (Inr (strings xs))
    \<and> ddl_reverse_iterator s = Some (Inr (rev (strings xs)))
    \<and> (xs \<noteq> [] \<longrightarrow> h_pos (snd s) = fst (xs ! i))
    \<and> h_num (snd s) + of_nat k = of_nat (length xs)
    \<and> (\<exists>h'. ddl_destory s = Some (Inr h') \<and> dom h' = dom h)"
proof -
  have "list_abs_ok (dom h) s0 (dom h, [], 0, 0)"
    using init_list [OF assms(1)] assms(1) by (auto simp: ddl_init_def)
  from exec_ops_ok [OF this assms(2)] obtain s where s: "exec_ops ops s0 = Some (Inr s)"
    "list_abs_ok (dom h) s (D, xs, i, k)" unfolding assms(3) by blast
  obtain h1 dh where eq: "s = (h1, dh)" by (cases s)
  have l: "ddl_list (h1, dh) xs i k" and D: "dom h1 - fst ` set xs = dom h" using s(2) by (auto simp: eq)
  note L = ddl_listD [OF l]
  show ?thesis
    using s(1) L print_forward [OF L(1) assms(4), of "[]"] print_backward [OF L(1) assms(4), of "[]"]
      destroy_chain [OF L(1,2)] D
    by (simp add: eq ddl_positive_iterator_def ddl_reverse_iterator_def ddl_destory_def)
qed

theorem ddl_refines_list_witness:
  "\<exists>s. exec_ops [Insert_End 8 [97, 0], Insert_End 16 [98, 0], Insert_First 24 [99, 0], Control dn, Delete 8]
        (Map.empty, \<lparr>h_entr = 0, h_tail = 0, h_curr = 0, h_pos = 0, h_num = 0\<rparr>) = Some (Inr s)
     \<and> ddl_reverse_iterator s = Some (Inr [[98], [99]]) \<and> h_num (snd s) = 1"
  using ddl_refines_list [of Map.empty _
      "[Insert_End 8 [97, 0], Insert_End 16 [98, 0], Insert_First 24 [99, 0], Control dn, Delete 8]" "{24, 16, 8} - {8}"
      "[(24, [99, 0]), (16, [98, 0])]" 1 1]
  by (simp add: ddl_init_def printable_def strings_def del: exec_ops.simps) blast

lemma delete_last_breaks:
  assumes l: "ddl_list (h, dh) (xs @ [(z, d)]) i k" and "xs \<noteq> []"
  shows "\<exists>s. ddl_delete (h, dh) z = Some (Inr s) \<and> h_entr (snd s) \<noteq> 0 \<and> h_curr (snd s) = 0"
proof -
  obtain y us where xs: "xs = y # us" using assms(2) by (cases xs) auto
  obtain b e ws where w: "y # us = ws @ [(b, e)]" "last_of (fst y) us = b" using split_last_of by blast
  have z: "xs @ [(z, d)] = ws @ [(b, e), (z, d)]" using w by (simp add: xs)
  note L = ddl_listD [OF l, unfolded z]
  have "b \<noteq> z" "z \<noteq> 0" "b \<noteq> 0" using L(1,2) by auto
  then have "\<exists>s. delete_found (h, dh) b z = Inr s \<and> h_entr (snd s) = h_entr dh \<and> h_curr (snd s) = 0"
    using L by (auto simp: delete_found_def ddl_at_def set_node_def Let_def)
  moreover have "ddl_delete (h, dh) z = Some (delete_found (h, dh) b z)"
    using delete_found_at [of h dh y us z d "[]" i k] l w(2) by (simp add: xs)
  moreover have "h_entr dh \<noteq> 0" using ddl_listD(1,3) [OF l] by (simp add: xs)
  ultimately show ?thesis by auto
qed

lemma delete_first_drops:
  assumes l: "ddl_list (h, dh) (x # xs) i k"
  shows "\<exists>s. ddl_delete (h, dh) (fst x) = Some (Inr s) \<and> h_entr (snd s) = 0 \<and> fst s = h(fst x := None)"
  using ddl_listD [OF l] by (simp add: ddl_delete_def ddl_at_def)

text \<open>
  The calls that break a list. Deleting the last of several items sets \<open>curr\<close> to \<open>NULL\<close>,
  which the next insertion at the end dereferences; deleting the first one drops the whole list,
  whose other nodes are never freed; an insertion with another flag than 0 and 1 allocates a node
  no list holds; moving up in an empty list dereferences \<open>NULL\<close>, moving down does not.
\<close>

theorem ddl_list_breakers:
  assumes "ddl_list (h, dh) (xs @ [(z, d)]) i k" "xs \<noteq> []" "fresh_node h a" "flg \<noteq> 0" "flg \<noteq> 1"
  shows "(\<exists>s. ddl_delete (h, dh) z = Some (Inr s)
        \<and> ddl_insert s (Some a) True data (length data) 1 = Inl Bad_Access)
    \<and> (\<exists>s. ddl_delete (h, dh) (fst (hd xs)) = Some (Inr s)
        \<and> ddl_destory s = Some (Inr (fst s)) \<and> dom (fst s) = dom h - {fst (hd xs)} \<and> z \<in> dom (fst s))
    \<and> (\<exists>s. ddl_insert (h, dh) (Some a) True data (length data) flg = Inr s
        \<and> a \<in> dom (fst s) \<and> ddl_list s (xs @ [(z, d)]) i k)
    \<and> (\<exists>s. ddl_init h True = Inr s \<and> ddl_control s (Some up) = Inl Bad_Access
        \<and> ddl_control s (Some dn) = Inr (0, s))"
proof (intro conjI)
  obtain x ys where xs: "xs = x # ys" using assms(2) by (cases xs) auto
  note L = ddl_listD [OF assms(1)]
  obtain s where "ddl_delete (h, dh) z = Some (Inr s)" "h_entr (snd s) \<noteq> 0" "h_curr (snd s) = 0"
    using delete_last_breaks [OF assms(1,2)] by blast
  then show "\<exists>s. ddl_delete (h, dh) z = Some (Inr s)
      \<and> ddl_insert s (Some a) True data (length data) 1 = Inl Bad_Access"
    by (cases s) (auto simp: ddl_insert_def ddl_insert_end_def set_node_def ddl_at_def)
  obtain s where s: "ddl_delete (h, dh) (fst x) = Some (Inr s)" "h_entr (snd s) = 0" "fst s = h(fst x := None)"
    using delete_first_drops [of h dh x "ys @ [(z, d)]" i k] assms(1) by (auto simp: xs)
  have "z \<noteq> fst x" "h z \<noteq> None" using L(1,2) by (auto simp: xs)
  with s show "\<exists>s. ddl_delete (h, dh) (fst (hd xs)) = Some (Inr s)
      \<and> ddl_destory s = Some (Inr (fst s)) \<and> dom (fst s) = dom h - {fst (hd xs)} \<and> z \<in> dom (fst s)"
    by (cases s) (auto simp: xs ddl_destory_def destroy_from.simps)
  have "a \<notin> fst ` set (xs @ [(z, d)])" by (rule fresh_notin [OF assms(3) L(1)])
  then show "\<exists>s. ddl_insert (h, dh) (Some a) True data (length data) flg = Inr s
      \<and> a \<in> dom (fst s) \<and> ddl_list s (xs @ [(z, d)]) i k"
    using assms(1,4,5) by (simp add: ddl_insert_def Let_def ddl_list_def)
qed (simp add: ddl_init_def ddl_control_def ddl_at_def)

definition demo_list :: ddl_state where
  "demo_list = ([8 \<mapsto> \<lparr>d_data = [97, 0], d_dln = 0, d_next = 16, d_prev = 0\<rparr>,
      16 \<mapsto> \<lparr>d_data = [98, 0], d_dln = 0, d_next = 0, d_prev = 8\<rparr>],
     \<lparr>h_entr = 8, h_tail = 16, h_curr = 16, h_pos = 8, h_num = 2\<rparr>)"

theorem ddl_list_breakers_witness:
  "\<exists>s. ddl_delete demo_list 16 = Some (Inr s) \<and> ddl_insert s (Some 24) True [99, 0] 2 1 = Inl Bad_Access"
  using ddl_list_breakers [of "fst demo_list" "snd demo_list" "[(8, [97, 0])]" 16 "[98, 0]" 0 0 24 2 "[99, 0]"]
  by (simp add: demo_list_def ddl_list_def fresh_node_def numeral_2_eq_2)

end
