(* ===== verification/Common_Time.thy ===== *)
theory Common_Time
  imports Prelude
begin

text \<open>
  The time zone computation of common.c. What \<open>localtime\<close> and \<open>gmtime_r\<close> answer are arguments;
  \<open>HAVE_TM_TM_GMTOFF\<close> is defined nowhere in the repository, so the offset is computed from them.
\<close>

section \<open>The code\<close>

record tm =
  tm_year :: int
  tm_yday :: int
  tm_hour :: int
  tm_min :: int

definition SEC_PER_MIN :: int where "SEC_PER_MIN = 60"
definition SEC_PER_HOUR :: int where "SEC_PER_HOUR = 3600"
definition SEC_PER_DAY :: int where "SEC_PER_DAY = 86400"
definition SEC_PER_YEAR :: int where "SEC_PER_YEAR = 365 * SEC_PER_DAY"

definition is_leap_year :: "int \<Rightarrow> int" where
  "is_leap_year year = (if 0 = year mod 4 \<and> (0 \<noteq> year mod 100 \<or> 0 = year mod 400) then SUCCEED else FAIL)"

definition year_seconds :: "int \<Rightarrow> int" where
  "year_seconds year = (if SUCCEED = is_leap_year year then SEC_PER_YEAR + SEC_PER_DAY else SEC_PER_YEAR)"

text \<open>The two loops over the years between the local time and UTC.\<close>

function offset_up :: "int \<Rightarrow> int \<Rightarrow> int \<Rightarrow> int" where
  "offset_up year utc_year offset =
     (if utc_year < year then offset_up year (utc_year + 1) (offset + year_seconds utc_year) else offset)"
  by pat_completeness auto
termination by (relation "measure (\<lambda>(year, utc_year, offset). nat (year - utc_year))") auto

function offset_down :: "int \<Rightarrow> int \<Rightarrow> int \<Rightarrow> int" where
  "offset_down year utc_year offset =
     (if year < utc_year then offset_down year (utc_year - 1) (offset - year_seconds (utc_year - 1)) else offset)"
  by pat_completeness auto
termination by (relation "measure (\<lambda>(year, utc_year, offset). nat (utc_year - year))") auto

declare offset_up.simps [simp del] offset_down.simps [simp del]

text \<open>After the first loop the year of UTC is at least the local one.\<close>

definition nt_get_timezone_offset :: "tm \<Rightarrow> tm \<Rightarrow> int" where
  "nt_get_timezone_offset t utc =
     (let offset = (tm_yday t - tm_yday utc) * SEC_PER_DAY
            + (tm_hour t - tm_hour utc) * SEC_PER_HOUR
            + (tm_min t - tm_min utc) * SEC_PER_MIN;
          offset = offset_up (tm_year t) (tm_year utc) offset
      in offset_down (tm_year t) (max (tm_year t) (tm_year utc)) offset)"

record nt_timezone_t =
  tz_sign :: char
  tz_hour :: int
  tz_min :: int

text \<open>The time zone and the milliseconds that nt_get_time gives.\<close>

definition nt_get_time :: "tm \<Rightarrow> tm \<Rightarrow> int \<Rightarrow> int \<times> nt_timezone_t" where
  "nt_get_time t utc usec =
     (let offset = nt_get_timezone_offset t utc;
          hour = \<bar>offset\<bar> div SEC_PER_HOUR
      in (usec div 1000,
          \<lparr>tz_sign = (if 0 \<le> offset then CHR ''+'' else CHR ''-''), tz_hour = hour,
           tz_min = (\<bar>offset\<bar> - hour * SEC_PER_HOUR) div SEC_PER_MIN\<rparr>))"

section \<open>The Gregorian calendar\<close>

text \<open>The days before the first of January of a year, and the seconds up to a broken-down time.\<close>

definition year_start :: "int \<Rightarrow> int" where
  "year_start y = 365 * (y - 1) + (y - 1) div 4 - (y - 1) div 100 + (y - 1) div 400"

definition leap :: "int \<Rightarrow> bool" where
  "leap y \<longleftrightarrow> 4 dvd y \<and> (\<not> 100 dvd y \<or> 400 dvd y)"

definition seconds :: "tm \<Rightarrow> int" where
  "seconds t = (year_start (1900 + tm_year t) + tm_yday t) * 86400 + tm_hour t * 3600 + tm_min t * 60"

lemma div_Suc_int: "0 < (d::int) \<Longrightarrow> y div d - (y - 1) div d = (if d dvd y then 1 else 0)"
proof -
  assume d: "0 < d"
  show ?thesis
  proof (cases "d dvd y")
    case True
    then obtain k where "y = d * k" by blast
    moreover have "(d * k - 1) div d = k - 1"
      using d by (intro int_div_pos_eq [where r = "d - 1"]) (simp_all add: algebra_simps)
    ultimately show ?thesis using d by simp
  next
    case False
    then have m: "0 < y mod d" using d by (metis dvd_eq_mod_eq_0 order_le_less pos_mod_sign)
    have "(y - 1) div d = y div d"
      using d m pos_mod_bound [OF d, of y]
      by (intro int_div_pos_eq [where r = "y mod d - 1"]) (simp_all add: algebra_simps)
    with False show ?thesis by simp
  qed
qed

lemma year_start_Suc: "year_start (y + 1) - year_start y = (if leap y then 366 else 365)"
proof -
  have d1: "(4::int) dvd y" if "100 dvd y" using that by (rule dvd_trans [rotated]) simp
  have d2: "(100::int) dvd y" if "400 dvd y" using that by (rule dvd_trans [rotated]) simp
  have shuffle: "365 * y + a - b + c - (365 * (y - 1) + a' - b' + c') = 365 + (a - a') - (b - b') + (c - c')"
    for a b c a' b' c' :: int by simp
  have "year_start (y + 1) - year_start y
      = 365 + (y div 4 - (y - 1) div 4) - (y div 100 - (y - 1) div 100) + (y div 400 - (y - 1) div 400)"
    unfolding year_start_def add_diff_cancel_right' by (rule shuffle)
  then have "year_start (y + 1) - year_start y
      = 365 + (if 4 dvd y then 1 else 0) - (if 100 dvd y then 1 else 0) + (if 400 dvd y then 1 else 0)"
    unfolding div_Suc_int [OF zero_less_numeral] .
  moreover have "365 + (if 4 dvd y then 1 else 0) - (if 100 dvd y then 1 else 0) + (if 400 dvd y then 1 else 0)
      = (if leap y then 366 else 365 :: int)"
  proof -
    have *: "365 + (if a then 1 else 0) - (if b then 1 else 0) + (if c then 1 else 0)
      = (if a \<and> (\<not> b \<or> c) then 366 else 365 :: int)" if "b \<longrightarrow> a" "c \<longrightarrow> b" for a b c
      using that by (cases a; cases b; cases c) simp_all
    show ?thesis unfolding leap_def by (rule *) (use d1 d2 in blast)+
  qed
  ultimately show ?thesis by (rule trans)
qed

text \<open>
  The code takes years since 1900 for years of the calendar: what it adds for a year differs from
  the length of the year by \<open>year_error\<close>.
\<close>

definition year_error :: "int \<Rightarrow> int" where
  "year_error y = (if y mod 400 = 0 then 86400 else if y mod 400 = 100 then - 86400 else 0)"

lemma year_seconds_error:
  "year_seconds y = (year_start (1900 + (y + 1)) - year_start (1900 + y)) * 86400 + year_error y"
proof -
  define r where "r = y mod 400"
  have r: "0 \<le> r" "r < 400" by (simp_all add: r_def)
  have "(4::int) dvd 1900" "(100::int) dvd 1900" by simp_all
  then have d: "4 dvd 1900 + y \<longleftrightarrow> y mod 4 = 0" "100 dvd 1900 + y \<longleftrightarrow> y mod 100 = 0"
    unfolding dvd_eq_mod_eq_0 [symmetric] by (simp_all only: dvd_add_right_iff)
  have "1900 + y = (300 + y) + 4 * 400" by simp
  then have "(1900 + y) mod 400 = (300 + y) mod 400" by (simp only: mod_mult_self1)
  also have "\<dots> = (300 + r) mod 400" unfolding r_def by (simp only: mod_add_right_eq)
  also have "\<dots> = (if r < 100 then 300 + r else r - 100)"
  proof (cases "r < 100")
    case False
    then have "300 + r = (r - 100) + 1 * 400" by simp
    then have "(300 + r) mod 400 = (r - 100) mod 400" by (simp only: mod_mult_self1)
    then show ?thesis using False r by simp
  qed (use r in simp)
  finally have "400 dvd 1900 + y \<longleftrightarrow> r = 100" using r unfolding dvd_eq_mod_eq_0 by (simp split: if_splits)
  then have l: "leap (1900 + y) \<longleftrightarrow> y mod 4 = 0 \<and> (y mod 100 \<noteq> 0 \<or> r = 100)"
    unfolding leap_def d by (simp only:)
  have m: "y mod 4 = r mod 4" "y mod 100 = r mod 100" unfolding r_def by (simp_all add: mod_mod_cancel)
  have c: "r = 0 \<Longrightarrow> y mod 4 = 0 \<and> y mod 100 = 0" "r = 100 \<Longrightarrow> y mod 4 = 0 \<and> y mod 100 = 0"
    unfolding m by simp_all
  define A where "A \<longleftrightarrow> y mod 4 = 0"
  define B where "B \<longleftrightarrow> y mod 100 = 0"
  have sec: "year_seconds y = (if A \<and> (\<not> B \<or> r = 0) then 366 else 365) * 86400"
    unfolding year_seconds_def is_leap_year_def A_def B_def r_def SUCCEED_def FAIL_def SEC_PER_YEAR_def SEC_PER_DAY_def
    by (simp add: eq_commute [of 0])
  have err: "year_error y = (if r = 0 then 86400 else if r = 100 then - 86400 else 0)"
    unfolding year_error_def r_def ..
  have st: "year_start (1900 + (y + 1)) - year_start (1900 + y) = (if A \<and> (\<not> B \<or> r = 100) then 366 else 365)"
    using year_start_Suc [of "1900 + y"] unfolding l A_def B_def by (simp only: add.assoc)
  show ?thesis
    unfolding sec err st using c unfolding A_def [symmetric] B_def [symmetric]
    by (cases A; cases B; cases "r = 0"; cases "r = 100") simp_all
qed

lemma offset_up_self[simp]: "offset_up y y offset = offset"
  by (subst offset_up.simps) simp

lemma offset_down_self[simp]: "offset_down y y offset = offset"
  by (subst offset_down.simps) simp

section \<open>The property\<close>

text \<open>
  C32: when local time and UTC are in the same year the offset is the difference of the two
  times. When they are in adjacent years it is so but for \<open>year_error\<close> of the earlier one, which local
  time ahead of UTC adds and local time behind UTC subtracts. So around the end of the years 2000, 2400, ...
  (\<open>tm_year\<close> 100 modulo 400) a zone east of UTC loses a whole day and a zone west of it gains one; around the
  end of 1900, 2300, ... it is the other way round. The sign, hours and minutes of nt_get_time give the offset back.
\<close>

theorem timezone_offset_exact:
  assumes "\<bar>tm_year t - tm_year utc\<bar> \<le> 1"
    "offset = seconds t - seconds utc
       + (if tm_year t = tm_year utc + 1 then year_error (tm_year utc)
          else if tm_year utc = tm_year t + 1 then - year_error (tm_year t) else 0)"
  shows "nt_get_timezone_offset t utc = offset
    \<and> (60 dvd offset \<longrightarrow> (let tz = snd (nt_get_time t utc usec) in
         offset = (if tz_sign tz = CHR ''+'' then 1 else -1) * (tz_hour tz * 3600 + tz_min tz * 60)
         \<and> 0 \<le> tz_min tz \<and> tz_min tz < 60))"
proof
  consider "tm_year t = tm_year utc" | "tm_year t = tm_year utc + 1" | "tm_year utc = tm_year t + 1"
    using assms(1) by linarith
  then show eq: "nt_get_timezone_offset t utc = offset"
  proof cases
    case 1
    then show ?thesis
      by (simp add: assms(2) nt_get_timezone_offset_def seconds_def SEC_PER_DAY_def SEC_PER_HOUR_def SEC_PER_MIN_def
          algebra_simps)
  next
    case 2
    have "offset_up (tm_year utc + 1) (tm_year utc) x = x + year_seconds (tm_year utc)" for x
      by (subst offset_up.simps) simp
    with 2 show ?thesis
      by (simp add: assms(2) nt_get_timezone_offset_def seconds_def SEC_PER_DAY_def SEC_PER_HOUR_def SEC_PER_MIN_def
          year_seconds_error Let_def)
  next
    case 3
    have "offset_down (tm_year t) (tm_year t + 1) x = x - year_seconds (tm_year t)" for x
      by (subst offset_down.simps) simp
    moreover have "offset_up (tm_year t) (tm_year t + 1) x = x" for x
      by (subst offset_up.simps) simp
    ultimately show ?thesis
      using 3
      by (simp add: assms(2) nt_get_timezone_offset_def seconds_def SEC_PER_DAY_def SEC_PER_HOUR_def SEC_PER_MIN_def
          year_seconds_error Let_def)
  qed
  show "60 dvd offset \<longrightarrow> (let tz = snd (nt_get_time t utc usec) in
         offset = (if tz_sign tz = CHR ''+'' then 1 else -1) * (tz_hour tz * 3600 + tz_min tz * 60)
         \<and> 0 \<le> tz_min tz \<and> tz_min tz < 60)"
  proof
    assume "60 dvd offset"
    then obtain m where m: "\<bar>offset\<bar> = 60 * m" by (metis dvd_abs_iff dvd_def)
    define r where "r = \<bar>offset\<bar> mod 3600"
    have r: "\<bar>offset\<bar> - \<bar>offset\<bar> div 3600 * 3600 = r" unfolding r_def by (rule minus_div_mult_eq_mod)
    have "r = 60 * (m mod 60)" unfolding r_def m using mult_mod_right [of 60 m 60] by simp
    then have "r div 60 * 60 = r" "0 \<le> r div 60" "r div 60 < 60" by simp_all
    with r show "let tz = snd (nt_get_time t utc usec) in
         offset = (if tz_sign tz = CHR ''+'' then 1 else -1) * (tz_hour tz * 3600 + tz_min tz * 60)
         \<and> 0 \<le> tz_min tz \<and> tz_min tz < 60"
      by (cases "0 \<le> offset") (simp_all add: nt_get_time_def eq SEC_PER_HOUR_def SEC_PER_MIN_def Let_def)
  qed
qed

text \<open>
  The last half hour of 2000 in UTC, one hour east: the code gives 23 hours west. The first half hour of 2001 in UTC,
  five hours west: it gives 19 hours east.
\<close>

theorem timezone_offset_exact_witness:
  "snd (nt_get_time \<lparr>tm_year = 101, tm_yday = 0, tm_hour = 0, tm_min = 30\<rparr>
      \<lparr>tm_year = 100, tm_yday = 365, tm_hour = 23, tm_min = 30\<rparr> 0)
    = \<lparr>tz_sign = CHR ''-'', tz_hour = 23, tz_min = 0\<rparr> \<and>
   snd (nt_get_time \<lparr>tm_year = 100, tm_yday = 365, tm_hour = 19, tm_min = 30\<rparr>
      \<lparr>tm_year = 101, tm_yday = 0, tm_hour = 0, tm_min = 30\<rparr> 0)
    = \<lparr>tz_sign = CHR ''+'', tz_hour = 19, tz_min = 0\<rparr>"
  using timezone_offset_exact [of "\<lparr>tm_year = 101, tm_yday = 0, tm_hour = 0, tm_min = 30\<rparr>"
      "\<lparr>tm_year = 100, tm_yday = 365, tm_hour = 23, tm_min = 30\<rparr>" "-82800" 0]
    timezone_offset_exact [of "\<lparr>tm_year = 100, tm_yday = 365, tm_hour = 19, tm_min = 30\<rparr>"
      "\<lparr>tm_year = 101, tm_yday = 0, tm_hour = 0, tm_min = 30\<rparr>" "68400" 0]
  by (simp add: nt_get_time_def Let_def SEC_PER_HOUR_def SEC_PER_MIN_def seconds_def year_start_def year_error_def)

end
