(* ===== verification/Net.thy ===== *)
theory Net
  imports Cycle_Props Log
begin

text \<open>
  nt_socket.c: the check of dotted addresses, the command line, and the server that reads from its
  clients and puts tasks into the ring of nt_cycle.c. The kernel's part is a set of open
  descriptors and what each call answers.
\<close>

section \<open>Dotted addresses\<close>

definition isdigit :: "u8 \<Rightarrow> bool" where
  "isdigit c \<longleftrightarrow> 48 \<le> c \<and> c \<le> 57"

text \<open>
  The loop of is_ip4 over the bytes of the string before its terminating zero; the result is
  \<open>digits\<close>, \<open>dots\<close> and \<open>octet\<close> when it ends. \<open>None\<close>: the \<open>int\<close> \<open>octet\<close> overflows.
\<close>

fun ip4_scan :: "u8 list \<Rightarrow> int \<Rightarrow> int \<Rightarrow> int \<Rightarrow> (int \<times> int \<times> int) option" where
  "ip4_scan [] digits dots octet = Some (digits, dots, octet)"
| "ip4_scan (c # p) digits dots octet =
     (if isdigit c then
        (let octet = octet * 10 + (uint c - 48)
         in if INT_MAX < octet then None else ip4_scan p (digits + 1) dots octet)
      else if c = 46 then
        (if 0 = digits \<or> 3 < digits \<or> 255 < octet then Some (digits, dots, octet)
         else ip4_scan p 0 (dots + 1) 0)
      else Some (0, dots, octet))"

definition is_ip4 :: "u8 list \<Rightarrow> int option" where
  "is_ip4 ip = map_option (\<lambda>(digits, dots, octet).
     if 3 = dots \<and> 1 \<le> digits \<and> digits \<le> 3 \<and> octet \<le> 255 then 0 else -1) (ip4_scan ip 0 0 0)"

text \<open>The reference: four fields between dots, each of one to three digits with a value of at most 255.\<close>

fun dot_fields :: "u8 list \<Rightarrow> u8 list list" where
  "dot_fields [] = [[]]"
| "dot_fields (c # p) = (if c = 46 then [] # dot_fields p else (c # hd (dot_fields p)) # tl (dot_fields p))"

definition value_of :: "u8 list \<Rightarrow> int" where
  "value_of f = foldl (\<lambda>v c. v * 10 + (uint c - 48)) 0 f"

definition octet_field :: "u8 list \<Rightarrow> bool" where
  "octet_field f \<longleftrightarrow> 1 \<le> length f \<and> length f \<le> 3 \<and> list_all isdigit f \<and> value_of f \<le> 255"

definition dotted_quad :: "u8 list \<Rightarrow> bool" where
  "dotted_quad ip \<longleftrightarrow> length (dot_fields ip) = 4 \<and> list_all octet_field (dot_fields ip)"

lemma fields_nonempty[simp]: "dot_fields p \<noteq> []"
  by (cases p) simp_all

lemma fields_digits: "list_all isdigit g \<Longrightarrow> dot_fields (g @ p) = (g @ hd (dot_fields p)) # tl (dot_fields p)"
  by (induction g) (auto simp: isdigit_def)

lemma value_of_snoc: "value_of (g @ [c]) = value_of g * 10 + (uint c - 48)"
  by (simp add: value_of_def)

lemma digit_bounds: "isdigit c \<Longrightarrow> 0 \<le> uint c - 48 \<and> uint c - 48 \<le> 9"
  by (simp add: isdigit_def word_le_def)

lemma value_of_bound: "list_all isdigit g \<Longrightarrow> 0 \<le> value_of g \<and> value_of g < 10 ^ length g"
proof (induction g rule: rev_induct)
  case (snoc c g)
  then show ?case using digit_bounds [of c] by (simp add: value_of_snoc)
qed (simp add: value_of_def)

definition ip4_accepts :: "int \<times> int \<times> int \<Rightarrow> bool" where
  "ip4_accepts = (\<lambda>(digits, dots, octet). 3 = dots \<and> 1 \<le> digits \<and> digits \<le> 3 \<and> octet \<le> 255)"

text \<open>
  Where \<open>octet\<close> overflows: in the first field that is no octet, when the digits it begins with are a number
  above \<open>INT_MAX\<close>. Later fields are never looked at.
\<close>

definition fields_overflow :: "u8 list list \<Rightarrow> bool" where
  "fields_overflow fs =
     (case dropWhile octet_field fs of [] \<Rightarrow> False | f # _ \<Rightarrow> INT_MAX < value_of (takeWhile isdigit f))"

lemma value_of_grows:
  assumes "list_all isdigit g" "list_all isdigit h"
  shows "value_of g \<le> value_of (g @ h)"
  using assms(2)
proof (induction h rule: rev_induct)
  case (snoc c h)
  then have "0 \<le> value_of (g @ h)" using assms(1) value_of_bound [of "g @ h"] by simp
  then show ?case
    using snoc digit_bounds [of c] by (simp add: value_of_snoc append_assoc [symmetric] del: append_assoc)
qed simp

lemma fields_overflow_Cons:
  assumes "list_all isdigit g"
  shows "fields_overflow ((g @ h) # fs) \<longleftrightarrow>
    (if octet_field (g @ h) then fields_overflow fs else INT_MAX < value_of (g @ takeWhile isdigit h))"
  using assms by (simp add: fields_overflow_def takeWhile_append2 list_all_iff)

lemma digits_overflow:
  assumes g: "list_all isdigit g" and big: "INT_MAX < value_of g"
  shows "fields_overflow ((g @ h) # fs)"
proof -
  have t: "list_all isdigit (takeWhile isdigit h)" by (auto simp: list_all_iff dest: set_takeWhileD)
  then have "value_of g \<le> value_of (g @ takeWhile isdigit h)" by (rule value_of_grows [OF g])
  moreover have "\<not> octet_field (g @ h)"
  proof
    assume o: "octet_field (g @ h)"
    then have "list_all isdigit h" by (simp add: octet_field_def)
    from value_of_grows [OF g this] o big show False by (simp add: octet_field_def INT_MAX_def)
  qed
  ultimately show ?thesis using big by (simp add: fields_overflow_Cons [OF g])
qed

lemma ip4_scan_fields:
  assumes "list_all isdigit g" "value_of g \<le> INT_MAX"
  shows "case ip4_scan p (int (length g)) (int n) (value_of g) of
      None \<Rightarrow> fields_overflow (dot_fields (g @ p))
    | Some r \<Rightarrow> \<not> fields_overflow (dot_fields (g @ p))
        \<and> (ip4_accepts r \<longleftrightarrow> n + length (dot_fields (g @ p)) = 4 \<and> list_all octet_field (dot_fields (g @ p)))"
  using assms
proof (induction p arbitrary: g n)
  case Nil
  then have "dot_fields g = [g]" using fields_digits [of g "[]"] by simp
  with Nil show ?case
    using fields_overflow_Cons [of g "[]" "[]"] by (auto simp: ip4_accepts_def octet_field_def fields_overflow_def)
next
  case (Cons c p)
  have fs: "dot_fields (g @ c # p) = (g @ hd (dot_fields (c # p))) # tl (dot_fields (c # p))"
    by (rule fields_digits [OF Cons.prems(1)])
  consider "isdigit c" | "\<not> isdigit c" "c = 46" | "\<not> isdigit c" "c \<noteq> 46" by blast
  then show ?case
  proof cases
    case 1
    have g: "list_all isdigit (g @ [c])" using Cons.prems(1) 1 by simp
    show ?thesis
    proof (cases "INT_MAX < value_of (g @ [c])")
      case True
      then have "fields_overflow (dot_fields ((g @ [c]) @ p))"
        unfolding fields_digits [OF g, of p] by (rule digits_overflow [OF g])
      with 1 True show ?thesis by (simp add: value_of_snoc Let_def)
    next
      case False
      have "(g @ [c]) @ p = g @ c # p" by simp
      from 1 False Cons.IH [OF g, of n, unfolded this] show ?thesis by (simp add: value_of_snoc Let_def add.commute)
    qed
  next
    case 2
    have f: "dot_fields (g @ 46 # p) = g # dot_fields p" using fs 2 by simp
    have ov: "fields_overflow (g # dot_fields p) = (if octet_field g then fields_overflow (dot_fields p) else False)"
      using fields_overflow_Cons [OF Cons.prems(1), of "[]" "dot_fields p"] Cons.prems(2) by simp
    show ?thesis
    proof (cases "octet_field g")
      case True
      then have o: "length g \<noteq> 0" "length g \<le> 3" "value_of g \<le> 255" by (auto simp: octet_field_def)
      have v: "value_of [] = 0" by (simp add: value_of_def)
      have "value_of [] \<le> INT_MAX" by (simp add: v INT_MAX_def)
      from Cons.IH [of "[]" "Suc n", OF _ this] show ?thesis
        using o True 2 unfolding 2(2) f ov by (auto simp: v add.commute split: option.splits)
    next
      case False
      with Cons.prems(1) 2 show ?thesis
        unfolding 2(2) f ov by (auto simp: octet_field_def ip4_accepts_def Suc_le_eq)
    qed
  next
    case 3
    then have f: "dot_fields (g @ c # p) = (g @ c # hd (dot_fields p)) # tl (dot_fields p)"
      using fs by simp
    have "\<not> octet_field (g @ c # hd (dot_fields p))" using 3 by (simp add: octet_field_def)
    with 3 Cons.prems(2) show ?thesis
      unfolding f fields_overflow_Cons [OF Cons.prems(1)] by (simp add: ip4_accepts_def)
  qed
qed

text \<open>
  C35: is_ip4 accepts exactly the dotted quads. It is undefined exactly when the first field that is no octet
  begins with digits whose value exceeds an \<open>int\<close>, which they accumulate into \<open>octet\<close> before
  their number is looked at.
\<close>

theorem is_ip4_dotted_quad:
  "is_ip4 ip = (if fields_overflow (dot_fields ip) then None else Some (if dotted_quad ip then 0 else -1))"
proof -
  have "value_of [] = 0" by (simp add: value_of_def)
  moreover from this have "value_of [] \<le> INT_MAX" by (simp add: INT_MAX_def)
  ultimately have s: "case ip4_scan ip 0 0 0 of None \<Rightarrow> fields_overflow (dot_fields ip)
      | Some r \<Rightarrow> \<not> fields_overflow (dot_fields ip) \<and> ip4_accepts r = dotted_quad ip"
    using ip4_scan_fields [of "[]" ip 0, unfolded append_Nil add_0, folded dotted_quad_def] by simp
  show ?thesis
  proof (cases "ip4_scan ip 0 0 0")
    case None
    then show ?thesis using s by (simp add: is_ip4_def)
  next
    case (Some r)
    then have "\<not> fields_overflow (dot_fields ip)" "ip4_accepts r = dotted_quad ip" using s by simp_all
    then show ?thesis using Some by (cases r) (simp add: is_ip4_def ip4_accepts_def)
  qed
qed

text \<open>Ten ones fit an \<open>int\<close>, eleven nines and ten nines behind three octets do not.\<close>

lemma is_ip4_examples:
  "is_ip4 [49, 46, 50, 46, 51, 46, 50, 53, 53] = Some 0" "is_ip4 (replicate 10 49) = Some (-1)"
  "is_ip4 (replicate 11 57) = None" "is_ip4 ([49, 46, 50, 46, 51, 46] @ replicate 10 57) = None"
  by code_simp+

section \<open>The command line\<close>

datatype net_error = Log_Over_Read | Ip_Overflow | Address_Over_Write | Queue_Error call_error

text \<open>\<open>atoi\<close> for a number without a sign that fits an \<open>int\<close>, as the arguments have; 0 without digits.\<close>

definition atoi :: "u8 list \<Rightarrow> int" where
  "atoi s = value_of (takeWhile isdigit s)"

text \<open>
  parse_arguments: the strings are without their terminating zeros, \<open>ip_size\<close> is the size of the
  buffer that \<open>strcpy\<close> fills. The results are the return value, the address and the port where they are set.
\<close>

definition parse_arguments ::
  "nat \<Rightarrow> u8 list list \<Rightarrow> net_error + int \<times> u8 list option \<times> int option" where
  "parse_arguments ip_size argv =
     (if length argv \<noteq> 5 then Inr (-1, None, None)
      else if argv ! 1 \<noteq> map of_char ''add'' then Inr (-1, None, None)
      else if ip_size \<le> length (argv ! 2) then Inl Address_Over_Write
      else if argv ! 3 \<noteq> map of_char ''port'' then Inr (-1, Some (argv ! 2), None)
      else
        let port = atoi (argv ! 4)
        in if port \<le> 0 \<or> 65535 < port then Inr (-1, Some (argv ! 2), Some port)
           else Inr (0, Some (argv ! 2), Some port))"

section \<open>The server\<close>

text \<open>
  The open descriptors, those in the epoll set, the ring and the task data on the heap. Closing a
  descriptor takes it out of the epoll set.
\<close>

record net_state =
  ns_open :: "int set"
  ns_watched :: "int set"
  ns_queue :: cycle_t
  ns_heap :: "nat \<rightharpoonup> u8 list"

definition close_fd :: "int \<Rightarrow> net_state \<Rightarrow> net_state" where
  "close_fd fd st = st\<lparr>ns_open := ns_open st - {fd}, ns_watched := ns_watched st - {fd}\<rparr>"

text \<open>What the two calls of \<open>fcntl\<close> answer.\<close>

definition set_nonblocking :: "int \<Rightarrow> int \<Rightarrow> int" where
  "set_nonblocking flags setfl = (if flags = -1 then -1 else if setfl = -1 then -1 else 0)"

record setup_answers =
  sa_socket :: int
  sa_setsockopt :: int
  sa_getfl :: int
  sa_setfl :: int
  sa_inet_pton :: int
  sa_bind :: int
  sa_listen :: int
  sa_epoll_create :: int
  sa_epoll_ctl :: int

datatype net_setup = Return_Fail | Net_Exit | Serving net_state

definition net_server_setup :: "setup_answers \<Rightarrow> cycle_t \<Rightarrow> u8 list \<Rightarrow> net_error + net_setup" where
  "net_server_setup os queue add =
     (case is_ip4 add of
        None \<Rightarrow> Inl Ip_Overflow
      | Some ip \<Rightarrow> Inr
          (if 0 \<noteq> ip then Return_Fail
           else if sa_socket os = -1 then Net_Exit
           else if sa_setsockopt os = -1 then Net_Exit
           else if set_nonblocking (sa_getfl os) (sa_setfl os) = -1 then Net_Exit
           else if sa_inet_pton os \<le> 0 then Net_Exit
           else if sa_bind os = -1 then Net_Exit
           else if sa_listen os = -1 then Net_Exit
           else if sa_epoll_create os = -1 then Net_Exit
           else if sa_epoll_ctl os = -1 then Net_Exit
           else Serving \<lparr>ns_open = {sa_socket os, sa_epoll_create os}, ns_watched = {sa_socket os},
                  ns_queue = queue, ns_heap = Map.empty\<rparr>))"

text \<open>
  The loop of \<open>accept\<close>: each answer is a new descriptor with what \<open>fcntl\<close> and \<open>epoll_ctl\<close> answer
  for it; after the last one \<open>accept\<close> fails.
\<close>

fun accept_loop :: "(int \<times> (int \<times> int) \<times> int) list \<Rightarrow> net_state \<Rightarrow> net_state" where
  "accept_loop [] st = st"
| "accept_loop ((conn_sock, (getfl, setfl), ctl) # answers) st =
     (let st = st\<lparr>ns_open := insert conn_sock (ns_open st)\<rparr>
      in if set_nonblocking getfl setfl = -1 then accept_loop answers (close_fd conn_sock st)
         else if ctl = -1 then accept_loop answers (close_fd conn_sock st)
         else accept_loop answers (st\<lparr>ns_watched := insert conn_sock (ns_watched st)\<rparr>))"

text \<open>
  What \<open>read\<close> answers; with data comes the address that \<open>malloc\<close> gives for their copy.
  \<open>Again\<close> is -1 with \<open>EAGAIN\<close>, \<open>Read_Error\<close> -1 with another \<open>errno\<close>.
\<close>

datatype read_answer = Got "u8 list" nat | Eof | Again | Read_Error

text \<open>Every round of the loop logs the buffer as a string, which reads it if tracing is on.\<close>

definition log_ok :: "int \<Rightarrow> u8 list \<Rightarrow> bool" where
  "log_ok lvl buffer \<longleftrightarrow> NT_CHECK_LOG_LEVEL lvl LOG_LEVEL_TRACE = SUCCEED \<longrightarrow> c_string buffer \<noteq> None"

definition client_end :: "int \<Rightarrow> int \<Rightarrow> read_answer \<Rightarrow> u8 list \<Rightarrow> net_state \<Rightarrow> net_error + net_state" where
  "client_end lvl fd r buffer st =
     (if \<not> log_ok lvl buffer then Inl Log_Over_Read
      else if r = Again then Inr st
      else Inr (close_fd fd st))"

text \<open>
  The loop of \<open>read\<close> for one client. Reading a descriptor that is not open fails with \<open>EBADF\<close>;
  when the answers are used up there is nothing to read.
\<close>

fun client_loop :: "int \<Rightarrow> nat \<Rightarrow> int \<Rightarrow> read_answer list \<Rightarrow> u8 list \<Rightarrow> net_state \<Rightarrow> net_error + net_state" where
  "client_loop lvl base fd [] buffer st =
     client_end lvl fd (if fd \<in> ns_open st then Again else Read_Error) buffer st"
| "client_loop lvl base fd (answer # answers) buffer st =
     (case (if fd \<in> ns_open st then answer else Read_Error) of
        Got dat a \<Rightarrow>
          (let buffer = dat @ drop (length dat) buffer
           in if \<not> log_ok lvl buffer then Inl Log_Over_Read
              else
                let st = st\<lparr>ns_heap := (ns_heap st)(a \<mapsto> dat)\<rparr>;
                    task = \<lparr>client_fd = fd, task_data = a, data_len = int (length dat)\<rparr>
                in case task_queue_push base (ns_queue st) task of
                     Inl e \<Rightarrow> Inl (Queue_Error e)
                   | Inr q \<Rightarrow> client_loop lvl base fd answers buffer (close_fd fd (st\<lparr>ns_queue := q\<rparr>)))
      | r \<Rightarrow> client_end lvl fd r buffer st)"

text \<open>
  The events of a run: the listening socket and the clients are ready when epoll says so, and a
  worker of another thread takes a task between them. The worker's tasks are recorded with
  whether the client's descriptor is open then.
\<close>

datatype net_event =
    Accepting "(int \<times> (int \<times> int) \<times> int) list"
  | Client int "read_answer list" "u8 list"
  | Worker

type_synonym net_run_state = "net_state \<times> (task_t \<times> bool) list"

definition net_step :: "int \<Rightarrow> nat \<Rightarrow> net_event \<Rightarrow> net_run_state \<Rightarrow> net_error + net_run_state" where
  "net_step lvl base ev = (\<lambda>(st, out).
     case ev of
       Accepting answers \<Rightarrow> Inr (accept_loop answers st, out)
     | Client fd answers buffer \<Rightarrow>
         (case client_loop lvl base fd answers buffer st of Inl e \<Rightarrow> Inl e | Inr st \<Rightarrow> Inr (st, out))
     | Worker \<Rightarrow>
         (case task_queue_pop base (ns_queue st) of
            Inl Blocked \<Rightarrow> Inr (st, out)
          | Inl e \<Rightarrow> Inl (Queue_Error e)
          | Inr (q, t) \<Rightarrow> Inr (st\<lparr>ns_queue := q\<rparr>, out @ [(t, client_fd t \<in> ns_open st)])))"

fun net_run :: "int \<Rightarrow> nat \<Rightarrow> net_event list \<Rightarrow> net_run_state \<Rightarrow> net_error + net_run_state" where
  "net_run lvl base [] s = Inr s"
| "net_run lvl base (ev # evs) s =
     (case net_step lvl base ev s of Inl e \<Rightarrow> Inl e | Inr s' \<Rightarrow> net_run lvl base evs s')"

section \<open>Runs of the server\<close>

text \<open>
  What the kernel and epoll guarantee: \<open>accept\<close> gives descriptors that are not open, only
  clients in the epoll set are ready, and a read gives between 1 and 1024 bytes.
\<close>

fun accept_allowed :: "(int \<times> (int \<times> int) \<times> int) list \<Rightarrow> net_state \<Rightarrow> bool" where
  "accept_allowed [] st \<longleftrightarrow> True"
| "accept_allowed (x # xs) st \<longleftrightarrow> 0 < fst x \<and> fst x \<notin> ns_open st \<and> accept_allowed xs (accept_loop [x] st)"

fun event_allowed :: "int \<Rightarrow> net_event \<Rightarrow> net_state \<Rightarrow> bool" where
  "event_allowed listen_sock (Accepting answers) st \<longleftrightarrow> accept_allowed answers st"
| "event_allowed listen_sock (Client fd answers buffer) st \<longleftrightarrow> fd \<in> ns_watched st \<and> fd \<noteq> listen_sock
     \<and> length buffer = 1024
     \<and> list_all (\<lambda>r. case r of Got dat a \<Rightarrow> dat \<noteq> [] \<and> length dat \<le> 1024 | _ \<Rightarrow> True) answers"
| "event_allowed listen_sock Worker st \<longleftrightarrow> True"

fun run_allowed :: "int \<Rightarrow> nat \<Rightarrow> int \<Rightarrow> net_event list \<Rightarrow> net_run_state \<Rightarrow> bool" where
  "run_allowed lvl base listen_sock [] s \<longleftrightarrow> True"
| "run_allowed lvl base listen_sock (ev # evs) s \<longleftrightarrow> event_allowed listen_sock ev (fst s)
     \<and> (case net_step lvl base ev s of Inl e \<Rightarrow> True | Inr s' \<Rightarrow> run_allowed lvl base listen_sock evs s')"

fun served :: "net_event \<Rightarrow> task_t list" where
  "served (Client fd (Got dat a # answers) buffer) =
     [\<lparr>client_fd = fd, task_data = a, data_len = int (length dat)\<rparr>]"
| "served _ = []"

definition fds_ok :: "int \<Rightarrow> int \<Rightarrow> net_state \<Rightarrow> bool" where
  "fds_ok listen_sock epoll_fd st \<longleftrightarrow>
     ns_open st = insert epoll_fd (ns_watched st) \<and> epoll_fd \<notin> ns_watched st \<and> listen_sock \<in> ns_watched st"

definition net_ok :: "int \<Rightarrow> int \<Rightarrow> nat \<Rightarrow> nat \<Rightarrow> net_run_state \<Rightarrow> task_t list \<Rightarrow> bool" where
  "net_ok listen_sock epoll_fd base n s all \<longleftrightarrow> fds_ok listen_sock epoll_fd (fst s)
     \<and> (\<exists>C. ring_rest base n (ns_queue (fst s)) C \<and> map fst (snd s) @ C = all)"

lemma close_fd_simps[simp]:
  "ns_open (close_fd fd st) = ns_open st - {fd}" "ns_watched (close_fd fd st) = ns_watched st - {fd}"
  "ns_queue (close_fd fd st) = ns_queue st" "ns_heap (close_fd fd st) = ns_heap st"
  "close_fd fd (close_fd fd st) = close_fd fd st"
  by (simp_all add: close_fd_def)

lemma close_client_ok:
  "fds_ok l ep st \<Longrightarrow> fd \<in> ns_watched st \<Longrightarrow> fd \<noteq> l \<Longrightarrow> fds_ok l ep (close_fd fd st)"
  by (auto simp: fds_ok_def)

lemma accept_loop_ok:
  "fds_ok l ep st \<Longrightarrow> accept_allowed answers st \<Longrightarrow>
   fds_ok l ep (accept_loop answers st) \<and> ns_queue (accept_loop answers st) = ns_queue st"
proof (induction answers arbitrary: st)
  case (Cons x xs)
  obtain c g f k where x: "x = (c, (g, f), k)" by (cases x) auto
  have "accept_loop (x # xs) st = accept_loop xs (accept_loop [x] st)" by (simp add: x Let_def)
  moreover have "fds_ok l ep (accept_loop [x] st) \<and> ns_queue (accept_loop [x] st) = ns_queue st"
    using Cons.prems by (auto simp: x Let_def fds_ok_def)
  ultimately show ?case using Cons.IH [of "accept_loop [x] st"] Cons.prems(2) by simp
qed simp

definition quiet :: "int \<Rightarrow> bool" where
  "quiet lvl \<longleftrightarrow> NT_CHECK_LOG_LEVEL lvl LOG_LEVEL_TRACE \<noteq> SUCCEED"

lemma client_end_quiet: "quiet lvl \<Longrightarrow> client_end lvl fd r buffer st = Inr (if r = Again then st else close_fd fd st)"
  by (simp add: client_end_def quiet_def log_ok_def)

lemma client_loop_closed:
  "quiet lvl \<Longrightarrow> fd \<notin> ns_open st \<Longrightarrow> client_loop lvl base fd answers buffer st = Inr (close_fd fd st)"
  by (cases answers) (simp_all add: client_end_quiet)

lemma client_loop_got:
  assumes "quiet lvl" "fd \<in> ns_open st"
  shows "client_loop lvl base fd (Got dat a # answers) buffer st =
    (case task_queue_push base (ns_queue st) \<lparr>client_fd = fd, task_data = a, data_len = int (length dat)\<rparr> of
       Inl e \<Rightarrow> Inl (Queue_Error e)
     | Inr q \<Rightarrow> Inr (close_fd fd (st\<lparr>ns_heap := (ns_heap st)(a \<mapsto> dat), ns_queue := q\<rparr>)))"
proof -
  have "log_ok lvl b" for b using assms(1) by (simp add: quiet_def log_ok_def)
  then show ?thesis
    using assms by (simp add: Let_def client_loop_closed split: sum.split)
qed

lemma client_loop_other:
  assumes "quiet lvl" "fd \<in> ns_open st" "\<nexists>dat a rest. answers = Got dat a # rest"
  shows "client_loop lvl base fd answers buffer st = Inr st
      \<or> client_loop lvl base fd answers buffer st = Inr (close_fd fd st)"
    "served (Client fd answers buffer) = []"
proof -
  have "answers = [] \<or> (\<exists>r rest. answers = r # rest \<and> (r = Eof \<or> r = Again \<or> r = Read_Error))"
    using assms(3) by (metis list.exhaust read_answer.exhaust)
  then show "client_loop lvl base fd answers buffer st = Inr st
      \<or> client_loop lvl base fd answers buffer st = Inr (close_fd fd st)" "served (Client fd answers buffer) = []"
    using assms(1,2) by (auto simp: client_end_quiet)
qed

text \<open>
  A zero stays at the end of the buffer as long as no read fills it: then the string that tracing logs
  ends inside the buffer.
\<close>

fun terminated :: "net_event \<Rightarrow> bool" where
  "terminated (Client fd answers buffer) \<longleftrightarrow> buffer \<noteq> [] \<and> last buffer = 0
     \<and> list_all (\<lambda>r. case r of Got dat a \<Rightarrow> length dat < length buffer | _ \<Rightarrow> True) answers"
| "terminated _ \<longleftrightarrow> True"

lemma log_ok_last: "buffer \<noteq> [] \<Longrightarrow> last buffer = 0 \<Longrightarrow> log_ok lvl buffer"
  using c_string_takeWhile [of buffer] last_in_set [of buffer] by (simp add: log_ok_def)

lemma quiet_0: "quiet 0"
  by (simp add: quiet_def NT_CHECK_LOG_LEVEL_def log_level_defs SUCCEED_def FAIL_def)

lemma log_ok_quiet: "quiet lvl \<Longrightarrow> log_ok lvl b"
  by (simp add: log_ok_def quiet_def)

lemma client_end_traced:
  "client_end lvl fd r buffer st = client_end 0 fd r buffer st
    \<or> client_end lvl fd r buffer st = Inl Log_Over_Read \<and> \<not> quiet lvl \<and> \<not> (buffer \<noteq> [] \<and> last buffer = 0)"
  using log_ok_last [of buffer lvl] log_ok_quiet [of lvl buffer] log_ok_quiet [OF quiet_0] by (auto simp: client_end_def)

text \<open>With tracing the loop does what it does without, or reads beyond the buffer.\<close>

lemma client_loop_traced:
  "client_loop lvl base fd answers buffer st = client_loop 0 base fd answers buffer st
    \<or> client_loop lvl base fd answers buffer st = Inl Log_Over_Read \<and> \<not> quiet lvl \<and> \<not> terminated (Client fd answers buffer)"
proof (induction answers arbitrary: buffer st)
  case Nil
  then show ?case using client_end_traced [of lvl fd _ buffer st] by auto
next
  case (Cons r rest)
  show ?case
  proof (cases "fd \<in> ns_open st \<and> (\<exists>dat a. r = Got dat a)")
    case False
    then have "client_loop l base fd (r # rest) buffer st = client_end l fd (if fd \<in> ns_open st then r else Read_Error) buffer st" for l
      by (cases r) auto
    then show ?thesis using client_end_traced [of lvl fd _ buffer st] by auto
  next
    case True
    then obtain dat a where r: "r = Got dat a" and fd: "fd \<in> ns_open st" by blast
    let ?b = "dat @ drop (length dat) buffer"
    have keep: "terminated (Client fd (r # rest) buffer) \<Longrightarrow> terminated (Client fd rest ?b) \<and> log_ok lvl ?b"
      by (auto simp: r intro!: log_ok_last)
    show ?thesis
    proof (cases "log_ok lvl ?b")
      case True
      then show ?thesis
        using Cons.IH [of ?b] keep fd log_ok_quiet [OF quiet_0] by (auto simp: r Let_def split: sum.split)
    next
      case False
      then show ?thesis using keep log_ok_quiet fd by (auto simp: r Let_def)
    qed
  qed
qed

declare client_loop.simps [simp del]

lemma net_step_traced:
  "net_step lvl base ev s = net_step 0 base ev s
    \<or> net_step lvl base ev s = Inl Log_Over_Read \<and> \<not> quiet lvl \<and> \<not> terminated ev"
proof (cases ev)
  case (Client fd answers buffer)
  obtain st out where s: "s = (st, out)" by (cases s)
  from client_loop_traced [of lvl base fd answers buffer st] show ?thesis
  proof
    assume "client_loop lvl base fd answers buffer st = client_loop 0 base fd answers buffer st"
    then show ?thesis by (simp add: net_step_def Client s)
  next
    assume "client_loop lvl base fd answers buffer st = Inl Log_Over_Read \<and> \<not> quiet lvl
      \<and> \<not> terminated (Client fd answers buffer)"
    then show ?thesis by (simp only: net_step_def Client s prod.case net_event.case sum.case) simp
  qed
qed (simp_all add: net_step_def)

lemma net_step_ok:
  assumes ok: "net_ok l ep base n s all" and al: "event_allowed l ev (fst s)" and q: "quiet lvl"
  shows "case net_step lvl base ev s of Inl e \<Rightarrow> e = Queue_Error Blocked
    | Inr s' \<Rightarrow> net_ok l ep base n s' (all @ served ev)"
proof -
  obtain st out where s: "s = (st, out)" by (cases s)
  obtain C where C: "ring_rest base n (ns_queue st) C" "map fst out @ C = all" and fds: "fds_ok l ep st"
    using ok by (auto simp: net_ok_def s)
  have len: "length C \<le> n" using C(1) by (simp add: ring_rest_def)
  show ?thesis
  proof (cases ev)
    case (Accepting answers)
    then show ?thesis
      using accept_loop_ok [OF fds, of answers] al C by (auto simp: net_step_def net_ok_def s)
  next
    case (Client fd answers buffer)
    then have fd: "fd \<in> ns_watched st" "fd \<noteq> l" "fd \<in> ns_open st" using al fds by (auto simp: s fds_ok_def)
    show ?thesis
    proof (cases "\<exists>dat a rest. answers = Got dat a # rest")
      case True
      then obtain dat a rest where ans: "answers = Got dat a # rest" by blast
      define t where "t = \<lparr>client_fd = fd, task_data = a, data_len = int (length dat)\<rparr>"
      show ?thesis
      proof (cases "length C < n")
        case True
        then obtain q' where q': "task_queue_push base (ns_queue st) t = Inr q'" "ring_rest base n q' (C @ [t])"
          using task_queue_push_rest [OF C(1) True] by blast
        then have "client_loop lvl base fd answers buffer st
            = Inr (close_fd fd (st\<lparr>ns_heap := (ns_heap st)(a \<mapsto> dat), ns_queue := q'\<rparr>))"
          unfolding ans client_loop_got [OF q fd(3)] t_def [symmetric] by simp
        moreover have "fds_ok l ep (close_fd fd (st\<lparr>ns_heap := (ns_heap st)(a \<mapsto> dat), ns_queue := q'\<rparr>))"
          using fds fd by (auto simp: fds_ok_def)
        ultimately show ?thesis
          using q'(2) C(2) by (auto simp: Client net_step_def s net_ok_def ans t_def)
      next
        case False
        then have "task_queue_push base (ns_queue st) t = Inl Blocked"
          using task_queue_push_full [OF C(1)] len by simp
        then have "client_loop lvl base fd answers buffer st = Inl (Queue_Error Blocked)"
          unfolding ans client_loop_got [OF q fd(3)] t_def [symmetric] by simp
        then show ?thesis by (simp add: Client net_step_def s)
      qed
    next
      case False
      with client_loop_other [OF q fd(3)] have "served ev = []"
        "client_loop lvl base fd answers buffer st = Inr st \<or> client_loop lvl base fd answers buffer st = Inr (close_fd fd st)"
        unfolding Client by blast+
      then show ?thesis
        using C fds close_client_ok [OF fds fd(1,2)] by (auto simp: Client net_step_def s net_ok_def)
    qed
  next
    case Worker
    show ?thesis
    proof (cases C)
      case Nil
      then show ?thesis using C fds task_queue_pop_empty [of base n "ns_queue st"]
        by (simp add: Worker net_step_def s net_ok_def)
    next
      case (Cons t ts)
      then obtain q' where "task_queue_pop base (ns_queue st) = Inr (q', t)" "ring_rest base n q' ts"
        using task_queue_pop_rest C(1) by blast
      then show ?thesis using C fds Cons by (auto simp: Worker net_step_def s net_ok_def fds_ok_def)
    qed
  qed
qed

lemma net_run_ok:
  assumes "net_ok l ep base n s all" "run_allowed lvl base l evs s"
  shows "case net_run lvl base evs s of
      Inl e \<Rightarrow> e = Queue_Error Blocked \<or> e = Log_Over_Read \<and> \<not> quiet lvl \<and> \<not> list_all terminated evs
    | Inr s' \<Rightarrow> net_ok l ep base n s' (all @ concat (map served evs))"
  using assms
proof (induction evs arbitrary: s all)
  case (Cons ev evs)
  note step = net_step_ok [OF Cons.prems(1) _ quiet_0, of ev]
  show ?case
  proof (cases "net_step lvl base ev s")
    case (Inl e)
    then show ?thesis using step net_step_traced [of lvl base ev s] Cons.prems(2) by (auto split: sum.splits)
  next
    case (Inr s')
    then have "net_ok l ep base n s' (all @ served ev)"
      using step net_step_traced [of lvl base ev s] Cons.prems(2) by (auto split: sum.splits)
    moreover have "run_allowed lvl base l evs s'" using Inr Cons.prems(2) by simp
    ultimately have "case net_run lvl base evs s' of
          Inl e \<Rightarrow> e = Queue_Error Blocked \<or> e = Log_Over_Read \<and> \<not> quiet lvl \<and> \<not> list_all terminated evs
        | Inr s' \<Rightarrow> net_ok l ep base n s' ((all @ served ev) @ concat (map served evs))"
      using Cons.IH by blast
    then show ?thesis using Inr by (auto split: sum.splits)
  qed
qed simp

lemma setup_ok:
  assumes "net_server_setup os queue add = Inr (Serving st)" "sa_socket os \<noteq> sa_epoll_create os"
    "ring_rest base n queue []"
  shows "net_ok (sa_socket os) (sa_epoll_create os) base n (st, []) []"
  using assms by (auto simp: net_server_setup_def net_ok_def fds_ok_def split: option.splits if_splits)


text \<open>A server of three clients' descriptors, waiting on a ring of two.\<close>

definition demo_os :: setup_answers where
  "demo_os = \<lparr>sa_socket = 3, sa_setsockopt = 0, sa_getfl = 2, sa_setfl = 0, sa_inet_pton = 1, sa_bind = 0,
     sa_listen = 0, sa_epoll_create = 4, sa_epoll_ctl = 0\<rparr>"

definition demo_net :: net_state where
  "demo_net = \<lparr>ns_open = {3, 4}, ns_watched = {3}, ns_queue = demo_ring 2, ns_heap = Map.empty\<rparr>"

definition demo_events :: "net_event list" where
  "demo_events = [Accepting [(5, (2, 0), 0), (6, (2, -1), 0)], Client 5 [Got [104, 105] 64, Got [33] 72] (replicate 1024 0), Worker]"

lemma demo_os_simps: "sa_socket demo_os = 3" "sa_epoll_create demo_os = 4"
  by (simp_all add: demo_os_def)

lemma demo_setup: "net_server_setup demo_os (demo_ring 2) [49, 46, 50, 46, 51, 46, 52] = Inr (Serving demo_net)"
proof -
  have "is_ip4 [49, 46, 50, 46, 51, 46, 52] = Some 0" by code_simp
  then show ?thesis by (simp add: net_server_setup_def demo_os_def demo_net_def set_nonblocking_def)
qed


text \<open>
  The reply is lost. A client that sends data is closed as soon as its first chunk is in the
  ring, and nothing it sends after that is read; the worker that takes the task finds the
  descriptor closed, or, when the server has accepted another client in the meantime, finds that client's
  connection under the same number.
\<close>

theorem net_server_closes_before_reply:
  assumes "fds_ok l ep st" "ring_rest base n (ns_queue st) []" "0 < n" "fd \<in> ns_watched st" "fd \<noteq> l"
    "NT_CHECK_LOG_LEVEL lvl LOG_LEVEL_TRACE = FAIL"
    and t_def: "t = \<lparr>client_fd = fd, task_data = a, data_len = int (length dat)\<rparr>"
  shows "\<exists>st'. (\<forall>rest. net_run lvl base [Client fd (Got dat a # rest) buffer, Worker] (st, []) = Inr (st', [(t, False)]))
    \<and> fd \<notin> ns_open st'
    \<and> (\<exists>st''. net_run lvl base [Client fd [Got dat a] buffer, Accepting [(fd, (2, 0), 0)], Worker] (st, [])
        = Inr (st'', [(t, True)]))"
proof -
  have q: "quiet lvl" using assms(6) by (simp add: quiet_def SUCCEED_def FAIL_def)
  have fd: "fd \<in> ns_open st" using assms(1,4) by (simp add: fds_ok_def)
  obtain q1 where q1: "task_queue_push base (ns_queue st) t = Inr q1" "ring_rest base n q1 [t]"
    using task_queue_push_rest [OF assms(2), of t] assms(3) by auto
  obtain q2 where q2: "task_queue_pop base q1 = Inr (q2, t)" using task_queue_pop_rest [OF q1(2)] by blast
  define s1 where "s1 = close_fd fd (st\<lparr>ns_heap := (ns_heap st)(a \<mapsto> dat), ns_queue := q1\<rparr>)"
  have got: "client_loop lvl base fd (Got dat a # rest) buffer st = Inr s1" for rest
    unfolding client_loop_got [OF q fd] s1_def using q1(1) by (simp add: t_def)
  have s1: "ns_queue s1 = q1" "fd \<notin> ns_open s1" by (simp_all add: s1_def)
  have t: "client_fd t = fd" by (simp add: t_def)
  show ?thesis
  proof (intro exI conjI allI)
    show "net_run lvl base [Client fd (Got dat a # rest) buffer, Worker] (st, []) = Inr (s1\<lparr>ns_queue := q2\<rparr>, [(t, False)])" for rest
      using q2 s1 by (simp add: net_step_def got t)
    show "fd \<notin> ns_open (s1\<lparr>ns_queue := q2\<rparr>)" using s1 by simp
    show "net_run lvl base [Client fd [Got dat a] buffer, Accepting [(fd, (2, 0), 0)], Worker] (st, [])
        = Inr (accept_loop [(fd, (2, 0), 0)] s1\<lparr>ns_queue := q2\<rparr>, [(t, True)])"
      using q2 s1 by (simp add: net_step_def got t set_nonblocking_def)
  qed
qed

theorem net_server_closes_before_reply_witness:
  "\<exists>st'. net_run 3 4096 [Client 5 [Got [104, 105] 64, Got [33] 72] (replicate 1024 0), Worker]
      (accept_loop [(5, (2, 0), 0)] demo_net, [])
    = Inr (st', [(\<lparr>client_fd = 5, task_data = 64, data_len = 2\<rparr>, False)]) \<and> 5 \<notin> ns_open st'"
proof -
  have "ring_rest 4096 2 (demo_ring 2) []" by (rule init_cycle_rest) simp_all
  then have "ring_rest 4096 2 (ns_queue (accept_loop [(5, (2, 0), 0)] demo_net)) []"
    and "fds_ok 3 4 (accept_loop [(5, (2, 0), 0)] demo_net)" "5 \<in> ns_watched (accept_loop [(5, (2, 0), 0)] demo_net)"
    by (auto simp: demo_net_def set_nonblocking_def fds_ok_def)
  from net_server_closes_before_reply [OF this(2,1) _ this(3) _ _ refl, where lvl = 3 and a = 64 and dat = "[104, 105]"
      and buffer = "replicate 1024 0"]
  show ?thesis by (fastforce simp: NT_CHECK_LOG_LEVEL_def log_level_defs)
qed

end
