(* ===== verification/Mem_Room.thy ===== *)
theory Mem_Room
  imports Mem_Spec
begin

text \<open>
  When a segment has room: free chunks are never adjacent, so there is at most one more of them
  than of used ones, and a segment with few blocks and much free space has a large free chunk.
\<close>

lemma coalesced_count:
  "coalesced cs \<Longrightarrow> length (filter (\<lambda>c. \<not> snd c) cs)
     \<le> length (filter snd cs) + (if cs \<noteq> [] \<and> \<not> snd (hd cs) then 1 else 0)"
proof (induction cs)
  case (Cons c cs)
  obtain s u where c: "c = (s, u)" by (cases c)
  have "coalesced cs" "cs = [] \<or> u \<or> snd (hd cs)" using Cons.prems by (simp_all add: c coalesced_Cons)
  then show ?case using Cons.IH by (auto simp: c split: if_splits)
qed (simp add: coalesced_def)

lemma sum_const_bound: "finite F \<Longrightarrow> \<forall>x\<in>F. f x \<le> (k::nat) \<Longrightarrow> sum f F \<le> card F * k"
  using sum_bounded_above [of F f k] by simp

lemma free_chunk_exists:
  assumes v: "mem_view info A F"
    and room: "(\<Sum>ch\<in>A. snd ch + 16) + (card A + 1) * (sz + 16) \<le> mi_hi_bound info - mi_lo_bound info"
  shows "\<exists>ch\<in>F. sz \<le> snd ch"
proof (rule ccontr)
  assume "\<not> (\<exists>ch\<in>F. sz \<le> snd ch)"
  then have small: "\<forall>ch\<in>F. snd ch + 16 \<le> sz + 15" by (auto simp: not_le Suc_le_eq)
  obtain cs where cs: "mem_wf info cs" "A = used_chunks (mi_lo_bound info) cs" "F = free_chunks (mi_lo_bound info) cs"
    using v by (auto simp: mem_view_def)
  note D = mem_wfD [OF cs(1)]
  have fin: "finite A" "finite F" by (simp_all add: cs(2,3))
  have n: "card F \<le> card A + 1"
    using coalesced_count [OF D(5)] card_used [of "mi_lo_bound info" cs] card_free [of "mi_lo_bound info" cs]
    by (auto simp: cs(2,3) split: if_splits)
  have len: "length cs = card A + card F"
    using card_used [of "mi_lo_bound info" cs] card_free [of "mi_lo_bound info" cs] cs(2,3) sum_length_filter_compl [of snd cs]
    by simp
  have "mi_hi_bound info - mi_lo_bound info = used_sum cs + free_sum cs + 16 * length cs"
    using D(3) span_sums [of cs] by simp
  also have "\<dots> = (\<Sum>ch\<in>A. snd ch + 16) + (\<Sum>ch\<in>F. snd ch + 16)"
    using sum_used [of cs "mi_lo_bound info"] sum_free [of cs "mi_lo_bound info"] cs(2,3) len
    by (simp add: sum.distrib algebra_simps)
  also have "(\<Sum>ch\<in>F. snd ch + 16) \<le> card F * (sz + 15)" by (rule sum_const_bound [OF fin(2) small])
  also have "card F * (sz + 15) \<le> (card A + 1) * (sz + 15)" by (rule mult_le_mono1 [OF n])
  also have "\<dots> < (card A + 1) * (sz + 16)" by (rule mult_strict_left_mono) simp_all
  finally show False using room by simp
qed

text \<open>An allocation that has room: the block, and the bounds of the segment, which stay.\<close>

lemma mem_take_bounds:
  "mi_hi_bound (mem_take info chunk sz) = mi_hi_bound info" "mi_lo_bound (mem_take info chunk sz) = mi_lo_bound info"
  "mi_shm_id (mem_take info chunk sz) = mi_shm_id info" "mi_orig_size (mem_take info chunk sz) = mi_orig_size info"
  by (simp_all add: mem_take_def mem_link_chunk_def mem_unlink_chunk_def Let_def)

lemma malloc_bounds:
  "mem_malloc info request = Some (info', c) \<Longrightarrow>
     mi_hi_bound info' = mi_hi_bound info \<and> mi_lo_bound info' = mi_lo_bound info
     \<and> mi_shm_id info' = mi_shm_id info \<and> mi_orig_size info' = mi_orig_size info"
  by (auto simp: mem_malloc_def mem_take_bounds Let_def split: option.splits if_splits)

lemma malloc_room:
  assumes v: "mem_view info A F" and rq: "request \<noteq> 0" "request \<le> MEM_MAX_SIZE"
    and sz: "sz = unat (mem_proper_alloc_size request)"
    and room: "(\<Sum>ch\<in>A. snd ch + 16) + (card A + 1) * (sz + 16) \<le> mi_hi_bound info - mi_lo_bound info"
  shows "\<exists>c s info' F'. nt_mem_malloc info 0 request = Some (Inr (info', c + 8)) \<and> (c, s) \<notin> A \<and> sz \<le> s \<and> s < sz + 40
    \<and> mem_view info' (insert (c, s) A) F' \<and> same_data A info info'
    \<and> mi_lo_bound info' = mi_lo_bound info \<and> mi_hi_bound info' = mi_hi_bound info
    \<and> mi_shm_id info' = mi_shm_id info \<and> mi_orig_size info' = mi_orig_size info"
proof -
  obtain ch where ch: "ch \<in> F" "sz \<le> snd ch" using free_chunk_exists [OF v room] by blast
  from malloc_view [OF v rq(2), folded sz] ch obtain c s info' F' where
    m: "mem_malloc info request = Some (info', c)" "c \<noteq> 0" "(c, s) \<notin> A" "sz \<le> s" "s < sz + 40"
      "mem_view info' (insert (c, s) A) F'" "same_data A info info'"
    by (meson linorder_not_less)
  have "nt_mem_malloc info 0 request = Some (Inr (info', c + 8))"
    using m(1,2) rq by (simp add: nt_mem_malloc_def mem_result_def not_less)
  with m malloc_bounds [OF m(1)] show ?thesis by blast
qed

end
