(* ===== verification/Mutexs.thy ===== *)
theory Mutexs
  imports Prelude
begin

text \<open>
  nt_mutexs.c: the locks of the processes, one semaphore each of one System V set. What the kernel
  does with a semaphore set is written out as \<open>semget\<close>, \<open>semctl\<close> and \<open>semop\<close> are documented;
  the static variables of the file belong to one process each, and \<open>fork\<close> copies them.
\<close>

section \<open>Semaphore sets\<close>

type_synonym process = nat

text \<open>
  The values of each set that exists, and what is added to a semaphore when a process ends
  (\<open>SEM_UNDO\<close>).
\<close>

record sem_world =
  sw_sets :: "int \<rightharpoonup> int list"
  sw_undo :: "process \<Rightarrow> int \<Rightarrow> nat \<Rightarrow> int"

definition SEMVMX :: int where "SEMVMX = 32767"

datatype sem_answer = Sem_Ok sem_world | Sem_Block | Sem_Error

definition semop :: "sem_world \<Rightarrow> process \<Rightarrow> int \<Rightarrow> nat \<Rightarrow> int \<Rightarrow> sem_answer" where
  "semop w p sid num sem_op =
     (case sw_sets w sid of
        None \<Rightarrow> Sem_Error
      | Some vs \<Rightarrow>
          if length vs \<le> num then Sem_Error
          else
            let v = vs ! num + sem_op
            in if v < 0 then Sem_Block
               else if SEMVMX < v then Sem_Error
               else Sem_Ok (w\<lparr>sw_sets := (sw_sets w)(sid \<mapsto> vs[num := v]),
                      sw_undo := (\<lambda>q i n. sw_undo w q i n - (if q = p \<and> i = sid \<and> n = num then sem_op else 0))\<rparr>))"

definition semctl_setval :: "int \<Rightarrow> nat \<Rightarrow> int \<Rightarrow> sem_world \<Rightarrow> sem_world" where
  "semctl_setval sid num val w =
     (case sw_sets w sid of
        None \<Rightarrow> w
      | Some vs \<Rightarrow> w\<lparr>sw_sets := (sw_sets w)(sid \<mapsto> vs[num := val]),
                     sw_undo := (\<lambda>q i n. if i = sid \<and> n = num then 0 else sw_undo w q i n)\<rparr>)"

definition semctl_rmid :: "int \<Rightarrow> sem_world \<Rightarrow> sem_world" where
  "semctl_rmid sid w = w\<lparr>sw_sets := (sw_sets w)(sid := None)\<rparr>"

text \<open>The end of a process adds its adjustments.\<close>

definition process_end :: "process \<Rightarrow> sem_world \<Rightarrow> sem_world" where
  "process_end p w =
     w\<lparr>sw_sets := (\<lambda>sid. map_option (\<lambda>vs. map (\<lambda>n. max 0 (vs ! n + sw_undo w p sid n)) [0..<length vs]) (sw_sets w sid)),
       sw_undo := (\<lambda>q sid n. if q = p then 0 else sw_undo w q sid n)\<rparr>"

section \<open>The locks\<close>

datatype nt_mutex_name_t = NT_MUTEX_LOG

datatype nt_rwlock_name_t = NT_RWLOCK_CONFIG | NT_RWLOCK_VALUECACHE

definition NT_MUTEX_COUNT :: nat where "NT_MUTEX_COUNT = 1"

definition NT_RWLOCK_COUNT :: nat where "NT_RWLOCK_COUNT = 2"

definition NT_MUTEX_NULL :: int where "NT_MUTEX_NULL = -1"

text \<open>The static variables of one process.\<close>

record lock_vars =
  NT_SEM_LIST_ID :: int
  mutexes :: u8

text \<open>
  The loop of nt_locks_create: \<open>setval_ok i\<close> says whether the \<open>semctl\<close> for semaphore \<open>i\<close> succeeds.
\<close>

function setval_loop :: "(nat \<Rightarrow> bool) \<Rightarrow> int \<Rightarrow> nat \<Rightarrow> sem_world \<Rightarrow> bool \<times> sem_world" where
  "setval_loop setval_ok sid i w =
     (if i < NT_MUTEX_COUNT + NT_RWLOCK_COUNT then
        (if setval_ok i then setval_loop setval_ok sid (Suc i) (semctl_setval sid i 1 w) else (False, w))
      else (True, w))"
  by pat_completeness auto
termination
  by (relation "measure (\<lambda>(setval_ok, sid, i, w). 3 - i)") (auto simp: NT_MUTEX_COUNT_def NT_RWLOCK_COUNT_def)

declare setval_loop.simps [simp del]

text \<open>\<open>semget\<close>: the number of a new set, or -1; \<open>rmid_ok\<close>: whether \<open>IPC_RMID\<close> succeeds.\<close>

definition nt_locks_create ::
  "int \<Rightarrow> (nat \<Rightarrow> bool) \<Rightarrow> bool \<Rightarrow> sem_world \<Rightarrow> lock_vars \<Rightarrow> int \<times> sem_world \<times> lock_vars" where
  "nt_locks_create semget setval_ok rmid_ok w v =
     (let v = v\<lparr>NT_SEM_LIST_ID := semget\<rparr>
      in if semget = -1 then (FAIL, w, v)
         else
           let w = w\<lparr>sw_sets := (sw_sets w)(semget \<mapsto> replicate (NT_MUTEX_COUNT + NT_RWLOCK_COUNT) 0)\<rparr>
           in case setval_loop setval_ok semget 0 w of
                (True, w) \<Rightarrow> (SUCCEED, w, v)
              | (False, w) \<Rightarrow> (FAIL, if rmid_ok then semctl_rmid semget w else w, v\<lparr>NT_SEM_LIST_ID := -1\<rparr>))"

fun nt_mutex_addr_get :: "nt_mutex_name_t \<Rightarrow> int" where
  "nt_mutex_addr_get NT_MUTEX_LOG = 0"

fun nt_rwlock_addr_get :: "nt_rwlock_name_t \<Rightarrow> int" where
  "nt_rwlock_addr_get NT_RWLOCK_CONFIG = 0 + int NT_MUTEX_COUNT"
| "nt_rwlock_addr_get NT_RWLOCK_VALUECACHE = 1 + int NT_MUTEX_COUNT"

text \<open>A name is the number the caller passes: the callers in nt_shm.c pass numbers of their own.\<close>

definition nt_rwlock_create :: "int \<Rightarrow> lock_vars \<Rightarrow> int \<times> int \<times> lock_vars" where
  "nt_rwlock_create name v = (let rwlock = name + int NT_MUTEX_COUNT in (SUCCEED, rwlock, v\<lparr>mutexes := mutexes v + 1\<rparr>))"

definition nt_mutex_create :: "int \<Rightarrow> lock_vars \<Rightarrow> int \<times> int \<times> lock_vars" where
  "nt_mutex_create name v = (let v = v\<lparr>mutexes := mutexes v + 1\<rparr> in (SUCCEED, name, v))"

text \<open>
  One turn of the loops of __nt_mutex_lock and __nt_mutex_unlock. A call that would block waits and,
  when a signal interrupts it, is made again: both are \<open>Lock_Again\<close>. \<open>sem_num\<close> is an
  \<open>unsigned short\<close>.
\<close>

datatype lock_result = Lock_Done sem_world | Lock_Again | Lock_Exit

definition sem_num :: "int \<Rightarrow> nat" where
  "sem_num mutex = nat (mutex mod 65536)"

definition nt_mutex_lock :: "process \<Rightarrow> lock_vars \<Rightarrow> int \<Rightarrow> sem_world \<Rightarrow> lock_result" where
  "nt_mutex_lock p v mutex w =
     (if NT_MUTEX_NULL = mutex then Lock_Done w
      else
        case semop w p (NT_SEM_LIST_ID v) (sem_num mutex) (-1) of
          Sem_Ok w' \<Rightarrow> Lock_Done w' | Sem_Block \<Rightarrow> Lock_Again | Sem_Error \<Rightarrow> Lock_Exit)"

definition nt_mutex_unlock :: "process \<Rightarrow> lock_vars \<Rightarrow> int \<Rightarrow> sem_world \<Rightarrow> lock_result" where
  "nt_mutex_unlock p v mutex w =
     (if NT_MUTEX_NULL = mutex then Lock_Done w
      else
        case semop w p (NT_SEM_LIST_ID v) (sem_num mutex) 1 of
          Sem_Ok w' \<Rightarrow> Lock_Done w' | Sem_Block \<Rightarrow> Lock_Again | Sem_Error \<Rightarrow> Lock_Exit)"

text \<open>\<open>rmid_ok\<close>: whether \<open>IPC_RMID\<close> succeeds; the result is the new value of \<open>*mutex\<close>.\<close>

definition nt_mutex_destroy :: "bool \<Rightarrow> lock_vars \<Rightarrow> sem_world \<Rightarrow> int \<times> lock_vars \<times> sem_world" where
  "nt_mutex_destroy rmid_ok v w =
     (let v = v\<lparr>mutexes := mutexes v - 1\<rparr>;
          w = (if mutexes v = 0 \<and> rmid_ok then semctl_rmid (NT_SEM_LIST_ID v) w else w)
      in (NT_MUTEX_NULL, v, w))"

section \<open>Processes that use the locks\<close>

text \<open>
  The kernel, the processes that run with their variables, and the locks each has taken and
  not given back. \<open>le_lock\<close> is a turn of the loop that gets the lock; a turn that does not changes nothing
  (\<open>le_retry\<close>). A process may end at any time, also in the middle of a critical section.
\<close>

record lock_sys =
  ls_world :: sem_world
  ls_vars :: "process \<rightharpoonup> lock_vars"
  ls_held :: "process \<Rightarrow> int set"

datatype lock_event =
    Lock process int | Unlock process int | Create process int | Destroy process bool | Fork process process
  | End process

inductive lock_step :: "lock_event \<Rightarrow> lock_sys \<Rightarrow> lock_sys \<Rightarrow> bool" where
  le_lock: "ls_vars s p = Some v \<Longrightarrow> m \<noteq> NT_MUTEX_NULL \<Longrightarrow> nt_mutex_lock p v m (ls_world s) = Lock_Done w \<Longrightarrow>
    lock_step (Lock p m) s (s\<lparr>ls_world := w, ls_held := (ls_held s)(p := insert m (ls_held s p))\<rparr>)"
| le_retry: "ls_vars s p = Some v \<Longrightarrow> nt_mutex_lock p v m (ls_world s) = Lock_Again \<Longrightarrow> lock_step (Lock p m) s s"
| le_exit: "ls_vars s p = Some v \<Longrightarrow> nt_mutex_lock p v m (ls_world s) = Lock_Exit \<Longrightarrow>
    lock_step (Lock p m) s (s\<lparr>ls_world := process_end p (ls_world s), ls_vars := (ls_vars s)(p := None),
      ls_held := (ls_held s)(p := {})\<rparr>)"
| le_unlock: "ls_vars s p = Some v \<Longrightarrow> m \<in> ls_held s p \<Longrightarrow> nt_mutex_unlock p v m (ls_world s) = Lock_Done w \<Longrightarrow>
    lock_step (Unlock p m) s (s\<lparr>ls_world := w, ls_held := (ls_held s)(p := ls_held s p - {m})\<rparr>)"
| le_unlock_exit: "ls_vars s p = Some v \<Longrightarrow> m \<in> ls_held s p \<Longrightarrow> nt_mutex_unlock p v m (ls_world s) = Lock_Exit \<Longrightarrow>
    lock_step (Unlock p m) s (s\<lparr>ls_world := process_end p (ls_world s), ls_vars := (ls_vars s)(p := None),
      ls_held := (ls_held s)(p := {})\<rparr>)"
| le_create: "ls_vars s p = Some v \<Longrightarrow> nt_mutex_create name v = (r, m, v') \<Longrightarrow>
    lock_step (Create p name) s (s\<lparr>ls_vars := (ls_vars s)(p \<mapsto> v')\<rparr>)"
| le_destroy: "ls_vars s p = Some v \<Longrightarrow> nt_mutex_destroy ok v (ls_world s) = (m, v', w) \<Longrightarrow>
    lock_step (Destroy p ok) s (s\<lparr>ls_world := w, ls_vars := (ls_vars s)(p \<mapsto> v')\<rparr>)"
| le_fork: "ls_vars s p = Some v \<Longrightarrow> ls_vars s q = None \<Longrightarrow>
    lock_step (Fork p q) s (s\<lparr>ls_vars := (ls_vars s)(q \<mapsto> v)\<rparr>)"
| le_end: "ls_vars s p = Some v \<Longrightarrow>
    lock_step (End p) s (s\<lparr>ls_world := process_end p (ls_world s), ls_vars := (ls_vars s)(p := None),
      ls_held := (ls_held s)(p := {})\<rparr>)"

inductive lock_steps :: "lock_event list \<Rightarrow> lock_sys \<Rightarrow> lock_sys \<Rightarrow> bool" where
  ls_nil: "lock_steps [] s s"
| ls_cons: "lock_step e s s' \<Longrightarrow> lock_steps es s' s'' \<Longrightarrow> lock_steps (e # es) s s''"

inductive_cases lock_stepE: "lock_step e s s'"

definition lock_start :: "process \<Rightarrow> sem_world \<Rightarrow> lock_vars \<Rightarrow> lock_sys" where
  "lock_start p w v = \<lparr>ls_world = w, ls_vars = [p \<mapsto> v], ls_held = (\<lambda>q. {})\<rparr>"

section \<open>Mutual exclusion\<close>

text \<open>
  The invariant: no semaphore is held twice; while the set exists, a semaphore is 0 exactly
  while somebody holds it, and what a process's end would add are its locks.
\<close>

definition holds :: "lock_sys \<Rightarrow> process \<Rightarrow> nat \<Rightarrow> bool" where
  "holds s p n \<longleftrightarrow> (\<exists>m\<in>ls_held s p. sem_num m = n)"

definition lock_excl :: "lock_sys \<Rightarrow> bool" where
  "lock_excl s \<longleftrightarrow>
     (\<forall>p q m m'. m \<in> ls_held s p \<and> m' \<in> ls_held s q \<and> sem_num m = sem_num m' \<longrightarrow> p = q \<and> m = m')"

definition lock_own :: "int \<Rightarrow> lock_sys \<Rightarrow> bool" where
  "lock_own sid s \<longleftrightarrow>
     (\<forall>p v. ls_vars s p = Some v \<longrightarrow> NT_SEM_LIST_ID v = sid)
     \<and> (\<forall>p. ls_vars s p = None \<longrightarrow> ls_held s p = {})
     \<and> (\<forall>p. NT_MUTEX_NULL \<notin> ls_held s p)"

definition sems_ok :: "int \<Rightarrow> lock_sys \<Rightarrow> int list \<Rightarrow> bool" where
  "sems_ok sid s vs \<longleftrightarrow> length vs = 3
     \<and> (\<forall>n<3. vs ! n = (if \<exists>p. holds s p n then 0 else 1))
     \<and> (\<forall>p. \<forall>n<3. sw_undo (ls_world s) p sid n = (if holds s p n then 1 else 0))"

definition lock_inv :: "int \<Rightarrow> lock_sys \<Rightarrow> bool" where
  "lock_inv sid s \<longleftrightarrow> lock_excl s \<and> lock_own sid s
     \<and> (\<forall>vs. sw_sets (ls_world s) sid = Some vs \<longrightarrow> sems_ok sid s vs)"

lemma lock_inv_sems:
  assumes "lock_inv sid s" "sw_sets (ls_world s) sid = Some vs"
  shows "length vs = 3" "\<forall>n<3. vs ! n = (if \<exists>p. holds s p n then 0 else 1)"
    "\<forall>q. \<forall>n<3. sw_undo (ls_world s) q sid n = (if holds s q n then 1 else 0)"
  using assms by (auto simp: lock_inv_def sems_ok_def)

lemma lock_inv_excl:
  "lock_inv sid s \<Longrightarrow> \<forall>p q m m'. m \<in> ls_held s p \<and> m' \<in> ls_held s q \<and> sem_num m = sem_num m' \<longrightarrow> p = q \<and> m = m'"
  unfolding lock_inv_def lock_excl_def by (rule conjunct1)

lemma lock_inv_vars: "lock_inv sid s \<Longrightarrow> ls_vars s p = Some v \<Longrightarrow> NT_SEM_LIST_ID v = sid"
  by (simp add: lock_inv_def lock_own_def)

lemma lock_inv_start:
  assumes "nt_locks_create sid setval_ok rmid_ok w v = (SUCCEED, w', v')" "sw_undo w = (\<lambda>q i n. 0)"
  shows "lock_inv sid (lock_start p w' v')"
proof -
  have n: "NT_MUTEX_COUNT + NT_RWLOCK_COUNT = 3" by (simp add: NT_MUTEX_COUNT_def NT_RWLOCK_COUNT_def)
  obtain r where r: "setval_loop setval_ok sid 0 (w\<lparr>sw_sets := (sw_sets w)(sid \<mapsto> replicate 3 0)\<rparr>) = (True, r)"
    "w' = r" "NT_SEM_LIST_ID v' = sid"
    using assms(1) by (auto simp: nt_locks_create_def n SUCCEED_def FAIL_def Let_def split: if_splits prod.splits bool.splits)
  have "sw_sets r sid = Some [1, 1, 1] \<and> sw_undo r p sid k = 0" for p k
    using r(1) assms(2)
    by (auto simp: setval_loop.simps [of _ _ 0] setval_loop.simps [of _ _ "Suc 0"] setval_loop.simps [of _ _ "Suc (Suc 0)"]
      setval_loop.simps [of _ _ "Suc (Suc (Suc 0))"] n semctl_setval_def numeral_3_eq_3 split: if_splits)
  then show ?thesis
    using r(2,3) by (auto simp: lock_inv_def lock_excl_def lock_own_def sems_ok_def lock_start_def holds_def less_Suc_eq numeral_3_eq_3)
qed

lemma held_sem_unique:
  "lock_inv sid s \<Longrightarrow> holds s p n \<Longrightarrow> holds s q n \<Longrightarrow> p = q"
  unfolding lock_inv_def lock_excl_def holds_def by metis

lemma lock_done:
  assumes "lock_inv sid s" "ls_vars s p = Some v" "m \<noteq> NT_MUTEX_NULL" "nt_mutex_lock p v m (ls_world s) = Lock_Done w"
  obtains vs where "sw_sets (ls_world s) sid = Some vs" "sem_num m < 3" "\<nexists>q. holds s q (sem_num m)"
    "w = (ls_world s)\<lparr>sw_sets := (sw_sets (ls_world s))(sid \<mapsto> vs[sem_num m := 0]),
       sw_undo := (\<lambda>q i n. sw_undo (ls_world s) q i n - (if q = p \<and> i = sid \<and> n = sem_num m then - 1 else 0))\<rparr>"
proof -
  have v: "NT_SEM_LIST_ID v = sid" by (rule lock_inv_vars [OF assms(1,2)])
  obtain vs where vs: "sw_sets (ls_world s) sid = Some vs"
    using assms(3,4) by (auto simp: nt_mutex_lock_def semop_def v split: option.splits if_splits)
  then have i: "length vs = 3" "\<forall>n<3. vs ! n = (if \<exists>p. holds s p n then 0 else 1)"
    using lock_inv_sems [OF assms(1) vs] by simp_all
  have k: "sem_num m < 3"
    using assms(3,4) vs i(1) by (auto simp: nt_mutex_lock_def semop_def v split: if_splits)
  have free: "\<nexists>q. holds s q (sem_num m)"
    using assms(3,4) vs i k by (auto simp: nt_mutex_lock_def semop_def v Let_def split: if_splits)
  with that [OF vs k free] show ?thesis
    using assms(3,4) vs i k by (auto simp: nt_mutex_lock_def semop_def v Let_def SEMVMX_def split: if_splits)
qed

lemma unlock_done:
  assumes "lock_inv sid s" "ls_vars s p = Some v" "m \<in> ls_held s p" "nt_mutex_unlock p v m (ls_world s) = Lock_Done w"
  obtains vs where "sw_sets (ls_world s) sid = Some vs" "sem_num m < 3"
    "w = (ls_world s)\<lparr>sw_sets := (sw_sets (ls_world s))(sid \<mapsto> vs[sem_num m := 1]),
       sw_undo := (\<lambda>q i n. sw_undo (ls_world s) q i n - (if q = p \<and> i = sid \<and> n = sem_num m then 1 else 0))\<rparr>"
proof -
  have v: "NT_SEM_LIST_ID v = sid" "m \<noteq> NT_MUTEX_NULL" using assms(1,2,3) by (auto simp: lock_inv_def lock_own_def)
  obtain vs where vs: "sw_sets (ls_world s) sid = Some vs"
    using assms(4) v by (auto simp: nt_mutex_unlock_def semop_def split: option.splits if_splits)
  then have i: "length vs = 3" "\<forall>n<3. vs ! n = (if \<exists>p. holds s p n then 0 else 1)"
    using lock_inv_sems [OF assms(1) vs] by simp_all
  have k: "sem_num m < 3"
    using assms(4) vs i(1) v by (auto simp: nt_mutex_unlock_def semop_def split: if_splits)
  have "holds s p (sem_num m)" using assms(3) by (auto simp: holds_def)
  then have "vs ! sem_num m = 0" using i(2) k by auto
  with that [OF vs k] show ?thesis
    using assms(4) vs i k v by (auto simp: nt_mutex_unlock_def semop_def Let_def SEMVMX_def split: if_splits)
qed

lemma lock_inv_lock:
  assumes "lock_inv sid s" "ls_vars s p = Some v" "m \<noteq> NT_MUTEX_NULL" "nt_mutex_lock p v m (ls_world s) = Lock_Done w"
  shows "lock_inv sid (s\<lparr>ls_world := w, ls_held := (ls_held s)(p := insert m (ls_held s p))\<rparr>)"
proof -
  obtain vs where d: "sw_sets (ls_world s) sid = Some vs" "sem_num m < 3" "\<nexists>q. holds s q (sem_num m)"
    "w = (ls_world s)\<lparr>sw_sets := (sw_sets (ls_world s))(sid \<mapsto> vs[sem_num m := 0]),
       sw_undo := (\<lambda>q i n. sw_undo (ls_world s) q i n - (if q = p \<and> i = sid \<and> n = sem_num m then - 1 else 0))\<rparr>"
    using lock_done [OF assms] by blast
  define s' where "s' = s\<lparr>ls_world := w, ls_held := (ls_held s)(p := insert m (ls_held s p))\<rparr>"
  have h: "holds s' q n \<longleftrightarrow> holds s q n \<or> q = p \<and> n = sem_num m" for q n by (auto simp: holds_def s'_def)
  have u: "\<forall>p q m m'. m \<in> ls_held s p \<and> m' \<in> ls_held s q \<and> sem_num m = sem_num m' \<longrightarrow> p = q \<and> m = m'"
    by (rule lock_inv_excl [OF assms(1)])
  have mem: "x \<in> ls_held s' q \<longleftrightarrow> x \<in> ls_held s q \<or> q = p \<and> x = m" for x q by (auto simp: s'_def)
  have nf: "sem_num m' \<noteq> sem_num m" if "m' \<in> ls_held s q" for q m'
    using d(3) that by (auto simp: holds_def)
  have vs: "length vs = 3" "\<forall>n<3. vs ! n = (if \<exists>p. holds s p n then 0 else 1)"
    "\<forall>q. \<forall>n<3. sw_undo (ls_world s) q sid n = (if holds s q n then 1 else 0)"
    using lock_inv_sems [OF assms(1) d(1)] by simp_all
  have "(\<forall>n<3. vs[sem_num m := 0] ! n = (if \<exists>q. holds s' q n then 0 else 1))
      \<and> (\<forall>q. \<forall>n<3. sw_undo w q sid n = (if holds s' q n then 1 else 0))"
    using vs d(2,3) by (auto simp: h d(4) nth_list_update)
  moreover have "sw_sets w sid = Some (vs[sem_num m := 0])" by (simp add: d(4))
  moreover have "lock_excl s'"
    unfolding lock_excl_def
    using mem nf u by metis
  moreover have "lock_own sid s'"
    using assms(1-3) by (auto simp: lock_inv_def lock_own_def s'_def)
  moreover have "ls_world s' = w" by (simp add: s'_def)
  ultimately have "lock_inv sid s'"
    using vs(1) by (simp add: lock_inv_def sems_ok_def)
  then show ?thesis by (simp add: s'_def)
qed

lemma lock_inv_unlock:
  assumes "lock_inv sid s" "ls_vars s p = Some v" "m \<in> ls_held s p" "nt_mutex_unlock p v m (ls_world s) = Lock_Done w"
  shows "lock_inv sid (s\<lparr>ls_world := w, ls_held := (ls_held s)(p := ls_held s p - {m})\<rparr>)"
proof -
  obtain vs where d: "sw_sets (ls_world s) sid = Some vs" "sem_num m < 3"
    "w = (ls_world s)\<lparr>sw_sets := (sw_sets (ls_world s))(sid \<mapsto> vs[sem_num m := 1]),
       sw_undo := (\<lambda>q i n. sw_undo (ls_world s) q i n - (if q = p \<and> i = sid \<and> n = sem_num m then 1 else 0))\<rparr>"
    using unlock_done [OF assms] by blast
  define s' where "s' = s\<lparr>ls_world := w, ls_held := (ls_held s)(p := ls_held s p - {m})\<rparr>"
  have mem: "x \<in> ls_held s' q \<Longrightarrow> x \<in> ls_held s q" for x q by (auto simp: s'_def split: if_splits)
  have hm: "holds s p (sem_num m)" using assms(3) by (auto simp: holds_def)
  have u: "\<forall>p q m m'. m \<in> ls_held s p \<and> m' \<in> ls_held s q \<and> sem_num m = sem_num m' \<longrightarrow> p = q \<and> m = m'"
    by (rule lock_inv_excl [OF assms(1)])
  have same: "x \<in> ls_held s q \<Longrightarrow> sem_num x = sem_num m \<longleftrightarrow> q = p \<and> x = m" for x q
    using u assms(3) by metis
  have h: "holds s' q n \<longleftrightarrow> holds s q n \<and> n \<noteq> sem_num m" for q n
    by (cases "q = p") (auto simp: holds_def s'_def same)
  have one: "holds s q (sem_num m) \<longleftrightarrow> q = p" for q
    using hm held_sem_unique [OF assms(1) hm] by blast
  have vs: "length vs = 3" "\<forall>n<3. vs ! n = (if \<exists>p. holds s p n then 0 else 1)"
    "\<forall>q. \<forall>n<3. sw_undo (ls_world s) q sid n = (if holds s q n then 1 else 0)"
    using lock_inv_sems [OF assms(1) d(1)] by simp_all
  have "(\<forall>n<3. vs[sem_num m := 1] ! n = (if \<exists>q. holds s' q n then 0 else 1))
      \<and> (\<forall>q. \<forall>n<3. sw_undo w q sid n = (if holds s' q n then 1 else 0))"
    using vs d(2) by (auto simp: h one d(3) nth_list_update)
  moreover have "sw_sets w sid = Some (vs[sem_num m := 1])" by (simp add: d(3))
  moreover have "lock_excl s'"
    unfolding lock_excl_def
    using mem u by metis
  moreover have "lock_own sid s'"
    using assms(1,2) by (auto simp: lock_inv_def lock_own_def s'_def)
  moreover have "ls_world s' = w" by (simp add: s'_def)
  ultimately have "lock_inv sid s'"
    using vs(1) by (simp add: lock_inv_def sems_ok_def)
  then show ?thesis by (simp add: s'_def)
qed

lemma lock_inv_end:
  assumes "lock_inv sid s"
  shows "lock_inv sid (s\<lparr>ls_world := process_end p (ls_world s), ls_vars := (ls_vars s)(p := None),
    ls_held := (ls_held s)(p := {})\<rparr>)"
proof -
  define s' where "s' = s\<lparr>ls_world := process_end p (ls_world s), ls_vars := (ls_vars s)(p := None),
    ls_held := (ls_held s)(p := {})\<rparr>"
  have h: "holds s' q n \<longleftrightarrow> holds s q n \<and> q \<noteq> p" for q n by (auto simp: holds_def s'_def)
  have mem: "x \<in> ls_held s' q \<Longrightarrow> x \<in> ls_held s q" for x q by (auto simp: s'_def split: if_splits)
  have "length vs' = 3 \<and> (\<forall>n<3. vs' ! n = (if \<exists>q. holds s' q n then 0 else 1))
      \<and> (\<forall>q. \<forall>n<3. sw_undo (ls_world s') q sid n = (if holds s' q n then 1 else 0))"
    if hv: "sw_sets (ls_world s') sid = Some vs'" for vs'
  proof -
    obtain vs where vs: "sw_sets (ls_world s) sid = Some vs"
      "vs' = map (\<lambda>n. max 0 (vs ! n + sw_undo (ls_world s) p sid n)) [0..<length vs]"
      using hv by (auto simp: s'_def process_end_def)
    then have i: "length vs = 3" "\<forall>n<3. vs ! n = (if \<exists>p. holds s p n then 0 else 1)"
      "\<forall>q. \<forall>n<3. sw_undo (ls_world s) q sid n = (if holds s q n then 1 else 0)"
      using lock_inv_sems [OF assms vs(1)] by simp_all
    have "vs' ! n = (if \<exists>q. holds s' q n then 0 else 1)" if n: "n < 3" for n
    proof -
      have "vs' ! n = max 0 ((if \<exists>p. holds s p n then 0 else 1) + (if holds s p n then 1 else 0))"
        using i n by (simp add: vs(2))
      then show ?thesis using held_sem_unique [OF assms, of p n] by (auto simp: h)
    qed
    moreover have "sw_undo (ls_world s') q sid n = (if q = p then 0 else sw_undo (ls_world s) q sid n)" for q n
      by (simp add: s'_def process_end_def)
    ultimately show ?thesis using i by (simp add: vs(2) h)
  qed
  moreover have "lock_excl s'"
    unfolding lock_excl_def
    using mem lock_inv_excl [OF assms] by metis
  moreover have "lock_own sid s'"
    using assms by (auto simp: lock_inv_def lock_own_def s'_def)
  ultimately have "lock_inv sid s'"
    by (simp add: lock_inv_def sems_ok_def)
  then show ?thesis by (simp add: s'_def)
qed

lemma lock_update_simps[simp]:
  "lock_excl (s\<lparr>ls_vars := vars\<rparr>) = lock_excl s" "lock_excl (s\<lparr>ls_world := w\<rparr>) = lock_excl s"
  "holds (s\<lparr>ls_vars := vars\<rparr>) = holds s" "holds (s\<lparr>ls_world := w\<rparr>) = holds s"
  "sems_ok sid (s\<lparr>ls_vars := vars\<rparr>) = sems_ok sid s"
  "lock_own sid (s\<lparr>ls_world := w\<rparr>) = lock_own sid s"
  by (simp_all add: lock_excl_def holds_def sems_ok_def lock_own_def fun_eq_iff)

lemma lock_inv_new_vars:
  "lock_inv sid s \<Longrightarrow> NT_SEM_LIST_ID v = sid \<Longrightarrow> lock_inv sid (s\<lparr>ls_vars := (ls_vars s)(p \<mapsto> v)\<rparr>)"
  by (simp add: lock_inv_def lock_own_def)

lemma lock_inv_rmid:
  "lock_inv sid s \<Longrightarrow> lock_inv sid (s\<lparr>ls_world := semctl_rmid sid (ls_world s)\<rparr>)"
  by (simp add: lock_inv_def semctl_rmid_def)

lemma lock_inv_step:
  assumes "lock_step e s s'" "lock_inv sid s"
  shows "lock_inv sid s'"
  using assms(1)
proof (cases rule: lock_step.cases)
  case (le_lock p v m w)
  then show ?thesis using lock_inv_lock assms(2) by blast
next
  case (le_unlock p v m w)
  then show ?thesis using lock_inv_unlock assms(2) by blast
next
  case (le_exit p v m)
  then show ?thesis using lock_inv_end assms(2) by blast
next
  case (le_unlock_exit p v m)
  then show ?thesis using lock_inv_end assms(2) by blast
next
  case (le_end p v)
  then show ?thesis using lock_inv_end assms(2) by blast
next
  case le_retry
  then show ?thesis using assms(2) by simp
next
  case (le_create p v name r m v')
  then show ?thesis using lock_inv_new_vars [OF assms(2)] lock_inv_vars [OF assms(2) le_create(3)]
    by (auto simp: nt_mutex_create_def Let_def)
next
  case (le_destroy p v okd m v' w)
  then have v': "NT_SEM_LIST_ID v' = sid" and w: "w = ls_world s \<or> w = semctl_rmid sid (ls_world s)"
    using lock_inv_vars [OF assms(2) le_destroy(3)] by (auto simp: nt_mutex_destroy_def Let_def)
  then have "lock_inv sid (s\<lparr>ls_world := w\<rparr>)" using assms(2) lock_inv_rmid by auto
  from lock_inv_new_vars [OF this v'] show ?thesis by (simp add: le_destroy(2))
next
  case (le_fork p v q)
  then show ?thesis using lock_inv_new_vars [OF assms(2)] lock_inv_vars [OF assms(2) le_fork(3)] by simp
qed

lemma lock_inv_steps: "lock_steps es s s' \<Longrightarrow> lock_inv sid s \<Longrightarrow> lock_inv sid s'"
  by (induction rule: lock_steps.induct) (auto intro: lock_inv_step)

text \<open>
  C16: mutual exclusion between any number of processes that lock, unlock, create and destroy locks,
  fork and end in any order: no semaphore is held twice, not even under two names. While the set
  exists, a lock is got at once exactly when nobody holds it, also when its last
  holder ended in its critical section, and waited for otherwise; a lock that is not one of the three of the
  set ends the process.
\<close>

theorem locks_mutual_exclusion:
  assumes "nt_locks_create sid setval_ok rmid_ok w v = (SUCCEED, w', v')" "sw_undo w = (\<lambda>q i n. 0)"
    "lock_steps es (lock_start p0 w' v') s" "sw_sets (ls_world s) sid = Some vs" "ls_vars s q = Some u" "mtx \<noteq> NT_MUTEX_NULL"
  shows "(\<forall>p q m m'. m \<in> ls_held s p \<and> m' \<in> ls_held s q \<and> sem_num m = sem_num m' \<longrightarrow> p = q \<and> m = m')
    \<and> (if 3 \<le> sem_num mtx then nt_mutex_lock q u mtx (ls_world s) = Lock_Exit
       else if \<exists>p. holds s p (sem_num mtx) then nt_mutex_lock q u mtx (ls_world s) = Lock_Again
       else \<exists>w. nt_mutex_lock q u mtx (ls_world s) = Lock_Done w)"
proof -
  have inv: "lock_inv sid s"
    using lock_inv_steps [OF assms(3)] lock_inv_start [OF assms(1,2)] by blast
  note i = lock_inv_sems [OF inv assms(4)] lock_inv_vars [OF inv assms(5)]
  from lock_inv_excl [OF inv] show ?thesis
  proof (rule conjI)
    show "if 3 \<le> sem_num mtx then nt_mutex_lock q u mtx (ls_world s) = Lock_Exit
       else if \<exists>p. holds s p (sem_num mtx) then nt_mutex_lock q u mtx (ls_world s) = Lock_Again
       else \<exists>w. nt_mutex_lock q u mtx (ls_world s) = Lock_Done w"
      using i(1,2,4) assms(4,6) by (auto simp: nt_mutex_lock_def semop_def Let_def SEMVMX_def)
  qed
qed

text \<open>A process that takes a lock and ends, after it has forked one that gets it then.\<close>

definition demo_world :: sem_world where
  "demo_world = \<lparr>sw_sets = [7 \<mapsto> [1, 1, 1]], sw_undo = (\<lambda>q i n. 0)\<rparr>"

definition demo_vars :: lock_vars where
  "demo_vars = \<lparr>NT_SEM_LIST_ID = 7, mutexes = 1\<rparr>"

lemma demo_locks:
  "nt_locks_create 7 (\<lambda>i. True) True \<lparr>sw_sets = Map.empty, sw_undo = (\<lambda>q i n. 0)\<rparr> \<lparr>NT_SEM_LIST_ID = 0, mutexes = 1\<rparr>
    = (SUCCEED, demo_world, demo_vars)"
proof -
  have "setval_loop (\<lambda>i. True) 7 0 \<lparr>sw_sets = [7 \<mapsto> [0, 0, 0]], sw_undo = (\<lambda>q i n. 0)\<rparr> = (True, demo_world)"
    by (simp add: setval_loop.simps NT_MUTEX_COUNT_def NT_RWLOCK_COUNT_def semctl_setval_def demo_world_def numeral_3_eq_3)
      (auto simp: fun_eq_iff)
  then show ?thesis
    by (simp add: nt_locks_create_def NT_MUTEX_COUNT_def NT_RWLOCK_COUNT_def demo_vars_def numeral_3_eq_3 Let_def)
qed

lemma demo_lock_steps:
  "\<exists>s. lock_steps [Fork 1 2, Lock 1 0, Lock 2 0, End 1] (lock_start 1 demo_world demo_vars) s
    \<and> sw_sets (ls_world s) 7 = Some [1, 1, 1] \<and> ls_vars s 2 = Some demo_vars \<and> (\<forall>p. \<not> holds s p 0)"
proof -
  define s1 where "s1 = (lock_start 1 demo_world demo_vars)\<lparr>ls_vars := [1 \<mapsto> demo_vars, 2 \<mapsto> demo_vars]\<rparr>"
  define w where "w = \<lparr>sw_sets = [7 \<mapsto> [0, 1, 1]], sw_undo = (\<lambda>q i n. - (if q = 1 \<and> i = 7 \<and> n = 0 then - 1 else 0))\<rparr>"
  define s2 where "s2 = s1\<lparr>ls_world := w, ls_held := (\<lambda>q. {})(1 := {0})\<rparr>"
  define s3 where "s3 = s2\<lparr>ls_world := process_end 1 w, ls_vars := (ls_vars s2)(1 := None), ls_held := (ls_held s2)(1 := {})\<rparr>"
  have l: "nt_mutex_lock 1 demo_vars 0 demo_world = Lock_Done w" "nt_mutex_lock 2 demo_vars 0 w = Lock_Again"
    by (auto simp: nt_mutex_lock_def semop_def sem_num_def demo_vars_def demo_world_def NT_MUTEX_NULL_def SEMVMX_def w_def)
  have "lock_step (Fork 1 2) (lock_start 1 demo_world demo_vars) s1"
    using le_fork [of "lock_start 1 demo_world demo_vars" 1 demo_vars 2] by (simp add: lock_start_def s1_def)
  moreover have "lock_step (Lock 1 0) s1 s2"
    using le_lock [of s1 1 demo_vars 0 w] l(1) by (simp add: s2_def s1_def lock_start_def NT_MUTEX_NULL_def)
  moreover have "lock_step (Lock 2 0) s2 s2"
    using le_retry [of s2 2 demo_vars 0] l(2) by (simp add: s2_def s1_def)
  moreover have "lock_step (End 1) s2 s3"
    using le_end [of s2 1 demo_vars] by (simp add: s3_def s2_def s1_def)
  ultimately have "lock_steps [Fork 1 2, Lock 1 0, Lock 2 0, End 1] (lock_start 1 demo_world demo_vars) s3"
    by (blast intro: lock_steps.intros)
  moreover have "sw_sets (ls_world s3) 7 = Some [1, 1, 1]" "ls_vars s3 2 = Some demo_vars" "\<forall>p. \<not> holds s3 p 0"
    by (auto simp: s3_def s2_def s1_def process_end_def w_def holds_def upt_rec)
  ultimately show ?thesis by blast
qed

theorem locks_mutual_exclusion_witness:
  "\<exists>s w. lock_steps [Fork 1 2, Lock 1 0, Lock 2 0, End 1] (lock_start 1 demo_world demo_vars) s
    \<and> nt_mutex_lock 2 demo_vars 0 (ls_world s) = Lock_Done w"
proof -
  obtain s where s: "lock_steps [Fork 1 2, Lock 1 0, Lock 2 0, End 1] (lock_start 1 demo_world demo_vars) s"
    "sw_sets (ls_world s) 7 = Some [1, 1, 1]" "ls_vars s 2 = Some demo_vars" "\<forall>p. \<not> holds s p 0"
    using demo_lock_steps by blast
  have n: "sem_num 0 = 0" "0 \<noteq> NT_MUTEX_NULL" by (simp_all add: sem_num_def NT_MUTEX_NULL_def)
  have "\<exists>w. nt_mutex_lock 2 demo_vars 0 (ls_world s) = Lock_Done w"
    using conjunct2 [OF locks_mutual_exclusion [OF demo_locks _ s(1,2,3) n(2)]] s(4) by (simp add: n(1))
  then show ?thesis using s(1) by blast
qed

end
