(* ===== verification/Shm.thy ===== *)
theory Shm
  imports Mem_Room Hashset_Spec Hashmap Binary_Heap Mutexs
begin

text \<open>
  nt_shm.c: the caches in shared memory, how they are set up from the allocator, the containers and
  the locks, and what \<open>main\<close> does with them. The answers of the system for each segment
  (\<open>shmget\<close> and \<open>shmat\<close>) are arguments. A structure in a segment is its block there together with
  its contents as a record; \<open>None\<close> is a structure whose bytes are all zero.
\<close>

section \<open>The queue of items\<close>

record nt_timespec_t =
  ts_sec :: int
  ts_ns :: int

record nt_sync_item_t =
  si_itemid :: u64
  si_status :: u8
  si_tail :: nat
  si_head :: nat

definition nt_timespec_compare :: "nt_timespec_t \<Rightarrow> nt_timespec_t \<Rightarrow> int" where
  "nt_timespec_compare t1 t2 = (if ts_sec t1 = ts_sec t2 then ts_ns t1 - ts_ns t2 else ts_sec t1 - ts_sec t2)"

text \<open>\<open>ts\<close> reads the time stamp of the \<open>nt_sync_data_t\<close> that a pointer points to.\<close>

definition sync_queue_elem_compare_func ::
  "(nat \<Rightarrow> nt_timespec_t) \<Rightarrow> nt_sync_item_t nt_binary_heap_elem \<Rightarrow> nt_sync_item_t nt_binary_heap_elem \<Rightarrow> int" where
  "sync_queue_elem_compare_func ts e1 e2 =
     nt_timespec_compare (ts (si_tail (he_data e1))) (ts (si_tail (he_data e2)))"

text \<open>The same with the bounds of \<open>int\<close>: \<open>None\<close> if the difference overflows.\<close>

definition sync_queue_elem_compare_chk ::
  "(nat \<Rightarrow> nt_timespec_t) \<Rightarrow> nt_sync_item_t nt_binary_heap_elem \<Rightarrow> nt_sync_item_t nt_binary_heap_elem \<Rightarrow> int option" where
  "sync_queue_elem_compare_chk ts e1 e2 =
     (let d = sync_queue_elem_compare_func ts e1 e2
      in if INT_MIN \<le> d \<and> d \<le> INT_MAX then Some d else None)"

section \<open>The state\<close>

record sync_cache =
  sc_trends :: "nt_hashset option"
  sc_sync_items :: "nt_hashset option"
  sc_sync_queue :: "nt_sync_item_t nt_binary_heap option"
  sc_sync_hmap :: "nt_hashmap option"
  sc_history_num :: int
  sc_trends_num :: int
  sc_trends_last_cleanup_hour :: int

definition zero_cache :: sync_cache where
  "zero_cache = \<lparr>sc_trends = None, sc_sync_items = None, sc_sync_queue = None, sc_sync_hmap = None,
     sc_history_num = 0, sc_trends_num = 0, sc_trends_last_cleanup_hour = 0\<rparr>"

text \<open>The static variables of the file.\<close>

record shm_state =
  sm_vars :: lock_vars
  sm_ntmap_lock :: int
  sm_sync_lock :: int
  sm_trends_lock :: int
  sm_cache_lock :: int
  sm_cache_ids_lock :: int
  sm_sync_mem :: "nt_mem_info option"
  sm_sync_index_mem :: "nt_mem_info option"
  sm_trend_mem :: "nt_mem_info option"
  sm_ntmap_mem :: "nt_mem_info option"
  sm_trends_size :: u64
  sm_sync_size :: u64
  sm_sync_index_size :: u64
  sm_ntmap_size :: u64
  sm_cache :: "(nat \<times> sync_cache) option"
  sm_ncache :: "(nat \<times> sync_cache) option"
  sm_ids :: nat

definition NT_MUTEX_CACHE :: int where "NT_MUTEX_CACHE = 1"
definition NT_MUTEX_TRENDS :: int where "NT_MUTEX_TRENDS = 2"
definition NT_MUTEX_MAP :: int where "NT_MUTEX_MAP = 2"
definition NT_MUTEX_MEM :: int where "NT_MUTEX_MEM = 2"
definition NT_PROGRAM_TYPE_SERVER :: u8 where "NT_PROGRAM_TYPE_SERVER = 1"
definition NT_SYNC_ITEMS_INIT_SIZE :: nat where "NT_SYNC_ITEMS_INIT_SIZE = 1000"

definition mebibytes :: "u64 \<Rightarrow> u64" where "mebibytes n = n * 1048576"

definition shm_start :: "lock_vars \<Rightarrow> shm_state" where
  "shm_start v =
     \<lparr>sm_vars = v, sm_ntmap_lock = NT_MUTEX_NULL, sm_sync_lock = NT_MUTEX_NULL, sm_trends_lock = NT_MUTEX_NULL,
      sm_cache_lock = NT_MUTEX_NULL, sm_cache_ids_lock = NT_MUTEX_NULL,
      sm_sync_mem = None, sm_sync_index_mem = None, sm_trend_mem = None, sm_ntmap_mem = None,
      sm_trends_size = mebibytes 4, sm_sync_size = mebibytes 16, sm_sync_index_size = mebibytes 4,
      sm_ntmap_size = mebibytes 4, sm_cache = None, sm_ncache = None, sm_ids = 0\<rparr>"

text \<open>
  A call ends the process, accesses memory it must not, or returns. As in the allocator, \<open>None\<close>
  would be a call that does not return.
\<close>

datatype shm_error = Shm_Exit mem_error | Null_Access | Shm_Hashset hs_error | Bad_String

type_synonym 'a shm_result = "(shm_error + 'a) option"

definition and_then :: "'a shm_result \<Rightarrow> ('a \<Rightarrow> 'b shm_result) \<Rightarrow> 'b shm_result" where
  "and_then r f = (case r of None \<Rightarrow> None | Some (Inl e) \<Rightarrow> Some (Inl e) | Some (Inr x) \<Rightarrow> f x)"

lemma and_then_simps[simp]:
  "and_then None f = None" "and_then (Some (Inl e)) f = Some (Inl e)" "and_then (Some (Inr x)) f = f x"
  by (simp_all add: and_then_def)

section \<open>Memory functions of a segment\<close>

text \<open>The malloc function that \<open>NT_MEM_FUNC_IMPL\<close> defines for a segment.\<close>

definition mem_malloc_func :: "nt_mem_info \<Rightarrow> u64 \<Rightarrow> (nt_mem_info \<times> nat) shm_result" where
  "mem_malloc_func info sz = map_option (map_sum Shm_Exit (\<lambda>x. x)) (nt_mem_malloc info 0 sz)"

text \<open>
  The containers as they are created in a segment: the set and the map allocate their slots
  (pointers of 8 bytes, slots of 16 bytes), the heap nothing. The map clears its slots
  without a test of the pointer.
\<close>

definition hashset_create_in :: "nt_mem_info \<Rightarrow> nat \<Rightarrow> (nt_mem_info \<times> nt_hashset) shm_result" where
  "hashset_create_in info init_size =
     and_then (mem_malloc_func info (of_int (next_prime (int init_size)) * 8))
       (\<lambda>(info, a). Some (Inr (info, nt_hashset_create_ext (a \<noteq> 0) init_size
          (\<lambda>d. nt_default_uint64_hash_func (u64_key d))
          (\<lambda>d e. nt_default_uint64_compare_func (u64_key d) (u64_key e)) False)))"

definition hashmap_create_in :: "nt_mem_info \<Rightarrow> nat \<Rightarrow> (nt_mem_info \<times> nt_hashmap) shm_result" where
  "hashmap_create_in info init_size =
     and_then (mem_malloc_func info (of_int (next_prime (int init_size)) * 16))
       (\<lambda>(info, a). if a = 0 then Some (Inl Null_Access)
          else Some (Inr (info, nt_hashmap_create_ext init_size nt_default_uint64_hash_func nt_default_uint64_compare_func)))"

text \<open>\<open>sizeof(NT_SYNC_CACHE)\<close> and \<open>sizeof(NT_SYNC_IDS)\<close> on a 64-bit machine.\<close>

definition sizeof_SYNC_CACHE :: u64 where "sizeof_SYNC_CACHE = 320"
definition sizeof_SYNC_IDS :: u64 where "sizeof_SYNC_IDS = 320"

text \<open>\<open>memset\<close> clears the block without a test of the pointer.\<close>

definition alloc_zeroed :: "nt_mem_info \<Rightarrow> u64 \<Rightarrow> (nt_mem_info \<times> nat) shm_result" where
  "alloc_zeroed info sz =
     and_then (mem_malloc_func info sz) (\<lambda>(info, a). if a = 0 then Some (Inl Null_Access) else Some (Inr (info, a)))"

section \<open>Setting up the caches\<close>

type_synonym shm_answer = "(int \<times> u64 \<times> (nat \<Rightarrow> u64)) option"

definition descr_trend :: "u8 list" where "descr_trend = map of_char ''trend cache''"
definition param_trend :: "u8 list" where "param_trend = map of_char ''TrendCacheSize''"
definition descr_map :: "u8 list" where "descr_map = map of_char ''map cache''"
definition param_map :: "u8 list" where "param_map = map of_char ''MapCacheSize''"
definition descr_sync :: "u8 list" where "descr_sync = map of_char ''sync cache''"
definition param_sync :: "u8 list" where "param_sync = map of_char ''SyncCacheSize''"
definition descr_index :: "u8 list" where "descr_index = map of_char ''sync index cache''"
definition param_index :: "u8 list" where "param_index = map of_char ''SyncIndexCacheSize''"

text \<open>The assignments to the fields of \<open>*cache\<close>.\<close>

definition upd_cache :: "(sync_cache \<Rightarrow> sync_cache) \<Rightarrow> shm_state \<Rightarrow> shm_state shm_result" where
  "upd_cache f s =
     (case sm_cache s of
        None \<Rightarrow> Some (Inl Null_Access)
      | Some (a, c) \<Rightarrow> Some (Inr (s\<lparr>sm_cache := Some (a, f c)\<rparr>)))"

definition init_trend_cache :: "shm_answer \<Rightarrow> shm_state \<Rightarrow> (int \<times> shm_state) shm_result" where
  "init_trend_cache os s =
     (case nt_mutex_create NT_MUTEX_TRENDS (sm_vars s) of
        (ret, lock, v) \<Rightarrow>
          let s = s\<lparr>sm_vars := v, sm_trends_lock := lock\<rparr>
          in if SUCCEED \<noteq> ret then Some (Inr (ret, s))
             else
               let sz = nt_mem_required_size 1 descr_trend param_trend
               in case nt_mem_create os (sm_trends_size s) descr_trend param_trend 0 of
                    None \<Rightarrow> Some (Inr (FAIL, s))
                  | Some info \<Rightarrow>
                      let s = s\<lparr>sm_trend_mem := Some info, sm_trends_size := sm_trends_size s - sz\<rparr>
                      in and_then (upd_cache (\<lambda>c. c\<lparr>sc_trends_num := 0, sc_trends_last_cleanup_hour := 0\<rparr>) s) (\<lambda>s.
                         and_then (hashset_create_in info 100) (\<lambda>(info, hs).
                         and_then (upd_cache (\<lambda>c. c\<lparr>sc_trends := Some hs\<rparr>) (s\<lparr>sm_trend_mem := Some info\<rparr>)) (\<lambda>s.
                         Some (Inr (SUCCEED, s))))))"

definition init_sync_cache ::
  "u8 \<Rightarrow> shm_answer \<Rightarrow> shm_answer \<Rightarrow> shm_answer \<Rightarrow> (nat \<Rightarrow> nt_timespec_t) \<Rightarrow> shm_state \<Rightarrow> (int \<times> shm_state) shm_result" where
  "init_sync_cache program_type os_sync os_index os_trend ts s =
     (case nt_mutex_create NT_MUTEX_CACHE (sm_vars s) of
        (ret, lock, v) \<Rightarrow>
          let s = s\<lparr>sm_vars := v, sm_cache_lock := lock\<rparr>
          in if SUCCEED \<noteq> ret then Some (Inr (ret, s))
             else case nt_mem_create os_sync (sm_sync_size s) descr_sync param_sync 1 of
               None \<Rightarrow> Some (Inr (FAIL, s))
             | Some sync_mem \<Rightarrow>
                 let s = s\<lparr>sm_sync_mem := Some sync_mem\<rparr>
                 in case nt_mem_create os_index (sm_sync_index_size s) descr_index param_index 0 of
                      None \<Rightarrow> Some (Inr (FAIL, s))
                    | Some index_mem \<Rightarrow>
                        and_then (alloc_zeroed index_mem sizeof_SYNC_CACHE) (\<lambda>(index_mem, cache).
                        and_then (alloc_zeroed index_mem sizeof_SYNC_IDS) (\<lambda>(index_mem, ids).
                        and_then (hashset_create_in index_mem NT_SYNC_ITEMS_INIT_SIZE) (\<lambda>(index_mem, items).
                        let queue = nt_binary_heap_create_ext (sync_queue_elem_compare_func ts) NT_BINARY_HEAP_OPTION_EMPTY
                        in and_then (hashmap_create_in sync_mem 512) (\<lambda>(sync_mem, hmap).
                           let c = zero_cache\<lparr>sc_sync_items := Some items, sc_sync_queue := Some queue, sc_sync_hmap := Some hmap\<rparr>;
                               s = s\<lparr>sm_sync_mem := Some sync_mem, sm_sync_index_mem := Some index_mem,
                                     sm_cache := Some (cache, c), sm_ids := ids\<rparr>
                           in if 0 \<noteq> program_type AND NT_PROGRAM_TYPE_SERVER then init_trend_cache os_trend s
                              else Some (Inr (SUCCEED, s)))))))"

definition init_nt_map :: "shm_answer \<Rightarrow> shm_state \<Rightarrow> (int \<times> shm_state) shm_result" where
  "init_nt_map os s =
     (case nt_mutex_create NT_MUTEX_MAP (sm_vars s) of
        (ret, lock, v) \<Rightarrow>
          let s = s\<lparr>sm_vars := v, sm_ntmap_lock := lock\<rparr>
          in if SUCCEED \<noteq> ret then Some (Inr (ret, s))
             else
               let sz = nt_mem_required_size 1 descr_map param_map
               in case nt_mem_create os (sm_ntmap_size s) descr_map param_map 0 of
                    None \<Rightarrow> Some (Inr (FAIL, s))
                  | Some info \<Rightarrow>
                      and_then (alloc_zeroed info sizeof_SYNC_CACHE) (\<lambda>(info, ncache).
                      let s = s\<lparr>sm_ntmap_size := sm_ntmap_size s - sz\<rparr>
                      in and_then (hashmap_create_in info 512) (\<lambda>(info, hmap).
                         Some (Inr (SUCCEED, s\<lparr>sm_ntmap_mem := Some info,
                           sm_ncache := Some (ncache, zero_cache\<lparr>sc_sync_hmap := Some hmap\<rparr>)\<rparr>)))))"

definition init_cache :: "shm_answer \<Rightarrow> shm_state \<Rightarrow> (int \<times> shm_state) shm_result" where
  "init_cache os s =
     (case nt_mutex_create NT_MUTEX_MEM (sm_vars s) of
        (ret, lock, v) \<Rightarrow>
          let s = s\<lparr>sm_vars := v, sm_sync_lock := lock\<rparr>
          in if SUCCEED \<noteq> ret then Some (Inr (ret, s))
             else
               let sz = nt_mem_required_size 1 descr_trend param_trend
               in case nt_mem_create os (sm_trends_size s) descr_trend param_trend 0 of
                    None \<Rightarrow> Some (Inr (FAIL, s))
                  | Some info \<Rightarrow>
                      let s = s\<lparr>sm_sync_mem := Some info, sm_trends_size := sm_trends_size s - sz\<rparr>
                      in and_then (upd_cache (\<lambda>c. c\<lparr>sc_trends_num := 0, sc_trends_last_cleanup_hour := 0\<rparr>) s) (\<lambda>s.
                         and_then (hashset_create_in info 100) (\<lambda>(info, hs).
                         and_then (upd_cache (\<lambda>c. c\<lparr>sc_trends := Some hs\<rparr>) (s\<lparr>sm_sync_mem := Some info\<rparr>)) (\<lambda>s.
                         Some (Inr (SUCCEED, s))))))"

text \<open>\<open>rmid_ok\<close>: whether \<open>IPC_RMID\<close> succeeds.\<close>

definition free_sync_cache :: "bool \<Rightarrow> u8 \<Rightarrow> shm_state \<Rightarrow> sem_world \<Rightarrow> shm_state \<times> sem_world" where
  "free_sync_cache rmid_ok program_type s w =
     (let s = s\<lparr>sm_cache := None\<rparr>;
          (m1, v1, w1) = nt_mutex_destroy rmid_ok (sm_vars s) w;
          (m2, v2, w2) = nt_mutex_destroy rmid_ok v1 w1;
          s = s\<lparr>sm_vars := v2, sm_cache_lock := m1, sm_cache_ids_lock := m2\<rparr>
      in if 0 \<noteq> program_type AND NT_PROGRAM_TYPE_SERVER then
           case nt_mutex_destroy rmid_ok v2 w2 of (m3, v3, w3) \<Rightarrow> (s\<lparr>sm_vars := v3, sm_trends_lock := m3\<rparr>, w3)
         else (s, w2))"

section \<open>The program\<close>

text \<open>
  \<open>main\<close> sets up the caches and ignores the results; \<open>a\<close> is the address of the block it allocates for
  \<open>cache\<close>, whose allocation is taken to succeed.
\<close>

definition main_caches ::
  "nat \<Rightarrow> shm_answer \<Rightarrow> shm_answer \<Rightarrow> shm_answer \<Rightarrow> shm_answer \<Rightarrow> (nat \<Rightarrow> nt_timespec_t) \<Rightarrow> lock_vars \<Rightarrow> shm_state shm_result" where
  "main_caches a os_cache os_sync os_index os_trend ts v =
     and_then (init_cache os_cache ((shm_start v)\<lparr>sm_cache := Some (a, zero_cache)\<rparr>)) (\<lambda>(ret, s).
     and_then (init_sync_cache NT_PROGRAM_TYPE_SERVER os_sync os_index os_trend ts s) (\<lambda>(ret, s).
     Some (Inr s)))"

text \<open>\<open>printf\<close> with \<open>%s\<close>: no string lies in the first page.\<close>

definition print_string :: "u64 \<Rightarrow> unit shm_result" where
  "print_string p = (if p < 4096 then Some (Inl Bad_String) else Some (Inr ()))"

text \<open>
  The insertion of the value under ''127.0.0.1''. The set is empty, so a block is allocated for the
  entry (a header of 12 bytes and the data); \<open>old b\<close> is what a block at \<open>b\<close> holds. \<open>key_ptr\<close> and \<open>val_ptr\<close>
  are what \<open>strdup\<close> and \<open>malloc\<close> return, \<open>behind\<close> what can be read behind the structure of the two.
\<close>

definition main_key :: "u8 list" where "main_key = map of_char ''127.0.0.1''"

definition main_insert :: "(nat \<Rightarrow> u8 list) \<Rightarrow> u8 list \<Rightarrow> u64 \<Rightarrow> u64 \<Rightarrow> shm_state \<Rightarrow> shm_state shm_result" where
  "main_insert old behind key_ptr val_ptr s =
     (case (sm_cache s, sm_sync_index_mem s) of
        (Some (a, c), Some info) \<Rightarrow>
          (case sc_sync_items c of
             None \<Rightarrow> Some (Inl Null_Access)
           | Some hs \<Rightarrow>
               and_then (mem_malloc_func info (12 + of_nat (length main_key + 128))) (\<lambda>(info, b).
               case nt_hashset_insert_kv True True (if b = 0 then None else Some (b, old b)) hs key_ptr val_ptr behind main_key 128 of
                 Inl e \<Rightarrow> Some (Inl (Shm_Hashset e))
               | Inr (hs, r) \<Rightarrow>
                   upd_cache (\<lambda>c. c\<lparr>sc_sync_items := Some hs\<rparr>) (s\<lparr>sm_sync_index_mem := Some info\<rparr>)))
      | _ \<Rightarrow> Some (Inl Null_Access))"

text \<open>The lookup under a new copy of the key at \<open>key_ptr\<close>, and the print of what it returns.\<close>

definition main_lookup :: "u64 \<Rightarrow> shm_state \<Rightarrow> unit shm_result" where
  "main_lookup key_ptr s =
     (case sm_cache s of
        None \<Rightarrow> Some (Inl Null_Access)
      | Some (a, c) \<Rightarrow>
          (case sc_sync_items c of
             None \<Rightarrow> Some (Inl Null_Access)
           | Some hs \<Rightarrow>
               (case nt_hashset_get_kv hs key_ptr of
                  Inl e \<Rightarrow> Some (Inl (Shm_Hashset e))
                | Inr None \<Rightarrow> print_string 0
                | Inr (Some pp) \<Rightarrow> print_string pp)))"

text \<open>The string \<open>p\<close> as a key with the value 1, and the print of what is found under it as a string.\<close>

definition main_map :: "u8 list \<Rightarrow> shm_state \<Rightarrow> unit shm_result" where
  "main_map p s =
     (case sm_cache s of
        None \<Rightarrow> Some (Inl Null_Access)
      | Some (a, c) \<Rightarrow>
          (case sc_sync_hmap c of
             None \<Rightarrow> Some (Inl Null_Access)
           | Some hmap \<Rightarrow> print_string (nt_hashmap_get_ext (nt_hashmap_set_ext hmap p 1) p)))"

definition main_string :: "u8 list" where "main_string = map of_char ''phytune_v1.7.0''"

definition shm_main ::
  "nat \<Rightarrow> shm_answer \<Rightarrow> shm_answer \<Rightarrow> shm_answer \<Rightarrow> shm_answer \<Rightarrow> (nat \<Rightarrow> nt_timespec_t) \<Rightarrow> lock_vars \<Rightarrow>
   (nat \<Rightarrow> u8 list) \<Rightarrow> u8 list \<Rightarrow> u64 \<Rightarrow> u64 \<Rightarrow> u64 \<Rightarrow> unit shm_result" where
  "shm_main a os_cache os_sync os_index os_trend ts v old behind key_ptr val_ptr key_ptr2 =
     and_then (main_caches a os_cache os_sync os_index os_trend ts v) (\<lambda>s.
     and_then (main_insert old behind key_ptr val_ptr s) (\<lambda>s.
     and_then (main_lookup key_ptr2 s) (\<lambda>x.
     main_map main_string s)))"

end
