(* ===== verification/Log_Out.thy ===== *)
theory Log_Out
  imports Log Mutexs
begin

text \<open>
  The log with its lock and all its channels: opening and closing with the mutex of nt_mutexs.c, and
  nt_log for a file, the console, syslog and standard error. The signal mask of the lock is in
  \<open>Log_Signals\<close>.
\<close>

section \<open>Opening and closing\<close>

text \<open>nt_open_log with its call of nt_mutex_create; the results add the mutex.\<close>

definition open_log_locked ::
  "lock_vars \<Rightarrow> int \<Rightarrow> log_state \<Rightarrow> nt_log_type \<Rightarrow> int \<Rightarrow> path \<Rightarrow> bool \<Rightarrow> (int \<times> log_state) \<times> int \<times> lock_vars" where
  "open_log_locked v log_access s type level filename fopen_ok =
     (if type = LOG_TYPE_SYSTEM \<or> type = Log_Type_Other \<or> type = LOG_TYPE_FILE \<and> MAX_STRING_LEN \<le> length filename
      then (nt_open_log s type level filename False fopen_ok, log_access, v)
      else
        case nt_mutex_create (nt_mutex_addr_get NT_MUTEX_LOG) v of
          (r, m, v) \<Rightarrow> (nt_open_log s type level filename (r = SUCCEED) fopen_ok, m, v))"

text \<open>The results: the mutex, the process's variables and the semaphores.\<close>

definition nt_close_log :: "bool \<Rightarrow> log_state \<Rightarrow> int \<Rightarrow> lock_vars \<Rightarrow> sem_world \<Rightarrow> int \<times> lock_vars \<times> sem_world" where
  "nt_close_log rmid_ok s log_access v w =
     (case log_type s of
        LOG_TYPE_SYSTEM \<Rightarrow> (log_access, v, w)
      | LOG_TYPE_FILE \<Rightarrow> nt_mutex_destroy rmid_ok v w
      | LOG_TYPE_CONSOLE \<Rightarrow> nt_mutex_destroy rmid_ok v w
      | LOG_TYPE_UNDEFINED \<Rightarrow> nt_mutex_destroy rmid_ok v w
      | Log_Type_Other \<Rightarrow> (log_access, v, w))"

section \<open>Writing a message\<close>

datatype syslog_priority = Syslog_Crit | Syslog_Err | Syslog_Warning | Syslog_Debug | Syslog_Info

datatype log_out =
    Out_None
  | Out_Console "u8 list"
  | Out_Syslog syslog_priority "u8 list"
  | Out_Stderr "u8 list"

definition MAX_BUFFER_LEN :: nat where "MAX_BUFFER_LEN = 65536"

text \<open>What nt_vsnprintf leaves in \<open>message\<close>, without the terminating zero.\<close>

definition short_message :: "u8 list \<Rightarrow> u8 list" where
  "short_message message = take (MAX_BUFFER_LEN - 1) message"

lemma short_message_vsnprintf:
  assumes "length buf = MAX_BUFFER_LEN" "buf' = short_message message @ 0 # drop (Suc (length (short_message message))) buf"
  shows "nt_vsnprintf (buf', int (length message)) buf MAX_BUFFER_LEN = Inr (buf', length (short_message message))"
proof -
  have "nat (min (int (length message)) (int MAX_BUFFER_LEN - 1)) = length (short_message message)"
    by (simp add: short_message_def MAX_BUFFER_LEN_def min_def)
  then show ?thesis
    by (simp add: nt_vsnprintf_def assms(2) MAX_BUFFER_LEN_def list_update_append)
qed

definition syslog_out :: "int \<Rightarrow> u8 list \<Rightarrow> log_out" where
  "syslog_out level message =
     (if level = LOG_LEVEL_CRIT then Out_Syslog Syslog_Crit message
      else if level = LOG_LEVEL_ERR then Out_Syslog Syslog_Err message
      else if level = LOG_LEVEL_WARNING then Out_Syslog Syslog_Warning message
      else if level = LOG_LEVEL_DEBUG \<or> level = LOG_LEVEL_TRACE then Out_Syslog Syslog_Debug message
      else if level = LOG_LEVEL_INFORMATION then Out_Syslog Syslog_Info message
      else Out_None)"

definition stderr_prefix :: "int \<Rightarrow> string" where
  "stderr_prefix level =
     (if level = LOG_LEVEL_CRIT then ''ERROR: '' else if level = LOG_LEVEL_ERR then ''Error: ''
      else if level = LOG_LEVEL_WARNING then ''Warning: '' else if level = LOG_LEVEL_DEBUG then ''DEBUG: ''
      else if level = LOG_LEVEL_TRACE then ''TRACE: '' else '''')"

text \<open>
  A call of nt_log returns with the new state, what it wrote elsewhere and the semaphores, or waits for the log's
  lock, or ends the process.
\<close>

datatype log_call = Logged log_state log_out sem_world | Log_Waits | Log_Exits

definition with_log_lock ::
  "process \<Rightarrow> lock_vars \<Rightarrow> int \<Rightarrow> sem_world \<Rightarrow> log_state \<times> log_out \<Rightarrow> log_call" where
  "with_log_lock p v log_access w out =
     (case nt_mutex_lock p v log_access w of
        Lock_Again \<Rightarrow> Log_Waits
      | Lock_Exit \<Rightarrow> Log_Exits
      | Lock_Done w \<Rightarrow>
          (case nt_mutex_unlock p v log_access w of
             Lock_Again \<Rightarrow> Log_Waits
           | Lock_Exit \<Rightarrow> Log_Exits
           | Lock_Done w \<Rightarrow> Logged (fst out) (snd out) w))"

definition nt_nt_log ::
  "process \<Rightarrow> lock_vars \<Rightarrow> int \<Rightarrow> nat \<Rightarrow> bool \<Rightarrow> u8 list \<Rightarrow> u8 list \<Rightarrow> u8 list \<Rightarrow> sem_world \<Rightarrow> log_state \<Rightarrow> int \<Rightarrow> log_call" where
  "nt_nt_log p v log_access CONFIG_LOG_FILE_SIZE append_ok notice stamp message w s level =
     (if SUCCEED \<noteq> NT_CHECK_LOG_LEVEL (log_level s) level then Logged s Out_None w
      else case log_type s of
        LOG_TYPE_FILE \<Rightarrow>
          with_log_lock p v log_access w
            (nt_log_file CONFIG_LOG_FILE_SIZE True True append_ok notice s level stamp message,
             if append_ok then Out_None
             else Out_Stderr (map of_char ''failed to write ['' @ short_message message @ map of_char ''] into log file''))
      | LOG_TYPE_CONSOLE \<Rightarrow> with_log_lock p v log_access w (s, Out_Console (stamp @ [32] @ message @ [10]))
      | LOG_TYPE_SYSTEM \<Rightarrow> Logged s (syslog_out level (short_message message)) w
      | _ \<Rightarrow> with_log_lock p v log_access w (s, Out_Stderr (map of_char (stderr_prefix level) @ short_message message)))"

section \<open>What a call does\<close>

text \<open>
  With the semaphore at 1 the lock is taken and given back, which leaves the semaphores as they were.
\<close>

lemma with_log_lock_cases:
  assumes "sw_sets w (NT_SEM_LIST_ID v) = Some vs" "vs \<noteq> []" "vs ! 0 = 0 \<or> vs ! 0 = 1"
  shows "with_log_lock p v 0 w out = (if vs ! 0 = 0 then Log_Waits else Logged (fst out) (snd out) w)"
proof (cases "vs ! 0 = 0")
  case True
  then show ?thesis using assms
    by (simp add: with_log_lock_def nt_mutex_lock_def semop_def sem_num_def NT_MUTEX_NULL_def)
next
  case False
  define w1 where "w1 = w\<lparr>sw_sets := (sw_sets w)(NT_SEM_LIST_ID v \<mapsto> vs[0 := 0]),
    sw_undo := (\<lambda>q i n. sw_undo w q i n - (if q = p \<and> i = NT_SEM_LIST_ID v \<and> n = 0 then - 1 else 0))\<rparr>"
  have l: "nt_mutex_lock p v 0 w = Lock_Done w1"
    using assms False by (simp add: nt_mutex_lock_def semop_def sem_num_def NT_MUTEX_NULL_def SEMVMX_def w1_def)
  have "w1\<lparr>sw_sets := (sw_sets w1)(NT_SEM_LIST_ID v \<mapsto> (vs[0 := 0])[0 := 1]),
      sw_undo := (\<lambda>q i n. sw_undo w1 q i n - (if q = p \<and> i = NT_SEM_LIST_ID v \<and> n = 0 then 1 else 0))\<rparr> = w"
  proof -
    have "(sw_sets w)(NT_SEM_LIST_ID v \<mapsto> vs) = sw_sets w" using assms(1) by auto
    moreover have "vs[0 := 1] = vs" using assms(2,3) False by (cases vs) auto
    moreover have "(\<lambda>q i n. sw_undo w1 q i n - (if q = p \<and> i = NT_SEM_LIST_ID v \<and> n = 0 then 1 else 0)) = sw_undo w"
      by (auto simp: w1_def fun_eq_iff)
    ultimately show ?thesis by (simp add: w1_def)
  qed
  then have "nt_mutex_unlock p v 0 w1 = Lock_Done w"
    using assms False by (simp add: nt_mutex_unlock_def semop_def sem_num_def NT_MUTEX_NULL_def SEMVMX_def w1_def)
  with l False show ?thesis by (simp add: with_log_lock_def)
qed

text \<open>The effect of an enabled message of each type, apart from the lock.\<close>

definition log_effect :: "nat \<Rightarrow> u8 list \<Rightarrow> u8 list \<Rightarrow> log_state \<Rightarrow> int \<Rightarrow> log_state \<times> log_out" where
  "log_effect limit stamp message s level =
     (case log_type s of
        LOG_TYPE_FILE \<Rightarrow> (nt_log_file limit True True True [] s level stamp message, Out_None)
      | LOG_TYPE_CONSOLE \<Rightarrow> (s, Out_Console (stamp @ [32] @ message @ [10]))
      | LOG_TYPE_SYSTEM \<Rightarrow> (s, syslog_out level (short_message message))
      | _ \<Rightarrow> (s, Out_Stderr (map of_char (stderr_prefix level) @ short_message message)))"

text \<open>
  C20: with the log opened, a message of an enabled level has the effect of its type and leaves the
  semaphores as they were; a message of another level does nothing and takes no lock. A call
  that is made while the log's lock is held, such as one of a signal handler that interrupts another
  call, waits, except to syslog. After one process that had the log open has closed it as its
  last lock, every message of another process that has it open ends that process, except to syslog.
\<close>

theorem log_call_outcomes:
  assumes "open_log_locked v0 old s0 type level0 filename True = ((SUCCEED, s), m, v)"
    "sw_sets w (NT_SEM_LIST_ID v0) = Some vs" "vs \<noteq> []" "vs ! 0 = 0 \<or> vs ! 0 = 1" "mutexes v0 = 0"
  shows "nt_nt_log p v m limit True [] stamp message w s level =
      (if SUCCEED \<noteq> NT_CHECK_LOG_LEVEL level0 level then Logged s Out_None w
       else if type \<noteq> LOG_TYPE_SYSTEM \<and> vs ! 0 = 0 then Log_Waits
       else Logged (fst (log_effect limit stamp message s level)) (snd (log_effect limit stamp message s level)) w)
    \<and> (\<forall>m' v' w'. nt_close_log True s m v w = (m', v', w') \<and> type \<noteq> LOG_TYPE_SYSTEM
         \<and> SUCCEED = NT_CHECK_LOG_LEVEL level0 level
        \<longrightarrow> nt_nt_log q v m limit True [] stamp message w' s level = Log_Exits)"
proof -
  have s: "log_type s = type" "log_level s = level0" "type \<noteq> Log_Type_Other" "NT_SEM_LIST_ID v = NT_SEM_LIST_ID v0"
    "type = LOG_TYPE_SYSTEM \<or> m = 0 \<and> mutexes v = 1"
    using assms(1,5)
    by (auto simp: open_log_locked_def nt_open_log_def nt_mutex_create_def Let_def SUCCEED_def FAIL_def
        split: nt_log_type.splits if_splits)
  have "nt_nt_log p v m limit True [] stamp message w s level =
      (if SUCCEED \<noteq> NT_CHECK_LOG_LEVEL level0 level then Logged s Out_None w
       else if type \<noteq> LOG_TYPE_SYSTEM \<and> vs ! 0 = 0 then Log_Waits
       else Logged (fst (log_effect limit stamp message s level)) (snd (log_effect limit stamp message s level)) w)"
    using s assms(2-4) with_log_lock_cases [of w v vs p]
    by (cases type) (auto simp: nt_nt_log_def log_effect_def)
  moreover have "nt_nt_log q v m limit True [] stamp message w' s level = Log_Exits"
    if "nt_close_log True s m v w = (m', v', w')" "type \<noteq> LOG_TYPE_SYSTEM" "SUCCEED = NT_CHECK_LOG_LEVEL level0 level"
    for m' v' w'
  proof -
    have "sw_sets w' (NT_SEM_LIST_ID v) = None" "m = 0"
      using that s by (auto simp: nt_close_log_def nt_mutex_destroy_def semctl_rmid_def Let_def split: nt_log_type.splits)
    then have "with_log_lock q v m w' out = Log_Exits" for out
      by (simp add: with_log_lock_def nt_mutex_lock_def semop_def NT_MUTEX_NULL_def)
    then show ?thesis using that s by (cases type) (auto simp: nt_nt_log_def)
  qed
  ultimately show ?thesis by blast
qed

theorem log_call_outcomes_witness:
  "nt_nt_log 1 demo_vars 0 1 True [] [48] [97] demo_world (demo_log\<lparr>log_type := LOG_TYPE_CONSOLE, log_level := 3\<rparr>) 2
    = Logged (demo_log\<lparr>log_type := LOG_TYPE_CONSOLE, log_level := 3\<rparr>) (Out_Console [48, 32, 97, 10]) demo_world"
proof -
  have "open_log_locked \<lparr>NT_SEM_LIST_ID = 7, mutexes = 0\<rparr> (-1) demo_log LOG_TYPE_CONSOLE 3 [120] True
      = ((SUCCEED, demo_log\<lparr>log_type := LOG_TYPE_CONSOLE, log_level := 3\<rparr>), 0, demo_vars)"
    by (simp add: open_log_locked_def nt_mutex_create_def nt_open_log_def demo_vars_def)
  from conjunct1 [OF log_call_outcomes [OF this, of demo_world "[1, 1, 1]", where p = 1 and limit = 1 and level = 2
        and stamp = "[48]" and message = "[97]"]]
  show ?thesis
    by (simp add: demo_world_def NT_CHECK_LOG_LEVEL_def log_level_defs log_effect_def)
qed

end
