(* ===== verification/Shm_Props.thy ===== *)
theory Shm_Props
  imports Shm Log_Out
begin

text \<open>
  What the setup of the caches gives, which locks they have, and what \<open>main\<close> does with them.
\<close>

section \<open>Allocations of the setup\<close>

lemma primes_used: "next_prime 100 = 101" "next_prime 512 = 521" "next_prime 1000 = 1009"
  by code_simp+

definition proper :: "u64 \<Rightarrow> nat" where
  "proper request = unat (mem_proper_alloc_size request)"

text \<open>A segment of about 4 megabytes or more with few and small blocks.\<close>

definition seg_ok :: "nt_mem_info \<Rightarrow> (nat \<times> nat) set \<Rightarrow> bool" where
  "seg_ok info A \<longleftrightarrow> (\<exists>F. mem_view info A F) \<and> (\<forall>ch\<in>A. snd ch \<le> 9000) \<and> 4000000 \<le> mi_hi_bound info - mi_lo_bound info"

text \<open>What an allocation leaves: the identifier and the size of the segment.\<close>

definition same_seg :: "nt_mem_info \<Rightarrow> nt_mem_info \<Rightarrow> bool" where
  "same_seg i j \<longleftrightarrow> mi_shm_id j = mi_shm_id i \<and> mi_orig_size j = mi_orig_size i"

lemma same_seg_trans: "same_seg i j \<Longrightarrow> same_seg j k \<Longrightarrow> same_seg i k"
  by (simp add: same_seg_def)

lemma seg_malloc:
  assumes ok: "seg_ok info A" and few: "card A \<le> 10"
    and rq: "request \<noteq> 0" "request \<le> MEM_MAX_SIZE" "proper request \<le> 8900"
  shows "\<exists>c s info'. mem_malloc_func info request = Some (Inr (info', c + 8)) \<and> (c, s) \<notin> A \<and> proper request \<le> s
    \<and> seg_ok info' (insert (c, s) A) \<and> finite A \<and> same_seg info info'"
proof -
  obtain F where F: "mem_view info A F" using ok by (auto simp: seg_ok_def)
  then have fin: "finite A" by (auto simp: mem_view_def)
  have "(\<Sum>ch\<in>A. snd ch + 16) \<le> card A * 9016"
    using ok by (intro sum_const_bound [OF fin]) (auto simp: seg_ok_def)
  also have "\<dots> \<le> 10 * 9016" using few by simp
  finally have A: "(\<Sum>ch\<in>A. snd ch + 16) \<le> 90160" by simp
  have "(card A + 1) * (proper request + 16) \<le> 11 * 8916" using few rq(3) by (intro mult_le_mono) simp_all
  with A have room: "(\<Sum>ch\<in>A. snd ch + 16) + (card A + 1) * (proper request + 16) \<le> mi_hi_bound info - mi_lo_bound info"
    using ok by (simp add: seg_ok_def)
  obtain c s info' F' where m: "nt_mem_malloc info 0 request = Some (Inr (info', c + 8))" "(c, s) \<notin> A"
      "proper request \<le> s" "s < proper request + 40" "mem_view info' (insert (c, s) A) F'"
      "mi_lo_bound info' = mi_lo_bound info" "mi_hi_bound info' = mi_hi_bound info" "same_seg info info'"
    using malloc_room [OF F rq(1,2) proper_def room] unfolding same_seg_def by blast
  then have "seg_ok info' (insert (c, s) A)" using ok rq(3) by (auto simp: seg_ok_def)
  then show ?thesis using m fin by (auto simp: mem_malloc_func_def)
qed

definition answer_ok :: "shm_answer \<Rightarrow> bool" where
  "answer_ok os \<longleftrightarrow> (case os of None \<Rightarrow> False | Some (i, base, cells) \<Rightarrow> 0 < unat base \<and> unat base + 2 ^ 24 < 2 ^ 62)"

lemma seg_create:
  assumes os: "answer_ok os" and sz: "4193000 \<le> unat sz" "unat sz \<le> 2 ^ 24" and len: "length descr + length param \<le> 100"
  shows "\<exists>info. nt_mem_create os sz descr param oom = Some info \<and> seg_ok info {} \<and> mi_orig_size info = sz
    \<and> mi_shm_id info = fst (the os)"
proof -
  obtain i base cells where o: "os = Some (i, base, cells)" "0 < unat base" "unat base + 2 ^ 24 < 2 ^ 62"
    using os by (auto simp: answer_ok_def split: option.splits)
  have b: "unat base + unat sz < 2 ^ 62" using o(3) sz(2) by simp
  have l: "length descr + length param < 2 ^ 62" using len by simp
  have "nt_mem_required_size 1 descr param \<le> sz"
    using required_size_eq [OF refl refl l] len sz(1) by (simp add: word_le_nat_alt)
  moreover have mx: "sz \<le> MEM_MAX_SIZE" using sz(2) by (simp add: MEM_MAX_SIZE_def word_le_nat_alt)
  ultimately obtain info t where info: "nt_mem_create os sz descr param oom = Some info" "mem_view info {} {(mi_lo_bound info, t)}"
    using create_view [OF o(2) b _ _ l] unfolding o(1) by blast
  have "unat sz \<le> mi_hi_bound info - mi_lo_bound info + 360 + length descr + length param"
    using create_room [OF info(1) [unfolded o(1)] o(2) b] len sz(1) by simp
  then have "seg_ok info {}" using info(2) len sz(1) by (auto simp: seg_ok_def)
  moreover have "mi_orig_size info = sz" "mi_shm_id info = i"
    using info(1) by (auto simp: o(1) nt_mem_create_def Let_def split: if_splits prod.splits)
  ultimately show ?thesis using info(1) o(1) by simp
qed

lemma proper_values: "proper 320 = 320" "proper 808 = 808" "proper 8072 = 8072" "proper 8336 = 8336" "proper 149 = 152"
  by (simp_all add: proper_def mem_proper_alloc_size_def)

abbreviation item_hash :: "u8 list \<Rightarrow> u32" where
  "item_hash d \<equiv> nt_default_uint64_hash_func (u64_key d)"

abbreviation item_cmp :: "u8 list \<Rightarrow> u8 list \<Rightarrow> int" where
  "item_cmp d e \<equiv> nt_default_uint64_compare_func (u64_key d) (u64_key e)"

lemma hashset_create_in_ok:
  assumes "seg_ok info A" "card A \<le> 10" "n = 100 \<or> n = 1000"
  shows "\<exists>c s info'. hashset_create_in info n = Some (Inr (info', nt_hashset_create_ext True n item_hash item_cmp False))
    \<and> (c, s) \<notin> A \<and> seg_ok info' (insert (c, s) A) \<and> finite A \<and> same_seg info info'"
proof -
  define r :: u64 where "r = of_int (next_prime (int n)) * 8"
  have "r = 808 \<or> r = 8072" using assms(3) by (auto simp: r_def primes_used)
  then have "r \<noteq> 0" "r \<le> MEM_MAX_SIZE" "proper r \<le> 8900" by (auto simp: MEM_MAX_SIZE_def proper_values)
  from seg_malloc [OF assms(1,2) this] obtain c s info' where m: "mem_malloc_func info r = Some (Inr (info', c + 8))"
      "(c, s) \<notin> A" "seg_ok info' (insert (c, s) A)" "finite A" "same_seg info info'" by blast
  then have "hashset_create_in info n = Some (Inr (info', nt_hashset_create_ext True n item_hash item_cmp False))"
    by (simp add: hashset_create_in_def r_def)
  with m show ?thesis by blast
qed

lemma hashmap_create_in_ok:
  assumes "seg_ok info A" "card A \<le> 10"
  shows "\<exists>c s info'. hashmap_create_in info 512
      = Some (Inr (info', nt_hashmap_create_ext 512 nt_default_uint64_hash_func nt_default_uint64_compare_func))
    \<and> (c, s) \<notin> A \<and> seg_ok info' (insert (c, s) A) \<and> finite A \<and> same_seg info info'"
proof -
  have "(8336::u64) \<noteq> 0" "(8336::u64) \<le> MEM_MAX_SIZE" "proper 8336 \<le> 8900" by (auto simp: MEM_MAX_SIZE_def proper_values)
  from seg_malloc [OF assms(1,2) this] obtain c s info' where m: "mem_malloc_func info 8336 = Some (Inr (info', c + 8))"
      "(c, s) \<notin> A" "seg_ok info' (insert (c, s) A)" "finite A" "same_seg info info'" by blast
  then have "hashmap_create_in info 512
      = Some (Inr (info', nt_hashmap_create_ext 512 nt_default_uint64_hash_func nt_default_uint64_compare_func))"
    by (simp add: hashmap_create_in_def primes_used)
  with m show ?thesis by blast
qed

lemma alloc_zeroed_ok:
  assumes "seg_ok info A" "card A \<le> 10"
  shows "\<exists>c s info'. alloc_zeroed info 320 = Some (Inr (info', c + 8))
    \<and> (c, s) \<notin> A \<and> 320 \<le> s \<and> seg_ok info' (insert (c, s) A) \<and> finite A \<and> same_seg info info'"
proof -
  have "(320::u64) \<noteq> 0" "(320::u64) \<le> MEM_MAX_SIZE" "proper 320 \<le> 8900" by (auto simp: MEM_MAX_SIZE_def proper_values)
  from seg_malloc [OF assms(1,2) this] obtain c s info' where m: "mem_malloc_func info 320 = Some (Inr (info', c + 8))"
      "(c, s) \<notin> A" "320 \<le> s" "seg_ok info' (insert (c, s) A)" "finite A" "same_seg info info'" unfolding proper_values by blast
  then have "alloc_zeroed info 320 = Some (Inr (info', c + 8))" by (simp add: alloc_zeroed_def)
  with m show ?thesis by blast
qed

section \<open>The setup functions\<close>

abbreviation fresh_trends :: nt_hashset where
  "fresh_trends \<equiv> nt_hashset_create_ext True 100 item_hash item_cmp False"

abbreviation trend_sz :: u64 where
  "trend_sz \<equiv> nt_mem_required_size 1 descr_trend param_trend"

lemma descr_lengths:
  "length descr_trend + length param_trend = 25" "length descr_map + length param_map = 21"
  "length descr_sync + length param_sync = 23" "length descr_index + length param_index = 34"
  by (simp_all add: descr_trend_def param_trend_def descr_map_def param_map_def descr_sync_def param_sync_def
      descr_index_def param_index_def)

lemma init_cache_ok:
  assumes "answer_ok os" "4193000 \<le> unat (sm_trends_size s)" "unat (sm_trends_size s) \<le> 2 ^ 24" "sm_cache s = Some (a, c)"
  shows "\<exists>info blk. init_cache os s = Some (Inr (SUCCEED, s\<lparr>sm_vars := (sm_vars s)\<lparr>mutexes := mutexes (sm_vars s) + 1\<rparr>,
      sm_sync_lock := 2, sm_sync_mem := Some info, sm_trends_size := sm_trends_size s - trend_sz,
      sm_cache := Some (a, c\<lparr>sc_trends := Some fresh_trends, sc_trends_num := 0, sc_trends_last_cleanup_hour := 0\<rparr>)\<rparr>))
    \<and> seg_ok info {blk} \<and> mi_shm_id info = fst (the os) \<and> mi_orig_size info = sm_trends_size s"
proof -
  have len: "length descr_trend + length param_trend \<le> 100" by (simp add: descr_lengths)
  obtain info where i: "nt_mem_create os (sm_trends_size s) descr_trend param_trend 0 = Some info" "seg_ok info {}"
      "mi_orig_size info = sm_trends_size s" "mi_shm_id info = fst (the os)"
    using seg_create [OF assms(1-3) len] by blast
  obtain b t info' where h: "hashset_create_in info 100 = Some (Inr (info', fresh_trends))" "seg_ok info' {(b, t)}" "same_seg info info'"
    using hashset_create_in_ok [OF i(2), of 100] by auto
  show ?thesis
    by (rule exI [of _ info'], rule exI [of _ "(b, t)"])
      (use i h assms(4) in \<open>simp add: init_cache_def nt_mutex_create_def upd_cache_def NT_MUTEX_MEM_def same_seg_def Let_def\<close>)
qed

lemma init_trend_cache_ok:
  assumes "answer_ok os" "4193000 \<le> unat (sm_trends_size s)" "unat (sm_trends_size s) \<le> 2 ^ 24" "sm_cache s = Some (a, c)"
  shows "\<exists>info blk. init_trend_cache os s = Some (Inr (SUCCEED, s\<lparr>sm_vars := (sm_vars s)\<lparr>mutexes := mutexes (sm_vars s) + 1\<rparr>,
      sm_trends_lock := 2, sm_trend_mem := Some info, sm_trends_size := sm_trends_size s - trend_sz,
      sm_cache := Some (a, c\<lparr>sc_trends := Some fresh_trends, sc_trends_num := 0, sc_trends_last_cleanup_hour := 0\<rparr>)\<rparr>))
    \<and> seg_ok info {blk} \<and> mi_shm_id info = fst (the os) \<and> mi_orig_size info = sm_trends_size s"
proof -
  have len: "length descr_trend + length param_trend \<le> 100" by (simp add: descr_lengths)
  obtain info where i: "nt_mem_create os (sm_trends_size s) descr_trend param_trend 0 = Some info" "seg_ok info {}"
      "mi_orig_size info = sm_trends_size s" "mi_shm_id info = fst (the os)"
    using seg_create [OF assms(1-3) len] by blast
  obtain b t info' where h: "hashset_create_in info 100 = Some (Inr (info', fresh_trends))" "seg_ok info' {(b, t)}" "same_seg info info'"
    using hashset_create_in_ok [OF i(2), of 100] by auto
  show ?thesis
    by (rule exI [of _ info'], rule exI [of _ "(b, t)"])
      (use i h assms(4) in \<open>simp add: init_trend_cache_def nt_mutex_create_def upd_cache_def NT_MUTEX_TRENDS_def same_seg_def Let_def\<close>)
qed

abbreviation fresh_items :: nt_hashset where
  "fresh_items \<equiv> nt_hashset_create_ext True 1000 item_hash item_cmp False"

abbreviation fresh_map :: nt_hashmap where
  "fresh_map \<equiv> nt_hashmap_create_ext 512 nt_default_uint64_hash_func nt_default_uint64_compare_func"

abbreviation fresh_queue :: "(nat \<Rightarrow> nt_timespec_t) \<Rightarrow> nt_sync_item_t nt_binary_heap" where
  "fresh_queue ts \<equiv> nt_binary_heap_create_ext (sync_queue_elem_compare_func ts) NT_BINARY_HEAP_OPTION_EMPTY"

definition fresh_cache :: "(nat \<Rightarrow> nt_timespec_t) \<Rightarrow> sync_cache" where
  "fresh_cache ts = \<lparr>sc_trends = Some fresh_trends, sc_sync_items = Some fresh_items, sc_sync_queue = Some (fresh_queue ts),
     sc_sync_hmap = Some fresh_map, sc_history_num = 0, sc_trends_num = 0, sc_trends_last_cleanup_hour = 0\<rparr>"

text \<open>The blocks of the index segment: the cache, the table of ids and the slots of the items.\<close>

lemma init_sync_cache_ok:
  assumes os: "answer_ok os_sync" "answer_ok os_index" "answer_ok os_trend"
    and sz: "sm_sync_size s = mebibytes 16" "sm_sync_index_size s = mebibytes 4"
      "4193000 \<le> unat (sm_trends_size s)" "unat (sm_trends_size s) \<le> 2 ^ 24"
  shows "\<exists>sync ix tr c1 s1 c2 s2 b1 b2 b3. init_sync_cache NT_PROGRAM_TYPE_SERVER os_sync os_index os_trend ts s =
      Some (Inr (SUCCEED, s\<lparr>sm_vars := (sm_vars s)\<lparr>mutexes := mutexes (sm_vars s) + 2\<rparr>, sm_cache_lock := 1, sm_trends_lock := 2,
        sm_sync_mem := Some sync, sm_sync_index_mem := Some ix, sm_trend_mem := Some tr,
        sm_trends_size := sm_trends_size s - trend_sz, sm_cache := Some (c1 + 8, fresh_cache ts), sm_ids := c2 + 8\<rparr>))
    \<and> seg_ok sync {b1} \<and> seg_ok ix {(c1, s1), (c2, s2), b2} \<and> distinct [(c1, s1), (c2, s2), b2] \<and> 320 \<le> s1 \<and> 320 \<le> s2
    \<and> seg_ok tr {b3} \<and> mi_shm_id sync = fst (the os_sync) \<and> mi_shm_id ix = fst (the os_index)
    \<and> mi_shm_id tr = fst (the os_trend) \<and> mi_orig_size tr = sm_trends_size s"
proof -
  have mb: "4193000 \<le> unat (mebibytes 16)" "unat (mebibytes 16) \<le> 2 ^ 24" "4193000 \<le> unat (mebibytes 4)" "unat (mebibytes 4) \<le> 2 ^ 24"
    by (simp_all add: mebibytes_def)
  have len: "length descr_sync + length param_sync \<le> 100" "length descr_index + length param_index \<le> 100"
    by (simp_all add: descr_lengths)
  obtain y where y: "nt_mem_create os_sync (mebibytes 16) descr_sync param_sync 1 = Some y" "seg_ok y {}" "mi_shm_id y = fst (the os_sync)"
    using seg_create [OF os(1) mb(1,2) len(1)] by blast
  obtain i0 where i0: "nt_mem_create os_index (mebibytes 4) descr_index param_index 0 = Some i0" "seg_ok i0 {}"
      "mi_shm_id i0 = fst (the os_index)"
    using seg_create [OF os(2) mb(3,4) len(2)] by blast
  obtain c1 s1 i1 where i1: "alloc_zeroed i0 320 = Some (Inr (i1, c1 + 8))" "320 \<le> s1" "seg_ok i1 {(c1, s1)}" "same_seg i0 i1"
    using alloc_zeroed_ok [OF i0(2)] by auto
  obtain c2 s2 i2 where i2: "alloc_zeroed i1 320 = Some (Inr (i2, c2 + 8))" "(c2, s2) \<notin> {(c1, s1)}" "320 \<le> s2"
      "seg_ok i2 {(c2, s2), (c1, s1)}" "same_seg i1 i2"
    using alloc_zeroed_ok [OF i1(3)] by auto
  have "card {(c2, s2), (c1, s1)} \<le> 10" using card_insert_le_m1 [of 10 "{(c1, s1)}" "(c2, s2)"] by simp
  from hashset_create_in_ok [OF i2(4) this disjI2 [OF refl]] obtain c3 s3 i3 where
    i3: "hashset_create_in i2 1000 = Some (Inr (i3, fresh_items))" "(c3, s3) \<notin> {(c2, s2), (c1, s1)}"
      "seg_ok i3 (insert (c3, s3) {(c2, s2), (c1, s1)})" "same_seg i2 i3" by (elim exE conjE) (rule that)
  obtain c4 s4 y' where y': "hashmap_create_in y 512 = Some (Inr (y', fresh_map))" "seg_ok y' {(c4, s4)}" "same_seg y y'"
    using hashmap_create_in_ok [OF y(2)] by auto
  define s' where "s' = s\<lparr>sm_vars := (sm_vars s)\<lparr>mutexes := mutexes (sm_vars s) + 1\<rparr>, sm_cache_lock := 1, sm_sync_mem := Some y',
    sm_sync_index_mem := Some i3, sm_cache := Some (c1 + 8, zero_cache\<lparr>sc_sync_items := Some fresh_items,
      sc_sync_queue := Some (fresh_queue ts), sc_sync_hmap := Some fresh_map\<rparr>), sm_ids := c2 + 8\<rparr>"
  have run: "init_sync_cache NT_PROGRAM_TYPE_SERVER os_sync os_index os_trend ts s = init_trend_cache os_trend s'"
    using y(1) i0(1) i1(1) i2(1) i3(1) y'(1) sz(1,2)
    by (simp add: init_sync_cache_def nt_mutex_create_def NT_MUTEX_CACHE_def NT_PROGRAM_TYPE_SERVER_def Let_def
      sizeof_SYNC_CACHE_def sizeof_SYNC_IDS_def NT_SYNC_ITEMS_INIT_SIZE_def s'_def)
  have "4193000 \<le> unat (sm_trends_size s')" "unat (sm_trends_size s') \<le> 2 ^ 24" using sz(3,4) by (simp_all add: s'_def)
  from init_trend_cache_ok [OF os(3) this] obtain tr b3 where
    tr: "init_trend_cache os_trend s' = Some (Inr (SUCCEED, s'\<lparr>sm_vars := (sm_vars s')\<lparr>mutexes := mutexes (sm_vars s') + 1\<rparr>,
      sm_trends_lock := 2, sm_trend_mem := Some tr, sm_trends_size := sm_trends_size s' - trend_sz,
      sm_cache := Some (c1 + 8, fresh_cache ts)\<rparr>))"
      "seg_ok tr {b3}" "mi_shm_id tr = fst (the os_trend)" "mi_orig_size tr = sm_trends_size s"
    by (auto simp: s'_def fresh_cache_def zero_cache_def)
  have ids: "mi_shm_id i3 = fst (the os_index)" "mi_shm_id y' = fst (the os_sync)"
    using i0(3) i1(4) i2(5) i3(4) y(3) y'(3) by (simp_all add: same_seg_def)
  have ix: "seg_ok i3 {(c1, s1), (c2, s2), (c3, s3)}"
    using i3(3) by (simp only: insert_commute)
  have d: "distinct [(c1, s1), (c2, s2), (c3, s3)]" using i2(2) i3(2) by auto
  have "s'\<lparr>sm_vars := (sm_vars s')\<lparr>mutexes := mutexes (sm_vars s') + 1\<rparr>,
      sm_trends_lock := 2, sm_trend_mem := Some tr, sm_trends_size := sm_trends_size s' - trend_sz,
      sm_cache := Some (c1 + 8, fresh_cache ts)\<rparr>
    = s\<lparr>sm_vars := (sm_vars s)\<lparr>mutexes := mutexes (sm_vars s) + 2\<rparr>, sm_cache_lock := 1, sm_trends_lock := 2,
        sm_sync_mem := Some y', sm_sync_index_mem := Some i3, sm_trend_mem := Some tr,
        sm_trends_size := sm_trends_size s - trend_sz, sm_cache := Some (c1 + 8, fresh_cache ts), sm_ids := c2 + 8\<rparr>"
    by (simp add: s'_def)
  note eq = run [unfolded tr(1) this]
  show ?thesis
    by (rule exI [of _ y'], rule exI [of _ i3], rule exI [of _ tr], rule exI [of _ c1], rule exI [of _ s1],
      rule exI [of _ c2], rule exI [of _ s2], rule exI [of _ "(c4, s4)"], rule exI [of _ "(c3, s3)"],
      rule exI [of _ b3]) (intro conjI eq y'(2) ix d i1(2) i2(3) tr(2,3,4) ids)
qed

section \<open>The queue in time order\<close>

interpretation sync_order: elem_compare "sync_queue_elem_compare_func ts" for ts
  by unfold_locales (auto simp: sync_queue_elem_compare_func_def nt_timespec_compare_def split: if_splits)

definition time_le :: "nt_timespec_t \<Rightarrow> nt_timespec_t \<Rightarrow> bool" where
  "time_le t u \<longleftrightarrow> ts_sec t < ts_sec u \<or> ts_sec t = ts_sec u \<and> ts_ns t \<le> ts_ns u"

definition valid_time :: "nt_timespec_t \<Rightarrow> bool" where
  "valid_time t \<longleftrightarrow> 0 \<le> ts_sec t \<and> ts_sec t \<le> INT_MAX \<and> 0 \<le> ts_ns t \<and> ts_ns t < 1000000000"

lemma compare_time_le: "sync_queue_elem_compare_func ts x y \<le> 0
    \<longleftrightarrow> time_le (ts (si_tail (he_data x))) (ts (si_tail (he_data y)))"
  by (auto simp: sync_queue_elem_compare_func_def nt_timespec_compare_def time_le_def)

text \<open>
  The queue of items works on their time stamps: items inserted in any order come out of it with
  the oldest first, and the differences that the comparison returns fit an \<open>int\<close> for valid time
  stamps; for a time before 1970 they need not.
\<close>

theorem sync_queue_oldest_first:
  assumes "\<forall>e\<in>set es. valid_time (ts (si_tail (he_data e)))"
  shows "(\<exists>h. insert_all (nt_binary_heap_insert True)
        (nt_binary_heap_create_ext (sync_queue_elem_compare_func ts) NT_BINARY_HEAP_OPTION_EMPTY) es = Inr h
      \<and> mset (drain nt_binary_heap_find_min nt_binary_heap_remove_min (length es) h) = mset es
      \<and> sorted_wrt (\<lambda>x y. time_le (ts (si_tail (he_data x))) (ts (si_tail (he_data y))))
          (drain nt_binary_heap_find_min nt_binary_heap_remove_min (length es) h))
    \<and> (\<forall>x\<in>set es. \<forall>y\<in>set es. sync_queue_elem_compare_chk ts x y = Some (sync_queue_elem_compare_func ts x y))
    \<and> sync_queue_elem_compare_chk (\<lambda>p. \<lparr>ts_sec = if p = 1 then INT_MAX else -1, ts_ns = 0\<rparr>)
        \<lparr>he_key = 0, he_data = \<lparr>si_itemid = 0, si_status = 0, si_tail = 1, si_head = 1\<rparr>\<rparr>
        \<lparr>he_key = 0, he_data = \<lparr>si_itemid = 1, si_status = 0, si_tail = 2, si_head = 2\<rparr>\<rparr> = None"
proof -
  have "sync_queue_elem_compare_chk ts x y = Some (sync_queue_elem_compare_func ts x y)"
    if "x \<in> set es" "y \<in> set es" for x y
  proof -
    have "valid_time (ts (si_tail (he_data x)))" "valid_time (ts (si_tail (he_data y)))" using assms that by blast+
    then show ?thesis
      by (auto simp: sync_queue_elem_compare_chk_def sync_queue_elem_compare_func_def nt_timespec_compare_def valid_time_def
          INT_MIN_def INT_MAX_def Let_def)
  qed
  moreover have "sync_queue_elem_compare_chk (\<lambda>p. \<lparr>ts_sec = if p = 1 then INT_MAX else -1, ts_ns = 0\<rparr>)
        \<lparr>he_key = 0, he_data = \<lparr>si_itemid = 0, si_status = 0, si_tail = 1, si_head = 1\<rparr>\<rparr>
        \<lparr>he_key = 0, he_data = \<lparr>si_itemid = 1, si_status = 0, si_tail = 2, si_head = 2\<rparr>\<rparr> = None"
    by (simp add: sync_queue_elem_compare_chk_def sync_queue_elem_compare_func_def nt_timespec_compare_def INT_MAX_def Let_def)
  ultimately show ?thesis
    using sync_order.heap_sort_ok [OF refl, of ts es] unfolding compare_time_le by blast
qed

definition demo_item :: "u64 \<Rightarrow> nt_sync_item_t nt_binary_heap_elem" where
  "demo_item k = \<lparr>he_key = k, he_data = \<lparr>si_itemid = k, si_status = 0, si_tail = unat k, si_head = 0\<rparr>\<rparr>"

definition demo_time :: "nat \<Rightarrow> nt_timespec_t" where
  "demo_time p = \<lparr>ts_sec = int (10 - p), ts_ns = 0\<rparr>"

theorem sync_queue_oldest_first_witness:
  "\<exists>h. insert_all (nt_binary_heap_insert True)
      (nt_binary_heap_create_ext (sync_queue_elem_compare_func demo_time) NT_BINARY_HEAP_OPTION_EMPTY)
        [demo_item 1, demo_item 3, demo_item 2] = Inr h
    \<and> sorted_wrt (\<lambda>x y. time_le (demo_time (si_tail (he_data x))) (demo_time (si_tail (he_data y))))
      (drain nt_binary_heap_find_min nt_binary_heap_remove_min (length [demo_item 1, demo_item 3, demo_item 2]) h)"
proof -
  have "\<forall>e\<in>set [demo_item 1, demo_item 3, demo_item 2]. valid_time (demo_time (si_tail (he_data e)))"
    by (auto simp: valid_time_def INT_MAX_def demo_time_def)
  from conjunct1 [OF sync_queue_oldest_first [OF this]] show ?thesis by blast
qed

section \<open>The caches of the program\<close>

lemma trend_sizes:
  "unat trend_sz = 422" "unat (mebibytes 4) = 4194304"
  "unat (mebibytes 4 - trend_sz) = 4193882" "unat (mebibytes 4 - trend_sz - trend_sz) = 4193460"
proof -
  show s: "unat trend_sz = 422" using required_size_eq [OF refl refl, of descr_trend param_trend] descr_lengths(1) by simp
  then have "trend_sz = 422" by (metis of_nat_numeral of_nat_unat ucast_id)
  then show "unat (mebibytes 4 - trend_sz) = 4193882" "unat (mebibytes 4 - trend_sz - trend_sz) = 4193460"
    by (simp_all add: mebibytes_def)
  show "unat (mebibytes 4) = 4194304" by (simp add: mebibytes_def)
qed

lemma main_caches_run:
  assumes os: "answer_ok os_cache" "answer_ok os_sync" "answer_ok os_index" "answer_ok os_trend"
  shows "\<exists>info0 blk0 s0 sync ix tr c1 s1 c2 s2 b1 b2 b3 s.
      init_cache os_cache ((shm_start v)\<lparr>sm_cache := Some (a, zero_cache)\<rparr>) = Some (Inr (SUCCEED, s0))
    \<and> sm_sync_mem s0 = Some info0 \<and> seg_ok info0 {blk0} \<and> mi_shm_id info0 = fst (the os_cache)
    \<and> sm_cache s0 = Some (a, zero_cache\<lparr>sc_trends := Some fresh_trends\<rparr>)
    \<and> init_sync_cache NT_PROGRAM_TYPE_SERVER os_sync os_index os_trend ts s0 = Some (Inr (SUCCEED, s))
    \<and> main_caches a os_cache os_sync os_index os_trend ts v = Some (Inr s)
    \<and> sm_cache s = Some (c1 + 8, fresh_cache ts) \<and> sm_ids s = c2 + 8
    \<and> sm_sync_mem s = Some sync \<and> seg_ok sync {b1} \<and> mi_shm_id sync = fst (the os_sync)
    \<and> sm_sync_index_mem s = Some ix \<and> seg_ok ix {(c1, s1), (c2, s2), b2} \<and> distinct [(c1, s1), (c2, s2), b2]
    \<and> 320 \<le> s1 \<and> 320 \<le> s2 \<and> mi_shm_id ix = fst (the os_index)
    \<and> sm_trend_mem s = Some tr \<and> seg_ok tr {b3} \<and> mi_shm_id tr = fst (the os_trend) \<and> unat (mi_orig_size tr) = 4193882
    \<and> unat (sm_trends_size s) = 4193460 \<and> sm_vars s = v\<lparr>mutexes := mutexes v + 3\<rparr>
    \<and> sm_sync_lock s = 2 \<and> sm_trends_lock s = 2 \<and> sm_cache_lock s = 1 \<and> sm_cache_ids_lock s = NT_MUTEX_NULL"
proof -
  define s where "s = (shm_start v)\<lparr>sm_cache := Some (a, zero_cache)\<rparr>"
  have s: "sm_trends_size s = mebibytes 4" "sm_cache s = Some (a, zero_cache)" by (simp_all add: s_def shm_start_def)
  obtain info0 blk0 where i0: "init_cache os_cache s = Some (Inr (SUCCEED, s\<lparr>sm_vars := (sm_vars s)\<lparr>mutexes := mutexes (sm_vars s) + 1\<rparr>,
      sm_sync_lock := 2, sm_sync_mem := Some info0, sm_trends_size := mebibytes 4 - trend_sz,
      sm_cache := Some (a, zero_cache\<lparr>sc_trends := Some fresh_trends, sc_trends_num := 0, sc_trends_last_cleanup_hour := 0\<rparr>)\<rparr>))"
    "seg_ok info0 {blk0}" "mi_shm_id info0 = fst (the os_cache)"
    using init_cache_ok [OF os(1) _ _ s(2)] trend_sizes(2) unfolding s(1) by fastforce
  define s0 where "s0 = s\<lparr>sm_vars := (sm_vars s)\<lparr>mutexes := mutexes (sm_vars s) + 1\<rparr>,
      sm_sync_lock := 2, sm_sync_mem := Some info0, sm_trends_size := mebibytes 4 - trend_sz,
      sm_cache := Some (a, zero_cache\<lparr>sc_trends := Some fresh_trends, sc_trends_num := 0, sc_trends_last_cleanup_hour := 0\<rparr>)\<rparr>"
  have z: "sm_sync_size s0 = mebibytes 16" "sm_sync_index_size s0 = mebibytes 4" "sm_trends_size s0 = mebibytes 4 - trend_sz"
    "4193000 \<le> unat (sm_trends_size s0)" "unat (sm_trends_size s0) \<le> 2 ^ 24"
    using trend_sizes(3) by (simp_all add: s0_def s_def shm_start_def)
  from init_sync_cache_ok [OF os(2-4) z(1,2,4,5), of ts] obtain sync ix tr c1 s1 c2 s2 b1 b2 b3 where
    i: "init_sync_cache NT_PROGRAM_TYPE_SERVER os_sync os_index os_trend ts s0 =
      Some (Inr (SUCCEED, s0\<lparr>sm_vars := (sm_vars s0)\<lparr>mutexes := mutexes (sm_vars s0) + 2\<rparr>, sm_cache_lock := 1, sm_trends_lock := 2,
        sm_sync_mem := Some sync, sm_sync_index_mem := Some ix, sm_trend_mem := Some tr,
        sm_trends_size := sm_trends_size s0 - trend_sz, sm_cache := Some (c1 + 8, fresh_cache ts), sm_ids := c2 + 8\<rparr>))"
      "seg_ok sync {b1}" "seg_ok ix {(c1, s1), (c2, s2), b2}" "distinct [(c1, s1), (c2, s2), b2]" "320 \<le> s1" "320 \<le> s2"
      "seg_ok tr {b3}" "mi_shm_id sync = fst (the os_sync)" "mi_shm_id ix = fst (the os_index)"
      "mi_shm_id tr = fst (the os_trend)" "mi_orig_size tr = sm_trends_size s0"
    by blast
  define sf where "sf = s0\<lparr>sm_vars := (sm_vars s0)\<lparr>mutexes := mutexes (sm_vars s0) + 2\<rparr>, sm_cache_lock := 1, sm_trends_lock := 2,
        sm_sync_mem := Some sync, sm_sync_index_mem := Some ix, sm_trend_mem := Some tr,
        sm_trends_size := sm_trends_size s0 - trend_sz, sm_cache := Some (c1 + 8, fresh_cache ts), sm_ids := c2 + 8\<rparr>"
  have run: "main_caches a os_cache os_sync os_index os_trend ts v = Some (Inr sf)"
    using i0(1) [folded s0_def] i(1) [folded sf_def] by (simp add: main_caches_def s_def)
  have f: "sm_cache sf = Some (c1 + 8, fresh_cache ts)" "sm_ids sf = c2 + 8" "sm_sync_mem sf = Some sync"
    "sm_sync_index_mem sf = Some ix" "sm_trend_mem sf = Some tr" "unat (sm_trends_size sf) = 4193460"
    "sm_vars sf = v\<lparr>mutexes := mutexes v + 3\<rparr>" "sm_sync_lock sf = 2" "sm_trends_lock sf = 2" "sm_cache_lock sf = 1"
    "sm_cache_ids_lock sf = NT_MUTEX_NULL" "unat (mi_orig_size tr) = 4193882"
    using trend_sizes(3,4) z(3) i(11) by (simp_all add: sf_def s0_def s_def shm_start_def)
  have g: "sm_sync_mem s0 = Some info0" "sm_cache s0 = Some (a, zero_cache\<lparr>sc_trends := Some fresh_trends\<rparr>)"
    by (simp_all add: s0_def zero_cache_def)
  show ?thesis
    by (rule exI [of _ info0], rule exI [of _ blk0], rule exI [of _ s0], rule exI [of _ sync], rule exI [of _ ix], rule exI [of _ tr],
      rule exI [of _ c1], rule exI [of _ s1], rule exI [of _ c2], rule exI [of _ s2], rule exI [of _ b1], rule exI [of _ b2],
      rule exI [of _ b3], rule exI [of _ sf])
      (intro conjI i0(1) [folded s0_def, unfolded s_def] i0(2,3) g i(1) [folded sf_def] run f i(2-10))
qed

text \<open>
  C17: the setup in \<open>main\<close> succeeds for segments attached anywhere: the set of items, the set of trends, the
  queue and the map are empty and well-formed, and each segment holds exactly the blocks it should:
  the cache, the ids and the slots of the items, disjoint, in the index segment, and the slots of the map
  and of the trends in the other two.
\<close>

theorem shm_caches_ready:
  assumes "answer_ok os_cache" "answer_ok os_sync" "answer_ok os_index" "answer_ok os_trend"
  shows "\<exists>s c trends items queue hmap addr. main_caches a os_cache os_sync os_index os_trend ts v = Some (Inr s)
    \<and> sm_cache s = Some (addr, \<lparr>sc_trends = Some trends, sc_sync_items = Some items, sc_sync_queue = Some queue,
        sc_sync_hmap = Some hmap, sc_history_num = 0, sc_trends_num = 0, sc_trends_last_cleanup_hour = 0\<rparr>)
    \<and> hs_inv item_hash item_cmp u64_key items \<and> hs_alpha u64_key items = Map.empty
    \<and> hs_inv item_hash item_cmp u64_key trends \<and> hs_alpha u64_key trends = Map.empty
    \<and> heap_inv (sync_queue_elem_compare_func ts) queue \<and> bh_elems queue = []
    \<and> hm_inv hmap \<and> hm_alpha hmap = Map.empty
    \<and> (\<exists>ix F c1 s1 c2 s2 b. sm_sync_index_mem s = Some ix \<and> mem_view ix {(c1, s1), (c2, s2), b} F
        \<and> distinct [(c1, s1), (c2, s2), b] \<and> addr = c1 + 8 \<and> sm_ids s = c2 + 8 \<and> 320 \<le> s1 \<and> 320 \<le> s2)
    \<and> (\<exists>sync F b. sm_sync_mem s = Some sync \<and> mem_view sync {b} F)
    \<and> (\<exists>tr F b. sm_trend_mem s = Some tr \<and> mem_view tr {b} F)"
proof -
  from main_caches_run [OF assms, of a v ts] obtain s0 info0 blk0 sync ix tr c1 s1 c2 s2 b1 b2 b3 s where
    r: "main_caches a os_cache os_sync os_index os_trend ts v = Some (Inr s)"
      "sm_cache s = Some (c1 + 8, fresh_cache ts)" "sm_ids s = c2 + 8" "sm_sync_mem s = Some sync" "seg_ok sync {b1}"
      "sm_sync_index_mem s = Some ix" "seg_ok ix {(c1, s1), (c2, s2), b2}" "distinct [(c1, s1), (c2, s2), b2]"
      "320 \<le> s1" "320 \<le> s2" "sm_trend_mem s = Some tr" "seg_ok tr {b3}"
    by blast
  note sets = uint64_blocks.create_ok [of 1000 False] uint64_blocks.create_ok [of 100 False]
  have al: "hs_alpha u64_key fresh_items = Map.empty" "hs_alpha u64_key fresh_trends = Map.empty"
    using sets(2,4) by (simp_all add: hs_alpha_def)
  have q: "heap_inv (sync_queue_elem_compare_func ts) (fresh_queue ts)" "bh_elems (fresh_queue ts) = []"
    by (rule sync_order.create_inv) (simp add: nt_binary_heap_create_ext_def Let_def)
  have m: "hm_inv fresh_map" "hm_alpha fresh_map = Map.empty"
    by (rule create_ext_inv [OF uint64_cmp.key_compare_axioms]) (rule create_alpha)
  have v: "\<exists>F. mem_view ix {(c1, s1), (c2, s2), b2} F" "\<exists>F. mem_view sync {b1} F" "\<exists>F. mem_view tr {b3} F"
    using r(5,7,12) by (simp_all add: seg_ok_def)
  show ?thesis
    using r sets al q m v unfolding fresh_cache_def by blast
qed

definition demo_answer :: "int \<Rightarrow> shm_answer" where
  "demo_answer i = Some (i, 0x100000000, \<lambda>x. 0)"

lemma demo_answer_ok: "answer_ok (demo_answer i)"
  by (simp add: answer_ok_def demo_answer_def)

theorem shm_caches_ready_witness:
  "\<exists>s addr c items. main_caches 64 (demo_answer 1) (demo_answer 2) (demo_answer 3) (demo_answer 4) demo_time demo_vars = Some (Inr s)
    \<and> sm_cache s = Some (addr, c) \<and> sc_sync_items c = Some items \<and> hs_alpha u64_key items = Map.empty"
  using shm_caches_ready [OF demo_answer_ok demo_answer_ok demo_answer_ok demo_answer_ok, of 64 1 2 3 4 demo_time demo_vars]
  by fastforce

text \<open>
  What the setup in \<open>main\<close> loses. The segment and the cache that init_cache filled are replaced by
  init_sync_cache, which drops its trends; the configured size of the trend cache is reduced twice,
  and the trend segment is smaller than configured.
\<close>

theorem shm_first_segment_lost:
  assumes "answer_ok os_cache" "answer_ok os_sync" "answer_ok os_index" "answer_ok os_trend"
    "fst (the os_cache) \<notin> {fst (the os_sync), fst (the os_index), fst (the os_trend)}"
  shows "\<exists>s0 s info0 blk0 F trends. init_cache os_cache ((shm_start v)\<lparr>sm_cache := Some (a, zero_cache)\<rparr>) = Some (Inr (SUCCEED, s0))
    \<and> sm_sync_mem s0 = Some info0 \<and> mem_view info0 {blk0} F \<and> sm_cache s0 = Some (a, zero_cache\<lparr>sc_trends := Some trends\<rparr>)
    \<and> init_sync_cache NT_PROGRAM_TYPE_SERVER os_sync os_index os_trend ts s0 = Some (Inr (SUCCEED, s))
    \<and> (\<forall>info. Some info \<in> {sm_sync_mem s, sm_sync_index_mem s, sm_trend_mem s} \<longrightarrow> mi_shm_id info \<noteq> mi_shm_id info0)
    \<and> sm_trends_size (shm_start v) = mebibytes 4 \<and> unat (sm_trends_size s) = 4194304 - 2 * 422
    \<and> (\<exists>tr. sm_trend_mem s = Some tr \<and> unat (mi_orig_size tr) = 4194304 - 422)"
proof -
  from main_caches_run [OF assms(1-4), of a v ts] obtain s0 info0 blk0 sync ix tr s b1 where
    r: "init_cache os_cache ((shm_start v)\<lparr>sm_cache := Some (a, zero_cache)\<rparr>) = Some (Inr (SUCCEED, s0))"
      "sm_sync_mem s0 = Some info0" "seg_ok info0 {blk0}" "sm_cache s0 = Some (a, zero_cache\<lparr>sc_trends := Some fresh_trends\<rparr>)"
      "init_sync_cache NT_PROGRAM_TYPE_SERVER os_sync os_index os_trend ts s0 = Some (Inr (SUCCEED, s))"
      "sm_sync_mem s = Some sync" "sm_sync_index_mem s = Some ix" "sm_trend_mem s = Some tr"
      "mi_shm_id info0 = fst (the os_cache)" "mi_shm_id sync = fst (the os_sync)" "mi_shm_id ix = fst (the os_index)"
      "mi_shm_id tr = fst (the os_trend)" "unat (sm_trends_size s) = 4193460" "unat (mi_orig_size tr) = 4193882"
    by blast
  obtain F where F: "mem_view info0 {blk0} F" using r(3) by (auto simp: seg_ok_def)
  have lost: "\<forall>info. Some info \<in> {sm_sync_mem s, sm_sync_index_mem s, sm_trend_mem s} \<longrightarrow> mi_shm_id info \<noteq> mi_shm_id info0"
    using r(6-12) assms(5) by auto
  have sizes: "sm_trends_size (shm_start v) = mebibytes 4" "unat (sm_trends_size s) = 4194304 - 2 * 422"
    "\<exists>tr. sm_trend_mem s = Some tr \<and> unat (mi_orig_size tr) = 4194304 - 422"
    using r(8,13,14) by (simp_all add: shm_start_def)
  show ?thesis using r(1,2,4,5) F lost sizes by blast
qed

theorem shm_first_segment_lost_witness:
  "\<exists>s0 s. init_cache (demo_answer 1) ((shm_start demo_vars)\<lparr>sm_cache := Some (64, zero_cache)\<rparr>) = Some (Inr (SUCCEED, s0))
    \<and> init_sync_cache NT_PROGRAM_TYPE_SERVER (demo_answer 2) (demo_answer 3) (demo_answer 4) demo_time s0 = Some (Inr (SUCCEED, s))
    \<and> unat (sm_trends_size s) = 4193460"
proof -
  have "fst (the (demo_answer 1)) \<notin> {fst (the (demo_answer 2)), fst (the (demo_answer 3)), fst (the (demo_answer 4))}"
    by (simp add: demo_answer_def)
  from shm_first_segment_lost [OF demo_answer_ok demo_answer_ok demo_answer_ok demo_answer_ok this, of 64 demo_vars demo_time]
  show ?thesis by auto
qed

section \<open>The locks of the caches\<close>

text \<open>
  C37: the locks of the trends, of the map and of the first segment are one semaphore, the one of the
  value cache's lock: a process that has the trend lock waits for ever when it asks for one of the others.
  The lock of the ids is never created: its variable stays null, and locking or unlocking it returns at once without
  excluding anyone.
\<close>

theorem shm_locks_collide:
  assumes "answer_ok os_cache" "answer_ok os_sync" "answer_ok os_index" "answer_ok os_trend"
    "main_caches a os_cache os_sync os_index os_trend ts v = Some (Inr s)" "init_nt_map os s = Some (Inr (ret, s'))"
    "sw_sets w (NT_SEM_LIST_ID v) = Some vs" "length vs = 3" "\<forall>x\<in>set vs. x = 0 \<or> x = 1"
    "nt_mutex_lock p v (sm_trends_lock s) w = Lock_Done w'"
  shows "nt_mutex_lock p v (sm_sync_lock s) w' = Lock_Again \<and> nt_mutex_lock p v (sm_ntmap_lock s') w' = Lock_Again
    \<and> nt_mutex_lock p v (nt_rwlock_addr_get NT_RWLOCK_VALUECACHE) w' = Lock_Again
    \<and> (\<forall>q u. nt_mutex_lock q v (sm_cache_ids_lock s) u = Lock_Done u)"
proof -
  from main_caches_run [OF assms(1-4), of a v ts] assms(5)
  have l: "sm_trends_lock s = 2" "sm_sync_lock s = 2" "sm_cache_ids_lock s = NT_MUTEX_NULL" by auto
  have n: "sm_ntmap_lock s' = 2"
    using assms(6)
    by (auto simp: init_nt_map_def nt_mutex_create_def NT_MUTEX_MAP_def Let_def and_then_def SUCCEED_def
        split: option.splits sum.splits prod.splits)
  have lt: "2 < length vs" using assms(8) by simp
  have "vs ! 2 = 0 \<or> vs ! 2 = 1" using assms(9) nth_mem [OF lt] by blast
  then have "vs ! 2 = 1"
    using assms(7,8,10) lt
    by (auto simp: l nt_mutex_lock_def semop_def sem_num_def NT_MUTEX_NULL_def Let_def split: if_splits)
  then have "sw_sets w' (NT_SEM_LIST_ID v) = Some (vs[2 := 0])"
    using assms(7,8,10) lt by (auto simp: l nt_mutex_lock_def semop_def sem_num_def NT_MUTEX_NULL_def SEMVMX_def)
  then have "nt_mutex_lock p v 2 w' = Lock_Again"
    using assms(8) by (simp add: nt_mutex_lock_def semop_def sem_num_def NT_MUTEX_NULL_def)
  moreover have "nt_mutex_lock q v NT_MUTEX_NULL u = Lock_Done u" for q u by (simp add: nt_mutex_lock_def)
  ultimately show ?thesis by (simp add: l n NT_MUTEX_COUNT_def)
qed

lemma mem_create_no_segment: "nt_mem_create None sz descr param oom = None"
  by (simp add: nt_mem_create_def)

lemma demo_main_caches:
  "\<exists>s. main_caches 64 (demo_answer 1) (demo_answer 2) (demo_answer 3) (demo_answer 4) demo_time demo_vars = Some (Inr s)"
  using main_caches_run [OF demo_answer_ok [of 1] demo_answer_ok [of 2] demo_answer_ok [of 3] demo_answer_ok [of 4],
      where a = 64 and v = demo_vars and ts = demo_time]
  by blast

theorem shm_locks_collide_witness:
  "\<exists>s w'. main_caches 64 (demo_answer 1) (demo_answer 2) (demo_answer 3) (demo_answer 4) demo_time demo_vars = Some (Inr s)
    \<and> nt_mutex_lock 5 demo_vars (sm_trends_lock s) demo_world = Lock_Done w'
    \<and> nt_mutex_lock 5 demo_vars (sm_sync_lock s) w' = Lock_Again"
proof -
  obtain s where s: "main_caches 64 (demo_answer 1) (demo_answer 2) (demo_answer 3) (demo_answer 4) demo_time demo_vars = Some (Inr s)"
    using demo_main_caches by blast
  then have "sm_trends_lock s = 2"
    using main_caches_run [OF demo_answer_ok [of 1] demo_answer_ok [of 2] demo_answer_ok [of 3] demo_answer_ok [of 4],
      where a = 64 and v = demo_vars and ts = demo_time]
    by auto
  then obtain w' where w': "nt_mutex_lock 5 demo_vars (sm_trends_lock s) demo_world = Lock_Done w'"
    by (simp add: nt_mutex_lock_def semop_def sem_num_def NT_MUTEX_NULL_def demo_vars_def demo_world_def SEMVMX_def)
  obtain s' where "init_nt_map None s = Some (Inr (FAIL, s'))"
    by (simp add: init_nt_map_def nt_mutex_create_def mem_create_no_segment Let_def)
  moreover have "sw_sets demo_world (NT_SEM_LIST_ID demo_vars) = Some [1, 1, 1]" by (simp add: demo_world_def demo_vars_def)
  ultimately have "nt_mutex_lock 5 demo_vars (sm_sync_lock s) w' = Lock_Again"
    using shm_locks_collide [OF demo_answer_ok demo_answer_ok demo_answer_ok demo_answer_ok s _ _ _ _ w'] by simp
  with s w' show ?thesis by blast
qed

text \<open>
  C38: free_sync_cache destroys three locks, one of which was never created. In a process that opened
  the log and the caches, the set of semaphores is then removed with the log's lock in it: the next
  message of an enabled level, also that of any other process, ends the process that logs it.
\<close>

theorem free_sync_cache_breaks_log:
  assumes "answer_ok os_sync" "answer_ok os_index" "answer_ok os_trend" "mutexes v0 = 0"
    "open_log_locked v0 old ls0 type level0 filename True = ((SUCCEED, ls), m, v)" "type \<noteq> LOG_TYPE_SYSTEM"
    "NT_CHECK_LOG_LEVEL level0 level = SUCCEED"
  shows "\<exists>s s' w'. init_sync_cache NT_PROGRAM_TYPE_SERVER os_sync os_index os_trend ts (shm_start v) = Some (Inr (SUCCEED, s))
    \<and> free_sync_cache True NT_PROGRAM_TYPE_SERVER s w = (s', w') \<and> sw_sets w' (NT_SEM_LIST_ID v0) = None
    \<and> (\<forall>p. nt_nt_log p (sm_vars s') m limit append_ok notice stamp msg w' ls level = Log_Exits
          \<and> nt_nt_log p v m limit append_ok notice stamp msg w' ls level = Log_Exits)"
proof -
  have o: "log_type ls = type" "log_level ls = level0" "type \<noteq> Log_Type_Other" "NT_SEM_LIST_ID v = NT_SEM_LIST_ID v0"
    "m = 0" "mutexes v = 1"
    using assms(4-6)
    by (auto simp: open_log_locked_def nt_open_log_def nt_mutex_create_def Let_def SUCCEED_def FAIL_def
        split: nt_log_type.splits if_splits)
  have z: "sm_sync_size (shm_start v) = mebibytes 16" "sm_sync_index_size (shm_start v) = mebibytes 4"
    "4193000 \<le> unat (sm_trends_size (shm_start v))" "unat (sm_trends_size (shm_start v)) \<le> 2 ^ 24"
    using trend_sizes(2) by (simp_all add: shm_start_def)
  from init_sync_cache_ok [OF assms(1-3) z, of ts] obtain s where
    s: "init_sync_cache NT_PROGRAM_TYPE_SERVER os_sync os_index os_trend ts (shm_start v) = Some (Inr (SUCCEED, s))"
      "sm_vars s = v\<lparr>mutexes := mutexes v + 2\<rparr>"
    by (auto simp: shm_start_def)
  obtain s' w' where f: "free_sync_cache True NT_PROGRAM_TYPE_SERVER s w = (s', w')" by fastforce
  have f': "sw_sets w' (NT_SEM_LIST_ID v) = None" "NT_SEM_LIST_ID (sm_vars s') = NT_SEM_LIST_ID v"
    using f s(2) o(6)
    by (auto simp: free_sync_cache_def nt_mutex_destroy_def NT_PROGRAM_TYPE_SERVER_def semctl_rmid_def Let_def)
  have "nt_nt_log p u m limit append_ok notice stamp msg w' ls level = Log_Exits" if "NT_SEM_LIST_ID u = NT_SEM_LIST_ID v" for p u
  proof -
    have "with_log_lock p u m w' out = Log_Exits" for out
      using f'(1) that by (simp add: with_log_lock_def nt_mutex_lock_def semop_def NT_MUTEX_NULL_def o(5))
    then show ?thesis using o assms(6,7) by (cases type) (auto simp: nt_nt_log_def)
  qed
  then show ?thesis using s(1) f f' o(4) by auto
qed

theorem free_sync_cache_breaks_log_witness:
  "\<exists>s s' w'. init_sync_cache NT_PROGRAM_TYPE_SERVER (demo_answer 2) (demo_answer 3) (demo_answer 4) demo_time (shm_start demo_vars)
      = Some (Inr (SUCCEED, s))
    \<and> free_sync_cache True NT_PROGRAM_TYPE_SERVER s demo_world = (s', w')
    \<and> nt_nt_log 5 demo_vars 0 1 True [] [48] [97] w' (demo_log\<lparr>log_type := LOG_TYPE_CONSOLE, log_level := 3\<rparr>) 2 = Log_Exits"
proof -
  have "open_log_locked \<lparr>NT_SEM_LIST_ID = 7, mutexes = 0\<rparr> (-1) demo_log LOG_TYPE_CONSOLE 3 [120] True
      = ((SUCCEED, demo_log\<lparr>log_type := LOG_TYPE_CONSOLE, log_level := 3\<rparr>), 0, demo_vars)"
    by (simp add: open_log_locked_def nt_mutex_create_def nt_open_log_def demo_vars_def)
  from free_sync_cache_breaks_log [OF demo_answer_ok [of 2] demo_answer_ok [of 3] demo_answer_ok [of 4] _ this,
      where level = 2 and ts = demo_time and w = demo_world and limit = 1 and append_ok = True and notice = "[]"
      and stamp = "[48]" and msg = "[97]"]
  show ?thesis by (auto simp: NT_CHECK_LOG_LEVEL_def log_level_defs)
qed

section \<open>What the program does\<close>

lemma load64_u64_bytes: "load64 (u64_bytes v) = v"
proof (rule bit_word_eqI)
  fix n assume "n < LENGTH(64)"
  then have n: "n < 64" "n div 8 < 8" "8 * (n div 8) + n mod 8 = n" by simp_all
  then have "u64_bytes v ! (n div 8) = ucast (drop_bit (8 * (n div 8)) v)" by (simp add: u64_bytes_def)
  then have "bit (u64_bytes v ! (n div 8)) (n mod 8) = bit v (8 * (n div 8) + n mod 8)"
    by (simp add: bit_ucast_iff bit_drop_bit_eq)
  moreover have "bit (load64 (u64_bytes v)) n \<longleftrightarrow> n < 64 \<and> n div 8 < 8 \<and> bit (u64_bytes v ! (n div 8)) (n mod 8)"
    using load64_bytes [of "u64_bytes v"] unfolding bytes_upto_def by blast
  ultimately show "bit (load64 (u64_bytes v)) n = bit v n" using n by metis
qed

text \<open>The insertion into the fresh set when \<open>behind\<close> is long enough to copy from.\<close>

definition kv_entry :: "nat \<Rightarrow> u8 list \<Rightarrow> u64 \<Rightarrow> u64 \<Rightarrow> u8 list \<Rightarrow> hs_entry" where
  "kv_entry b old key_ptr val_ptr behind = \<lparr>hse_addr = b, hse_hash = nt_default_uint64_hash_func key_ptr,
     hse_data = take 8 old @ u64_bytes val_ptr @ take 121 behind\<rparr>"

lemma fresh_items_simps:
  "hs_slots fresh_items = Some (replicate 1009 [])" "hs_num_slots fresh_items = 1009" "hs_num_data fresh_items = 0"
  "hs_hash_func fresh_items = item_hash" "hs_compare_func fresh_items = item_cmp" "hs_slot fresh_items h < 1009"
  by (simp_all add: nt_hashset_create_ext_def nt_hashset_init_slots_def primes_used hs_slot_def Let_def)

definition one_item :: "hs_entry \<Rightarrow> nt_hashset" where
  "one_item e = fresh_items\<lparr>hs_slots := Some ((replicate 1009 [])[hs_slot fresh_items (hse_hash e) := [e]]), hs_num_data := 1\<rparr>"

lemma one_item_all: "hs_all (one_item e) = [e]"
  using mset_concat_update [of "hs_slot fresh_items (hse_hash e)" "replicate 1009 []" "[e]"] fresh_items_simps(6)
  by (simp add: one_item_def hs_all_def)

lemma main_kv_insert:
  assumes "val_ptr \<noteq> 0"
  shows "nt_hashset_insert_kv True True (Some (b, old)) fresh_items key_ptr val_ptr behind main_key 128 =
    (if length behind < 121 then Inl hs_error.Over_Read
     else Inr (one_item (kv_entry b old key_ptr val_ptr behind), Some b))"
proof -
  have k: "u64_key (kv_bytes key_ptr val_ptr @ behind) = key_ptr" by (simp add: kv_bytes_def load64_u64_bytes)
  have c: "copy_data old (kv_bytes key_ptr val_ptr @ behind) 137 8 = (if length behind < 121 then Inl hs_error.Over_Read
      else Inr (take 8 old @ u64_bytes val_ptr @ take 121 behind))"
    by (auto simp: copy_data_def kv_bytes_def)
  have s: "hs_slot (fresh_items\<lparr>hs_slots := x, hs_num_data := n\<rparr>) h = hs_slot fresh_items h" for x n h by (simp add: hs_slot_def)
  show ?thesis
    using assms c fresh_items_simps(6)
    by (simp add: nt_hashset_insert_kv_def nt_hashset_insert_ext_def hs_insert_hashed_def fresh_items_simps(1-5) k [unfolded take_append]
        find_in_chain_def main_key_def one_item_def kv_entry_def Let_def)
qed

lemma one_item_get:
  "nt_hashset_get_kv (one_item e) key_ptr = Inr
     (if hse_hash e = nt_default_uint64_hash_func key_ptr \<and> u64_key (hse_data e) = key_ptr
      then Some (load64 (take 8 (drop 8 (hse_data e)))) else None)"
proof -
  have k: "u64_key (kv_bytes key_ptr 0) = key_ptr" by (simp add: kv_bytes_def load64_u64_bytes)
  have s: "hs_slot (one_item e) h = hs_slot fresh_items h" for h by (simp add: one_item_def hs_slot_def)
  have h: "hs_slots (one_item e) = Some ((replicate 1009 [])[hs_slot fresh_items (hse_hash e) := [e]])"
    "hs_num_slots (one_item e) = 1009" "hs_hash_func (one_item e) = item_hash" "hs_compare_func (one_item e) = item_cmp"
    by (simp_all add: one_item_def fresh_items_simps)
  have z: "nt_default_uint64_compare_func x y = 0 \<longleftrightarrow> x = y" for x y
    by (auto simp: nt_default_uint64_compare_func_def return_if_not_equal_def)
  show ?thesis
  proof (cases "hs_slot fresh_items (hse_hash e) = hs_slot fresh_items (nt_default_uint64_hash_func key_ptr)")
    case True
    then show ?thesis using fresh_items_simps(6)
      by (simp add: nt_hashset_get_kv_def nt_hashset_search_def find_in_chain_def h s k z Let_def)
  next
    case False
    then have "hse_hash e \<noteq> nt_default_uint64_hash_func key_ptr" by metis
    then show ?thesis using False fresh_items_simps(6)
      by (simp add: nt_hashset_get_kv_def nt_hashset_search_def find_in_chain_def h s k z Let_def)
  qed
qed



end
