(* ===== verification/Daemon.thy ===== *)
theory Daemon
  imports Log
begin

text \<open>
  nt_phreads.c, with get_signal_name of fatal.c and the exit functions of common.c: the signal
  handlers of the daemon, how it becomes one, its PID file, and the processes it forks. What the system calls
  answer is an argument.
\<close>

section \<open>Signals and handlers\<close>

datatype signal =
    SIGALRM | SIGILL | SIGFPE | SIGSEGV | SIGBUS | SIGQUIT | SIGHUP | SIGINT | SIGTERM | SIGPIPE
  | SIGUSR1 | SIGUSR2 | SIGCHLD | Other_Signal nat

definition get_signal_name :: "signal \<Rightarrow> string" where
  "get_signal_name sig =
     (case sig of
        SIGALRM \<Rightarrow> ''SIGALRM'' | SIGILL \<Rightarrow> ''SIGILL'' | SIGFPE \<Rightarrow> ''SIGFPE'' | SIGSEGV \<Rightarrow> ''SIGSEGV''
      | SIGBUS \<Rightarrow> ''SIGBUS'' | SIGQUIT \<Rightarrow> ''SIGQUIT'' | SIGHUP \<Rightarrow> ''SIGHUP'' | SIGINT \<Rightarrow> ''SIGINT''
      | SIGTERM \<Rightarrow> ''SIGTERM'' | SIGPIPE \<Rightarrow> ''SIGPIPE'' | SIGUSR1 \<Rightarrow> ''SIGUSR1'' | SIGUSR2 \<Rightarrow> ''SIGUSR2''
      | _ \<Rightarrow> ''unknown'')"

datatype handler =
    Default_Action | Ignore_Signal | Child_Handler | Pipe_Handler | User1_Handler | Terminate_Handler | Fatal_Handler
  | Alarm_Handler

text \<open>
  A process: its number, the table of handlers, and the static variables. \<open>pc_tid\<close> is \<open>None\<close> while no thread number
  has been stored in \<open>tid\<close>.
\<close>

record daemon_process =
  pc_pid :: int
  pc_handlers :: "signal \<Rightarrow> handler"
  pc_sig_parent_pid :: int
  pc_sig_exiting :: int
  pc_timed_out :: int
  pc_tid :: "nat option"
  pc_parent_pid :: int

definition SIG_PARENT_PROCESS :: "daemon_process \<Rightarrow> bool" where
  "SIG_PARENT_PROCESS p \<longleftrightarrow> pc_sig_parent_pid p = pc_pid p"

text \<open>
  How a handler ends: it returns, with the process's variables; the process exits with a status;
  or it cancels and joins a thread number that is none.
\<close>

datatype handler_end = Handler_Returns daemon_process | Process_Exits int | Bad_Thread | Process_Killed

definition EXIT_SUCCESS :: int where "EXIT_SUCCESS = 0"
definition EXIT_FAILURE :: int where "EXIT_FAILURE = 1"

definition exit_with_failure :: handler_end where
  "exit_with_failure = Process_Exits EXIT_FAILURE"

text \<open>nt_on_exit: the two semaphores it unlinks are names that no other code uses.\<close>

definition nt_on_exit :: "daemon_process \<Rightarrow> handler_end" where
  "nt_on_exit p = (case pc_tid p of None \<Rightarrow> Bad_Thread | Some t \<Rightarrow> Process_Exits EXIT_SUCCESS)"

definition nt_alarm_flag_set :: "daemon_process \<Rightarrow> daemon_process" where
  "nt_alarm_flag_set p = p\<lparr>pc_timed_out := 1\<rparr>"

definition child_signal_handler :: "daemon_process \<Rightarrow> handler_end" where
  "child_signal_handler p =
     (if \<not> SIG_PARENT_PROCESS p then exit_with_failure
      else if 0 = pc_sig_exiting p then nt_on_exit (p\<lparr>pc_sig_exiting := 1\<rparr>)
      else Handler_Returns p)"

text \<open>The level of the message that terminate_signal_handler logs, if it logs; \<open>sender\<close> is \<open>si_pid\<close>, or -1.\<close>

definition terminate_log_level :: "signal \<Rightarrow> int \<Rightarrow> daemon_process \<Rightarrow> int option" where
  "terminate_log_level sig sender p =
     (if \<not> SIG_PARENT_PROCESS p then Some (if pc_sig_parent_pid p = sender \<or> sig = SIGINT then 4 else 3)
      else if 0 = pc_sig_exiting p then Some (if pc_sig_parent_pid p = sender then LOG_LEVEL_DEBUG else LOG_LEVEL_WARNING)
      else None)"

definition terminate_signal_handler :: "signal \<Rightarrow> daemon_process \<Rightarrow> handler_end" where
  "terminate_signal_handler sig p =
     (if \<not> SIG_PARENT_PROCESS p then
        (if sig = SIGINT then Handler_Returns p else exit_with_failure)
      else if 0 = pc_sig_exiting p then nt_on_exit (p\<lparr>pc_sig_exiting := 1\<rparr>)
      else Handler_Returns p)"

definition fatal_signal_handler :: handler_end where
  "fatal_signal_handler = exit_with_failure"

definition alarm_signal_handler :: "daemon_process \<Rightarrow> handler_end" where
  "alarm_signal_handler p = Handler_Returns (nt_alarm_flag_set p)"

text \<open>pipe_signal_handler and user1_signal_handler only print.\<close>

definition deliver :: "signal \<Rightarrow> daemon_process \<Rightarrow> handler_end" where
  "deliver sig p =
     (case pc_handlers p sig of
        Default_Action \<Rightarrow> if sig = SIGCHLD then Handler_Returns p else Process_Killed
      | Ignore_Signal \<Rightarrow> Handler_Returns p
      | Child_Handler \<Rightarrow> child_signal_handler p
      | Pipe_Handler \<Rightarrow> Handler_Returns p
      | User1_Handler \<Rightarrow> Handler_Returns p
      | Terminate_Handler \<Rightarrow> terminate_signal_handler sig p
      | Fatal_Handler \<Rightarrow> fatal_signal_handler
      | Alarm_Handler \<Rightarrow> alarm_signal_handler p)"

text \<open>\<open>sigaction\<close> and \<open>signal\<close>.\<close>

definition set_handler :: "signal \<Rightarrow> handler \<Rightarrow> daemon_process \<Rightarrow> daemon_process" where
  "set_handler sig h p = p\<lparr>pc_handlers := (pc_handlers p)(sig := h)\<rparr>"

definition nt_set_common_signal_handlers :: "daemon_process \<Rightarrow> daemon_process" where
  "nt_set_common_signal_handlers p =
     (let p = p\<lparr>pc_sig_parent_pid := pc_pid p\<rparr>;
          p = set_handler SIGINT Terminate_Handler p;
          p = set_handler SIGQUIT Terminate_Handler p;
          p = set_handler SIGTERM Terminate_Handler p;
          p = set_handler SIGILL Fatal_Handler p;
          p = set_handler SIGFPE Fatal_Handler p;
          p = set_handler SIGSEGV Fatal_Handler p;
          p = set_handler SIGBUS Fatal_Handler p
      in set_handler SIGALRM Alarm_Handler p)"

definition set_daemon_signal_handlers :: "daemon_process \<Rightarrow> daemon_process" where
  "set_daemon_signal_handlers p =
     (let p = p\<lparr>pc_sig_parent_pid := pc_pid p\<rparr>;
          p = set_handler SIGUSR1 User1_Handler p
      in set_handler SIGPIPE Pipe_Handler p)"

definition nt_set_child_signal_handler :: "daemon_process \<Rightarrow> daemon_process" where
  "nt_set_child_signal_handler p = set_handler SIGCHLD Child_Handler (p\<lparr>pc_sig_parent_pid := pc_pid p\<rparr>)"

section \<open>Processes\<close>

text \<open>
  \<open>fork\<close> for a child with the number \<open>child\<close>, as seen by the child. The signals blocked around it are not
  modelled.
\<close>

definition fork_child :: "int \<Rightarrow> daemon_process \<Rightarrow> daemon_process" where
  "fork_child child p = p\<lparr>pc_pid := child\<rparr>"

definition nt_child_fork :: "int \<Rightarrow> daemon_process \<Rightarrow> int \<times> daemon_process" where
  "nt_child_fork child p = (0, set_handler SIGCHLD Default_Action (fork_child child p))"

text \<open>
  nt_thread_start: in the parent, with what \<open>fork\<close> answers there; and in the child, which runs the handler and
  exits.
\<close>

definition NT_THREAD_ERROR :: int where "NT_THREAD_ERROR = -1"

definition nt_thread_start_parent :: "int \<Rightarrow> int" where
  "nt_thread_start_parent thread = (if -1 = thread then NT_THREAD_ERROR else thread)"

definition nt_thread_start_child :: "(daemon_process \<Rightarrow> daemon_process) \<Rightarrow> int \<Rightarrow> daemon_process \<Rightarrow> handler_end" where
  "nt_thread_start_child handler child p =
     (case nt_child_fork child p of (_, c) \<Rightarrow> let c = handler c in Process_Exits EXIT_SUCCESS)"

section \<open>Becoming a daemon\<close>

text \<open>What the calls of daemon_start answer; \<open>da_fork1\<close> and \<open>da_fork2\<close> are the results in the process that goes on.\<close>

record daemon_answers =
  da_uid :: int
  da_getpwnam :: "(int \<times> int) option"
  da_setgid :: int
  da_setuid :: int
  da_fork1 :: int
  da_fork2 :: int
  da_chdir :: int
  da_pid_file :: int
  da_pid :: int

datatype daemon_end =
    Cannot_Run_As_Root | No_Such_User | User_Is_Root | Cannot_Setgid | Cannot_Setuid
  | Parent_Exits | Assert_Failed | No_Pid_File
  | Runs_As int daemon_process

definition NT_TASK_FLAG_FOREGROUND :: u32 where "NT_TASK_FLAG_FOREGROUND = 2"

text \<open>The part of daemon_start that gives up the user root: an error, or the user it goes on as.\<close>

definition drop_root :: "daemon_answers \<Rightarrow> int \<Rightarrow> u32 \<Rightarrow> daemon_end + int" where
  "drop_root os allow_root flags =
     (if 0 = allow_root \<and> 0 = da_uid os then
        (if 0 \<noteq> flags AND NT_TASK_FLAG_FOREGROUND then Inl Cannot_Run_As_Root
         else case da_getpwnam os of
                None \<Rightarrow> Inl No_Such_User
              | Some (pw_uid, pw_gid) \<Rightarrow>
                  if 0 = pw_uid then Inl User_Is_Root
                  else if -1 = da_setgid os then Inl Cannot_Setgid
                  else if -1 = da_setuid os then Inl Cannot_Setuid
                  else Inr pw_uid)
      else Inr (da_uid os))"

text \<open>\<open>p\<close> is the process that calls; a name is looked up as \<open>root\<close> when no user is given.\<close>

definition daemon_start :: "daemon_answers \<Rightarrow> daemon_process \<Rightarrow> int \<Rightarrow> u32 \<Rightarrow> daemon_end" where
  "daemon_start os p allow_root flags =
     (case drop_root os allow_root flags of
        Inl e \<Rightarrow> e
      | Inr uid \<Rightarrow>
          let fg = (0 \<noteq> flags AND NT_TASK_FLAG_FOREGROUND)
          in if \<not> fg \<and> 0 \<noteq> da_fork1 os then Parent_Exits
             else if \<not> fg \<and> 0 \<noteq> da_fork2 os then Parent_Exits
             else if \<not> fg \<and> -1 = da_chdir os then Assert_Failed
             else if FAIL = da_pid_file os then No_Pid_File
             else
               let p = (if fg then p else set_handler SIGHUP Ignore_Signal (p\<lparr>pc_pid := da_pid os\<rparr>));
                   p = p\<lparr>pc_parent_pid := pc_pid p\<rparr>;
                   p = nt_set_common_signal_handlers p;
                   p = set_daemon_signal_handlers p
               in Runs_As uid (nt_set_child_signal_handler p))"

definition daemon_stop :: "daemon_process \<Rightarrow> bool" where
  "daemon_stop p = (pc_parent_pid p = pc_pid p)"

section \<open>The PID file\<close>

text \<open>
  The file at the path (an inode), the write lock and the contents of each inode. A lock belongs to a process, and closing
  any descriptor of the file gives it up. Opening is taken to succeed; a file holds at most one number.
\<close>

record pid_fs =
  pf_file :: "nat option"
  pf_lock :: "nat \<Rightarrow> int option"
  pf_text :: "nat \<Rightarrow> int option"
  pf_next :: nat

definition f_setlk :: "int \<Rightarrow> nat \<Rightarrow> pid_fs \<Rightarrow> pid_fs option" where
  "f_setlk p i fs =
     (if pf_lock fs i = None \<or> pf_lock fs i = Some p then Some (fs\<lparr>pf_lock := (pf_lock fs)(i := Some p)\<rparr>) else None)"

definition f_unlock :: "int \<Rightarrow> nat \<Rightarrow> pid_fs \<Rightarrow> pid_fs" where
  "f_unlock p i fs = (if pf_lock fs i = Some p then fs\<lparr>pf_lock := (pf_lock fs)(i := None)\<rparr> else fs)"

text \<open>
  create_pid_file call by call: \<open>stat\<close>, \<open>open\<close>, the probing lock, \<open>close\<close>, \<open>fopen\<close>, the lock whose result is
  ignored, and the write.
\<close>

datatype pid_phase =
    Pid_Stat | Pid_Open | Pid_Probe nat | Pid_Close nat | Pid_Create | Pid_Lock nat | Pid_Write nat
  | Pid_Running nat | Pid_Failed

fun create_pid_step :: "int \<Rightarrow> pid_fs \<times> pid_phase \<Rightarrow> pid_fs \<times> pid_phase" where
  "create_pid_step p (fs, Pid_Stat) = (fs, if pf_file fs = None then Pid_Create else Pid_Open)"
| "create_pid_step p (fs, Pid_Open) = (fs, case pf_file fs of None \<Rightarrow> Pid_Failed | Some i \<Rightarrow> Pid_Probe i)"
| "create_pid_step p (fs, Pid_Probe i) =
     (case f_setlk p i fs of None \<Rightarrow> (fs, Pid_Failed) | Some fs \<Rightarrow> (fs, Pid_Close i))"
| "create_pid_step p (fs, Pid_Close i) = (f_unlock p i fs, Pid_Create)"
| "create_pid_step p (fs, Pid_Create) =
     (case pf_file fs of
        None \<Rightarrow> (fs\<lparr>pf_file := Some (pf_next fs), pf_text := (pf_text fs)(pf_next fs := None), pf_next := Suc (pf_next fs)\<rparr>,
                  Pid_Lock (pf_next fs))
      | Some i \<Rightarrow> (fs\<lparr>pf_text := (pf_text fs)(i := None)\<rparr>, Pid_Lock i))"
| "create_pid_step p (fs, Pid_Lock i) = (case f_setlk p i fs of None \<Rightarrow> fs | Some fs \<Rightarrow> fs, Pid_Write i)"
| "create_pid_step p (fs, Pid_Write i) = (fs\<lparr>pf_text := (pf_text fs)(i := Some p)\<rparr>, Pid_Running i)"
| "create_pid_step p (fs, Pid_Running i) = (fs, Pid_Running i)"
| "create_pid_step p (fs, Pid_Failed) = (fs, Pid_Failed)"

text \<open>The whole call, run alone: at most seven steps.\<close>

definition create_pid_file :: "int \<Rightarrow> pid_fs \<Rightarrow> pid_fs \<times> pid_phase" where
  "create_pid_file p fs = (create_pid_step p ^^ 7) (fs, Pid_Stat)"

text \<open>drop_pid_file of a process with the file at inode \<open>i\<close> open.\<close>

definition drop_pid_file :: "int \<Rightarrow> nat \<Rightarrow> pid_fs \<Rightarrow> pid_fs" where
  "drop_pid_file p i fs = (f_unlock p i fs)\<lparr>pf_file := None\<rparr>"

text \<open>The end of a process gives up its locks.\<close>

definition pid_process_end :: "int \<Rightarrow> pid_fs \<Rightarrow> pid_fs" where
  "pid_process_end p fs = fs\<lparr>pf_lock := (\<lambda>i. if pf_lock fs i = Some p then None else pf_lock fs i)\<rparr>"

text \<open>Two processes that take turns: \<open>True\<close> is a step of the first.\<close>

fun pid_schedule :: "int \<Rightarrow> int \<Rightarrow> bool list \<Rightarrow> pid_fs \<times> pid_phase \<times> pid_phase \<Rightarrow> pid_fs \<times> pid_phase \<times> pid_phase" where
  "pid_schedule p q [] s = s"
| "pid_schedule p q (True # bs) (fs, u, v) =
     (case create_pid_step p (fs, u) of (fs, u) \<Rightarrow> pid_schedule p q bs (fs, u, v))"
| "pid_schedule p q (False # bs) (fs, u, v) =
     (case create_pid_step q (fs, v) of (fs, v) \<Rightarrow> pid_schedule p q bs (fs, u, v))"

section \<open>Properties\<close>

lemma drop_root_error [simp]: "drop_root os allow_root flags \<noteq> Inl (Runs_As uid p)"
  by (simp add: drop_root_def split: option.split)

lemma handlers_after_start:
  assumes "daemon_start os p0 allow_root flags = Runs_As uid p"
  shows "pc_handlers p = (\<lambda>s. case s of SIGINT \<Rightarrow> Terminate_Handler | SIGQUIT \<Rightarrow> Terminate_Handler | SIGTERM \<Rightarrow> Terminate_Handler
      | SIGILL \<Rightarrow> Fatal_Handler | SIGFPE \<Rightarrow> Fatal_Handler | SIGSEGV \<Rightarrow> Fatal_Handler | SIGBUS \<Rightarrow> Fatal_Handler
      | SIGALRM \<Rightarrow> Alarm_Handler | SIGUSR1 \<Rightarrow> User1_Handler | SIGPIPE \<Rightarrow> Pipe_Handler | SIGCHLD \<Rightarrow> Child_Handler
      | SIGHUP \<Rightarrow> if 0 \<noteq> flags AND NT_TASK_FLAG_FOREGROUND then pc_handlers p0 SIGHUP else Ignore_Signal
      | _ \<Rightarrow> pc_handlers p0 s)"
    "SIG_PARENT_PROCESS p" "daemon_stop p" "pc_sig_exiting p = pc_sig_exiting p0" "pc_tid p = pc_tid p0"
  using assms
  by (auto simp: daemon_start_def nt_set_common_signal_handlers_def set_daemon_signal_handlers_def nt_set_child_signal_handler_def
      set_handler_def SIG_PARENT_PROCESS_def daemon_stop_def Let_def fun_eq_iff split: sum.splits if_splits signal.split)

fun deliver_all :: "signal list \<Rightarrow> daemon_process \<Rightarrow> handler_end" where
  "deliver_all [] p = Handler_Returns p"
| "deliver_all (s # ss) p = (case deliver s p of Handler_Returns p \<Rightarrow> deliver_all ss p | e \<Rightarrow> e)"

text \<open>The signals a daemon survives.\<close>

definition harmless :: "signal set" where
  "harmless = {SIGALRM, SIGUSR1, SIGPIPE, SIGHUP}"

lemma deliver_harmless:
  assumes "\<forall>s\<in>set ss. s \<in> harmless" "pc_handlers p SIGALRM = Alarm_Handler" "pc_handlers p SIGUSR1 = User1_Handler"
    "pc_handlers p SIGPIPE = Pipe_Handler" "pc_handlers p SIGHUP = Ignore_Signal"
  shows "deliver_all (ss @ rest) p = deliver_all rest (p\<lparr>pc_timed_out := if SIGALRM \<in> set ss then 1 else pc_timed_out p\<rparr>)"
  using assms
proof (induction ss arbitrary: p)
  case (Cons s ss)
  then have "s = SIGALRM \<or> s = SIGUSR1 \<or> s = SIGPIPE \<or> s = SIGHUP" by (auto simp: harmless_def)
  then show ?case
    using Cons.IH [of p] Cons.IH [of "nt_alarm_flag_set p"] Cons.prems
    by (auto simp: deliver_def alarm_signal_handler_def nt_alarm_flag_set_def)
qed simp

text \<open>
  C18: the signals of the daemon. A background daemon outlives SIGALRM, which sets its flag, SIGUSR1,
  SIGPIPE and SIGHUP; the first SIGINT, SIGQUIT, SIGTERM or death of a child after them starts the shutdown, and the
  signals of these four kinds that arrive during it change nothing. The shutdown cancels a thread number that
  the program never stores. The processes it forks ignore SIGINT and the death of their children, end
  with a failure on SIGTERM and SIGQUIT, and never remove the PID file.
\<close>

theorem daemon_signals:
  assumes "daemon_start os p0 allow_root flags = Runs_As uid p" "0 = flags AND NT_TASK_FLAG_FOREGROUND"
    "pc_sig_exiting p0 = 0" "\<forall>s\<in>set ss. s \<in> harmless" "stop \<in> {SIGINT, SIGQUIT, SIGTERM, SIGCHLD}"
    "stop' \<in> {SIGINT, SIGQUIT, SIGTERM, SIGCHLD}" "child \<noteq> pc_pid p" "nt_child_fork child p = (r, c)"
  shows "deliver_all (ss @ stop # rest) p = (case pc_tid p0 of None \<Rightarrow> Bad_Thread | Some t \<Rightarrow> Process_Exits EXIT_SUCCESS)
    \<and> deliver stop' (p\<lparr>pc_sig_exiting := 1\<rparr>) = Handler_Returns (p\<lparr>pc_sig_exiting := 1\<rparr>)
    \<and> deliver SIGINT c = Handler_Returns c \<and> deliver SIGCHLD c = Handler_Returns c
    \<and> deliver SIGTERM c = Process_Exits EXIT_FAILURE \<and> deliver SIGQUIT c = Process_Exits EXIT_FAILURE
    \<and> \<not> daemon_stop c \<and> daemon_stop p"
proof -
  note h = handlers_after_start [OF assms(1)]
  have hd: "pc_handlers p SIGALRM = Alarm_Handler" "pc_handlers p SIGUSR1 = User1_Handler"
    "pc_handlers p SIGPIPE = Pipe_Handler" "pc_handlers p SIGHUP = Ignore_Signal"
    using assms(2) by (simp_all add: h(1))
  have "deliver stop q = (case pc_tid p0 of None \<Rightarrow> Bad_Thread | Some t \<Rightarrow> Process_Exits EXIT_SUCCESS)"
    if "q = p\<lparr>pc_timed_out := x\<rparr>" for q x
    using assms(3,5) h that
    by (auto simp: deliver_def terminate_signal_handler_def child_signal_handler_def SIG_PARENT_PROCESS_def nt_on_exit_def)
  then have a: "deliver_all (ss @ stop # rest) p = (case pc_tid p0 of None \<Rightarrow> Bad_Thread | Some t \<Rightarrow> Process_Exits EXIT_SUCCESS)"
    unfolding deliver_harmless [OF assms(4) hd] by (simp split: option.split)
  have b: "deliver stop' (p\<lparr>pc_sig_exiting := 1\<rparr>) = Handler_Returns (p\<lparr>pc_sig_exiting := 1\<rparr>)"
    using assms(6) h(1,2)
    by (auto simp: deliver_def terminate_signal_handler_def child_signal_handler_def SIG_PARENT_PROCESS_def)
  have c: "c = set_handler SIGCHLD Default_Action (p\<lparr>pc_pid := child\<rparr>)"
    using assms(8) by (simp add: nt_child_fork_def fork_child_def)
  show ?thesis
    using a b h assms(7)
    by (auto simp: c set_handler_def deliver_def terminate_signal_handler_def SIG_PARENT_PROCESS_def daemon_stop_def
        exit_with_failure_def)
qed

definition demo_process :: daemon_process where
  "demo_process = \<lparr>pc_pid = 10, pc_handlers = (\<lambda>s. Default_Action), pc_sig_parent_pid = -1, pc_sig_exiting = 0,
     pc_timed_out = 0, pc_tid = None, pc_parent_pid = -1\<rparr>"

definition demo_daemon_answers :: daemon_answers where
  "demo_daemon_answers = \<lparr>da_uid = 0, da_getpwnam = Some (7, 7), da_setgid = 0, da_setuid = 0, da_fork1 = 0, da_fork2 = 0,
     da_chdir = 0, da_pid_file = 0, da_pid = 12\<rparr>"

lemma demo_daemon: "\<exists>p. daemon_start demo_daemon_answers demo_process 0 0 = Runs_As 7 p \<and> pc_pid p = 12"
  by (simp add: daemon_start_def drop_root_def demo_daemon_answers_def FAIL_def nt_set_common_signal_handlers_def
      set_daemon_signal_handlers_def nt_set_child_signal_handler_def set_handler_def Let_def)

theorem daemon_signals_witness:
  "\<exists>p c. daemon_start demo_daemon_answers demo_process 0 0 = Runs_As 7 p \<and> nt_child_fork 13 p = (0, c)
    \<and> deliver_all [SIGALRM, SIGHUP, SIGTERM] p = Bad_Thread \<and> deliver SIGTERM c = Process_Exits EXIT_FAILURE"
proof -
  obtain p where p: "daemon_start demo_daemon_answers demo_process 0 0 = Runs_As 7 p" "pc_pid p = 12" using demo_daemon by blast
  obtain c where c: "nt_child_fork 13 p = (0, c)" by (simp add: nt_child_fork_def)
  have "13 \<noteq> pc_pid p" by (simp add: p(2))
  from daemon_signals [OF p(1) _ _ _ _ _ this c, of "[SIGALRM, SIGHUP]" SIGTERM SIGTERM "[]"] p(1) c show ?thesis
    by (auto simp: harmless_def demo_process_def)
qed

text \<open>
  A daemon that may not run as root does not: whenever daemon_start goes on, it does so as another
  user; without a user, or with one of number 0, it stops before it forks. A failing \<open>fork\<close> is not
  told from the parent's side of one: the process ends with success.
\<close>

theorem daemon_never_root:
  "(\<forall>uid p. daemon_start os p0 0 flags = Runs_As uid p \<longrightarrow> uid \<noteq> 0)
    \<and> (da_uid os = 0 \<and> flags AND NT_TASK_FLAG_FOREGROUND = 0 \<and> (\<exists>gid. da_getpwnam os = Some (0, gid))
        \<longrightarrow> daemon_start os p0 0 flags = User_Is_Root)
    \<and> (da_uid os = 0 \<and> flags AND NT_TASK_FLAG_FOREGROUND \<noteq> 0 \<longrightarrow> daemon_start os p0 0 flags = Cannot_Run_As_Root)
    \<and> (da_uid os \<noteq> 0 \<and> flags AND NT_TASK_FLAG_FOREGROUND = 0 \<and> (da_fork1 os = -1 \<or> da_fork1 os = 0 \<and> da_fork2 os = -1)
        \<longrightarrow> daemon_start os p0 allow_root flags = Parent_Exits)"
proof (intro conjI impI allI)
  fix uid p
  assume "daemon_start os p0 0 flags = Runs_As uid p"
  then show "uid \<noteq> 0"
    by (auto simp: daemon_start_def drop_root_def Let_def split: option.splits if_splits prod.splits)
qed (auto simp: daemon_start_def drop_root_def Let_def)

theorem daemon_never_root_witness:
  "\<exists>p. daemon_start demo_daemon_answers demo_process 0 0 = Runs_As 7 p
    \<and> daemon_start (demo_daemon_answers\<lparr>da_uid := 5, da_fork1 := -1\<rparr>) demo_process 0 0 = Parent_Exits"
  using demo_daemon daemon_never_root [of "demo_daemon_answers\<lparr>da_uid := 5, da_fork1 := -1\<rparr>" demo_process 0 0]
  by auto

lemma funpow_7: "(f ^^ 7) x = f (f (f (f (f (f (f x))))))"
  by (simp add: eval_nat_numeral)

text \<open>A file that no other process has locked; the call then takes the lock and writes the number.\<close>

lemma create_pid_file_free:
  assumes "\<forall>i. pf_file fs = Some i \<longrightarrow> pf_lock fs i = None" "pf_file fs = None \<longrightarrow> pf_lock fs (pf_next fs) = None"
  shows "\<exists>fs' i. create_pid_file p fs = (fs', Pid_Running i) \<and> pf_file fs' = Some i \<and> pf_lock fs' i = Some p \<and> pf_text fs' i = Some p"
proof (cases "pf_file fs")
  case None
  then show ?thesis using assms(2) by (simp add: create_pid_file_def funpow_7 f_setlk_def)
next
  case (Some i)
  then show ?thesis using assms(1) by (simp add: create_pid_file_def funpow_7 f_setlk_def f_unlock_def)
qed

lemma create_pid_file_locked:
  "pf_file fs = Some i \<Longrightarrow> pf_lock fs i = Some p \<Longrightarrow> q \<noteq> p \<Longrightarrow> create_pid_file q fs = (fs, Pid_Failed)"
  by (simp add: create_pid_file_def funpow_7 f_setlk_def)

text \<open>
  C19: the PID file of one daemon keeps a second one out: a later call of create_pid_file by another process fails
  and changes nothing, until the first has ended; then, whether it removed its file or
  died with it in place, the next one succeeds and the file holds its number.
\<close>

theorem pid_file_excludes_second:
  assumes "\<forall>i. pf_file fs = Some i \<longrightarrow> pf_lock fs i = None" "\<forall>i\<ge>pf_next fs. pf_lock fs i = None"
    "\<forall>i. pf_file fs = Some i \<longrightarrow> i < pf_next fs" "q \<noteq> p" "create_pid_file p fs = (fs1, r)"
  shows "\<exists>i. r = Pid_Running i \<and> pf_text fs1 i = Some p \<and> create_pid_file q fs1 = (fs1, Pid_Failed)
    \<and> (\<exists>fs2 j. create_pid_file q (pid_process_end p fs1) = (fs2, Pid_Running j) \<and> pf_text fs2 j = Some q)
    \<and> (\<exists>fs2 j. create_pid_file q (drop_pid_file p i fs1) = (fs2, Pid_Running j) \<and> pf_text fs2 j = Some q)"
proof -
  obtain fs' i where c: "create_pid_file p fs = (fs', Pid_Running i)" "pf_file fs' = Some i" "pf_lock fs' i = Some p" "pf_text fs' i = Some p"
    using create_pid_file_free [of fs p] assms(1,2) by blast
  have e: "fs1 = fs'" "r = Pid_Running i" using assms(5) c(1) by simp_all
  have nx: "pf_lock fs' (pf_next fs') = None" "i < pf_next fs'"
    using c(1,2) assms(1-3)
    by (cases "pf_file fs"; auto simp: create_pid_file_def funpow_7 f_setlk_def f_unlock_def)+
  have "create_pid_file q fs' = (fs', Pid_Failed)" by (rule create_pid_file_locked [OF c(2,3) assms(4)])
  moreover have "\<exists>fs2 j. create_pid_file q (pid_process_end p fs') = (fs2, Pid_Running j) \<and> pf_text fs2 j = Some q"
    using create_pid_file_free [of "pid_process_end p fs'" q] c(2,3) by (auto simp: pid_process_end_def)
  moreover have "\<exists>fs2 j. create_pid_file q (drop_pid_file p i fs') = (fs2, Pid_Running j) \<and> pf_text fs2 j = Some q"
    using create_pid_file_free [of "drop_pid_file p i fs'" q] nx c(3) by (auto simp: drop_pid_file_def f_unlock_def)
  ultimately show ?thesis using c(4) e by blast
qed

definition demo_fs :: pid_fs where
  "demo_fs = \<lparr>pf_file = None, pf_lock = (\<lambda>i. None), pf_text = (\<lambda>i. None), pf_next = 0\<rparr>"

theorem pid_file_excludes_second_witness:
  "\<exists>fs1. create_pid_file 5 demo_fs = (fs1, Pid_Running 0) \<and> create_pid_file 6 fs1 = (fs1, Pid_Failed)"
proof -
  obtain fs1 where c: "create_pid_file 5 demo_fs = (fs1, Pid_Running 0)"
    by (simp add: create_pid_file_def funpow_7 f_setlk_def demo_fs_def)
  show ?thesis using pid_file_excludes_second [OF _ _ _ _ c, of 6] c by (auto simp: demo_fs_def)
qed

text \<open>
  C39: two daemons that start at the same time both run: the lock that probes the file is given up before the file is
  opened again, and the result of the second lock is ignored. The second one truncates the file of the first and
  writes its own number; when it ends it removes the file, and then a third one can start.
\<close>

theorem pid_file_race:
  assumes "p \<noteq> q" "r \<noteq> p" "\<forall>i. pf_lock fs i = None" "\<forall>i. pf_file fs = Some i \<longrightarrow> i < pf_next fs"
  shows "\<exists>bs fs1 i. pid_schedule p q bs (fs, Pid_Stat, Pid_Stat) = (fs1, Pid_Running i, Pid_Running i)
    \<and> pf_lock fs1 i = Some p \<and> pf_text fs1 i = Some q
    \<and> (\<exists>fs2 j. create_pid_file r (drop_pid_file q i fs1) = (fs2, Pid_Running j) \<and> j \<noteq> i)"
proof (cases "pf_file fs")
  case None
  show ?thesis
    by (rule exI [of _ "[True, False, True, True, True, False, False, False]"])
      (use None assms in \<open>auto simp: f_setlk_def f_unlock_def drop_pid_file_def create_pid_file_def funpow_7\<close>)
next
  case (Some i)
  show ?thesis
    by (rule exI [of _ "[True, True, True, True, False, False, False, False, True, True, True, False, False, False]"])
      (use Some assms in \<open>auto simp: f_setlk_def f_unlock_def drop_pid_file_def create_pid_file_def funpow_7\<close>)
qed

theorem pid_file_race_witness:
  "\<exists>bs fs1 i. pid_schedule 5 6 bs (demo_fs, Pid_Stat, Pid_Stat) = (fs1, Pid_Running i, Pid_Running i)
    \<and> pf_text fs1 i = Some 6"
  using pid_file_race [of 5 6 7 demo_fs] by (fastforce simp: demo_fs_def)

end
