(* ===== verification/Fatal.thy ===== *)
theory Fatal
  imports Log
begin

text \<open>
  fatal.c: what nt_log_fatal_info logs, as the list of its messages. Without the configuration macros of
  the repository's build the registers and the backtrace are not available; the memory map is a file read line
  by line.
\<close>

definition NT_FATAL_LOG_PC_REG_SF :: u32 where "NT_FATAL_LOG_PC_REG_SF = 1"
definition NT_FATAL_LOG_BACKTRACE :: u32 where "NT_FATAL_LOG_BACKTRACE = 2"
definition NT_FATAL_LOG_MEM_MAP :: u32 where "NT_FATAL_LOG_MEM_MAP = 4"
definition NT_FATAL_LOG_FULL_INFO :: u32 where
  "NT_FATAL_LOG_FULL_INFO = NT_FATAL_LOG_PC_REG_SF OR NT_FATAL_LOG_BACKTRACE OR NT_FATAL_LOG_MEM_MAP"

section \<open>Lines of a file\<close>

text \<open>\<open>fgets\<close> with room for \<open>n\<close> bytes and a zero: the bytes up to a newline, and the rest of the file.\<close>

fun take_line :: "nat \<Rightarrow> u8 list \<Rightarrow> u8 list \<times> u8 list" where
  "take_line 0 p = ([], p)"
| "take_line (Suc n) [] = ([], [])"
| "take_line (Suc n) (c # p) = (if c = 10 then ([c], p) else case take_line n p of (l, r) \<Rightarrow> (c # l, r))"

lemma take_line_split: "take_line n p = (l, r) \<Longrightarrow> p = l @ r"
  by (induction n p arbitrary: l r rule: take_line.induct) (auto split: if_splits prod.splits)

lemma take_line_nonempty: "take_line (Suc n) (c # p) = (l, r) \<Longrightarrow> l \<noteq> []"
  by (auto split: if_splits prod.splits)

lemma take_line_shorter: "(l, r) = take_line 1023 p \<Longrightarrow> p \<noteq> [] \<Longrightarrow> length r < length p"
proof (cases p)
  case (Cons c q)
  assume "(l, r) = take_line 1023 p"
  then have t: "take_line (Suc 1022) p = (l, r)" by (simp add: eval_nat_numeral)
  show ?thesis using take_line_split [OF t] take_line_nonempty [OF t [unfolded Cons]] by simp
qed simp

text \<open>The line as a string, after its last byte was overwritten by a zero.\<close>

definition chop_line :: "u8 list \<Rightarrow> u8 list" where
  "chop_line line =
     (let s = takeWhile (\<lambda>b. b \<noteq> 0) line
      in if s \<noteq> [] then butlast s else s)"

function map_lines :: "u8 list \<Rightarrow> u8 list list" where
  "map_lines p =
     (if p = [] then []
      else case take_line 1023 p of (line, rest) \<Rightarrow> chop_line line # map_lines rest)"
  by pat_completeness auto
termination
  by (relation "measure length") (auto dest: take_line_shorter)

declare map_lines.simps [simp del]

section \<open>The messages\<close>

definition nt_backtrace :: "u8 list list" where
  "nt_backtrace = [map of_char ''backtrace is not available for this platform'']"

text \<open>\<open>maps\<close>: the contents of the memory map, if it can be opened.\<close>

definition nt_log_fatal_info :: "u32 \<Rightarrow> u8 list option \<Rightarrow> u8 list list" where
  "nt_log_fatal_info flags maps =
     map of_char ''====== Fatal information: ======'' #
     (if 0 \<noteq> flags AND NT_FATAL_LOG_BACKTRACE then nt_backtrace else []) @
     (if 0 \<noteq> flags AND NT_FATAL_LOG_MEM_MAP then
        map of_char ''=== Memory map: ==='' #
        (case maps of
           None \<Rightarrow> [map of_char ''memory map not available for this platform'']
         | Some content \<Rightarrow> map_lines content)
      else []) @
     [map of_char ''================================'']"

section \<open>The memory map\<close>

lemma take_line_exact:
  "10 \<notin> set l \<Longrightarrow> length l < n \<Longrightarrow> take_line n (l @ 10 # p) = (l @ [10], p)"
proof (induction l arbitrary: n)
  case Nil
  then show ?case by (cases n) auto
next
  case (Cons c l)
  then show ?case by (cases n) auto
qed

lemma take_line_long:
  "10 \<notin> set l \<Longrightarrow> take_line (length l) (l @ p) = (l, p)"
  by (induction l) auto

lemma chop_line_plain: "0 \<notin> set l \<Longrightarrow> chop_line (l @ [10]) = l"
proof -
  assume "0 \<notin> set l"
  then have w: "takeWhile (\<lambda>b. b \<noteq> 0) (l @ [10]) = l @ [10]" by (intro takeWhile_eq_all_conv [THEN iffD2]) auto
  show ?thesis unfolding chop_line_def w Let_def by simp
qed

lemma chop_line_butlast: "0 \<notin> set l \<Longrightarrow> chop_line l = butlast l"
proof -
  assume "0 \<notin> set l"
  then have w: "takeWhile (\<lambda>b. b \<noteq> 0) l = l" by (intro takeWhile_eq_all_conv [THEN iffD2]) auto
  show ?thesis unfolding chop_line_def w Let_def by simp
qed

lemma map_lines_short:
  assumes "\<forall>l\<in>set ls. 0 \<notin> set l \<and> 10 \<notin> set l \<and> length l \<le> 1022"
  shows "map_lines (concat (map (\<lambda>l. l @ [10]) ls) @ p) = ls @ map_lines p"
  using assms
proof (induction ls)
  case (Cons l ls)
  then have l: "0 \<notin> set l" "10 \<notin> set l" "length l < 1023" by auto
  have "map_lines (l @ 10 # q) = l # map_lines q" for q
    by (subst map_lines.simps) (simp add: take_line_exact [OF l(2,3)] chop_line_plain [OF l(1)])
  then show ?case using Cons by simp
qed simp

text \<open>
  With the memory map asked for, its lines of at most 1022 bytes are logged exactly, in order, between the two
  headings and the end. A longer line is cut into pieces, each of which loses its last byte, and so does a
  last line that has no newline.
\<close>

theorem fatal_memory_map:
  assumes "\<forall>l\<in>set ls. 0 \<notin> set l \<and> 10 \<notin> set l \<and> length l \<le> 1022" "0 \<noteq> flags AND NT_FATAL_LOG_MEM_MAP"
    "0 \<notin> set a" "10 \<notin> set a" "length a = 1022" "b \<noteq> 0" "b \<noteq> 10" "0 \<notin> set z" "10 \<notin> set z" "length z < 1022" "z \<noteq> []"
  shows "\<exists>start stop. nt_log_fatal_info flags (Some (concat (map (\<lambda>l. l @ [10]) ls))) = start @ ls @ [stop]
      \<and> nt_log_fatal_info flags (Some (concat (map (\<lambda>l. l @ [10]) ls) @ a @ b # z @ [10])) = start @ ls @ [a, z] @ [stop]
      \<and> nt_log_fatal_info flags (Some (concat (map (\<lambda>l. l @ [10]) ls) @ z)) = start @ ls @ [butlast z] @ [stop]"
proof -
  have e: "map_lines [] = []" by (simp add: map_lines.simps)
  have z: "map_lines (z @ [10]) = [z]"
    using map_lines_short [of "[z]" "[]"] assms(8-10) by (simp add: e)
  have "take_line (length (a @ [b])) ((a @ [b]) @ z @ [10]) = (a @ [b], z @ [10])"
    using assms(4,7) by (intro take_line_long) simp
  then have "take_line 1023 (a @ b # z @ [10]) = (a @ [b], z @ [10])" using assms(5) by simp
  then have long: "map_lines (a @ b # z @ [10]) = [a, z]"
    using assms(3,6) by (subst map_lines.simps) (simp add: z chop_line_butlast)
  have "take_line n z = (z, [])" if "length z \<le> n" for n
    using that assms(9)
  proof (induction z arbitrary: n)
    case Nil
    then show ?case by (cases n) auto
  next
    case (Cons c z)
    then show ?case by (cases n) auto
  qed
  then have last: "map_lines z = [butlast z]"
    using assms(8,10,11) by (subst map_lines.simps) (simp add: e chop_line_butlast)
  define start :: "u8 list list" where "start = map of_char ''====== Fatal information: ======'' #
     (if 0 \<noteq> flags AND NT_FATAL_LOG_BACKTRACE then nt_backtrace else []) @ [map of_char ''=== Memory map: ==='']"
  have i: "nt_log_fatal_info flags (Some p) = start @ map_lines p @ [map of_char ''================================'']" for p
    using assms(2) by (simp add: nt_log_fatal_info_def start_def)
  show ?thesis
    by (intro exI [of _ start] exI [of _ "map of_char ''================================''"])
      (simp add: i map_lines_short [OF assms(1)] map_lines_short [OF assms(1), of "[]", simplified] long last e)
qed

theorem fatal_memory_map_witness:
  "\<exists>start stop. nt_log_fatal_info NT_FATAL_LOG_FULL_INFO (Some [97, 98, 10, 99, 10]) = start @ [[97, 98], [99]] @ [stop]"
proof -
  have "0 \<noteq> NT_FATAL_LOG_FULL_INFO AND NT_FATAL_LOG_MEM_MAP"
    by (simp add: NT_FATAL_LOG_FULL_INFO_def NT_FATAL_LOG_PC_REG_SF_def NT_FATAL_LOG_BACKTRACE_def NT_FATAL_LOG_MEM_MAP_def)
  moreover have "\<forall>l\<in>set [[97, 98], [99]]. (0::u8) \<notin> set l \<and> 10 \<notin> set l \<and> length l \<le> 1022" by simp
  moreover have "(0::u8) \<notin> set (replicate 1022 97)" "(10::u8) \<notin> set (replicate 1022 97)" by simp_all
  ultimately show ?thesis
    using fatal_memory_map [of "[[97, 98], [99]]" NT_FATAL_LOG_FULL_INFO "replicate 1022 97" 98 "[99]"] by auto
qed

end
