(* ===== verification/Set_Memory.thy ===== *)
theory Set_Memory
  imports Mem_Session Hashset_Spec
begin

text \<open>
  The hash set of hashset.c together with the memory functions it calls: where its slots and its
  entries lie, and that it gives every block back. The memory functions are parameters, as in the
  code; the locale \<open>block_memory\<close> says what they promise, and a segment of nt_mem.c keeps it.
\<close>

section \<open>Memory functions\<close>

record 'm mem_funcs =
  mf_malloc :: "'m \<Rightarrow> nat \<Rightarrow> u64 \<Rightarrow> (mem_error + 'm \<times> nat) option"
  mf_realloc :: "'m \<Rightarrow> nat \<Rightarrow> u64 \<Rightarrow> (mem_error + 'm \<times> nat) option"
  mf_free :: "'m \<Rightarrow> nat \<Rightarrow> (mem_error + 'm) option"

text \<open>
  The functions \<open>NT_MEM_FUNC_IMPL\<close> defines for a segment. A reallocation that moves a block copies it
  through a buffer from malloc; \<open>tmp k\<close> says whether malloc has that buffer at the \<open>k\<close>-th reallocation of a
  block, and the state counts them.
\<close>

type_synonym segment_state = "nt_mem_info \<times> nat"

definition segment_malloc_func :: "segment_state \<Rightarrow> nat \<Rightarrow> u64 \<Rightarrow> (mem_error + segment_state \<times> nat) option" where
  "segment_malloc_func = (\<lambda>(info, k) old sz. map_option (map_sum id (apfst (\<lambda>i. (i, k)))) (nt_mem_malloc info old sz))"

definition segment_realloc_func ::
  "(nat \<Rightarrow> bool) \<Rightarrow> segment_state \<Rightarrow> nat \<Rightarrow> u64 \<Rightarrow> (mem_error + segment_state \<times> nat) option" where
  "segment_realloc_func tmp = (\<lambda>(info, k) old sz.
     map_option (map_sum id (apfst (\<lambda>i. (i, if old = 0 then k else Suc k)))) (nt_mem_realloc (tmp k) info old sz))"

definition segment_free_func :: "segment_state \<Rightarrow> nat \<Rightarrow> (mem_error + segment_state) option" where
  "segment_free_func = (\<lambda>(info, k) ptr. Some (map_sum id (\<lambda>i. (i, k)) (nt_mem_free info ptr)))"

definition segment_funcs :: "(nat \<Rightarrow> bool) \<Rightarrow> segment_state mem_funcs" where
  "segment_funcs tmp =
     \<lparr>mf_malloc = segment_malloc_func, mf_realloc = segment_realloc_func tmp, mf_free = segment_free_func\<rparr>"

section \<open>The operations with their memory calls\<close>

text \<open>
  A set in memory: the state of the memory, the address of the slot array (0 for \<open>NULL\<close>), and
  the set. \<open>Slots_Overflow\<close>: \<open>next_prime\<close> of the number of slots runs into a signed overflow, or what the
  load factor multiplies it to does not fit an \<open>int\<close>.
\<close>

datatype set_error = Set_Memory mem_error | Set_Hashset hs_error | Slots_Overflow

type_synonym 'm set_state = "'m \<times> nat \<times> nt_hashset"

definition mem_call_with ::
  "('x \<Rightarrow> 'e) \<Rightarrow> ('x + 'a) option \<Rightarrow> ('a \<Rightarrow> ('e + 'b) option) \<Rightarrow> ('e + 'b) option" where
  "mem_call_with err r f = (case r of None \<Rightarrow> None | Some (Inl e) \<Rightarrow> Some (Inl (err e)) | Some (Inr x) \<Rightarrow> f x)"

lemma mem_call_with_simps [simp]:
  "mem_call_with err None f = None" "mem_call_with err (Some (Inl e)) f = Some (Inl (err e))"
  "mem_call_with err (Some (Inr x)) f = f x"
  by (simp_all add: mem_call_with_def)

abbreviation mem_call :: "(mem_error + 'a) option \<Rightarrow> ('a \<Rightarrow> (set_error + 'b) option) \<Rightarrow> (set_error + 'b) option" where
  "mem_call \<equiv> mem_call_with Set_Memory"

definition set_create ::
  "'m mem_funcs \<Rightarrow> 'm \<Rightarrow> nat \<Rightarrow> (u8 list \<Rightarrow> u32) \<Rightarrow> (u8 list \<Rightarrow> u8 list \<Rightarrow> int) \<Rightarrow> (set_error + 'm set_state) option" where
  "set_create mf m n hash cmp =
     (if 0 < n then
        (case next_prime_chk (int n) of
           None \<Rightarrow> Some (Inl Slots_Overflow)
         | Some k \<Rightarrow> mem_call (mf_malloc mf m 0 (of_int k * 8))
             (\<lambda>(m, p). Some (Inr (m, p, nt_hashset_create (p \<noteq> 0) n hash cmp))))
      else Some (Inr (m, 0, nt_hashset_create False n hash cmp)))"

text \<open>The number of slots a set grows to, and when it grows.\<close>

definition grown_slots :: "nt_hashset \<Rightarrow> int" where
  "grown_slots hs = next_prime (int (hs_num_slots hs * 3 div 2))"

definition needs_growth :: "nt_hashset \<Rightarrow> bool" where
  "needs_growth hs = (hs_num_slots hs * 4 div 5 \<le> hs_num_data hs + 1)"

text \<open>
  An insertion allocates the first slots, then, for a key that is not there, more slots if it has to, and
  a block for the entry, whose data are at offset 12.
\<close>

definition set_insert_entry ::
  "'m mem_funcs \<Rightarrow> 'm set_state \<Rightarrow> u8 list \<Rightarrow> (set_error + 'm set_state \<times> nat option) option" where
  "set_insert_entry mf = (\<lambda>(m, p, hs) d.
     mem_call (mf_malloc mf m 0 (12 + of_nat (length d))) (\<lambda>(m, a).
       case nt_hashset_insert True True (if a = 0 then None else Some (a, [])) hs d (length d) of
         Inl e \<Rightarrow> Some (Inl (Set_Hashset e))
       | Inr (hs, r) \<Rightarrow> Some (Inr ((m, p, hs), r))))"

definition set_insert ::
  "'m mem_funcs \<Rightarrow> 'm set_state \<Rightarrow> u8 list \<Rightarrow> (set_error + 'm set_state \<times> nat option) option" where
  "set_insert mf = (\<lambda>(m, p, hs) d.
     mem_call (if hs_num_slots hs = 0 then mf_malloc mf m 0 (of_int (next_prime 10) * 8) else Some (Inr (m, p)))
       (\<lambda>(m, p).
       let first = (hs_num_slots hs = 0);
           hs = (if first then fst (nt_hashset_init_slots (p \<noteq> 0) hs 10) else hs)
       in if first \<and> p = 0 then Some (Inr ((m, p, hs), None))
          else case nt_hashset_search hs d of
            Inl e \<Rightarrow> Some (Inl (Set_Hashset e))
          | Inr (Some e) \<Rightarrow> Some (Inr ((m, p, hs), Some (hse_addr e)))
          | Inr None \<Rightarrow>
              if INT_MAX < int (hs_num_slots hs) * 4 then Some (Inl Slots_Overflow)
              else if \<not> needs_growth hs then set_insert_entry mf (m, p, hs) d
              else case next_prime_chk (int (hs_num_slots hs * 3 div 2)) of
                None \<Rightarrow> Some (Inl Slots_Overflow)
              | Some k \<Rightarrow> mem_call (mf_realloc mf m p (of_int k * 8)) (\<lambda>(m, q).
                  if q = 0 then Some (Inr ((m, p, hs), None)) else set_insert_entry mf (m, q, hs) d)))"

text \<open>The calls of \<open>mem_free_func\<close> an operation makes, in order.\<close>

fun free_blocks_with :: "(mem_error \<Rightarrow> 'e) \<Rightarrow> 'm mem_funcs \<Rightarrow> 'm \<Rightarrow> nat list \<Rightarrow> ('e + 'm) option" where
  "free_blocks_with err mf m [] = Some (Inr m)"
| "free_blocks_with err mf m (a # as) = mem_call_with err (mf_free mf m a) (\<lambda>m. free_blocks_with err mf m as)"

abbreviation free_blocks :: "'m mem_funcs \<Rightarrow> 'm \<Rightarrow> nat list \<Rightarrow> (set_error + 'm) option" where
  "free_blocks \<equiv> free_blocks_with Set_Memory"

definition newly_freed :: "nt_hashset \<Rightarrow> nt_hashset \<Rightarrow> nat list" where
  "newly_freed hs hs' = drop (length (hs_freed hs)) (hs_freed hs')"

definition set_remove :: "'m mem_funcs \<Rightarrow> 'm set_state \<Rightarrow> u8 list \<Rightarrow> (set_error + 'm set_state) option" where
  "set_remove mf = (\<lambda>(m, p, hs) d.
     case nt_hashset_remove hs d of
       Inl e \<Rightarrow> Some (Inl (Set_Hashset e))
     | Inr hs' \<Rightarrow> map_option (map_sum id (\<lambda>m. (m, p, hs'))) (free_blocks mf m (newly_freed hs hs')))"

definition set_clear :: "'m mem_funcs \<Rightarrow> 'm set_state \<Rightarrow> (set_error + 'm set_state) option" where
  "set_clear mf = (\<lambda>(m, p, hs).
     case nt_hashset_clear hs of
       Inl e \<Rightarrow> Some (Inl (Set_Hashset e))
     | Inr hs' \<Rightarrow> map_option (map_sum id (\<lambda>m. (m, p, hs'))) (free_blocks mf m (newly_freed hs hs')))"

definition set_destroy :: "'m mem_funcs \<Rightarrow> 'm set_state \<Rightarrow> (set_error + 'm set_state) option" where
  "set_destroy mf = (\<lambda>(m, p, hs).
     case nt_hashset_destroy hs of
       Inl e \<Rightarrow> Some (Inl (Set_Hashset e))
     | Inr hs' \<Rightarrow> map_option (map_sum id (\<lambda>m. (m, 0, hs')))
                   (free_blocks mf m (newly_freed hs hs' @ (if p \<noteq> 0 then [p] else []))))"

datatype set_op = Set_Insert "u8 list" | Set_Remove "u8 list" | Set_Clear

fun set_exec :: "'m mem_funcs \<Rightarrow> 'm set_state \<Rightarrow> set_op \<Rightarrow> (set_error + 'm set_state) option" where
  "set_exec mf st (Set_Insert d) = map_option (map_sum id fst) (set_insert mf st d)"
| "set_exec mf st (Set_Remove d) = set_remove mf st d"
| "set_exec mf st Set_Clear = set_clear mf st"

fun set_run :: "'m mem_funcs \<Rightarrow> 'm set_state \<Rightarrow> set_op list \<Rightarrow> (set_error + 'm set_state) option" where
  "set_run mf st [] = Some (Inr st)"
| "set_run mf st (c # cs) =
     (case set_exec mf st c of Some (Inr st') \<Rightarrow> set_run mf st' cs | r \<Rightarrow> r)"

text \<open>The same operation on a map; the sizes an allocation can have.\<close>

fun map_op :: "set_op \<Rightarrow> hs_op" where
  "map_op (Set_Insert d) = Hs_Insert 0 [] d"
| "map_op (Set_Remove d) = Hs_Remove d"
| "map_op Set_Clear = Hs_Clear"

fun small_op :: "set_op \<Rightarrow> bool" where
  "small_op (Set_Insert d) = (12 + length d \<le> 2 ^ 36)"
| "small_op _ = True"

section \<open>Blocks\<close>

text \<open>
  \<open>covers A N\<close>: the blocks in \<open>A\<close> are those at the addresses of \<open>N\<close>, each at least as big as the
  size that \<open>N\<close> asks for.
\<close>

definition covers :: "(nat \<times> nat) set \<Rightarrow> (nat \<times> nat) list \<Rightarrow> bool" where
  "covers A N \<longleftrightarrow> distinct (map fst N) \<and> fst ` A = fst ` set N \<and> (\<forall>q n s. (q, n) \<in> set N \<longrightarrow> (q, s) \<in> A \<longrightarrow> n \<le> s)"

lemma covers_perm:
  assumes "covers A N" "mset N' = mset N"
  shows "covers A N'"
proof -
  have "mset (map fst N') = mset (map fst N)" by (simp add: assms(2))
  then have "distinct (map fst N') = distinct (map fst N)" by (rule mset_eq_imp_distinct_iff)
  moreover have "set N' = set N" by (rule mset_eq_setD [OF assms(2)])
  ultimately show ?thesis using assms(1) by (simp add: covers_def)
qed

lemma covers_nil: "covers A [] \<longleftrightarrow> A = {}"
  by (auto simp: covers_def)

lemma covers_add:
  assumes "covers A N" "p \<notin> fst ` A" "n \<le> s"
  shows "covers (insert (p, s) A) ((p, n) # N)"
proof -
  have no: "p \<notin> fst ` set N" using assms by (simp add: covers_def)
  have nA: "(p, t) \<notin> A" for t using assms(2) by force
  have "k \<le> t" if "(q, k) \<in> set ((p, n) # N)" "(q, t) \<in> insert (p, s) A" for q k t
    using that assms no nA by (auto simp: covers_def image_iff)
  then show ?thesis using assms no by (simp add: covers_def)
qed

lemma covers_drop:
  assumes c: "covers A ((p, n) # N)" and s: "(p, s) \<in> A" and one: "\<And>t. (p, t) \<in> A \<Longrightarrow> t = s"
  shows "covers (A - {(p, s)}) N"
proof -
  have "q \<in> fst ` (A - {(p, s)}) \<longleftrightarrow> q \<in> fst ` A - {p}" for q
  proof
    assume "q \<in> fst ` (A - {(p, s)})"
    then obtain b where "b \<in> A" "b \<noteq> (p, s)" "q = fst b" by blast
    then have t: "(q, snd b) \<in> A" "(q, snd b) \<noteq> (p, s)" by simp_all
    then have "q \<noteq> p" using one by blast
    then show "q \<in> fst ` A - {p}" using t(1) by force
  next
    assume "q \<in> fst ` A - {p}"
    then obtain t where "(q, t) \<in> A" "q \<noteq> p" by auto
    then show "q \<in> fst ` (A - {(p, s)})" by force
  qed
  then have "fst ` (A - {(p, s)}) = fst ` A - {p}" by blast
  moreover have "fst ` A = insert p (fst ` set N)" "p \<notin> fst ` set N" using c by (auto simp: covers_def)
  ultimately have "fst ` (A - {(p, s)}) = fst ` set N" by auto
  then show ?thesis using c by (simp add: covers_def)
qed

lemma covers_block:
  assumes "covers A N" "(p, n) \<in> set N"
  obtains s where "(p, s) \<in> A" "n \<le> s"
proof -
  have "p \<in> fst ` A" using assms by (force simp: covers_def)
  then obtain s where "(p, s) \<in> A" by auto
  then show thesis using assms that by (auto simp: covers_def)
qed

text \<open>The size of an array of \<open>n\<close> elements of 16 bytes.\<close>

lemma array_size:
  assumes "0 < n" "int n \<le> INT_MAX"
  shows "unat (of_nat n * 16 :: u64) = 16 * n \<and> (of_nat n * 16 :: u64) \<noteq> 0 \<and> (of_nat n * 16 :: u64) \<le> MEM_MAX_SIZE"
proof -
  have e: "of_nat n * 16 = (of_nat (16 * n) :: u64)" by simp
  have "16 * n < 2 ^ LENGTH(64)" using assms(2) by (simp add: INT_MAX_def)
  then have u: "unat (of_nat n * 16 :: u64) = 16 * n" unfolding e by (rule unat_of_nat_small)
  then have "(of_nat n * 16 :: u64) \<noteq> 0" using assms(1) by (metis mult_is_0 neq0_conv unat_0 zero_neq_numeral)
  then show ?thesis using u assms(2) by (simp add: word_le_nat_alt MEM_MAX_SIZE_def INT_MAX_def)
qed

text \<open>
  How a memory refuses: it is exhausted, or, if it can be so, malloc had no temporary buffer for the
  reallocation.
\<close>

definition refusals :: "(mem_error \<Rightarrow> 'e) \<Rightarrow> bool \<Rightarrow> ('e + 'a) option set" where
  "refusals err tmp_fails =
     insert (Some (Inl (err Out_Of_Memory))) (if tmp_fails then {Some (Inl (err Tmp_Malloc_Failed))} else {})"

lemma refusals_oom [simp]: "Some (Inl (err Out_Of_Memory)) \<in> refusals err f"
  by (simp add: refusals_def)

lemma refusals_error [dest]: "r \<in> refusals err f \<Longrightarrow> \<exists>e. r = Some (Inl e)"
  by (auto simp: refusals_def split: if_splits)

lemma refusals_call [intro]: "r \<in> refusals id f \<Longrightarrow> mem_call_with err r g \<in> refusals err f"
  by (auto simp: refusals_def split: if_splits)

lemma refusals_call_id [intro]: "r \<in> refusals err f \<Longrightarrow> mem_call_with id r g \<in> refusals err f"
  by (auto simp: refusals_def split: if_splits)

lemma refusals_map [intro]: "r \<in> refusals err f \<Longrightarrow> map_option (map_sum id g) r \<in> refusals err f"
  by (auto simp: refusals_def split: if_splits)

lemma refusals_stop [intro]:
  "r \<in> refusals err f \<Longrightarrow> (case r of None \<Rightarrow> None | Some (Inl e) \<Rightarrow> Some (Inl e) | Some (Inr y) \<Rightarrow> g y) \<in> refusals err f"
  by (auto simp: refusals_def split: if_splits)

locale block_memory =
  fixes mf :: "'m mem_funcs" and held :: "'m \<Rightarrow> (nat \<times> nat) set \<Rightarrow> bool" and tmp_fails :: bool
  assumes held_proper: "held m A \<Longrightarrow> (p, s) \<in> A \<Longrightarrow> p \<noteq> 0 \<and> (\<forall>t. (p, t) \<in> A \<longrightarrow> t = s)"
    and malloc_law: "held m A \<Longrightarrow> sz \<noteq> 0 \<Longrightarrow> sz \<le> MEM_MAX_SIZE \<Longrightarrow>
      mf_malloc mf m 0 sz = Some (Inl Out_Of_Memory) \<or>
      (\<exists>m' p s. mf_malloc mf m 0 sz = Some (Inr (m', p)) \<and> p \<notin> fst ` A \<and> unat sz \<le> s \<and> held m' (insert (p, s) A))"
    and realloc_law: "held m A \<Longrightarrow> (p, s) \<in> A \<Longrightarrow> sz \<noteq> 0 \<Longrightarrow> sz \<le> MEM_MAX_SIZE \<Longrightarrow>
      mf_realloc mf m p sz \<in> refusals id tmp_fails \<or>
      (\<exists>m' q t. mf_realloc mf m p sz = Some (Inr (m', q)) \<and> q \<notin> fst ` (A - {(p, s)}) \<and> unat sz \<le> t \<and>
         held m' (insert (q, t) (A - {(p, s)})))"
    and realloc_null: "mf_realloc mf m 0 sz = mf_malloc mf m 0 sz"
    and free_law: "held m A \<Longrightarrow> (p, s) \<in> A \<Longrightarrow> \<exists>m'. mf_free mf m p = Some (Inr m') \<and> held m' (A - {(p, s)})"
begin

text \<open>The memory holds the blocks of \<open>N\<close> and no others.\<close>

definition owns :: "'m \<Rightarrow> (nat \<times> nat) list \<Rightarrow> bool" where
  "owns m N \<longleftrightarrow> (\<exists>A. held m A \<and> covers A N)"

lemma owns_perm: "owns m N \<Longrightarrow> mset N' = mset N \<Longrightarrow> owns m N'"
  using covers_perm unfolding owns_def by blast

lemma owns_nonzero: "owns m ((p, n) # N) \<Longrightarrow> p \<noteq> 0"
  unfolding owns_def by (metis covers_block held_proper list.set_intros(1))

lemma owns_malloc:
  assumes "owns m N" "sz \<noteq> 0" "sz \<le> MEM_MAX_SIZE"
  shows "mf_malloc mf m 0 sz = Some (Inl Out_Of_Memory) \<or>
    (\<exists>m' p. mf_malloc mf m 0 sz = Some (Inr (m', p)) \<and> p \<noteq> 0 \<and> owns m' ((p, unat sz) # N))"
proof -
  obtain A where A: "held m A" "covers A N" using assms(1) by (auto simp: owns_def)
  show ?thesis
  proof (rule disjE [OF malloc_law [OF A(1) assms(2,3)]])
    assume "\<exists>m' p s. mf_malloc mf m 0 sz = Some (Inr (m', p)) \<and> p \<notin> fst ` A \<and> unat sz \<le> s \<and> held m' (insert (p, s) A)"
    then obtain m' p s where r: "mf_malloc mf m 0 sz = Some (Inr (m', p))" "p \<notin> fst ` A" "unat sz \<le> s"
        "held m' (insert (p, s) A)" by blast
    then have "owns m' ((p, unat sz) # N)" using covers_add [OF A(2)] by (auto simp: owns_def)
    then show ?thesis using r(1) owns_nonzero by blast
  qed simp
qed

lemma owns_realloc:
  assumes o: "owns m ((p, n) # N)" and sz: "sz \<noteq> 0" "sz \<le> MEM_MAX_SIZE"
  shows "mf_realloc mf m p sz \<in> refusals id tmp_fails \<or>
    (\<exists>m' q. mf_realloc mf m p sz = Some (Inr (m', q)) \<and> q \<noteq> 0 \<and> owns m' ((q, unat sz) # N))"
proof -
  obtain A where A: "held m A" "covers A ((p, n) # N)" using o by (auto simp: owns_def)
  obtain s where s: "(p, s) \<in> A" using covers_block [OF A(2)] by (metis list.set_intros(1))
  have d: "covers (A - {(p, s)}) N" using covers_drop [OF A(2) s] held_proper [OF A(1) s] by blast
  show ?thesis
  proof (rule disjE [OF realloc_law [OF A(1) s sz]])
    assume "\<exists>m' q t. mf_realloc mf m p sz = Some (Inr (m', q)) \<and> q \<notin> fst ` (A - {(p, s)}) \<and> unat sz \<le> t \<and>
      held m' (insert (q, t) (A - {(p, s)}))"
    then obtain m' q t where r: "mf_realloc mf m p sz = Some (Inr (m', q))" "q \<notin> fst ` (A - {(p, s)})" "unat sz \<le> t"
        "held m' (insert (q, t) (A - {(p, s)}))" by blast
    then have "owns m' ((q, unat sz) # N)" using covers_add [OF d] by (auto simp: owns_def)
    then show ?thesis using r(1) owns_nonzero by blast
  qed simp
qed

lemma owns_free: "owns m (N @ R) \<Longrightarrow> \<exists>m'. free_blocks_with err mf m (map fst N) = Some (Inr m') \<and> owns m' R"
proof (induction N arbitrary: m)
  case (Cons b N)
  obtain p n where b: "b = (p, n)" by fastforce
  obtain A where A: "held m A" "covers A ((p, n) # (N @ R))" using Cons.prems b by (auto simp: owns_def)
  obtain s where s: "(p, s) \<in> A" using covers_block [OF A(2)] by (metis list.set_intros(1))
  obtain m' where m': "mf_free mf m p = Some (Inr m')" "held m' (A - {(p, s)})" using free_law [OF A(1) s] by blast
  have "covers (A - {(p, s)}) (N @ R)" using covers_drop [OF A(2) s] held_proper [OF A(1) s] by blast
  then have "owns m' (N @ R)" using m'(2) by (auto simp: owns_def)
  from Cons.IH [OF this] m'(1) b show ?case by simp
qed simp

end

section \<open>The set in its memory\<close>

definition entry_block :: "hs_entry \<Rightarrow> nat \<times> nat" where
  "entry_block e = (hse_addr e, 12 + length (hse_data e))"

definition slots_block :: "nat \<Rightarrow> nat \<Rightarrow> (nat \<times> nat) list" where
  "slots_block p n = (if p = 0 then [] else [(p, 8 * n)])"

definition set_blocks :: "nat \<Rightarrow> nt_hashset \<Rightarrow> (nat \<times> nat) list" where
  "set_blocks p hs = slots_block p (hs_num_slots hs) @ map entry_block (hs_all hs)"

lemma entry_block_fst [simp]: "map fst (map entry_block es) = map hse_addr es"
  by (simp add: entry_block_def comp_def)

lemma set_blocks_mset: "mset (set_blocks p hs) = mset (slots_block p (hs_num_slots hs)) + image_mset entry_block (mset (hs_all hs))"
  by (simp add: set_blocks_def)

lemma prime_slots: "unat (of_int (next_prime n) * 8 :: u64) = 8 * nat (next_prime n)" if "next_prime n \<le> INT_MAX"
proof -
  have g: "1 < next_prime n" by (rule next_prime_gt_1)
  have "of_int (next_prime n) * 8 = (word_of_nat (8 * nat (next_prime n)) :: u64)" using g by simp
  moreover have "8 * nat (next_prime n) < 2 ^ LENGTH(64)" using that g by (simp add: INT_MAX_def)
  ultimately show ?thesis by (simp only: unat_of_nat_small)
qed

lemma entry_size: "unat (12 + of_nat n :: u64) = 12 + n" "12 + of_nat n \<noteq> (0 :: u64)" "12 + of_nat n \<le> MEM_MAX_SIZE"
  if "12 + n \<le> 2 ^ 36"
proof -
  have "12 + of_nat n = (word_of_nat (12 + n) :: u64)" by simp
  then show u: "unat (12 + of_nat n :: u64) = 12 + n" using unat_of_nat_small [of "12 + n", where 'a = 64] that by simp
  then show "12 + of_nat n \<noteq> (0 :: u64)" by (metis add_is_0 unat_0 zero_neq_numeral)
  show "12 + of_nat n \<le> MEM_MAX_SIZE" using u that by (simp add: word_le_nat_alt MEM_MAX_SIZE_def)
qed

lemma slots_size: "unat w = 8 * n \<Longrightarrow> 0 < n \<Longrightarrow> int n \<le> INT_MAX \<Longrightarrow> w \<noteq> 0 \<and> w \<le> MEM_MAX_SIZE" for w :: u64
  by (auto simp: word_le_nat_alt MEM_MAX_SIZE_def INT_MAX_def)

lemma insert_slots:
  assumes "nt_hashset_insert True True (Some (a, old)) hs d (length d) = Inr (hs', r)" "nt_hashset_search hs d = Inr None"
    "hs_num_slots hs \<noteq> 0"
  shows "hs_num_slots hs' = (if needs_growth hs then nat (grown_slots hs) else hs_num_slots hs)"
  using assms
  by (auto simp: nt_hashset_insert_def nt_hashset_insert_ext_def hs_insert_hashed_def nt_hashset_search_def copy_data_def
      hs_grow_def needs_growth_def grown_slots_def Let_def split: option.splits if_splits)

abbreviation set_stops :: "bool \<Rightarrow> (set_error + 'a) option set" where
  "set_stops tmp_fails \<equiv> insert (Some (Inl Slots_Overflow)) (refusals Set_Memory tmp_fails)"

locale set_memory = block_memory mf held tmp_fails + hash_key hash cmp key
  for mf :: "'m mem_funcs" and held and tmp_fails and hash cmp and key :: "u8 list \<Rightarrow> 'k"
begin

definition set_inv :: "'m set_state \<Rightarrow> bool" where
  "set_inv = (\<lambda>(m, p, hs). ok hs \<and> (p = 0 \<longleftrightarrow> hs_num_slots hs = 0) \<and> owns m (set_blocks p hs))"

lemma insert_entry_ok:
  assumes ok: "ok hs" and n: "hs_num_slots hs \<noteq> 0" and new: "nt_hashset_search hs d = Inr None"
    and len: "12 + length d \<le> 2 ^ 36" and q: "q \<noteq> 0"
    and o: "owns m ((q, 8 * (if needs_growth hs then nat (grown_slots hs) else hs_num_slots hs)) # map entry_block (hs_all hs))"
  shows "set_insert_entry mf (m, q, hs) d = Some (Inl (Set_Memory Out_Of_Memory)) \<or>
    (\<exists>m' hs' a. set_insert_entry mf (m, q, hs) d = Some (Inr ((m', q, hs'), Some a)) \<and> set_inv (m', q, hs') \<and>
      hs_alpha key hs' = (hs_alpha key hs)(key d \<mapsto> d))"
proof (rule disjE [OF owns_malloc [OF o entry_size(2,3) [OF len]]])
  let ?n = "if needs_growth hs then nat (grown_slots hs) else hs_num_slots hs"
  assume "\<exists>m' p. mf_malloc mf m 0 (12 + of_nat (length d)) = Some (Inr (m', p)) \<and> p \<noteq> 0 \<and>
    owns m' ((p, unat (12 + of_nat (length d) :: u64)) # (q, 8 * ?n) # map entry_block (hs_all hs))"
  then obtain m' a where r: "mf_malloc mf m 0 (12 + of_nat (length d)) = Some (Inr (m', a))" "a \<noteq> 0"
      "owns m' ((a, 12 + length d) # (q, 8 * ?n) # map entry_block (hs_all hs))"
    unfolding entry_size(1) [OF len] by blast
  have none: "hs_alpha key hs (key d) = None" using search_ok [OF ok, of d] new by auto
  show ?thesis
  proof (rule insert_cases [OF ok, of "length d" d 0 "Some (a, [])" d True])
    fix hs' e assume "e \<in> set (hs_all hs)" "key (hse_data e) = key d"
    then have False using none alpha_none [OF ok] by blast
    then show ?thesis ..
  next
    fix hs' b
    let ?e = "\<lparr>hse_addr = b, hse_hash = hash d, hse_data = d\<rparr>"
    assume s: "nt_hashset_insert_ext True True (Some (a, [])) hs d (length d) 0 = Inr (hs', Some b)" "ok hs'"
      "mset (hs_all hs') = add_mset ?e (mset (hs_all hs))" "\<exists>old. Some (a, []) = Some (b, old)"
    have ins: "nt_hashset_insert True True (Some (a, [])) hs d (length d) = Inr (hs', Some b)"
      using s(1) by (simp add: nt_hashset_insert_def)
    have sl: "hs_num_slots hs' = ?n" by (rule insert_slots [OF ins new n])
    then have "mset (set_blocks q hs') = mset ((a, 12 + length d) # (q, 8 * ?n) # map entry_block (hs_all hs))"
      using s(3,4) q by (simp add: set_blocks_mset slots_block_def entry_block_def)
    then have "owns m' (set_blocks q hs')" by (rule owns_perm [OF r(3)])
    moreover have "?n \<noteq> 0" using n next_prime_gt_1 [of "int (hs_num_slots hs * 3 div 2)"] by (auto simp: grown_slots_def)
    ultimately have "set_inv (m', q, hs')" using s(2) q sl by (simp add: set_inv_def)
    moreover have "set_insert_entry mf (m, q, hs) d = Some (Inr ((m', q, hs'), Some b))"
      using r(1,2) ins by (simp add: set_insert_entry_def)
    moreover have "hs_alpha key hs' = (hs_alpha key hs)(key d \<mapsto> d)" using alpha_add [OF ok s(2,3)] by simp
    ultimately show ?thesis by blast
  qed (use ok in simp_all)
qed (simp add: set_insert_entry_def)

lemma insert_slots_there:
  assumes inv: "set_inv (m, p, hs)" and n: "hs_num_slots hs \<noteq> 0" and len: "12 + length d \<le> 2 ^ 36"
  shows "set_insert mf (m, p, hs) d \<in> set_stops tmp_fails \<or>
    (\<exists>m' q hs' a. set_insert mf (m, p, hs) d = Some (Inr ((m', q, hs'), Some a)) \<and> set_inv (m', q, hs') \<and>
      hs_alpha key hs' = (if hs_alpha key hs (key d) = None then (hs_alpha key hs)(key d \<mapsto> d) else hs_alpha key hs))"
proof -
  have ok: "ok hs" and p: "p \<noteq> 0" and o: "owns m ((p, 8 * hs_num_slots hs) # map entry_block (hs_all hs))"
    using inv n by (auto simp: set_inv_def set_blocks_def slots_block_def)
  obtain r where r: "nt_hashset_search hs d = Inr r" "map_option hse_data r = hs_alpha key hs (key d)"
    using search_ok [OF ok] by blast
  note unf = set_insert_def Let_def r(1)
  show ?thesis
  proof (cases r)
    case (Some e)
    have "hs_alpha key hs (key d) = Some (hse_data e)" unfolding r(2) [symmetric] Some by simp
    then show ?thesis using inv n Some by (simp add: unf)
  next
    case None
    have new: "nt_hashset_search hs d = Inr None" using r(1) None by simp
    have free: "hs_alpha key hs (key d) = None" using r(2) None by simp
    consider (many) "INT_MAX < int (hs_num_slots hs) * 4" | (few) "\<not> INT_MAX < int (hs_num_slots hs) * 4" by blast
    then show ?thesis
    proof cases
      case many
      then show ?thesis using n None by (simp add: unf)
    next
      case few
      show ?thesis
      proof (cases "needs_growth hs")
        case False
        then have e: "set_insert mf (m, p, hs) d = set_insert_entry mf (m, p, hs) d" using n None few by (simp add: unf)
        show ?thesis using insert_entry_ok [OF ok n new len p, of m] o False free unfolding e by auto
      next
        case True
        show ?thesis
        proof (cases "next_prime_chk (int (hs_num_slots hs * 3 div 2))")
          case None
          then show ?thesis using True \<open>r = None\<close> n few by (simp add: unf)
        next
          case (Some k)
          then have k: "k = grown_slots hs" and le: "grown_slots hs \<le> INT_MAX"
            by (auto simp: grown_slots_def dest: next_prime_chk_Some)
          let ?sz = "of_int (grown_slots hs) * 8 :: u64"
          have u: "unat ?sz = 8 * nat (grown_slots hs)" using prime_slots le by (simp add: grown_slots_def)
          have g: "0 < nat (grown_slots hs)"
            using next_prime_gt_1 [of "int (hs_num_slots hs * 3 div 2)"] by (simp add: grown_slots_def)
          have sz: "?sz \<noteq> 0 \<and> ?sz \<le> MEM_MAX_SIZE" using slots_size [OF u g] le g by simp
          have e: "set_insert mf (m, p, hs) d = mem_call (mf_realloc mf m p ?sz) (\<lambda>(m, q).
              if q = 0 then Some (Inr ((m, p, hs), None)) else set_insert_entry mf (m, q, hs) d)"
            using True \<open>r = None\<close> n few Some k by (simp add: unf)
          show ?thesis
          proof (rule disjE [OF owns_realloc [OF o conjunct1 [OF sz] conjunct2 [OF sz]]])
            assume "\<exists>m' q. mf_realloc mf m p ?sz = Some (Inr (m', q)) \<and> q \<noteq> 0 \<and>
              owns m' ((q, unat ?sz) # map entry_block (hs_all hs))"
            then obtain m' q where q: "mf_realloc mf m p ?sz = Some (Inr (m', q))" "q \<noteq> 0"
                "owns m' ((q, 8 * nat (grown_slots hs)) # map entry_block (hs_all hs))" unfolding u by blast
            then have "set_insert mf (m, p, hs) d = set_insert_entry mf (m', q, hs) d" unfolding e by simp
            then show ?thesis using insert_entry_ok [OF ok n new len q(2), of m'] q(3) True free by auto
          qed (unfold e, blast)
        qed
      qed
    qed
  qed
qed

lemma set_insert_ok:
  assumes inv: "set_inv (m, p, hs)" and len: "12 + length d \<le> 2 ^ 36"
  shows "set_insert mf (m, p, hs) d \<in> set_stops tmp_fails \<or>
    (\<exists>m' q hs' a. set_insert mf (m, p, hs) d = Some (Inr ((m', q, hs'), Some a)) \<and> set_inv (m', q, hs') \<and>
      hs_alpha key hs' = (if hs_alpha key hs (key d) = None then (hs_alpha key hs)(key d \<mapsto> d) else hs_alpha key hs))"
proof (cases "hs_num_slots hs = 0")
  case False
  then show ?thesis using insert_slots_there [OF inv _ len] by blast
next
  case True
  have ok: "ok hs" and p: "p = 0" and o: "owns m (map entry_block (hs_all hs))"
    using inv True by (auto simp: set_inv_def set_blocks_def slots_block_def)
  let ?hs = "fst (nt_hashset_init_slots True hs 10)" and ?sz = "of_int (next_prime 10) * 8 :: u64"
  have prime: "next_prime 10 = 11" by code_simp
  then have n: "hs_num_slots ?hs = 11" by (simp add: nt_hashset_init_slots_def Let_def)
  have u: "unat ?sz = 88" "?sz \<noteq> 0" "?sz \<le> MEM_MAX_SIZE" by (simp_all add: prime MEM_MAX_SIZE_def)
  have F: "ok ?hs" "hs_all ?hs = hs_all hs" using first_slots [OF ok] True by simp_all
  have al: "hs_alpha key ?hs = hs_alpha key hs" unfolding hs_alpha_def F(2) ..
  show ?thesis
  proof (rule disjE [OF owns_malloc [OF o u(2,3)]])
    assume "\<exists>m' q. mf_malloc mf m 0 ?sz = Some (Inr (m', q)) \<and> q \<noteq> 0 \<and> owns m' ((q, unat ?sz) # map entry_block (hs_all hs))"
    then obtain m' q where q: "mf_malloc mf m 0 ?sz = Some (Inr (m', q))" "q \<noteq> 0"
        "owns m' ((q, 88) # map entry_block (hs_all hs))" unfolding u(1) by blast
    then have inv': "set_inv (m', q, ?hs)" using F n by (simp add: set_inv_def set_blocks_def slots_block_def)
    have e: "set_insert mf (m, p, hs) d = set_insert mf (m', q, ?hs) d"
      using True q n by (simp add: set_insert_def Let_def cong: sum.case_cong option.case_cong if_cong)
    have n0: "hs_num_slots ?hs \<noteq> 0" using n by simp
    show ?thesis using insert_slots_there [OF inv' n0 len] unfolding e al .
  qed (simp add: set_insert_def True)
qed

lemma set_remove_ok:
  assumes inv: "set_inv (m, p, hs)"
  shows "\<exists>m' hs'. set_remove mf (m, p, hs) d = Some (Inr (m', p, hs')) \<and> set_inv (m', p, hs') \<and>
    hs_alpha key hs' = (hs_alpha key hs)(key d := None)"
proof -
  have ok: "ok hs" and p: "p = 0 \<longleftrightarrow> hs_num_slots hs = 0" and o: "owns m (set_blocks p hs)"
    using inv by (auto simp: set_inv_def)
  obtain hs' where r: "nt_hashset_remove hs d = Inr hs'" "ok hs'" "hs_alpha key hs' = (hs_alpha key hs)(key d := None)"
    and c: "hs' = hs \<or> hs_num_slots hs' = hs_num_slots hs \<and>
      (\<exists>e. hs_freed hs' = hs_freed hs @ [hse_addr e] \<and> mset (hs_all hs) = add_mset e (mset (hs_all hs')))"
    using remove_full [OF ok] by blast
  from c show ?thesis
  proof (elim disjE conjE exE)
    assume "hs' = hs"
    then show ?thesis using r inv by (simp add: set_remove_def newly_freed_def)
  next
    fix e
    assume e: "hs_num_slots hs' = hs_num_slots hs" "hs_freed hs' = hs_freed hs @ [hse_addr e]"
      "mset (hs_all hs) = add_mset e (mset (hs_all hs'))"
    then have "mset ([entry_block e] @ set_blocks p hs') = mset (set_blocks p hs)" by (simp add: set_blocks_mset)
    from owns_free [OF owns_perm [OF o this]] obtain m' where
      "free_blocks mf m [hse_addr e] = Some (Inr m')" "owns m' (set_blocks p hs')" by (auto simp: entry_block_def)
    then show ?thesis using r e p by (simp add: set_remove_def newly_freed_def set_inv_def)
  qed
qed

lemma set_clear_ok:
  assumes inv: "set_inv (m, p, hs)"
  shows "\<exists>m' hs'. set_clear mf (m, p, hs) = Some (Inr (m', p, hs')) \<and> set_inv (m', p, hs') \<and> hs_alpha key hs' = Map.empty"
proof -
  have ok: "ok hs" and p: "p = 0 \<longleftrightarrow> hs_num_slots hs = 0" and o: "owns m (set_blocks p hs)"
    using inv by (auto simp: set_inv_def)
  obtain hs' where r: "nt_hashset_clear hs = Inr hs'" "ok hs'" "hs_all hs' = []" "hs_num_slots hs' = hs_num_slots hs"
      "hs_freed hs' = hs_freed hs @ map hse_addr (hs_all hs)"
    using clear_full [OF ok] by blast
  then have "mset (map entry_block (hs_all hs) @ set_blocks p hs') = mset (set_blocks p hs)" by (simp add: set_blocks_mset)
  from owns_free [OF owns_perm [OF o this]] obtain m' where
    "free_blocks mf m (map hse_addr (hs_all hs)) = Some (Inr m')" "owns m' (set_blocks p hs')" unfolding entry_block_fst by blast
  then show ?thesis using r p by (simp add: set_clear_def newly_freed_def set_inv_def hs_alpha_def)
qed

lemma set_destroy_ok:
  assumes inv: "set_inv (m, p, hs)"
  shows "\<exists>m' hs'. set_destroy mf (m, p, hs) = Some (Inr (m', 0, hs')) \<and> owns m' []"
proof -
  have ok: "ok hs" and o: "owns m (set_blocks p hs)" using inv by (auto simp: set_inv_def)
  let ?N = "map entry_block (hs_all hs) @ slots_block p (hs_num_slots hs)"
  obtain hs' where r: "nt_hashset_destroy hs = Inr hs'" "hs_freed hs' = hs_freed hs @ map hse_addr (hs_all hs)"
    using destroy_full [OF ok] by blast
  have "mset (?N @ []) = mset (set_blocks p hs)" by (simp add: set_blocks_def)
  from owns_free [OF owns_perm [OF o this]] obtain m' where m': "free_blocks mf m (map fst ?N) = Some (Inr m')" "owns m' []" by blast
  have "map fst ?N = newly_freed hs hs' @ (if p \<noteq> 0 then [p] else [])"
    by (simp only: map_append entry_block_fst) (simp add: slots_block_def newly_freed_def r(2))
  then have "free_blocks mf m (newly_freed hs hs' @ (if p \<noteq> 0 then [p] else [])) = Some (Inr m')" using m'(1) by (simp only:)
  then have "set_destroy mf (m, p, hs) = Some (Inr (m', 0, hs'))" by (simp only: set_destroy_def r(1) prod.case sum.case) simp
  then show ?thesis using m'(2) by blast
qed

lemma set_create_ok:
  assumes o: "owns m []"
  shows "set_create mf m n hash cmp = Some (Inl (Set_Memory Out_Of_Memory)) \<or>
    next_prime_chk (int n) = None \<and> set_create mf m n hash cmp = Some (Inl Slots_Overflow) \<or>
    (\<exists>m' p hs. set_create mf m n hash cmp = Some (Inr (m', p, hs)) \<and> set_inv (m', p, hs) \<and> hs_alpha key hs = Map.empty)"
proof -
  let ?hs = "nt_hashset_create True n hash cmp"
  have ok: "ok ?hs" "hs_all ?hs = []" using create_ok [of n False] by (simp_all add: nt_hashset_create_def)
  have al: "hs_alpha key ?hs = Map.empty" by (simp add: hs_alpha_def ok(2))
  have ns: "hs_num_slots ?hs = (if 0 < n then nat (next_prime (int n)) else 0)"
    by (simp add: nt_hashset_create_def nt_hashset_create_ext_def nt_hashset_init_slots_def Let_def)
  show ?thesis
  proof (cases "0 < n")
    case False
    then have "nt_hashset_create False n hash cmp = ?hs"
      by (simp add: nt_hashset_create_def nt_hashset_create_ext_def nt_hashset_init_slots_def Let_def)
    then show ?thesis using False o ok ns al by (simp add: set_create_def set_inv_def set_blocks_def slots_block_def)
  next
    case True
    show ?thesis
    proof (cases "next_prime_chk (int n)")
      case None
      then show ?thesis using True by (simp add: set_create_def)
    next
      case (Some k)
      then have k: "k = next_prime (int n)" and le: "next_prime (int n) \<le> INT_MAX" by (auto dest: next_prime_chk_Some)
      let ?sz = "of_int (next_prime (int n)) * 8 :: u64"
      have g: "0 < nat (next_prime (int n))" using next_prime_gt_1 [of "int n"] by simp
      have sz: "?sz \<noteq> 0 \<and> ?sz \<le> MEM_MAX_SIZE" using slots_size [OF prime_slots [OF le] g] le g by simp
      have e: "set_create mf m n hash cmp = mem_call (mf_malloc mf m 0 ?sz)
          (\<lambda>(m, p). Some (Inr (m, p, nt_hashset_create (p \<noteq> 0) n hash cmp)))"
        using True Some k by (simp add: set_create_def)
      show ?thesis
      proof (rule disjE [OF owns_malloc [OF o conjunct1 [OF sz] conjunct2 [OF sz]]])
        assume "\<exists>m' p. mf_malloc mf m 0 ?sz = Some (Inr (m', p)) \<and> p \<noteq> 0 \<and> owns m' [(p, unat ?sz)]"
        then obtain m' p where p: "mf_malloc mf m 0 ?sz = Some (Inr (m', p))" "p \<noteq> 0"
            "owns m' [(p, 8 * nat (next_prime (int n)))]" unfolding prime_slots [OF le] by blast
        then have "set_create mf m n hash cmp = Some (Inr (m', p, ?hs))" unfolding e by simp
        moreover have "set_inv (m', p, ?hs)" using p ok ns True g by (simp add: set_inv_def set_blocks_def slots_block_def)
        ultimately show ?thesis using al by blast
      qed (simp add: e)
    qed
  qed
qed

text \<open>Sequences of operations against the same sequence on a map from keys to blocks.\<close>

lemma set_run_ok:
  assumes "set_inv (m, p, hs)" "list_all small_op cs"
  shows "set_run mf (m, p, hs) cs \<in> set_stops tmp_fails \<or>
    (\<exists>m' q hs'. set_run mf (m, p, hs) cs = Some (Inr (m', q, hs')) \<and> set_inv (m', q, hs') \<and>
      hs_alpha key hs' = foldl (hs_map_exec key) (hs_alpha key hs) (map map_op cs))"
  using assms
proof (induction cs arbitrary: m p hs)
  case (Cons c cs)
  have step: "set_exec mf (m, p, hs) c \<in> set_stops tmp_fails \<or>
    (\<exists>m' q hs'. set_exec mf (m, p, hs) c = Some (Inr (m', q, hs')) \<and> set_inv (m', q, hs') \<and>
      hs_alpha key hs' = hs_map_exec key (hs_alpha key hs) (map_op c))"
  proof (cases c)
    case (Set_Insert d)
    then have "12 + length d \<le> 2 ^ 36" using Cons.prems(2) by simp
    from set_insert_ok [OF Cons.prems(1) this] show ?thesis unfolding Set_Insert by (auto simp del: fun_upd_apply)
  next
    case (Set_Remove d)
    then show ?thesis using set_remove_ok [OF Cons.prems(1)] by (simp del: fun_upd_apply) blast
  next
    case Set_Clear
    then show ?thesis using set_clear_ok [OF Cons.prems(1)] by simp blast
  qed
  then show ?case
  proof
    assume "\<exists>m' q hs'. set_exec mf (m, p, hs) c = Some (Inr (m', q, hs')) \<and> set_inv (m', q, hs') \<and>
      hs_alpha key hs' = hs_map_exec key (hs_alpha key hs) (map_op c)"
    then obtain m' q hs' where n: "set_exec mf (m, p, hs) c = Some (Inr (m', q, hs'))" "set_inv (m', q, hs')"
      "hs_alpha key hs' = hs_map_exec key (hs_alpha key hs) (map_op c)" by blast
    have e: "set_run mf (m, p, hs) (c # cs) = set_run mf (m', q, hs') cs" using n(1) by simp
    have sm: "list_all small_op cs" using Cons.prems(2) by simp
    show ?case using Cons.IH [OF n(2) sm] unfolding e n(3) by simp
  qed auto
qed simp

lemma set_session:
  assumes o: "owns m []" and small: "list_all small_op ops"
  shows "case set_create mf m n hash cmp of
      Some (Inr st) \<Rightarrow>
        (case set_run mf st ops of
           Some (Inr (m', p, hs)) \<Rightarrow>
             owns m' (set_blocks p hs) \<and>
             (\<forall>d. \<exists>r. nt_hashset_search hs d = Inr r \<and>
                map_option hse_data r = foldl (hs_map_exec key) Map.empty (map map_op ops) (key d)) \<and>
             (\<exists>m'' hs''. set_destroy mf (m', p, hs) = Some (Inr (m'', 0, hs'')) \<and> owns m'' [])
         | r \<Rightarrow> r \<in> set_stops tmp_fails)
    | r \<Rightarrow> r = Some (Inl (Set_Memory Out_Of_Memory)) \<or> next_prime_chk (int n) = None \<and> r = Some (Inl Slots_Overflow)"
proof -
  consider "set_create mf m n hash cmp = Some (Inl (Set_Memory Out_Of_Memory))"
    | "next_prime_chk (int n) = None \<and> set_create mf m n hash cmp = Some (Inl Slots_Overflow)"
    | i p hs where "set_create mf m n hash cmp = Some (Inr (i, p, hs))" "set_inv (i, p, hs)" "hs_alpha key hs = Map.empty"
    using set_create_ok [OF o] by blast
  then show ?thesis
  proof cases
    case create: (3 i p hs)
    consider "set_run mf (i, p, hs) ops \<in> set_stops tmp_fails"
      | m' q hs' where "set_run mf (i, p, hs) ops = Some (Inr (m', q, hs'))" "set_inv (m', q, hs')"
        "hs_alpha key hs' = foldl (hs_map_exec key) Map.empty (map map_op ops)"
      using set_run_ok [OF create(2) small] unfolding create(3) by blast
    then show ?thesis
    proof cases
      case 1
      then show ?thesis using create(1) by (auto dest: refusals_error split: option.split sum.split)
    next
      case run: (2 m' q hs')
      have inv: "ok hs'" "owns m' (set_blocks q hs')" using run(2) by (simp_all add: set_inv_def)
      have "\<forall>k. \<exists>r. nt_hashset_search hs' k = Inr r \<and>
          map_option hse_data r = foldl (hs_map_exec key) Map.empty (map map_op ops) (key k)"
        using search_ok [OF inv(1)] unfolding run(3) by blast
      then show ?thesis using create(1) run(1) inv(2) set_destroy_ok [OF run(2)] by simp
    qed
  qed simp_all
qed

end

end
