(* ===== verification/Set_Segment.thy ===== *)
theory Set_Segment
  imports Set_Memory Mem_Props Mem_Room
begin

text \<open>
  A segment of nt_mem.c keeps the contract of \<open>block_memory\<close>; so a hash set that lives in a segment
  is a finite map for as long as there is memory, and returns every block it was given.
\<close>

section \<open>A segment as the memory\<close>

definition seg_held :: "segment_state \<Rightarrow> (nat \<times> nat) set \<Rightarrow> bool" where
  "seg_held st B \<longleftrightarrow> mi_allow_oom (fst st) = 0 \<and> (\<exists>A F. mem_view (fst st) A F \<and> B = (\<lambda>ch. (fst ch + 8, snd ch)) ` A)"

lemma seg_heldI:
  "mem_view info A F \<Longrightarrow> mi_allow_oom info = 0 \<Longrightarrow> B = (\<lambda>ch. (fst ch + 8, snd ch)) ` A \<Longrightarrow> seg_held (info, k) B"
  unfolding seg_held_def by auto

lemma shift_remove:
  "(\<lambda>ch. (fst ch + 8, snd ch)) ` A - {(c + 8, s)} = (\<lambda>ch. (fst ch + 8, snd ch :: nat)) ` (A - {(c, s)})" for c :: nat
proof -
  have "inj (\<lambda>ch :: nat \<times> nat. (fst ch + 8, snd ch))" by (simp add: inj_def prod_eq_iff)
  from image_set_diff [OF this, of A "{(c, s)}"] show ?thesis by simp
qed

lemma seg_malloc_law:
  assumes h: "seg_held st B" and sz: "sz \<noteq> 0" "sz \<le> MEM_MAX_SIZE"
  shows "segment_malloc_func st 0 sz = Some (Inl Out_Of_Memory) \<or>
    (\<exists>st' p s. segment_malloc_func st 0 sz = Some (Inr (st', p)) \<and> p \<notin> fst ` B \<and> unat sz \<le> s \<and> seg_held st' (insert (p, s) B))"
proof -
  obtain info k where st: "st = (info, k)" by fastforce
  obtain A F where v: "mem_view info A F" "B = (\<lambda>ch. (fst ch + 8, snd ch)) ` A" and oom: "mi_allow_oom info = 0"
    using h by (auto simp: seg_held_def st)
  have nm: "segment_malloc_func st 0 sz = (case mem_malloc info sz of None \<Rightarrow> None
      | Some (info', chunk) \<Rightarrow> Some (map_sum id (apfst (\<lambda>i. (i, k))) (mem_result info' chunk)))"
    using sz by (auto simp: segment_malloc_func_def nt_mem_malloc_def st not_less [symmetric] split: option.split)
  show ?thesis
  proof (rule disjE [OF malloc_view [OF v(1) sz(2)]])
    assume "mem_malloc info sz = Some (info, 0) \<and> (\<forall>ch\<in>F. snd ch < unat (mem_proper_alloc_size sz))"
    then show ?thesis using oom by (simp add: nm mem_result_def)
  next
    assume "\<exists>c s info' F'. mem_malloc info sz = Some (info', c) \<and> c \<noteq> 0 \<and> (c, s) \<notin> A \<and>
      unat (mem_proper_alloc_size sz) \<le> s \<and> s < unat (mem_proper_alloc_size sz) + 40 \<and>
      mem_view info' (insert (c, s) A) F' \<and> same_data A info info' \<and> mi_lo_bound info' = mi_lo_bound info \<and>
      mi_allow_oom info' = mi_allow_oom info \<and> (\<exists>t\<ge>unat (mem_proper_alloc_size sz). (c, t) \<in> F)"
    then obtain c s info' F' where m: "mem_malloc info sz = Some (info', c)" "c \<noteq> 0" "(c, s) \<notin> A"
        "unat (mem_proper_alloc_size sz) \<le> s" "mem_view info' (insert (c, s) A) F'" "mi_allow_oom info' = 0"
      using oom by auto
    have "(c, t) \<notin> A" for t using view_unique [OF m(5), of c s t] m(3) by auto
    then have "c + 8 \<notin> fst ` B" using v(2) by force
    moreover have "unat sz \<le> s" using m(4) proper_size(3) [OF sz(2)] by linarith
    moreover have "seg_held (info', k) (insert (c + 8, s) B)" by (rule seg_heldI [OF m(5,6)]) (simp add: v(2))
    moreover have "segment_malloc_func st 0 sz = Some (Inr ((info', k), c + 8))" using m(1,2) by (simp add: nm mem_result_def)
    ultimately show ?thesis by blast
  qed
qed

lemma seg_realloc_law:
  assumes h: "seg_held st B" and p: "(p, s) \<in> B" and sz: "sz \<noteq> 0" "sz \<le> MEM_MAX_SIZE"
  shows "segment_realloc_func tmp st p sz \<in> refusals id (\<exists>k. \<not> tmp k) \<or>
    (\<exists>st' q t. segment_realloc_func tmp st p sz = Some (Inr (st', q)) \<and> q \<notin> fst ` (B - {(p, s)}) \<and> unat sz \<le> t \<and>
       seg_held st' (insert (q, t) (B - {(p, s)})))"
proof -
  obtain info k where st: "st = (info, k)" by fastforce
  obtain A F where v: "mem_view info A F" "B = (\<lambda>ch. (fst ch + 8, snd ch)) ` A" and oom: "mi_allow_oom info = 0"
    using h by (auto simp: seg_held_def st)
  obtain c where c: "p = c + 8" "(c, s) \<in> A" using p v(2) by auto
  have B: "B - {(p, s)} = (\<lambda>ch. (fst ch + 8, snd ch)) ` (A - {(c, s)})" unfolding v(2) c(1) by (rule shift_remove)
  have nm: "segment_realloc_func tmp st p sz = (case mem_realloc (tmp k) info p sz of None \<Rightarrow> None
      | Some (Inl e) \<Rightarrow> Some (Inl e)
      | Some (Inr (info', chunk)) \<Rightarrow> Some (map_sum id (apfst (\<lambda>i. (i, Suc k))) (mem_result info' chunk)))"
    using sz c(1) by (auto simp: segment_realloc_func_def nt_mem_realloc_def st not_less [symmetric] split: option.split sum.split)
  consider (ok) info' c' where "mem_realloc (tmp k) info p sz = Some (Inr (info', c'))"
      "realloc_spec info A F c s (unat (mem_proper_alloc_size sz)) info' c'"
    | (tmp) "\<not> tmp k" "mem_realloc (tmp k) info p sz = Some (Inl Tmp_Malloc_Failed)"
    using realloc_correct [OF v(1) c(2) sz(2), of "tmp k"] c(1) by auto
  then show ?thesis
  proof cases
    case tmp
    then show ?thesis by (auto simp: nm refusals_def)
  next
    case m: (ok info' c')
    show ?thesis
    proof (cases "c' = 0")
      case True
      then show ?thesis using m oom by (simp add: nm mem_result_def realloc_spec_def refusals_def)
    next
      case False
      then obtain t F' where n: "unat (mem_proper_alloc_size sz) \<le> t" "(c', t) \<notin> A - {(c, s)}"
          "mem_view info' (insert (c', t) (A - {(c, s)})) F'" "mi_allow_oom info' = 0"
        using m(2) oom by (auto simp: realloc_spec_def)
      have "(c', u) \<notin> A - {(c, s)}" for u using view_unique [OF n(3), of c' t u] n(2) by auto
      then have "c' + 8 \<notin> fst ` (B - {(p, s)})" unfolding B by force
      moreover have "unat sz \<le> t" using n(1) proper_size(3) [OF sz(2)] by linarith
      moreover have "seg_held (info', Suc k) (insert (c' + 8, t) (B - {(p, s)}))" by (rule seg_heldI [OF n(3,4)]) (simp add: B)
      moreover have "segment_realloc_func tmp st p sz = Some (Inr ((info', Suc k), c' + 8))"
        using False m(1) by (simp add: nm mem_result_def)
      ultimately show ?thesis by blast
    qed
  qed
qed

lemma seg_free_law:
  assumes h: "seg_held st B" and p: "(p, s) \<in> B"
  shows "\<exists>st'. segment_free_func st p = Some (Inr st') \<and> seg_held st' (B - {(p, s)})"
proof -
  obtain info k where st: "st = (info, k)" by fastforce
  obtain A F where v: "mem_view info A F" "B = (\<lambda>ch. (fst ch + 8, snd ch)) ` A" and oom: "mi_allow_oom info = 0"
    using h by (auto simp: seg_held_def st)
  obtain c where c: "p = c + 8" "(c, s) \<in> A" using p v(2) by auto
  obtain F' where f: "mem_view (mem_free info p) (A - {(c, s)}) F'" "mi_allow_oom (mem_free info p) = 0"
    using free_view [OF v(1) c(2)] c(1) oom by auto
  have "seg_held (mem_free info p, k) (B - {(p, s)})"
    by (rule seg_heldI [OF f]) (simp only: v(2) c(1) shift_remove)
  then show ?thesis using c(1) by (simp add: segment_free_func_def nt_mem_free_def st)
qed

lemma segment_funcs_simps:
  "mf_malloc (segment_funcs tmp) = segment_malloc_func" "mf_realloc (segment_funcs tmp) = segment_realloc_func tmp"
  "mf_free (segment_funcs tmp) = segment_free_func"
  by (simp_all add: segment_funcs_def)

lemma seg_realloc_null: "segment_realloc_func tmp st 0 sz = segment_malloc_func st 0 sz"
  by (cases st) (simp add: segment_realloc_func_def segment_malloc_func_def nt_mem_realloc_def nt_mem_malloc_def)

interpretation segment: block_memory "segment_funcs tmp" seg_held "\<exists>k. \<not> tmp k" for tmp
proof
  show "p \<noteq> 0 \<and> (\<forall>t. (p, t) \<in> B \<longrightarrow> t = s)" if "seg_held st B" "(p, s) \<in> B" for st B p s
    using that view_unique by (fastforce simp: seg_held_def)
qed (unfold segment_funcs_simps, (rule seg_realloc_null | (rule seg_malloc_law seg_realloc_law seg_free_law; assumption))+)

text \<open>The set of the synchronised items: blocks that begin with their key, in a segment.\<close>

interpretation segment_set:
  set_memory "segment_funcs tmp" seg_held "\<exists>k. \<not> tmp k" "\<lambda>d. nt_default_uint64_hash_func (u64_key d)"
    "\<lambda>d e. nt_default_uint64_compare_func (u64_key d) (u64_key e)" u64_key
  for tmp by unfold_locales

lemma segment_owns:
  "segment.owns st N \<longleftrightarrow> mi_allow_oom (fst st) = 0 \<and>
     (\<exists>A F. mem_view (fst st) A F \<and> covers ((\<lambda>ch. (fst ch + 8, snd ch)) ` A) N)"
  by (auto simp: segment.owns_def seg_held_def)

section \<open>The property\<close>

text \<open>
  C7: A hash set whose memory functions are those of a segment: created in an empty segment, it is a finite map
  from keys to the blocks inserted first after any sequence of insertions, removals and clearings. All the while
  the segment holds exactly one block for the slots and one for each entry, disjoint and as big as the code
  writes, and destroying the set gives every block back. The only ways out are an exhausted segment, a
  number of slots for which \<open>next_prime\<close> or the load factor overflows an \<open>int\<close>, and, where malloc refuses one,
  the temporary buffer of a reallocation that moves the slots: nothing is freed twice, nothing is lost, and no
  other exit is taken.
\<close>

theorem hashset_in_segment:
  assumes view: "mem_view info {} F" "mi_allow_oom info = 0"
    and key: "hash_key hash cmp key" and small: "list_all small_op ops"
  shows "case set_create (segment_funcs tmp) (info, 0) n hash cmp of
      Some (Inr st) \<Rightarrow>
        (case set_run (segment_funcs tmp) st ops of
           Some (Inr ((info', k), p, hs)) \<Rightarrow>
             (\<exists>A F'. mem_view info' A F' \<and> covers ((\<lambda>ch. (fst ch + 8, snd ch)) ` A) (set_blocks p hs)) \<and>
             (\<forall>d. \<exists>r. nt_hashset_search hs d = Inr r \<and>
                map_option hse_data r = foldl (hs_map_exec key) Map.empty (map map_op ops) (key d)) \<and>
             (\<exists>info'' k' hs'' F''. set_destroy (segment_funcs tmp) ((info', k), p, hs) = Some (Inr ((info'', k'), 0, hs'')) \<and>
                mem_view info'' {} F'')
         | r \<Rightarrow> r \<in> {Some (Inl (Set_Memory Out_Of_Memory)), Some (Inl Slots_Overflow)} \<or>
             (\<exists>k. \<not> tmp k) \<and> r = Some (Inl (Set_Memory Tmp_Malloc_Failed)))
    | r \<Rightarrow> r = Some (Inl (Set_Memory Out_Of_Memory)) \<or> next_prime_chk (int n) = None \<and> r = Some (Inl Slots_Overflow)"
proof -
  note I = set_memory.intro [OF segment.block_memory_axioms [of tmp] key]
  have o: "segment.owns (info, 0) []" using view by (auto simp: segment_owns covers_nil)
  note S = set_memory.set_session [OF I o small, where n = n]
  show ?thesis
  proof (cases "\<exists>st i k p hs. set_create (segment_funcs tmp) (info, 0) n hash cmp = Some (Inr st) \<and>
      set_run (segment_funcs tmp) st ops = Some (Inr ((i, k), p, hs))")
    case True
    then obtain st i k p hs where r: "set_create (segment_funcs tmp) (info, 0) n hash cmp = Some (Inr st)"
      "set_run (segment_funcs tmp) st ops = Some (Inr ((i, k), p, hs))" by blast
    from S show ?thesis unfolding r option.case sum.case prod.case by (simp add: segment_owns covers_nil) blast
  next
    case False
    with S show ?thesis by (auto simp: refusals_def split: option.splits sum.splits if_splits)
  qed
qed

definition demo_segment :: nt_mem_info where
  "demo_segment = the (nt_mem_create (Some (7, 4096, \<lambda>_. 0)) 65536 [] [] 0)"

definition demo_block :: "u8 list" where
  "demo_block = [1, 0, 0, 0, 0, 0, 0, 0, 65]"

abbreviation demo_hash :: "u8 list \<Rightarrow> u32" where
  "demo_hash \<equiv> \<lambda>d. nt_default_uint64_hash_func (u64_key d)"

abbreviation demo_cmp :: "u8 list \<Rightarrow> u8 list \<Rightarrow> int" where
  "demo_cmp \<equiv> \<lambda>d e. nt_default_uint64_compare_func (u64_key d) (u64_key e)"

abbreviation demo_empty :: nt_hashset where
  "demo_empty \<equiv> nt_hashset_create False 0 demo_hash demo_cmp"

lemma demo_segment_view:
  "\<exists>t. mem_view demo_segment {} {(mi_lo_bound demo_segment, t)} \<and> mi_allow_oom demo_segment = 0 \<and>
    65000 \<le> mi_hi_bound demo_segment - mi_lo_bound demo_segment"
proof -
  have c: "nt_mem_create (Some (7, 4096, \<lambda>_. 0)) 65536 [] [] 0 = Some demo_segment"
    by (simp add: demo_segment_def nt_mem_create_def MEM_MIN_SIZE_def MEM_MAX_SIZE_def demo_layout Let_def)
  have "mi_allow_oom demo_segment = 0" "mi_lo_bound demo_segment = 4432" "mi_hi_bound demo_segment = 69624"
    by (simp_all add: demo_segment_def nt_mem_create_def MEM_MIN_SIZE_def MEM_MAX_SIZE_def demo_layout Let_def)
  then show ?thesis
    using create_view [of 4096 65536 "[]" "[]" 7 "\<lambda>_. 0" 0] c by (auto simp: demo_required MEM_MAX_SIZE_def)
qed

lemma demo_set_run:
  assumes m: "mf_malloc mf m 0 88 = Some (Inr (i, q))" "q \<noteq> 0" "mf_malloc mf i 0 21 = Some (Inr (j, b))" "b \<noteq> 0"
  shows "\<exists>st. set_run mf (m, 0, demo_empty) [Set_Insert demo_block] = Some (Inr st)"
proof -
  let ?hs = "fst (nt_hashset_init_slots True demo_empty 10)"
  have e: "uint64_blocks.ok demo_empty" "hs_all demo_empty = []" "hs_num_slots demo_empty = 0"
    by (simp_all add: nt_hashset_create_def nt_hashset_create_ext_def nt_hashset_init_slots_def hs_inv_def hs_all_def Let_def)
  note f = uint64_blocks.first_slots [OF e(1), unfolded e(3) if_P [OF refl]]
  have prime: "next_prime 10 = 11" by code_simp
  then have n: "hs_num_slots ?hs = 11" "hs_num_data ?hs = 0" by (simp_all add: nt_hashset_init_slots_def Let_def)
  have "hs_alpha u64_key ?hs (u64_key demo_block) = None" using f(2) e(2) by (simp add: hs_alpha_def)
  then have srch: "nt_hashset_search ?hs demo_block = Inr None"
    using uint64_blocks.search_ok [OF f(1), of demo_block] by auto
  obtain hs' r where "nt_hashset_insert True True (Some (b, [])) ?hs demo_block (length demo_block) = Inr (hs', r)"
    using uint64_blocks.insert_all_memory [OF f(1), of b "[]" demo_block] by blast
  moreover have "length demo_block = 9" by (simp add: demo_block_def)
  ultimately have "set_insert_entry mf (i, q, ?hs) demo_block = Some (Inr ((j, q, hs'), r))"
    using m(3,4) by (simp add: set_insert_entry_def)
  then show ?thesis
    using m(1,2) srch n prime e(3) by (simp add: set_insert_def needs_growth_def INT_MAX_def Let_def)
qed

lemma demo_set_returns:
  "\<exists>st. set_run (segment_funcs tmp) ((demo_segment, 0), 0, demo_empty) [Set_Insert demo_block] = Some (Inr st)"
proof -
  obtain t where v: "mem_view demo_segment {} {(mi_lo_bound demo_segment, t)}"
    and room: "65000 \<le> mi_hi_bound demo_segment - mi_lo_bound demo_segment" using demo_segment_view by blast
  have p: "unat (mem_proper_alloc_size 88) = 88" "unat (mem_proper_alloc_size 21) = 24"
    by (simp_all add: mem_proper_alloc_size_def)
  obtain c s i F where m1: "nt_mem_malloc demo_segment 0 88 = Some (Inr (i, c + 8))" "s < 128" "mem_view i {(c, s)} F"
      "mi_hi_bound i - mi_lo_bound i = mi_hi_bound demo_segment - mi_lo_bound demo_segment"
    using malloc_room [OF v _ _ p(1) [symmetric]] room by (auto simp: MEM_MAX_SIZE_def)
  obtain b j where m2: "nt_mem_malloc i 0 21 = Some (Inr (j, b + 8))"
    using malloc_room [OF m1(3) _ _ p(2) [symmetric]] m1(2,4) room by (auto simp: MEM_MAX_SIZE_def)
  show ?thesis
    by (rule demo_set_run [where q = "c + 8" and b = "b + 8" and i = "(i, 0)" and j = "(j, 0)"])
      (simp_all add: segment_funcs_simps segment_malloc_func_def m1(1) m2)
qed

text \<open>Also where malloc never has a temporary buffer: this insertion moves nothing.\<close>

theorem hashset_in_segment_witness:
  "\<exists>info k p hs A F.
     set_run (segment_funcs (\<lambda>_. False)) ((demo_segment, 0), 0, demo_empty) [Set_Insert demo_block] = Some (Inr ((info, k), p, hs)) \<and>
     mem_view info A F \<and> covers ((\<lambda>ch. (fst ch + 8, snd ch)) ` A) (set_blocks p hs)"
proof -
  let ?f = "segment_funcs (\<lambda>_. False)"
  obtain t where v: "mem_view demo_segment {} {(mi_lo_bound demo_segment, t)}" "mi_allow_oom demo_segment = 0"
    using demo_segment_view by blast
  have sm: "list_all small_op [Set_Insert demo_block]" by (simp add: demo_block_def)
  have "set_create ?f (demo_segment, 0) 0 demo_hash demo_cmp = Some (Inr ((demo_segment, 0), 0, demo_empty))"
    by (simp add: set_create_def)
  then show ?thesis
    using hashset_in_segment [OF v uint64_blocks.hash_key_axioms sm, where tmp = "\<lambda>_. False" and n = 0] demo_set_returns [of "\<lambda>_. False"] by auto
qed

end
