(* ===== verification/Heap_Memory.thy ===== *)
theory Heap_Memory
  imports Set_Segment Binary_Heap
begin

text \<open>
  The binary heap of nt_binaryheap.c together with the memory functions it calls, for heaps without
  the direct option: as long as there is memory it is the heap of unlimited memory, and it holds one
  block, its array.
\<close>

section \<open>The operations with their memory calls\<close>

datatype heap_mem_error = Heap_Memory mem_error | Heap_Fails heap_error | Alloc_Overflow

type_synonym ('m, 'd) heap_state = "'m \<times> nat \<times> 'd nt_binary_heap"

text \<open>The value of \<open>tmp_elems_alloc\<close> that \<open>__binary_heap_ensure_free_space\<close> computes.\<close>

definition wanted_alloc :: "'d nt_binary_heap \<Rightarrow> nat" where
  "wanted_alloc h =
     (if bh_null h then 32
      else if length (bh_elems h) = bh_alloc h then max (bh_alloc h + 1) (bh_alloc h * 3 div 2)
      else bh_alloc h)"

definition heap_result :: "('m \<Rightarrow> nat \<Rightarrow> heap_error + 'd nt_binary_heap \<Rightarrow> (heap_mem_error + ('m, 'd) heap_state) option)" where
  "heap_result m p r = Some (case r of Inl e \<Rightarrow> Inl (Heap_Fails e) | Inr h \<Rightarrow> Inr (m, p, h))"

text \<open>
  An insertion reallocates the array whenever the number of elements differs from the size wanted, which
  is always. An element has 16 bytes. \<open>Alloc_Overflow\<close>: the product with the growth factor exceeds \<open>INT_MAX\<close>.
\<close>

definition heap_insert_in ::
  "'m mem_funcs \<Rightarrow> ('m, 'd) heap_state \<Rightarrow> 'd nt_binary_heap_elem \<Rightarrow> (heap_mem_error + ('m, 'd) heap_state) option" where
  "heap_insert_in mf = (\<lambda>(m, p, h) e.
     let n = (if bh_null h then 0 else length (bh_elems h)); tmp = wanted_alloc h
     in if has_direct_option h \<and> FAIL64 \<noteq> key_index_get h (he_key e) then Some (Inl (Heap_Fails Duplicate_Key))
        else if \<not> bh_null h \<and> n = bh_alloc h \<and> INT_MAX < int (bh_alloc h) * 3 then Some (Inl Alloc_Overflow)
        else if n \<noteq> tmp then
          mem_call_with Heap_Memory (mf_realloc mf m p (of_nat tmp * 16))
            (\<lambda>(m, q). heap_result m q (nt_binary_heap_insert (q \<noteq> 0) h e))
        else heap_result m p (nt_binary_heap_insert True h e))"

definition heap_remove_min_in :: "('m, 'd) heap_state \<Rightarrow> (heap_mem_error + ('m, 'd) heap_state) option" where
  "heap_remove_min_in = (\<lambda>(m, p, h). heap_result m p (nt_binary_heap_remove_min h))"

definition heap_clear_in :: "'m mem_funcs \<Rightarrow> ('m, 'd) heap_state \<Rightarrow> (heap_mem_error + ('m, 'd) heap_state) option" where
  "heap_clear_in mf = (\<lambda>(m, p, h).
     if \<not> bh_null h then mem_call_with Heap_Memory (mf_free mf m p) (\<lambda>m. Some (Inr (m, 0, nt_binary_heap_clear h)))
     else Some (Inr (m, p, nt_binary_heap_clear h)))"

definition heap_destroy_in :: "'m mem_funcs \<Rightarrow> ('m, 'd) heap_state \<Rightarrow> (heap_mem_error + ('m, 'd) heap_state) option" where
  "heap_destroy_in mf = (\<lambda>(m, p, h).
     if \<not> bh_null h then mem_call_with Heap_Memory (mf_free mf m p) (\<lambda>m. Some (Inr (m, 0, nt_binary_heap_destroy h)))
     else Some (Inr (m, p, nt_binary_heap_destroy h)))"

datatype 'd heap_op = Heap_Insert "'d nt_binary_heap_elem" | Heap_Remove_Min | Heap_Clear

fun heap_exec_in :: "'m mem_funcs \<Rightarrow> ('m, 'd) heap_state \<Rightarrow> 'd heap_op \<Rightarrow> (heap_mem_error + ('m, 'd) heap_state) option" where
  "heap_exec_in mf st (Heap_Insert e) = heap_insert_in mf st e"
| "heap_exec_in mf st Heap_Remove_Min = heap_remove_min_in st"
| "heap_exec_in mf st Heap_Clear = heap_clear_in mf st"

fun heap_run_in :: "'m mem_funcs \<Rightarrow> ('m, 'd) heap_state \<Rightarrow> 'd heap_op list \<Rightarrow> (heap_mem_error + ('m, 'd) heap_state) option" where
  "heap_run_in mf st [] = Some (Inr st)"
| "heap_run_in mf st (c # cs) = (case heap_exec_in mf st c of Some (Inr st') \<Rightarrow> heap_run_in mf st' cs | r \<Rightarrow> r)"

text \<open>The same operations with unlimited memory.\<close>

fun heap_pure :: "'d nt_binary_heap \<Rightarrow> 'd heap_op \<Rightarrow> heap_error + 'd nt_binary_heap" where
  "heap_pure h (Heap_Insert e) = nt_binary_heap_insert True h e"
| "heap_pure h Heap_Remove_Min = nt_binary_heap_remove_min h"
| "heap_pure h Heap_Clear = Inr (nt_binary_heap_clear h)"

section \<open>What the operations leave\<close>

lemma insert_alloc:
  assumes "nt_binary_heap_insert True h e = Inr h'" "\<not> has_direct_option h" "length (bh_elems h) \<noteq> wanted_alloc h"
    "bh_null h \<Longrightarrow> bh_elems h = []"
  shows "bh_alloc h' = wanted_alloc h \<and> \<not> bh_null h'"
proof -
  define h1 where "h1 = h\<lparr>bh_elems := bh_elems h, bh_null := False, bh_alloc := wanted_alloc h\<rparr>"
  have "binary_heap_ensure_free_space True h = Inr h1"
    using assms(3,4) by (cases "bh_null h") (simp_all add: binary_heap_ensure_free_space_def wanted_alloc_def h1_def Let_def)
  then have h1: "binary_heap_ensure_free_space True h = Inr h1" "bh_alloc h1 = wanted_alloc h" "\<not> bh_null h1"
      "bh_options h1 = bh_options h" by (simp_all add: h1_def)
  obtain h3 i where h3: "binary_heap_bubble_up (h1\<lparr>bh_elems := bh_elems h1 @ [e]\<rparr>) (length (bh_elems h1)) = (h3, i)" by fastforce
  have f: "bh_alloc h3 = wanted_alloc h" "\<not> bh_null h3" "bh_options h3 = bh_options h"
    using bubble_up_fields [of "h1\<lparr>bh_elems := bh_elems h1 @ [e]\<rparr>" "length (bh_elems h1)"] h1 h3 by simp_all
  have "\<not> has_direct_option h3" using assms(2) f(3) by (simp add: has_direct_option_def)
  then have "h' = h3" using assms(1,2) h1(1) h3 by (simp add: nt_binary_heap_insert_def)
  then show ?thesis using f by simp
qed

lemma remove_min_alloc:
  assumes "nt_binary_heap_remove_min h = Inr h'" "\<not> has_direct_option h"
  shows "bh_alloc h' = bh_alloc h \<and> bh_null h' = bh_null h"
proof (cases "length (bh_elems h) - 1 = 0")
  case True
  then show ?thesis using assms by (auto simp: nt_binary_heap_remove_min_def Let_def split: if_splits)
next
  case False
  let ?h = "h\<lparr>bh_elems := butlast ((bh_elems h)[0 := bh_elems h ! (length (bh_elems h) - 1)])\<rparr>"
  obtain h3 i where h3: "binary_heap_bubble_down ?h 0 = (h3, i)" by fastforce
  have f: "bh_alloc h3 = bh_alloc h" "bh_null h3 = bh_null h" "bh_options h3 = bh_options h"
    using bubble_down_fields [of ?h 0] h3 by simp_all
  have "\<not> has_direct_option h3" using assms(2) f(3) by (simp add: has_direct_option_def)
  then have "h' = h3" using assms False h3 by (auto simp: nt_binary_heap_remove_min_def Let_def split: if_splits)
  then show ?thesis using f by simp
qed

definition heap_blocks :: "nat \<Rightarrow> 'd nt_binary_heap \<Rightarrow> (nat \<times> nat) list" where
  "heap_blocks p h = (if p = 0 then [] else [(p, 16 * bh_alloc h)])"

abbreviation heap_stops :: "bool \<Rightarrow> (heap_mem_error + 'a) option set" where
  "heap_stops tmp_fails \<equiv> insert (Some (Inl Alloc_Overflow)) (refusals Heap_Memory tmp_fails)"

locale heap_memory = block_memory mf held tmp_fails + elem_compare cmp
  for mf :: "'m mem_funcs" and held and tmp_fails and cmp :: "'d nt_binary_heap_elem \<Rightarrow> 'd nt_binary_heap_elem \<Rightarrow> int"
begin

definition heap_mem_inv :: "('m, 'd) heap_state \<Rightarrow> bool" where
  "heap_mem_inv = (\<lambda>(m, p, h). heap_inv cmp h \<and> (p = 0 \<longleftrightarrow> bh_null h) \<and> int (bh_alloc h) \<le> INT_MAX \<and>
     owns m (heap_blocks p h))"

lemma owns_realloc_array:
  assumes o: "owns m (heap_blocks p h)" and n: "0 < n" "int n \<le> INT_MAX"
  shows "mf_realloc mf m p (of_nat n * 16) \<in> refusals id tmp_fails \<or>
    (\<exists>m' q. mf_realloc mf m p (of_nat n * 16) = Some (Inr (m', q)) \<and> q \<noteq> 0 \<and> owns m' [(q, 16 * n)])"
proof (cases "p = 0")
  case True
  then show ?thesis
    using owns_malloc [of m "[]" "of_nat n * 16"] o array_size [OF n] refusals_oom [of id] by (fastforce simp: heap_blocks_def realloc_null)
next
  case False
  then show ?thesis
    using owns_realloc [of m p "16 * bh_alloc h" "[]" "of_nat n * 16"] o array_size [OF n] by (simp add: heap_blocks_def)
qed

lemma heap_insert_mem:
  assumes inv: "heap_mem_inv (m, p, h)"
  shows "heap_insert_in mf (m, p, h) e \<in> heap_stops tmp_fails \<or>
    (\<exists>m' q h'. heap_insert_in mf (m, p, h) e = Some (Inr (m', q, h')) \<and> heap_mem_inv (m', q, h') \<and>
      nt_binary_heap_insert True h e = Inr h')"
proof -
  have hi: "heap_inv cmp h" and p: "p = 0 \<longleftrightarrow> bh_null h" and al: "int (bh_alloc h) \<le> INT_MAX"
    and o: "owns m (heap_blocks p h)" using inv by (auto simp: heap_mem_inv_def)
  let ?n = "if bh_null h then 0 else length (bh_elems h)" and ?t = "wanted_alloc h"
  have ne: "?n \<noteq> ?t" "length (bh_elems h) \<noteq> ?t" "0 < ?t" and nul: "bh_null h \<Longrightarrow> bh_elems h = []"
    and nd: "\<not> has_direct_option h"
    using hi by (auto simp: heap_inv_def wanted_alloc_def)
  show ?thesis
  proof (cases "\<not> bh_null h \<and> ?n = bh_alloc h \<and> INT_MAX < int (bh_alloc h) * 3")
    case True
    then have "heap_insert_in mf (m, p, h) e = Some (Inl Alloc_Overflow)"
      using nd by (auto simp: heap_insert_in_def Let_def)
    then show ?thesis by simp
  next
    case False
    then have t: "int ?t \<le> INT_MAX" using al by (auto simp: wanted_alloc_def INT_MAX_def)
    obtain h' where h': "nt_binary_heap_insert True h e = Inr h'" "heap_inv cmp h'" using insert_ok [OF hi] by blast
    have a: "bh_alloc h' = ?t" "\<not> bh_null h'" using insert_alloc [OF h'(1) nd ne(2) nul] by simp_all
    have e: "heap_insert_in mf (m, p, h) e = mem_call_with Heap_Memory (mf_realloc mf m p (of_nat ?t * 16))
        (\<lambda>(m, q). heap_result m q (nt_binary_heap_insert (q \<noteq> 0) h e))"
      using nd False ne(1) by (simp only: heap_insert_in_def prod.case Let_def simp_thms if_False if_True)
    from owns_realloc_array [OF o ne(3) t] show ?thesis
    proof (elim disjE exE conjE)
      assume "mf_realloc mf m p (of_nat ?t * 16) \<in> refusals id tmp_fails"
      then show ?thesis unfolding e by blast
    next
      fix m' q
      assume q: "mf_realloc mf m p (of_nat ?t * 16) = Some (Inr (m', q))" "q \<noteq> 0" "owns m' [(q, 16 * ?t)]"
      then have "heap_mem_inv (m', q, h')" using h'(2) a t by (simp add: heap_mem_inv_def heap_blocks_def)
      moreover have "heap_insert_in mf (m, p, h) e = Some (Inr (m', q, h'))" unfolding e using q(1,2) h'(1) by (simp add: heap_result_def)
      ultimately show ?thesis using h'(1) by blast
    qed
  qed
qed

lemma heap_remove_min_mem:
  assumes inv: "heap_mem_inv (m, p, h)"
  shows "heap_remove_min_in (m, p, h) = heap_result m p (nt_binary_heap_remove_min h) \<and>
    (case nt_binary_heap_remove_min h of Inl e \<Rightarrow> e = Empty_Heap | Inr h' \<Rightarrow> heap_mem_inv (m, p, h'))"
proof (cases "bh_elems h = []")
  case True
  then show ?thesis by (simp add: heap_remove_min_in_def nt_binary_heap_remove_min_def)
next
  case False
  have hi: "heap_inv cmp h" using inv by (simp add: heap_mem_inv_def)
  then have nd: "\<not> has_direct_option h" by (simp add: heap_inv_def)
  obtain h' where h': "nt_binary_heap_remove_min h = Inr h'" "heap_inv cmp h'" using remove_min_ok [OF hi False] by blast
  then show ?thesis
    using inv remove_min_alloc [OF h'(1) nd] by (auto simp: heap_remove_min_in_def heap_mem_inv_def heap_blocks_def)
qed

lemma heap_drop_mem:
  assumes inv: "heap_mem_inv (m, p, h)"
  shows "\<exists>m'. heap_clear_in mf (m, p, h) = Some (Inr (m', 0, nt_binary_heap_clear h)) \<and>
      heap_mem_inv (m', 0, nt_binary_heap_clear h) \<and>
      heap_destroy_in mf (m, p, h) = Some (Inr (m', 0, nt_binary_heap_destroy h)) \<and> owns m' []"
proof -
  have hi: "heap_inv cmp h" and p: "p = 0 \<longleftrightarrow> bh_null h" and o: "owns m (heap_blocks p h)"
    using inv by (auto simp: heap_mem_inv_def)
  have c: "heap_inv cmp (nt_binary_heap_clear h)" "bh_null (nt_binary_heap_clear h)" "bh_alloc (nt_binary_heap_clear h) = 0"
    using hi by (auto simp: nt_binary_heap_clear_def heap_free_elems_def heap_inv_def heap_ok_def has_direct_option_def Let_def)
  show ?thesis
  proof (cases "p = 0")
    case True
    then show ?thesis
      using o p c by (simp add: heap_clear_in_def heap_destroy_in_def heap_mem_inv_def heap_blocks_def INT_MAX_def)
  next
    case False
    then have "owns m ([(p, 16 * bh_alloc h)] @ [])" using o by (simp add: heap_blocks_def)
    from owns_free [OF this, of Heap_Memory] obtain m' where "mf_free mf m p = Some (Inr m')" "owns m' []"
      by (auto simp: mem_call_with_def split: option.splits sum.splits)
    then show ?thesis
      using False p c by (simp add: heap_clear_in_def heap_destroy_in_def heap_mem_inv_def heap_blocks_def INT_MAX_def)
  qed
qed

lemma heap_exec_mem:
  assumes inv: "heap_mem_inv (m, p, h)"
  shows "heap_exec_in mf (m, p, h) c \<in> heap_stops tmp_fails \<or>
    (\<exists>m' q h'. heap_exec_in mf (m, p, h) c = Some (Inr (m', q, h')) \<and> heap_mem_inv (m', q, h') \<and> heap_pure h c = Inr h') \<or>
    heap_exec_in mf (m, p, h) c = Some (Inl (Heap_Fails Empty_Heap)) \<and> heap_pure h c = Inl Empty_Heap"
proof (cases c)
  case (Heap_Insert e)
  then show ?thesis using heap_insert_mem [OF inv, of e] unfolding Heap_Insert heap_exec_in.simps heap_pure.simps by blast
next
  case Heap_Remove_Min
  then show ?thesis using heap_remove_min_mem [OF inv] by (cases "nt_binary_heap_remove_min h") (auto simp: heap_result_def)
next
  case Heap_Clear
  obtain m' where "heap_clear_in mf (m, p, h) = Some (Inr (m', 0, nt_binary_heap_clear h))"
    "heap_mem_inv (m', 0, nt_binary_heap_clear h)" using heap_drop_mem [OF inv] by blast
  then show ?thesis using Heap_Clear by simp
qed

lemma heap_run_mem:
  assumes "heap_mem_inv (m, p, h)"
  shows "heap_run_in mf (m, p, h) cs \<in> heap_stops tmp_fails \<or>
    (\<exists>m' q h'. heap_run_in mf (m, p, h) cs = Some (Inr (m', q, h')) \<and> heap_mem_inv (m', q, h') \<and>
      insert_all heap_pure h cs = Inr h') \<or>
    heap_run_in mf (m, p, h) cs = Some (Inl (Heap_Fails Empty_Heap)) \<and> insert_all heap_pure h cs = Inl Empty_Heap"
  using assms
proof (induction cs arbitrary: m p h)
  case (Cons c cs)
  from heap_exec_mem [OF Cons.prems, of c] show ?case
  proof (elim disjE)
    assume "\<exists>m' q h'. heap_exec_in mf (m, p, h) c = Some (Inr (m', q, h')) \<and> heap_mem_inv (m', q, h') \<and> heap_pure h c = Inr h'"
    then obtain m' q h' where n: "heap_exec_in mf (m, p, h) c = Some (Inr (m', q, h'))" "heap_mem_inv (m', q, h')"
      "heap_pure h c = Inr h'" by blast
    have "heap_run_in mf (m, p, h) (c # cs) = heap_run_in mf (m', q, h') cs"
      "insert_all heap_pure h (c # cs) = insert_all heap_pure h' cs" using n by simp_all
    then show ?case using Cons.IH [OF n(2)] by simp
  qed auto
qed simp

lemma heap_create_mem: "owns m [] \<Longrightarrow> heap_mem_inv (m, 0, nt_binary_heap_create_ext cmp NT_BINARY_HEAP_OPTION_EMPTY)"
  using create_inv by (simp add: heap_mem_inv_def heap_blocks_def INT_MAX_def)
    (simp add: nt_binary_heap_create_ext_def Let_def has_direct_option_def NT_BINARY_HEAP_OPTION_EMPTY_def)

end

section \<open>The property\<close>

interpretation segment_heap: heap_memory "segment_funcs tmp" seg_held "\<exists>k. \<not> tmp k" key_order
  for tmp by unfold_locales

text \<open>
  C8: A heap without the direct option whose memory functions are those of a segment: started in an empty segment, any
  sequence of insertions, removals of the minimum and clearings leaves exactly the heap that unlimited memory would,
  and the segment holds one block, as big as the array the code writes, or none; destroying the heap gives it back. The only
  other ends are an exhausted segment, an array too long for \<open>int\<close>, the exit on an empty heap where it is due,
  and, where malloc refuses one, the temporary buffer of a reallocation that moves the array.
\<close>

theorem heap_in_segment:
  assumes view: "mem_view info {} F" "mi_allow_oom info = 0" and cmp: "elem_compare cmp"
  shows "case heap_run_in (segment_funcs tmp) ((info, 0), 0, nt_binary_heap_create_ext cmp NT_BINARY_HEAP_OPTION_EMPTY) ops of
      Some (Inr ((info', k), p, h)) \<Rightarrow>
        insert_all heap_pure (nt_binary_heap_create_ext cmp NT_BINARY_HEAP_OPTION_EMPTY) ops = Inr h \<and>
        length (bh_elems h) \<le> bh_alloc h \<and>
        (\<exists>A F'. mem_view info' A F' \<and> covers ((\<lambda>ch. (fst ch + 8, snd ch)) ` A) (heap_blocks p h)) \<and>
        (\<exists>info'' k' F''. heap_destroy_in (segment_funcs tmp) ((info', k), p, h) =
             Some (Inr ((info'', k'), 0, nt_binary_heap_destroy h)) \<and> mem_view info'' {} F'')
    | r \<Rightarrow> r \<in> {Some (Inl (Heap_Memory Out_Of_Memory)), Some (Inl Alloc_Overflow)} \<or>
        (\<exists>k. \<not> tmp k) \<and> r = Some (Inl (Heap_Memory Tmp_Malloc_Failed)) \<or>
        r = Some (Inl (Heap_Fails Empty_Heap)) \<and>
        insert_all heap_pure (nt_binary_heap_create_ext cmp NT_BINARY_HEAP_OPTION_EMPTY) ops = Inl Empty_Heap"
proof -
  let ?h = "nt_binary_heap_create_ext cmp NT_BINARY_HEAP_OPTION_EMPTY" and ?f = "segment_funcs tmp"
  note I = heap_memory.intro [OF segment.block_memory_axioms [of tmp] cmp]
  have o: "segment.owns (info, 0) []" using view by (auto simp: segment_owns covers_nil)
  from heap_memory.heap_run_mem [OF I heap_memory.heap_create_mem [OF I o], of ops] show ?thesis
  proof (elim disjE exE conjE)
    fix st p h
    assume r': "heap_run_in ?f ((info, 0), 0, ?h) ops = Some (Inr (st, p, h))" "insert_all heap_pure ?h ops = Inr h"
      and inv': "heap_memory.heap_mem_inv seg_held cmp (st, p, h)"
    obtain i k where st: "st = (i, k)" by fastforce
    note r = r' [unfolded st] and inv = inv' [unfolded st]
    obtain j where d: "heap_destroy_in ?f ((i, k), p, h) = Some (Inr (j, 0, nt_binary_heap_destroy h))" "segment.owns j []"
      using heap_memory.heap_drop_mem [OF I inv] by blast
    have "heap_inv cmp h" "segment.owns (i, k) (heap_blocks p h)" using inv by (simp_all add: heap_memory.heap_mem_inv_def [OF I])
    then have "length (bh_elems h) \<le> bh_alloc h" "\<exists>A F'. mem_view i A F' \<and> covers ((\<lambda>ch. (fst ch + 8, snd ch)) ` A) (heap_blocks p h)"
      by (cases "bh_null h"; auto simp: heap_inv_def segment_owns)+
    moreover have "\<exists>F''. mem_view (fst j) {} F''" using d(2) by (auto simp: segment_owns covers_nil)
    ultimately show ?thesis using r d(1) by (cases j) auto
  qed (auto simp: refusals_def split: if_splits)
qed

definition demo_heap :: "unit nt_binary_heap" where
  "demo_heap = nt_binary_heap_create_ext key_order NT_BINARY_HEAP_OPTION_EMPTY"

lemma demo_heap_returns:
  "\<exists>st. heap_run_in (segment_funcs tmp) ((demo_segment, 0), 0, demo_heap) [Heap_Insert (key_elem 3)] = Some (Inr st)"
proof -
  obtain t where v: "mem_view demo_segment {} {(mi_lo_bound demo_segment, t)}"
    and room: "65000 \<le> mi_hi_bound demo_segment - mi_lo_bound demo_segment" using demo_segment_view by blast
  have p: "unat (mem_proper_alloc_size 512) = 512" by (simp add: mem_proper_alloc_size_def)
  obtain c i where m: "nt_mem_malloc demo_segment 0 512 = Some (Inr (i, c + 8))"
    using malloc_room [OF v _ _ p [symmetric]] room by (auto simp: MEM_MAX_SIZE_def)
  have "heap_inv key_order demo_heap" unfolding demo_heap_def by (rule key_order.create_inv)
  from key_order.insert_ok [OF this] obtain h where "nt_binary_heap_insert True demo_heap (key_elem 3) = Inr h"
    by blast
  moreover have "wanted_alloc demo_heap = 32" "bh_null demo_heap" "\<not> has_direct_option demo_heap"
    by (simp_all add: demo_heap_def nt_binary_heap_create_ext_def wanted_alloc_def has_direct_option_def
        NT_BINARY_HEAP_OPTION_EMPTY_def Let_def)
  ultimately show ?thesis
    using m by (simp add: heap_insert_in_def heap_result_def segment_funcs_simps seg_realloc_null segment_malloc_func_def Let_def)
qed

theorem heap_in_segment_witness:
  "\<exists>info k p h A F. heap_run_in (segment_funcs (\<lambda>_. True)) ((demo_segment, 0), 0, demo_heap) [Heap_Insert (key_elem 3)] =
       Some (Inr ((info, k), p, h)) \<and>
     mem_view info A F \<and> covers ((\<lambda>ch. (fst ch + 8, snd ch)) ` A) (heap_blocks p h)"
proof -
  obtain t where v: "mem_view demo_segment {} {(mi_lo_bound demo_segment, t)}" "mi_allow_oom demo_segment = 0"
    using demo_segment_view by blast
  obtain info k p h where "heap_run_in (segment_funcs (\<lambda>_. True)) ((demo_segment, 0), 0, demo_heap) [Heap_Insert (key_elem 3)] =
      Some (Inr ((info, k), p, h))" using demo_heap_returns [of "\<lambda>_. True"] by (metis surj_pair)
  then show ?thesis
    using heap_in_segment [OF v key_order.elem_compare_axioms, where tmp = "\<lambda>_. True" and ops = "[Heap_Insert (key_elem 3)]"]
    by (auto simp: demo_heap_def)
qed

end
