(* ===== verification/Map_Memory.thy ===== *)
theory Map_Memory
  imports Set_Segment Hashmap
begin

text \<open>
  The hash map of nt_hashmap.c together with the memory functions it calls: its slot array and the array
  of entries of every slot that has one. As long as there is memory it is the map of unlimited memory.
\<close>

section \<open>The operations with their memory calls\<close>

text \<open>
  A map in memory: the state of the memory, the address of the slot array, the addresses of the arrays
  of entries, 0 for \<open>NULL\<close>, and the map. \<open>Null_Array\<close>: memory was refused and the code, which never
  tests for it, writes through \<open>NULL\<close>. \<open>Map_Overflow\<close>: a number of slots or of entries exceeds \<open>INT_MAX\<close>, or
  \<open>next_prime\<close> runs into a signed overflow.
  Slots and entries have 16 bytes.
\<close>

datatype map_error = Map_Memory mem_error | Null_Array | Map_Overflow

type_synonym 'm map_state = "'m \<times> nat \<times> nat list \<times> nt_hashmap"

abbreviation map_call :: "(mem_error + 'a) option \<Rightarrow> ('a \<Rightarrow> (map_error + 'b) option) \<Rightarrow> (map_error + 'b) option" where
  "map_call \<equiv> mem_call_with Map_Memory"

text \<open>\<open>__hashmap_ensure_free_entry\<close> for the slot whose array is at \<open>a\<close>.\<close>

definition slot_room_in :: "'m mem_funcs \<Rightarrow> 'm \<Rightarrow> nat \<Rightarrow> hm_slot \<Rightarrow> (map_error + 'm \<times> nat) option" where
  "slot_room_in mf m a s =
     (let written = (\<lambda>(m, a). if a = 0 then Some (Inl Null_Array) else Some (Inr (m, a)))
      in case hms_entries s of
           None \<Rightarrow> map_call (mf_malloc mf m 0 (of_nat 6 * 16)) written
         | Some es \<Rightarrow>
             if length es \<noteq> hms_alloc s then Some (Inr (m, a))
             else if INT_MAX < int (hms_alloc s * 2) then Some (Inl Map_Overflow)
             else map_call (mf_realloc mf m a (of_nat (hms_alloc s * 2) * 16)) written)"

definition map_init_in :: "'m mem_funcs \<Rightarrow> 'm \<Rightarrow> nt_hashmap \<Rightarrow> nat \<Rightarrow> (map_error + 'm map_state) option" where
  "map_init_in mf m hm n =
     (if 0 < n then
        (case next_prime_chk (int n) of
           None \<Rightarrow> Some (Inl Map_Overflow)
         | Some k \<Rightarrow> map_call (mf_malloc mf m 0 (of_nat (nat k) * 16)) (\<lambda>(m, p).
             if p = 0 then Some (Inl Null_Array)
             else Some (Inr (m, p, replicate (nat k) 0, nt_hashmap_init_slots hm n))))
      else Some (Inr (m, 0, [], nt_hashmap_init_slots hm n)))"

definition map_create ::
  "'m mem_funcs \<Rightarrow> 'm \<Rightarrow> nat \<Rightarrow> (u64 \<Rightarrow> u32) \<Rightarrow> (u64 \<Rightarrow> u64 \<Rightarrow> int) \<Rightarrow> (map_error + 'm map_state) option" where
  "map_create mf m n hash cmp =
     map_init_in mf m \<lparr>hm_slots = [], hm_num_slots = 0, hm_num_data = 0,
       hm_hash_func = Some hash, hm_compare_func = Some cmp\<rparr> n"

text \<open>The rehash: an entry that belongs to another slot needs room in the array of that slot.\<close>

function rehash_slot_in ::
  "'m mem_funcs \<Rightarrow> (u64 \<Rightarrow> u32) \<Rightarrow> nat \<Rightarrow> nat \<Rightarrow> nat \<Rightarrow> hm_entry list \<Rightarrow> hm_slot list \<Rightarrow> 'm \<Rightarrow> nat list \<Rightarrow>
   (map_error + hm_entry list \<times> 'm \<times> nat list \<times> hm_slot list) option" where
  "rehash_slot_in mf h inc s i es sl m as =
     (if i < length es then
        (let n = slot_of h inc (hme_key (es ! i))
         in if n \<noteq> s
            then (case slot_room_in mf m (as ! n) (sl ! n) of
                    None \<Rightarrow> None
                  | Some (Inl e) \<Rightarrow> Some (Inl e)
                  | Some (Inr (m, a)) \<Rightarrow>
                      rehash_slot_in mf h inc s i (butlast (es[i := last es])) (sl[n := slot_push (sl ! n) (es ! i)]) m (as[n := a]))
            else rehash_slot_in mf h inc s (Suc i) es sl m as)
      else Some (Inr (es, m, as, sl)))"
  by pat_completeness auto
termination
  by (relation "measure (\<lambda>(mf, h, inc, s, i, es, sl, m, as). length es - i)") auto

declare rehash_slot_in.simps [simp del]

fun rehash_slots_in ::
  "'m mem_funcs \<Rightarrow> (u64 \<Rightarrow> u32) \<Rightarrow> nat \<Rightarrow> nat list \<Rightarrow> 'm \<times> nat list \<times> hm_slot list \<Rightarrow>
   (map_error + 'm \<times> nat list \<times> hm_slot list) option" where
  "rehash_slots_in mf h inc [] st = Some (Inr st)"
| "rehash_slots_in mf h inc (s # ss) (m, as, sl) =
     (case hms_entries (sl ! s) of
        None \<Rightarrow> rehash_slots_in mf h inc ss (m, as, sl)
      | Some es \<Rightarrow> mem_call_with id (rehash_slot_in mf h inc s 0 es sl m as) (\<lambda>(es', m, as, sl).
          rehash_slots_in mf h inc ss (m, as, sl[s := (sl ! s)\<lparr>hms_entries := Some es'\<rparr>])))"

definition map_rehash_in :: "'m mem_funcs \<Rightarrow> 'm map_state \<Rightarrow> (map_error + 'm map_state) option" where
  "map_rehash_in mf = (\<lambda>(m, p, as, hm).
     let n = hm_num_slots hm
     in case next_prime_chk (int n * 3 div 2) of
          None \<Rightarrow> Some (Inl Map_Overflow)
        | Some k \<Rightarrow>
            let inc = nat k
            in map_call (mf_realloc mf m p (of_nat inc * 16)) (\<lambda>(m, p).
              if p = 0 then Some (Inl Null_Array)
              else mem_call_with id
                (rehash_slots_in mf (hm_hash hm) inc [0..<n]
                   (m, as @ replicate (inc - n) 0, hm_slots hm @ replicate (inc - n) empty_slot))
                (\<lambda>(m, as, sl). Some (Inr (m, p, as, hm\<lparr>hm_slots := sl, hm_num_slots := inc\<rparr>)))))"

definition map_set :: "'m mem_funcs \<Rightarrow> 'm map_state \<Rightarrow> u64 \<Rightarrow> u64 \<Rightarrow> (map_error + 'm map_state) option" where
  "map_set mf = (\<lambda>(m, p, as, hm) key val.
     mem_call_with id (if hm_num_slots hm = 0 then map_init_in mf m hm 10 else Some (Inr (m, p, as, hm)))
       (\<lambda>(m, p, as, hm).
       let s = slot_of (hm_hash hm) (hm_num_slots hm) key;
           es = hms_list (hm_slots hm ! s);
           i = find_entry (hm_cmp hm) key es
       in if i < length es then
            Some (Inr (m, p, as, hm\<lparr>hm_slots := (hm_slots hm)
              [s := (hm_slots hm ! s)\<lparr>hms_entries := Some (es[i := (es ! i)\<lparr>hme_value := val\<rparr>])\<rparr>]\<rparr>))
          else mem_call_with id (slot_room_in mf m (as ! s) (hm_slots hm ! s)) (\<lambda>(m, a).
            let hm = hm\<lparr>hm_slots := (hm_slots hm)
                  [s := slot_push (hm_slots hm ! s) \<lparr>hme_key = key, hme_value = val\<rparr>],
                  hm_num_data := Suc (hm_num_data hm)\<rparr>
            in if INT_MAX < int (hm_num_slots hm * 5) then Some (Inl Map_Overflow)
               else if hm_num_slots hm * 5 div 1 \<le> hm_num_data hm then map_rehash_in mf (m, p, as[s := a], hm)
               else Some (Inr (m, p, as[s := a], hm)))))"

definition map_remove :: "'m map_state \<Rightarrow> u64 \<Rightarrow> (map_error + 'm map_state) option" where
  "map_remove = (\<lambda>(m, p, as, hm) key. Some (Inr (m, p, as, nt_hashmap_remove hm key)))"

definition map_clear :: "'m mem_funcs \<Rightarrow> 'm map_state \<Rightarrow> (map_error + 'm map_state) option" where
  "map_clear mf = (\<lambda>(m, p, as, hm).
     mem_call_with id (free_blocks_with Map_Memory mf m (filter (\<lambda>a. a \<noteq> 0) as))
       (\<lambda>m. Some (Inr (m, p, map (\<lambda>_. 0) as, nt_hashmap_clear hm))))"

definition map_destroy :: "'m mem_funcs \<Rightarrow> 'm map_state \<Rightarrow> (map_error + 'm map_state) option" where
  "map_destroy mf = (\<lambda>(m, p, as, hm).
     mem_call_with id (free_blocks_with Map_Memory mf m (filter (\<lambda>a. a \<noteq> 0) as @ (if p \<noteq> 0 then [p] else [])))
       (\<lambda>m. Some (Inr (m, 0, [], nt_hashmap_destroy hm))))"

fun map_exec_in :: "'m mem_funcs \<Rightarrow> 'm map_state \<Rightarrow> hm_op \<Rightarrow> (map_error + 'm map_state) option" where
  "map_exec_in mf st (Hm_Set k v) = map_set mf st k v"
| "map_exec_in mf st (Hm_Remove k) = map_remove st k"
| "map_exec_in mf st Hm_Clear = map_clear mf st"

fun map_run_in :: "'m mem_funcs \<Rightarrow> 'm map_state \<Rightarrow> hm_op list \<Rightarrow> (map_error + 'm map_state) option" where
  "map_run_in mf st [] = Some (Inr st)"
| "map_run_in mf st (c # cs) = mem_call_with id (map_exec_in mf st c) (\<lambda>st. map_run_in mf st cs)"

section \<open>The arrays\<close>

definition array_block :: "nat \<Rightarrow> hm_slot \<Rightarrow> (nat \<times> nat) list" where
  "array_block a s = (if a = 0 then [] else [(a, 16 * hms_alloc s)])"

definition arrays :: "nat list \<Rightarrow> hm_slot list \<Rightarrow> (nat \<times> nat) list" where
  "arrays as sl = concat (map (\<lambda>b. array_block (fst b) (snd b)) (zip as sl))"

definition slots_array :: "nat \<Rightarrow> nat \<Rightarrow> (nat \<times> nat) list" where
  "slots_array p n = (if p = 0 then [] else [(p, 16 * n)])"

definition map_blocks :: "nat \<Rightarrow> nat list \<Rightarrow> nt_hashmap \<Rightarrow> (nat \<times> nat) list" where
  "map_blocks p as hm = arrays as (hm_slots hm) @ slots_array p (hm_num_slots hm)"

definition addressed :: "nat \<Rightarrow> hm_slot \<Rightarrow> bool" where
  "addressed a s \<longleftrightarrow> (a = 0 \<longleftrightarrow> hms_entries s = None) \<and> int (hms_alloc s) \<le> INT_MAX \<and> slot_ok s"

lemma arrays_update:
  assumes "n < length as" "length as = length sl"
  shows "mset (arrays (as[n := a]) (sl[n := s])) + mset (array_block (as ! n) (sl ! n)) =
    mset (arrays as sl) + mset (array_block a s)"
proof -
  let ?f = "\<lambda>b. array_block (fst b) (snd b)"
  have "zip (as[n := a]) (sl[n := s]) = (zip as sl)[n := (a, s)]" by (rule zip_update)
  then have "arrays (as[n := a]) (sl[n := s]) = concat ((map ?f (zip as sl))[n := array_block a s])"
    by (simp add: arrays_def map_update)
  moreover have "map ?f (zip as sl) ! n = array_block (as ! n) (sl ! n)" using assms by simp
  ultimately show ?thesis
    using mset_concat_update [of n "map ?f (zip as sl)" "array_block a s"] assms by (simp add: arrays_def)
qed

lemma arrays_split:
  assumes "n < length as" "length as = length sl"
  shows "mset (array_block (as ! n) (sl ! n) @ arrays (as[n := 0]) sl) = mset (arrays as sl)"
  using arrays_update [OF assms, of 0 "sl ! n"] by (simp add: array_block_def add.commute)

lemma arrays_fst: "length as = length sl \<Longrightarrow> map fst (arrays as sl) = filter (\<lambda>a. a \<noteq> 0) as"
  by (induction as sl rule: list_induct2) (simp_all add: arrays_def array_block_def)

lemma arrays_replicate: "arrays (as @ replicate k 0) (sl @ replicate k empty_slot) = arrays as sl" if "length as = length sl"
proof -
  have "arrays (replicate k 0) (replicate k empty_slot) = []" by (simp add: arrays_def array_block_def zip_replicate)
  then show ?thesis using that by (simp add: arrays_def)
qed

lemma empty_addressed: "list_all2 addressed (replicate k 0) (replicate k empty_slot)"
  by (simp add: list_all2_conv_all_nth addressed_def empty_slot_def slot_ok_def INT_MAX_def)

lemma hms_list_some_array: "hms_list s \<noteq> [] \<Longrightarrow> \<exists>es. hms_entries s = Some es"
  by (cases "hms_entries s") (simp_all add: hms_list_def)

lemma slot_push_alloc [simp]: "hms_alloc (slot_push s e) = hms_alloc (hashmap_ensure_free_entry s)"
  by (simp add: slot_push_def Let_def)

context block_memory
begin

abbreviation map_stops :: "(map_error + 'b) option set" where
  "map_stops \<equiv> insert (Some (Inl Map_Overflow)) (refusals Map_Memory tmp_fails)"

text \<open>The arrays of the slots, and other blocks \<open>R\<close>.\<close>

definition arrays_in :: "'m \<Rightarrow> nat list \<Rightarrow> hm_slot list \<Rightarrow> (nat \<times> nat) list \<Rightarrow> bool" where
  "arrays_in m as sl R \<longleftrightarrow> list_all2 addressed as sl \<and> owns m (arrays as sl @ R)"

lemma slot_room_mem:
  assumes o: "owns m (array_block a s @ R)" and ad: "addressed a s"
  shows "slot_room_in mf m a s \<in> map_stops \<or>
    (\<exists>m' b. slot_room_in mf m a s = Some (Inr (m', b)) \<and> b \<noteq> 0 \<and>
      owns m' (array_block b (hashmap_ensure_free_entry s) @ R) \<and> int (hms_alloc (hashmap_ensure_free_entry s)) \<le> INT_MAX)"
proof (cases "hms_entries s")
  case None
  then have a: "a = 0" using ad by (simp add: addressed_def)
  have "0 < (6::nat)" "int 6 \<le> INT_MAX" by (simp_all add: INT_MAX_def)
  note z = array_size [OF this]
  have "owns m R" using o a by (simp add: array_block_def)
  from owns_malloc [OF this conjunct1 [OF conjunct2 [OF z]] conjunct2 [OF conjunct2 [OF z]]] show ?thesis
    unfolding conjunct1 [OF z]
    by (elim disjE exE conjE) (auto simp: slot_room_in_def None hashmap_ensure_free_entry_def array_block_def INT_MAX_def)
next
  case (Some es)
  then have a: "a \<noteq> 0" "0 < hms_alloc s" using ad by (auto simp: addressed_def slot_ok_def)
  consider (room) "length es \<noteq> hms_alloc s" | (big) "length es = hms_alloc s" "INT_MAX < int (hms_alloc s * 2)"
    | (grow) "length es = hms_alloc s" "int (hms_alloc s * 2) \<le> INT_MAX" by linarith
  then show ?thesis
  proof cases
    case room
    then show ?thesis using Some o ad a(1) by (simp add: slot_room_in_def hashmap_ensure_free_entry_def addressed_def)
  next
    case big
    then show ?thesis using Some by (simp add: slot_room_in_def)
  next
    case grow
    have "0 < hms_alloc s * 2" using a(2) by simp
    note z = array_size [OF this grow(2)]
    have "owns m ((a, 16 * hms_alloc s) # R)" using o a(1) by (simp add: array_block_def)
    from owns_realloc [OF this conjunct1 [OF conjunct2 [OF z]] conjunct2 [OF conjunct2 [OF z]]] show ?thesis
      unfolding conjunct1 [OF z] using grow Some
      by (elim disjE exE conjE) (auto simp: slot_room_in_def hashmap_ensure_free_entry_def array_block_def)
  qed
qed

lemma arrays_in_push:
  assumes i: "arrays_in m as sl R" and n: "n < length sl"
  shows "slot_room_in mf m (as ! n) (sl ! n) \<in> map_stops \<or>
    (\<exists>m' a. slot_room_in mf m (as ! n) (sl ! n) = Some (Inr (m', a)) \<and> arrays_in m' (as[n := a]) (sl[n := slot_push (sl ! n) e]) R)"
proof -
  have l: "length as = length sl" "n < length as" and ad: "addressed (as ! n) (sl ! n)"
    using i n by (auto simp: arrays_in_def list_all2_conv_all_nth)
  have "owns m (array_block (as ! n) (sl ! n) @ arrays (as[n := 0]) sl @ R)"
    by (rule owns_perm [of m "arrays as sl @ R"]) (use i arrays_split [OF l(2,1)] in \<open>simp_all add: arrays_in_def\<close>)
  from slot_room_mem [OF this ad] show ?thesis
  proof (elim disjE exE conjE)
    fix m' b
    assume b: "slot_room_in mf m (as ! n) (sl ! n) = Some (Inr (m', b))" "b \<noteq> 0"
      "owns m' (array_block b (hashmap_ensure_free_entry (sl ! n)) @ arrays (as[n := 0]) sl @ R)"
      "int (hms_alloc (hashmap_ensure_free_entry (sl ! n))) \<le> INT_MAX"
    let ?sl = "sl[n := slot_push (sl ! n) e]"
    have "array_block b (hashmap_ensure_free_entry (sl ! n)) = array_block b (slot_push (sl ! n) e)" by (simp add: array_block_def)
    moreover have "mset (arrays (as[n := b]) ?sl) = mset (array_block b (slot_push (sl ! n) e)) + mset (arrays (as[n := 0]) sl)"
      using arrays_update [OF l(2,1), of b "slot_push (sl ! n) e"] unfolding arrays_split [OF l(2,1), symmetric] by simp
    ultimately have "owns m' (arrays (as[n := b]) ?sl @ R)" by (intro owns_perm [OF b(3)]) simp
    moreover have "addressed b (slot_push (sl ! n) e)" using b(2,4) ad by (simp add: addressed_def slot_push_ok)
    then have "list_all2 addressed (as[n := b]) ?sl" using i by (simp add: arrays_in_def list_all2_update_cong)
    ultimately show ?thesis using b(1) by (auto simp: arrays_in_def)
  qed blast
qed

text \<open>Fewer entries, or others, in the same array.\<close>

lemma arrays_in_same:
  assumes i: "arrays_in m as sl R" and n: "n < length sl" and x: "hms_alloc x = hms_alloc (sl ! n)" "hms_entries x = Some es"
    and old: "hms_entries (sl ! n) \<noteq> None" "length es \<le> length (hms_list (sl ! n))"
  shows "arrays_in m as (sl[n := x]) R"
proof -
  have as: "length as = length sl" "addressed (as ! n) (sl ! n)"
    using i n by (auto simp: arrays_in_def list_all2_conv_all_nth)
  have "addressed (as ! n) x" using as(2) x old by (auto simp: addressed_def slot_ok_def hms_list_def)
  then have l: "list_all2 addressed as (sl[n := x])"
    using i list_all2_update_cong [of addressed as sl "as ! n" x n] by (simp add: arrays_in_def)
  have "array_block (as ! n) x = array_block (as ! n) (sl ! n)" using x(1) by (simp add: array_block_def)
  then have ms: "mset (arrays as (sl[n := x])) = mset (arrays as sl)"
    using arrays_update [of n as sl "as ! n" x] as(1) n by simp
  have "owns m (arrays as (sl[n := x]) @ R)"
    by (rule owns_perm [of m "arrays as sl @ R"]) (use i ms in \<open>simp_all add: arrays_in_def\<close>)
  with l show ?thesis by (simp add: arrays_in_def)
qed

lemma rehash_slot_mem:
  assumes "arrays_in m as sl R" "length sl = inc" "s < inc"
  shows "rehash_slot_in mf h inc s i es sl m as \<in> map_stops \<or>
    (\<exists>es' m' as' sl'. rehash_slot_in mf h inc s i es sl m as = Some (Inr (es', m', as', sl')) \<and>
       rehash_slot h inc s i es sl = (es', sl') \<and> arrays_in m' as' sl' R)"
  using assms
proof (induction h inc s i es sl arbitrary: m as rule: rehash_slot.induct)
  case (1 h inc s i es sl)
  define n where "n = slot_of h inc (hme_key (es ! i))"
  have n: "n < length sl" unfolding n_def using "1.prems"(2,3) by (simp add: slot_of_less)
  consider (move) "i < length es" "n \<noteq> s" | (keep) "i < length es" "n = s" | (stop) "\<not> i < length es" by blast
  then show ?case
  proof cases
    case move
    let ?sl = "sl[n := slot_push (sl ! n) (es ! i)]" and ?es = "butlast (es[i := last es])"
    have p: "rehash_slot h inc s i es sl = rehash_slot h inc s i ?es ?sl"
      using move unfolding n_def by (subst rehash_slot.simps) (simp add: Let_def)
    from arrays_in_push [OF "1.prems"(1) n, of "es ! i"] show ?thesis
    proof (elim disjE exE conjE)
      fix m' a
      assume a: "slot_room_in mf m (as ! n) (sl ! n) = Some (Inr (m', a))" "arrays_in m' (as[n := a]) ?sl R"
      have e: "rehash_slot_in mf h inc s i es sl m as = rehash_slot_in mf h inc s i ?es ?sl m' (as[n := a])"
        using move a(1) unfolding n_def by (subst rehash_slot_in.simps) (simp add: Let_def)
      show ?thesis unfolding e p
        using "1.IH"(1) [OF move(1) n_def move(2) a(2)] "1.prems"(2,3) by simp
    next
      assume "slot_room_in mf m (as ! n) (sl ! n) \<in> map_stops"
      then have "rehash_slot_in mf h inc s i es sl m as \<in> map_stops"
        using move unfolding n_def by (subst rehash_slot_in.simps) (auto simp: Let_def)
      then show ?thesis ..
    qed
  next
    case keep
    have e: "rehash_slot_in mf h inc s i es sl m as = rehash_slot_in mf h inc s (Suc i) es sl m as"
      "rehash_slot h inc s i es sl = rehash_slot h inc s (Suc i) es sl"
      using keep unfolding n_def by (subst rehash_slot_in.simps rehash_slot.simps, simp add: Let_def)+
    have "\<not> n \<noteq> s" using keep by simp
    then show ?thesis unfolding e using "1.IH"(2) [OF keep(1) n_def] "1.prems" by blast
  next
    case stop
    then show ?thesis using "1.prems"(1) by (simp add: rehash_slot_in.simps rehash_slot.simps)
  qed
qed

lemma rehash_slots_mem:
  assumes "arrays_in m as sl R" "length sl = inc" "\<forall>s \<in> set ss. s < inc"
  shows "rehash_slots_in mf h inc ss (m, as, sl) \<in> map_stops \<or>
    (\<exists>m' as'. rehash_slots_in mf h inc ss (m, as, sl) = Some (Inr (m', as', foldl (rehash_step h inc) sl ss)) \<and>
       arrays_in m' as' (foldl (rehash_step h inc) sl ss) R)"
  using assms
proof (induction ss arbitrary: m as sl)
  case (Cons s ss)
  have s: "s < inc" using Cons.prems(3) by simp
  show ?case
  proof (cases "hms_entries (sl ! s)")
    case None
    then show ?thesis using Cons.IH [OF Cons.prems(1,2)] Cons.prems(3) by (simp add: rehash_step_def)
  next
    case (Some es)
    from rehash_slot_mem [OF Cons.prems(1,2) s, of h 0 es] show ?thesis
    proof (elim disjE exE conjE)
      fix es' m' as' sl'
      assume r: "rehash_slot_in mf h inc s 0 es sl m as = Some (Inr (es', m', as', sl'))" "rehash_slot h inc s 0 es sl = (es', sl')"
        and i: "arrays_in m' as' sl' R"
      let ?x = "(sl' ! s)\<lparr>hms_entries := Some es'\<rparr>"
      have ad: "addressed (as ! s) (sl ! s)" "list_all slot_ok sl"
        using Cons.prems s by (auto simp: arrays_in_def list_all2_conv_all_nth list_all_length addressed_def)
      have v: "length sl' = inc" "length es' \<le> length es" "sl' ! s = sl ! s"
        using rehash_slot_inv [OF r(2) Cons.prems(2) s _ ad(2), of "{}"] by (simp_all add: placed_def)
      have i': "arrays_in m' as' (sl'[s := ?x]) R"
        by (rule arrays_in_same [OF i]) (use v s Some in \<open>simp_all add: hms_list_def\<close>)
      have st: "rehash_step h inc sl s = sl'[s := ?x]" using Some r(2) by (simp add: rehash_step_def)
      have e: "rehash_slots_in mf h inc (s # ss) (m, as, sl) = rehash_slots_in mf h inc ss (m', as', rehash_step h inc sl s)"
        unfolding st using Some r(1) by simp
      show ?thesis unfolding e foldl_Cons by (rule Cons.IH) (use i' v(1) Cons.prems(3) in \<open>simp_all add: st\<close>)
    next
      assume "rehash_slot_in mf h inc s 0 es sl m as \<in> map_stops"
      then show ?thesis using Some by auto
    qed
  qed
qed simp

definition map_inv :: "'m map_state \<Rightarrow> bool" where
  "map_inv = (\<lambda>(m, p, as, hm). hm_inv hm \<and> (p = 0 \<longleftrightarrow> hm_num_slots hm = 0) \<and>
     arrays_in m as (hm_slots hm) (slots_array p (hm_num_slots hm)))"

lemma map_rehash_mem:
  assumes wf: "hm_wf hm" and n: "hm_num_slots hm \<noteq> 0" and p: "p \<noteq> 0"
    and i: "arrays_in m as (hm_slots hm) (slots_array p (hm_num_slots hm))"
  shows "map_rehash_in mf (m, p, as, hm) \<in> map_stops \<or>
    (\<exists>m' q as'. map_rehash_in mf (m, p, as, hm) = Some (Inr (m', q, as', hashmap_rehash hm)) \<and> q \<noteq> 0 \<and>
       arrays_in m' as' (hm_slots (hashmap_rehash hm)) (slots_array q (hm_num_slots (hashmap_rehash hm))))"
proof -
  let ?n = "hm_num_slots hm"
  define inc where "inc = nat (next_prime (int ?n * 3 div 2))"
  have U: "map_rehash_in mf (m, p, as, hm) =
      (if next_prime_chk (int ?n * 3 div 2) = None then Some (Inl Map_Overflow)
       else map_call (mf_realloc mf m p (of_nat inc * 16)) (\<lambda>(m, q).
         if q = 0 then Some (Inl Null_Array)
         else mem_call_with id
           (rehash_slots_in mf (hm_hash hm) inc [0..<?n]
             (m, as @ replicate (inc - ?n) 0, hm_slots hm @ replicate (inc - ?n) empty_slot))
           (\<lambda>(m, as, sl). Some (Inr (m, q, as, hm\<lparr>hm_slots := sl, hm_num_slots := inc\<rparr>)))))"
  proof (cases "next_prime_chk (int ?n * 3 div 2)")
    case (Some k)
    then have k: "k = next_prime (int ?n * 3 div 2)" by (auto dest: next_prime_chk_Some)
    show ?thesis unfolding map_rehash_in_def prod.case Let_def Some k inc_def option.case by simp
  qed (simp add: map_rehash_in_def)
  have len: "length (hm_slots hm) = ?n" "?n \<noteq> 1" using hm_wfD [OF wf] by simp_all
  have grow: "?n < inc" unfolding inc_def using nat_next_prime_grows len(2) n by simp
  show ?thesis
  proof (cases "next_prime_chk (int ?n * 3 div 2) = None")
    case True
    then show ?thesis by (simp add: U)
  next
    case False
    then have le: "0 < inc" "int inc \<le> INT_MAX"
      using grow next_prime_chk_Some [of "int ?n * 3 div 2"] by (auto simp: inc_def)
    note z = array_size [OF le] and U = U [unfolded if_not_P [OF False]]
    let ?as = "as @ replicate (inc - ?n) 0" and ?sl = "hm_slots hm @ replicate (inc - ?n) empty_slot"
    have al: "length as = length (hm_slots hm)" using i by (auto simp: arrays_in_def dest: list_all2_lengthD)
    have "owns m ((p, 16 * ?n) # arrays as (hm_slots hm))"
      by (rule owns_perm [of m "arrays as (hm_slots hm) @ slots_array p ?n"])
        (use i p in \<open>simp_all add: arrays_in_def slots_array_def\<close>)
    from owns_realloc [OF this conjunct1 [OF conjunct2 [OF z]] conjunct2 [OF conjunct2 [OF z]]] show ?thesis
    proof (elim disjE exE conjE)
      fix m' q
      assume q: "mf_realloc mf m p (of_nat inc * 16) = Some (Inr (m', q))" "q \<noteq> 0"
        and o: "owns m' ((q, unat (of_nat inc * 16 :: u64)) # arrays as (hm_slots hm))"
      have "owns m' (arrays ?as ?sl @ slots_array q inc)"
        by (rule owns_perm [OF o [unfolded conjunct1 [OF z]]]) (use al q(2) in \<open>simp add: arrays_replicate slots_array_def\<close>)
      moreover have "list_all2 addressed ?as ?sl"
        using i empty_addressed al by (simp add: arrays_in_def list_all2_append)
      ultimately have a: "arrays_in m' ?as ?sl (slots_array q inc)" by (simp add: arrays_in_def)
      have "length ?sl = inc" "\<forall>s \<in> set [0..<?n]. s < inc" using len grow by auto
      note R = rehash_slots_mem [OF a this, of "hm_hash hm"]
      have e: "map_rehash_in mf (m, p, as, hm) = mem_call_with id (rehash_slots_in mf (hm_hash hm) inc [0..<?n] (m', ?as, ?sl))
          (\<lambda>(m, as, sl). Some (Inr (m, q, as, hm\<lparr>hm_slots := sl, hm_num_slots := inc\<rparr>)))"
        using q by (simp add: U)
      have h: "hashmap_rehash hm = hm\<lparr>hm_slots := foldl (rehash_step (hm_hash hm) inc) ?sl [0..<?n], hm_num_slots := inc\<rparr>"
        by (simp add: hashmap_rehash_def inc_def Let_def)
      show ?thesis unfolding e h using R q(2) by auto
    next
      assume "mf_realloc mf m p (of_nat inc * 16) \<in> refusals id tmp_fails"
      then have "map_rehash_in mf (m, p, as, hm) \<in> refusals Map_Memory tmp_fails" unfolding U by blast
      then show ?thesis by blast
    qed
  qed
qed

lemma map_init_mem:
  assumes o: "owns m []"
  shows "map_init_in mf m hm n = Some (Inl (Map_Memory Out_Of_Memory)) \<or>
    next_prime_chk (int n) = None \<and> map_init_in mf m hm n = Some (Inl Map_Overflow) \<or>
    (\<exists>m' p as. map_init_in mf m hm n = Some (Inr (m', p, as, nt_hashmap_init_slots hm n)) \<and>
       (p = 0 \<longleftrightarrow> hm_num_slots (nt_hashmap_init_slots hm n) = 0) \<and>
       arrays_in m' as (hm_slots (nt_hashmap_init_slots hm n)) (slots_array p (hm_num_slots (nt_hashmap_init_slots hm n))))"
proof (cases "0 < n")
  case True
  show ?thesis
  proof (cases "next_prime_chk (int n)")
    case None
    then show ?thesis using True by (simp add: map_init_in_def)
  next
    case (Some i)
    let ?k = "nat (next_prime (int n))"
    have i: "i = next_prime (int n)" "next_prime (int n) \<le> INT_MAX" using next_prime_chk_Some [OF Some] by simp_all
    then have k: "0 < ?k" "int ?k \<le> INT_MAX" using next_prime_gt_1 [of "int n"] by simp_all
    note z = array_size [OF k]
    have e: "hm_slots (nt_hashmap_init_slots hm n) = replicate ?k empty_slot" "hm_num_slots (nt_hashmap_init_slots hm n) = ?k"
      using True by (simp_all add: nt_hashmap_init_slots_def Let_def)
    have a: "arrays (replicate ?k 0) (replicate ?k empty_slot) = []" "list_all2 addressed (replicate ?k 0) (replicate ?k empty_slot)"
      using arrays_replicate [of "[]" "[]" ?k]
      by (simp_all add: arrays_def empty_addressed)
    from owns_malloc [OF o conjunct1 [OF conjunct2 [OF z]] conjunct2 [OF conjunct2 [OF z]]] show ?thesis
      unfolding conjunct1 [OF z] using True Some i(1) k(1) a
      by (elim disjE exE conjE) (auto simp: map_init_in_def e arrays_in_def slots_array_def)
  qed
next
  case False
  then show ?thesis using o by (simp add: map_init_in_def nt_hashmap_init_slots_def arrays_in_def arrays_def slots_array_def)
qed

lemma map_set_there:
  assumes inv: "map_inv (m, p, as, hm)" and n: "hm_num_slots hm \<noteq> 0"
  shows "map_set mf (m, p, as, hm) key val \<in> map_stops \<or>
    (\<exists>m' q as'. map_set mf (m, p, as, hm) key val = Some (Inr (m', q, as', nt_hashmap_set hm key val)) \<and>
       map_inv (m', q, as', nt_hashmap_set hm key val))"
proof -
  define s where "s = slot_of (hm_hash hm) (hm_num_slots hm) key"
  define es where "es = hms_list (hm_slots hm ! s)"
  define i where "i = find_entry (hm_cmp hm) key es"
  define x where "x = (hm_slots hm ! s)\<lparr>hms_entries := Some (es[i := (es ! i)\<lparr>hme_value := val\<rparr>])\<rparr>"
  define e where "e = \<lparr>hme_key = key, hme_value = val\<rparr>"
  define h2 where "h2 = hm\<lparr>hm_slots := (hm_slots hm)[s := slot_push (hm_slots hm ! s) e], hm_num_data := Suc (hm_num_data hm)\<rparr>"
  have hi: "hm_inv hm" and p: "p \<noteq> 0" and a: "arrays_in m as (hm_slots hm) (slots_array p (hm_num_slots hm))"
    using inv n by (auto simp: map_inv_def)
  have wf: "hm_wf hm" using hi by (simp add: hm_inv_def)
  have s: "s < length (hm_slots hm)" using hm_wfD(2) [OF wf] n by (simp add: s_def slot_of_less)
  have hi': "hm_inv (nt_hashmap_set hm key val)" using set_correct [OF hi] by blast
  have P: "nt_hashmap_set hm key val = (if i < length es then hm\<lparr>hm_slots := (hm_slots hm)[s := x]\<rparr>
      else if hm_num_slots h2 * 5 div 1 \<le> hm_num_data h2 then hashmap_rehash h2 else h2)"
    using n by (simp add: nt_hashmap_set_def Let_def s_def es_def i_def x_def e_def h2_def)
  have M: "map_set mf (m, p, as, hm) key val =
      (if i < length es then Some (Inr (m, p, as, hm\<lparr>hm_slots := (hm_slots hm)[s := x]\<rparr>))
       else mem_call_with id (slot_room_in mf m (as ! s) (hm_slots hm ! s)) (\<lambda>(m, a).
         if INT_MAX < int (hm_num_slots h2 * 5) then Some (Inl Map_Overflow)
         else if hm_num_slots h2 * 5 div 1 \<le> hm_num_data h2 then map_rehash_in mf (m, p, as[s := a], h2)
         else Some (Inr (m, p, as[s := a], h2))))"
    unfolding map_set_def prod.case Let_def s_def es_def i_def x_def e_def h2_def
    by (simp only: n if_False mem_call_with_simps prod.case)
  show ?thesis
  proof (cases "i < length es")
    case True
    then have "es \<noteq> []" by auto
    then have "hms_entries (hm_slots hm ! s) \<noteq> None" by (simp add: es_def hms_list_some_array)
    then have "arrays_in m as ((hm_slots hm)[s := x]) (slots_array p (hm_num_slots hm))"
      by (intro arrays_in_same [OF a s, of x "es[i := (es ! i)\<lparr>hme_value := val\<rparr>]"]) (simp_all add: x_def es_def)
    then show ?thesis using True p n hi' by (simp add: P M map_inv_def)
  next
    case miss: False
    from arrays_in_push [OF a s, of e] show ?thesis
    proof (elim disjE exE conjE)
      assume "slot_room_in mf m (as ! s) (hm_slots hm ! s) \<in> map_stops"
      then show ?thesis using miss by (auto simp: M)
    next
      fix m' b
      assume r: "slot_room_in mf m (as ! s) (hm_slots hm ! s) = Some (Inr (m', b))"
        "arrays_in m' (as[s := b]) ((hm_slots hm)[s := slot_push (hm_slots hm ! s) e]) (slots_array p (hm_num_slots hm))"
      have h2: "h2 = set_in_slots hm key val"
        using miss by (simp add: h2_def set_in_slots_def Let_def s_def es_def i_def e_def)
      have wf2: "hm_wf h2" and n2: "hm_num_slots h2 = hm_num_slots hm"
        using set_in_slots_correct [OF wf, of key val] n unfolding h2 by simp_all
      have a2: "arrays_in m' (as[s := b]) (hm_slots h2) (slots_array p (hm_num_slots h2))" using r(2) by (simp add: h2_def)
      show ?thesis
      proof (cases "INT_MAX < int (hm_num_slots h2 * 5)")
        case True
        then show ?thesis using miss r(1) by (simp add: M)
      next
        case False
        show ?thesis
        proof (cases "hm_num_slots h2 * 5 div 1 \<le> hm_num_data h2")
          case True
          then have e: "map_set mf (m, p, as, hm) key val = map_rehash_in mf (m', p, as[s := b], h2)"
            "nt_hashmap_set hm key val = hashmap_rehash h2" using miss False r(1) by (simp_all add: M P)
          have g: "hm_num_slots (hashmap_rehash h2) \<noteq> 0" using rehash_wf [OF wf2] n n2 by auto
          from map_rehash_mem [OF wf2 _ p a2] n n2 show ?thesis
            using hi' g unfolding e map_inv_def by auto
        next
          case False
          then show ?thesis
            using miss r(1) \<open>\<not> INT_MAX < int (hm_num_slots h2 * 5)\<close> p n n2 a2 hi' by (simp add: M P map_inv_def)
        qed
      qed
    qed
  qed
qed

lemma map_set_mem:
  assumes inv: "map_inv (m, p, as, hm)"
  shows "map_set mf (m, p, as, hm) key val \<in> map_stops \<or>
    (\<exists>m' q as'. map_set mf (m, p, as, hm) key val = Some (Inr (m', q, as', nt_hashmap_set hm key val)) \<and>
       map_inv (m', q, as', nt_hashmap_set hm key val))"
proof (cases "hm_num_slots hm = 0")
  case True
  let ?h = "nt_hashmap_init_slots hm 10"
  have hi: "hm_inv hm" and a: "arrays_in m as (hm_slots hm) []" using inv True by (auto simp: map_inv_def slots_array_def)
  have wf: "hm_wf hm" using hi by (simp add: hm_inv_def)
  have "hm_slots hm = []" using hm_wfD(2) [OF wf] True by simp
  then have o: "owns m []" using a by (simp add: arrays_in_def arrays_def)
  have prime: "next_prime 10 = 11" by code_simp
  then have n: "hm_num_slots ?h = 11" by (simp add: nt_hashmap_init_slots_def Let_def)
  have h: "hm_inv ?h" using wf by (intro init_slots_wf) (auto simp: hm_wf_def)
  have e: "nt_hashmap_set hm key val = nt_hashmap_set ?h key val" using True n by (simp add: nt_hashmap_set_def)
  have chk: "next_prime_chk (int 10) = Some 11" using prime by (simp add: next_prime_chk_exact)
  from map_init_mem [OF o, of hm 10] show ?thesis
  proof (elim disjE exE conjE)
    assume "map_init_in mf m hm 10 = Some (Inl (Map_Memory Out_Of_Memory))"
    then show ?thesis using True by (simp add: map_set_def)
  next
    assume "next_prime_chk (int 10) = None"
    then show ?thesis using chk by simp
  next
    fix m' q as'
    assume i: "map_init_in mf m hm 10 = Some (Inr (m', q, as', ?h))" "(q = 0) = (hm_num_slots ?h = 0)"
      "arrays_in m' as' (hm_slots ?h) (slots_array q (hm_num_slots ?h))"
    have "map_set mf (m, p, as, hm) key val = map_set mf (m', q, as', ?h) key val"
      using True n i(1) by (simp add: map_set_def)
    moreover have "map_inv (m', q, as', ?h)" using h i(2,3) by (simp add: map_inv_def)
    ultimately show ?thesis using map_set_there [of m' q as' ?h key val] n unfolding e by simp
  qed
qed (use map_set_there inv in blast)

lemma map_remove_mem:
  assumes inv: "map_inv (m, p, as, hm)"
  shows "map_inv (m, p, as, nt_hashmap_remove hm key)"
proof -
  define s where "s = slot_of (hm_hash hm) (hm_num_slots hm) key"
  define es where "es = hms_list (hm_slots hm ! s)"
  define i where "i = find_entry (hm_cmp hm) key es"
  let ?x = "(hm_slots hm ! s)\<lparr>hms_entries := Some (butlast (es[i := last es]))\<rparr>"
  have hi: "hm_inv hm" and a: "arrays_in m as (hm_slots hm) (slots_array p (hm_num_slots hm))"
    using inv by (auto simp: map_inv_def)
  have hi': "hm_inv (nt_hashmap_remove hm key)" using remove_correct [OF hi] by blast
  show ?thesis
  proof (cases "hm_num_slots hm \<noteq> 0 \<and> i < length es")
    case True
    then have "es \<noteq> []" by auto
    then have "hms_entries (hm_slots hm ! s) \<noteq> None" by (simp add: es_def hms_list_some_array)
    moreover have "s < length (hm_slots hm)"
      using hm_wfD(2) [of hm] hi True by (simp add: s_def slot_of_less hm_inv_def)
    ultimately have "arrays_in m as ((hm_slots hm)[s := ?x]) (slots_array p (hm_num_slots hm))"
      by (intro arrays_in_same [OF a, of s ?x "butlast (es[i := last es])"]) (simp_all add: es_def)
    moreover have "nt_hashmap_remove hm key =
        hm\<lparr>hm_slots := (hm_slots hm)[s := ?x], hm_num_data := hm_num_data hm - 1\<rparr>"
      using True by (simp add: nt_hashmap_remove_def Let_def s_def es_def i_def)
    ultimately show ?thesis using inv hi' by (simp add: map_inv_def)
  next
    case False
    then have "nt_hashmap_remove hm key = hm"
      by (auto simp: nt_hashmap_remove_def Let_def s_def es_def i_def)
    then show ?thesis using inv by simp
  qed
qed

lemma map_clear_mem:
  assumes inv: "map_inv (m, p, as, hm)"
  shows "\<exists>m' as'. map_clear mf (m, p, as, hm) = Some (Inr (m', p, as', nt_hashmap_clear hm)) \<and>
    map_inv (m', p, as', nt_hashmap_clear hm)"
proof -
  let ?A = "arrays as (hm_slots hm)" and ?as = "map (\<lambda>_. 0) as" and ?sl = "map clear_slot (hm_slots hm)"
  have l: "list_all2 addressed as (hm_slots hm)" and o: "owns m (?A @ slots_array p (hm_num_slots hm))"
    using inv by (auto simp: map_inv_def arrays_in_def)
  have f: "map fst ?A = filter (\<lambda>a. a \<noteq> 0) as" by (rule arrays_fst [OF list_all2_lengthD [OF l]])
  from owns_free [OF o, of Map_Memory] obtain m' where m': "free_blocks_with Map_Memory mf m (filter (\<lambda>a. a \<noteq> 0) as) = Some (Inr m')"
    "owns m' (slots_array p (hm_num_slots hm))" unfolding f by blast
  have "arrays ?as ?sl = []"
    using arrays_fst [of ?as ?sl] list_all2_lengthD [OF l] by (simp add: filter_map comp_def)
  moreover have "list_all2 addressed ?as ?sl"
    using l by (auto simp: list_all2_conv_all_nth addressed_def clear_slot_def empty_slot_def slot_ok_def INT_MAX_def)
  ultimately have "arrays_in m' ?as ?sl (slots_array p (hm_num_slots hm))" using m'(2) by (simp add: arrays_in_def)
  then have "map_inv (m', p, ?as, nt_hashmap_clear hm)"
    using inv clear_inv [of hm] by (simp add: map_inv_def nt_hashmap_clear_def)
  then show ?thesis using m'(1) by (auto simp: map_clear_def)
qed

lemma map_destroy_mem:
  assumes inv: "map_inv (m, p, as, hm)"
  shows "\<exists>m'. map_destroy mf (m, p, as, hm) = Some (Inr (m', 0, [], nt_hashmap_destroy hm)) \<and> owns m' []"
proof -
  let ?N = "arrays as (hm_slots hm) @ slots_array p (hm_num_slots hm)"
  have l: "list_all2 addressed as (hm_slots hm)" and o: "owns m (?N @ [])"
    using inv by (auto simp: map_inv_def arrays_in_def)
  have f: "map fst ?N = filter (\<lambda>a. a \<noteq> 0) as @ (if p \<noteq> 0 then [p] else [])"
    by (simp add: arrays_fst [OF list_all2_lengthD [OF l]] slots_array_def)
  from owns_free [OF o, of Map_Memory] obtain m' where
    "free_blocks_with Map_Memory mf m (filter (\<lambda>a. a \<noteq> 0) as @ (if p \<noteq> 0 then [p] else [])) = Some (Inr m')" "owns m' []"
    unfolding f by blast
  then show ?thesis by (simp only: map_destroy_def prod.case mem_call_with_simps) simp
qed

lemma map_run_mem:
  assumes "map_inv (m, p, as, hm)"
  shows "map_run_in mf (m, p, as, hm) cs \<in> map_stops \<or>
    (\<exists>m' q as'. map_run_in mf (m, p, as, hm) cs = Some (Inr (m', q, as', foldl hm_exec hm cs)) \<and>
       map_inv (m', q, as', foldl hm_exec hm cs))"
  using assms
proof (induction cs arbitrary: m p as hm)
  case (Cons c cs)
  have "map_exec_in mf (m, p, as, hm) c \<in> map_stops \<or>
    (\<exists>m' q as'. map_exec_in mf (m, p, as, hm) c = Some (Inr (m', q, as', hm_exec hm c)) \<and> map_inv (m', q, as', hm_exec hm c))"
    using map_set_mem [OF Cons.prems] map_remove_mem [OF Cons.prems] map_clear_mem [OF Cons.prems]
    by (cases c) (auto simp: map_remove_def)
  then show ?case
  proof (elim disjE exE conjE)
    fix m' q as'
    assume n: "map_exec_in mf (m, p, as, hm) c = Some (Inr (m', q, as', hm_exec hm c))" "map_inv (m', q, as', hm_exec hm c)"
    have "map_run_in mf (m, p, as, hm) (c # cs) = map_run_in mf (m', q, as', hm_exec hm c) cs" using n(1) by simp
    then show ?thesis using Cons.IH [OF n(2)] by simp
  qed auto
qed simp

lemma map_session:
  assumes o: "owns m []" and cmp: "key_compare cmp"
  shows "case map_create mf m n hash cmp of
      Some (Inr st) \<Rightarrow>
        (case map_run_in mf st ops of
           Some (Inr (m', p, as, hm)) \<Rightarrow>
             hm = foldl hm_exec (nt_hashmap_create_ext n hash cmp) ops \<and> owns m' (map_blocks p as hm) \<and>
             (\<exists>m''. map_destroy mf (m', p, as, hm) = Some (Inr (m'', 0, [], nt_hashmap_destroy hm)) \<and> owns m'' [])
         | r \<Rightarrow> r \<in> map_stops)
    | r \<Rightarrow> r = Some (Inl (Map_Memory Out_Of_Memory)) \<or> next_prime_chk (int n) = None \<and> r = Some (Inl Map_Overflow)"
proof -
  let ?h = "nt_hashmap_create_ext n hash cmp"
  let ?e = "\<lparr>hm_slots = [], hm_num_slots = 0, hm_num_data = 0, hm_hash_func = Some hash, hm_compare_func = Some cmp\<rparr>"
  have h: "nt_hashmap_init_slots ?e n = ?h" by (simp add: nt_hashmap_create_ext_def)
  from map_init_mem [OF o, of ?e n] show ?thesis
    unfolding h
  proof (elim disjE exE conjE)
    fix i p as
    assume c: "map_init_in mf m ?e n = Some (Inr (i, p, as, ?h))" "(p = 0) = (hm_num_slots ?h = 0)"
      "arrays_in i as (hm_slots ?h) (slots_array p (hm_num_slots ?h))"
    then have cr: "map_create mf m n hash cmp = Some (Inr (i, p, as, ?h))" and inv: "map_inv (i, p, as, ?h)"
      using create_ext_inv [OF cmp] by (simp_all add: map_create_def map_inv_def)
    from map_run_mem [OF inv, of ops] show ?thesis
    proof (elim disjE exE conjE)
      fix m' q as'
      assume r: "map_run_in mf (i, p, as, ?h) ops = Some (Inr (m', q, as', foldl hm_exec ?h ops))"
        and inv': "map_inv (m', q, as', foldl hm_exec ?h ops)"
      have "owns m' (map_blocks q as' (foldl hm_exec ?h ops))" using inv' by (simp add: map_inv_def arrays_in_def map_blocks_def)
      then show ?thesis using cr r map_destroy_mem [OF inv'] by simp
    qed (use cr in \<open>auto dest: refusals_error split: option.split sum.split\<close>)
  qed (simp_all add: map_create_def)
qed

end

section \<open>The property\<close>

text \<open>
  C9: A hash map whose memory functions are those of a segment: created in an empty segment, it is after any sequence
  of insertions, removals and clearings the map of unlimited memory, and the segment holds one block for its
  slots and one for every slot with entries, as big as the code writes, through growth and rehashing; destroying the map gives
  every block back. It ends otherwise only when the segment is exhausted, when a number of slots or entries exceeds
  an \<open>int\<close> or makes \<open>next_prime\<close> overflow, and, where malloc refuses one, for want of the temporary buffer of a
  reallocation that moves an array.
\<close>

theorem hashmap_in_segment:
  assumes view: "mem_view info {} F" "mi_allow_oom info = 0" and cmp: "key_compare cmp"
  shows "case map_create (segment_funcs tmp) (info, 0) n hash cmp of
      Some (Inr st) \<Rightarrow>
        (case map_run_in (segment_funcs tmp) st ops of
           Some (Inr ((info', k), p, as, hm)) \<Rightarrow>
             hm = foldl hm_exec (nt_hashmap_create_ext n hash cmp) ops \<and>
             (\<exists>A F'. mem_view info' A F' \<and> covers ((\<lambda>ch. (fst ch + 8, snd ch)) ` A) (map_blocks p as hm)) \<and>
             (\<exists>info'' k' F''. map_destroy (segment_funcs tmp) ((info', k), p, as, hm) =
                  Some (Inr ((info'', k'), 0, [], nt_hashmap_destroy hm)) \<and> mem_view info'' {} F'')
         | r \<Rightarrow> r \<in> {Some (Inl (Map_Memory Out_Of_Memory)), Some (Inl Map_Overflow)} \<or>
             (\<exists>k. \<not> tmp k) \<and> r = Some (Inl (Map_Memory Tmp_Malloc_Failed)))
    | r \<Rightarrow> r = Some (Inl (Map_Memory Out_Of_Memory)) \<or> next_prime_chk (int n) = None \<and> r = Some (Inl Map_Overflow)"
proof -
  let ?f = "segment_funcs tmp"
  have o: "segment.owns (info, 0) []" using view by (auto simp: segment_owns covers_nil)
  note S = segment.map_session [OF o cmp, where tmp = tmp and hash = hash and ops = ops and n = n]
  show ?thesis
  proof (cases "\<exists>st i k p as hm. map_create ?f (info, 0) n hash cmp = Some (Inr st) \<and>
      map_run_in ?f st ops = Some (Inr ((i, k), p, as, hm))")
    case True
    then obtain st i k p as hm where r: "map_create ?f (info, 0) n hash cmp = Some (Inr st)"
      "map_run_in ?f st ops = Some (Inr ((i, k), p, as, hm))" by blast
    from S show ?thesis unfolding r option.case sum.case prod.case by (simp add: segment_owns covers_nil) blast
  next
    case False
    with S show ?thesis by (auto simp: refusals_def split: option.splits sum.splits if_splits)
  qed
qed

lemma demo_map_run:
  assumes m: "mf_malloc mf m 0 176 = Some (Inr (i, q))" "q \<noteq> 0" "mf_malloc mf i 0 96 = Some (Inr (j, b))" "b \<noteq> 0"
  shows "\<exists>st. map_run_in mf (m, 0, [], nt_hashmap_create 0) [Hm_Set 7 8] = Some (Inr st)"
proof -
  let ?h = "nt_hashmap_init_slots (nt_hashmap_create 0) 10"
  have prime: "next_prime 10 = 11" by code_simp
  have z: "hm_num_slots (nt_hashmap_create 0) = 0"
    by (simp add: nt_hashmap_create_def nt_hashmap_create_ext_def nt_hashmap_init_slots_def)
  have h: "hm_slots ?h = replicate 11 empty_slot" "hm_num_slots ?h = 11" "hm_num_data ?h = 0"
    by (simp_all add: nt_hashmap_init_slots_def prime Let_def)
  have s: "slot_of (hm_hash ?h) 11 7 < 11" by (rule slot_of_less) simp
  have e: "hms_entries empty_slot = None" by (simp add: empty_slot_def)
  have "map_init_in mf m (nt_hashmap_create 0) 10 = Some (Inr (i, q, replicate 11 0, ?h))"
    using m(1,2) prime by (simp add: map_init_in_def next_prime_chk_exact)
  moreover have "slot_room_in mf i 0 empty_slot = Some (Inr (j, b))" using m(3,4) e by (simp add: slot_room_in_def)
  ultimately show ?thesis using s by (simp add: map_set_def z h Let_def INT_MAX_def)
qed

theorem hashmap_in_segment_witness:
  "\<exists>info k p as hm A F. map_run_in (segment_funcs (\<lambda>_. True)) ((demo_segment, 0), 0, [], nt_hashmap_create 0) [Hm_Set 7 8] =
       Some (Inr ((info, k), p, as, hm)) \<and>
     hm = nt_hashmap_set (nt_hashmap_create 0) 7 8 \<and>
     mem_view info A F \<and> covers ((\<lambda>ch. (fst ch + 8, snd ch)) ` A) (map_blocks p as hm)"
proof -
  let ?f = "segment_funcs (\<lambda>_. True)"
  obtain t where v: "mem_view demo_segment {} {(mi_lo_bound demo_segment, t)}" "mi_allow_oom demo_segment = 0"
    and room: "65000 \<le> mi_hi_bound demo_segment - mi_lo_bound demo_segment" using demo_segment_view by blast
  have p: "unat (mem_proper_alloc_size 176) = 176" "unat (mem_proper_alloc_size 96) = 96"
    by (simp_all add: mem_proper_alloc_size_def)
  obtain c s i F where m1: "nt_mem_malloc demo_segment 0 176 = Some (Inr (i, c + 8))" "s < 216" "mem_view i {(c, s)} F"
      "mi_hi_bound i - mi_lo_bound i = mi_hi_bound demo_segment - mi_lo_bound demo_segment"
    using malloc_room [OF v(1) _ _ p(1) [symmetric]] room by (auto simp: MEM_MAX_SIZE_def)
  obtain b j where m2: "nt_mem_malloc i 0 96 = Some (Inr (j, b + 8))"
    using malloc_room [OF m1(3) _ _ p(2) [symmetric]] m1(2,4) room by (auto simp: MEM_MAX_SIZE_def)
  have r: "\<exists>st. map_run_in ?f ((demo_segment, 0), 0, [], nt_hashmap_create 0) [Hm_Set 7 8] = Some (Inr st)"
    by (rule demo_map_run [where q = "c + 8" and b = "b + 8" and i = "(i, 0)" and j = "(j, 0)"])
      (simp_all add: segment_funcs_simps segment_malloc_func_def m1(1) m2)
  have "map_create ?f (demo_segment, 0) 0 nt_default_uint64_hash_func nt_default_uint64_compare_func =
      Some (Inr ((demo_segment, 0), 0, [], nt_hashmap_create 0))"
    by (simp add: map_create_def map_init_in_def nt_hashmap_create_def nt_hashmap_create_ext_def)
  then show ?thesis
    using hashmap_in_segment [OF v uint64_cmp.key_compare_axioms, where tmp = "\<lambda>_. True" and n = 0
        and hash = nt_default_uint64_hash_func and ops = "[Hm_Set 7 8]"] r
    by (auto simp: nt_hashmap_create_def)
qed

end
