(* ===== verification/Default_Memory.thy ===== *)
theory Default_Memory
  imports Heap_Memory Common_Str
begin

text \<open>
  The memory functions of nt_algodefs.c, which containers use outside shared memory: nt_malloc,
  nt_realloc and nt_free of common.c on the heap of the process. They keep the contract \<open>block_memory\<close>
  too, whatever malloc answers.
\<close>

section \<open>The heap of the process\<close>

text \<open>
  \<open>ch_answers c i\<close> is the address malloc would answer to the \<open>i\<close>-th attempt of the \<open>c\<close>-th call. An
  answer is a block only if it is not \<open>NULL\<close> and overlaps no block in use, as the C library
  promises; any other counts as a failure. The bytes of the blocks are not part of the state.
\<close>

record c_heap =
  ch_live :: "(nat \<times> nat) set"
  ch_answers :: "nat \<Rightarrow> nat \<Rightarrow> nat"
  ch_calls :: nat

definition block_fits :: "(nat \<times> nat) set \<Rightarrow> nat \<Rightarrow> nat \<Rightarrow> bool" where
  "block_fits B p n = (p \<noteq> 0 \<and> (\<forall>b \<in> B. fst b \<noteq> p \<and> (p + n \<le> fst b \<or> fst b + snd b \<le> p)))"

definition c_realloc :: "c_heap \<Rightarrow> nat option \<Rightarrow> nat \<Rightarrow> nat \<Rightarrow> nat option" where
  "c_realloc h old n i =
     (let p = ch_answers h (ch_calls h) i
      in if block_fits {b \<in> ch_live h. Some (fst b) \<noteq> old} p n then Some p else None)"

definition c_malloc :: "c_heap \<Rightarrow> nat \<Rightarrow> nat \<Rightarrow> nat option" where
  "c_malloc h n i = c_realloc h None n i"

definition heap_taken :: "c_heap \<Rightarrow> nat \<Rightarrow> nat \<Rightarrow> nat \<Rightarrow> c_heap" where
  "heap_taken h old n p = h\<lparr>ch_live := insert (p, n) {b \<in> ch_live h. fst b \<noteq> old}, ch_calls := Suc (ch_calls h)\<rparr>"

text \<open>
  The functions. \<open>Out_Of_Memory\<close> is the exit of nt_malloc2 and nt_realloc2; \<open>Should_Never_Happen\<close> stands for a
  \<open>free\<close> or \<open>realloc\<close> of an address that is no block, which C leaves undefined.
\<close>

definition old_ptr :: "nat \<Rightarrow> nat option" where
  "old_ptr p = (if p = 0 then None else Some p)"

definition nt_default_mem_malloc_func :: "c_heap \<Rightarrow> nat \<Rightarrow> u64 \<Rightarrow> (mem_error + c_heap \<times> nat) option" where
  "nt_default_mem_malloc_func h old sz =
     (case snd (nt_malloc2 (c_malloc h) (old_ptr old) (unat sz)) of
        Inl e \<Rightarrow> Some (Inl Out_Of_Memory)
      | Inr p \<Rightarrow> Some (Inr (heap_taken h 0 (max (unat sz) 1) p, p)))"

definition nt_default_mem_realloc_func :: "c_heap \<Rightarrow> nat \<Rightarrow> u64 \<Rightarrow> (mem_error + c_heap \<times> nat) option" where
  "nt_default_mem_realloc_func h old sz =
     (if old \<noteq> 0 \<and> old \<notin> fst ` ch_live h then Some (Inl Should_Never_Happen)
      else case nt_realloc2 (c_realloc h) (old_ptr old) (unat sz) of
             Inl e \<Rightarrow> Some (Inl Out_Of_Memory)
           | Inr p \<Rightarrow> Some (Inr (heap_taken h old (max (unat sz) 1) p, p)))"

definition nt_default_mem_free_func :: "c_heap \<Rightarrow> nat \<Rightarrow> (mem_error + c_heap) option" where
  "nt_default_mem_free_func h ptr =
     (if ptr = 0 then Some (Inr h)
      else if ptr \<notin> fst ` ch_live h then Some (Inl Should_Never_Happen)
      else Some (Inr (h\<lparr>ch_live := {b \<in> ch_live h. fst b \<noteq> ptr}\<rparr>)))"

definition default_funcs :: "c_heap mem_funcs" where
  "default_funcs = \<lparr>mf_malloc = nt_default_mem_malloc_func, mf_realloc = nt_default_mem_realloc_func,
     mf_free = nt_default_mem_free_func\<rparr>"

section \<open>They keep the contract\<close>

text \<open>Blocks with different addresses that do not overlap.\<close>

definition apart :: "(nat \<times> nat) set \<Rightarrow> bool" where
  "apart B \<longleftrightarrow> 0 \<notin> fst ` B \<and> inj_on fst B \<and>
     (\<forall>b \<in> B. \<forall>c \<in> B. b \<noteq> c \<longrightarrow> fst b + snd b \<le> fst c \<or> fst c + snd c \<le> fst b)"

definition default_held :: "c_heap \<Rightarrow> (nat \<times> nat) set \<Rightarrow> bool" where
  "default_held h B \<longleftrightarrow> ch_live h = B \<and> apart B"

lemma apart_empty [simp]: "apart {}"
  by (simp add: apart_def)

lemma apart_subset: "apart B \<Longrightarrow> C \<subseteq> B \<Longrightarrow> apart C"
  unfolding apart_def by (meson image_mono inj_on_subset subsetD)

lemma apart_insert:
  assumes a: "apart B" and f: "block_fits B p n"
  shows "apart (insert (p, n) B) \<and> p \<notin> fst ` B"
proof -
  have no: "p \<notin> fst ` B" using f by (force simp: block_fits_def)
  then have "inj_on fst (insert (p, n) B)" using a by (auto simp: apart_def)
  moreover have "0 \<notin> fst ` insert (p, n) B" using a f by (auto simp: apart_def block_fits_def)
  moreover have "fst b + snd b \<le> fst c \<or> fst c + snd c \<le> fst b"
    if "b \<in> insert (p, n) B" "c \<in> insert (p, n) B" "b \<noteq> c" for b c
    using that a f unfolding apart_def block_fits_def by (metis fst_conv insertE snd_conv)
  ultimately show ?thesis using no by (simp add: apart_def)
qed

lemma apart_nonzero: "apart B \<Longrightarrow> b \<in> B \<Longrightarrow> fst b \<noteq> 0"
  by (metis apart_def image_eqI)

lemma apart_unique: "apart B \<Longrightarrow> (p, s) \<in> B \<Longrightarrow> (p, t) \<in> B \<Longrightarrow> s = t"
  using inj_onD [of fst B "(p, s)" "(p, t)"] by (simp add: apart_def)

text \<open>Within \<open>apart\<close> blocks, those not at the address of one are all others.\<close>

lemma apart_others: "apart B \<Longrightarrow> (p, s) \<in> B \<Longrightarrow> {b \<in> B. fst b \<noteq> p} = B - {(p, s)}"
  using apart_unique [of B p] by auto

lemma retry_some: "fst (retry answer i m) = Some p \<Longrightarrow> \<exists>j. answer j = Some p"
  by (induction m arbitrary: i) (auto split: option.splits)

lemma ptr_or_exit_cases:
  "ptr_or_exit (retry answer 0 m) = Inl Exit_Failure \<or> (\<exists>p j. ptr_or_exit (retry answer 0 m) = Inr p \<and> answer j = Some p)"
  using retry_some [of answer 0 m] by (cases "fst (retry answer 0 m)") (auto simp: ptr_or_exit_def)

lemma default_realloc_null: "nt_default_mem_realloc_func h 0 sz = nt_default_mem_malloc_func h 0 sz"
proof -
  have "c_malloc h n = c_realloc h None n" for n by (simp add: c_malloc_def fun_eq_iff)
  then show ?thesis
    by (simp add: nt_default_mem_realloc_func_def nt_default_mem_malloc_func_def nt_realloc2_def nt_malloc2_def old_ptr_def Let_def)
qed

text \<open>A reallocation of \<open>old\<close>, or an allocation when there is none: the blocks but for \<open>old\<close>, and the new one.\<close>

lemma default_take:
  assumes a: "apart (ch_live h)" and old: "old = 0 \<or> old \<in> fst ` ch_live h"
  shows "nt_default_mem_realloc_func h old sz = Some (Inl Out_Of_Memory) \<or>
    (\<exists>h' q. nt_default_mem_realloc_func h old sz = Some (Inr (h', q)) \<and> q \<notin> fst ` {b \<in> ch_live h. fst b \<noteq> old} \<and>
       default_held h' (insert (q, max (unat sz) 1) {b \<in> ch_live h. fst b \<noteq> old}))"
proof -
  let ?n = "max (unat sz) 1" and ?B = "{b \<in> ch_live h. fst b \<noteq> old}"
  have B: "{b \<in> ch_live h. Some (fst b) \<noteq> old_ptr old} = ?B" by (auto simp: old_ptr_def dest: apart_nonzero [OF a])
  have e: "nt_default_mem_realloc_func h old sz = (case ptr_or_exit (retry (c_realloc h (old_ptr old) ?n) 0 10) of
      Inl e \<Rightarrow> Some (Inl Out_Of_Memory) | Inr p \<Rightarrow> Some (Inr (heap_taken h old ?n p, p)))"
    using old by (auto simp: nt_default_mem_realloc_func_def nt_realloc2_def Let_def)
  from ptr_or_exit_cases [of "c_realloc h (old_ptr old) ?n" 10] show ?thesis
  proof (elim disjE exE conjE)
    fix p j
    assume p: "ptr_or_exit (retry (c_realloc h (old_ptr old) ?n) 0 10) = Inr p" "c_realloc h (old_ptr old) ?n j = Some p"
    then have "block_fits ?B p ?n" by (auto simp: c_realloc_def B Let_def split: if_splits)
    from apart_insert [OF apart_subset [OF a] this] have "apart (insert (p, ?n) ?B)" "p \<notin> fst ` ?B" by blast+
    then show ?thesis unfolding e p by (auto simp: default_held_def heap_taken_def)
  qed (simp add: e)
qed

interpretation default_memory: block_memory default_funcs default_held False
proof
  fix h B p s and sz :: u64
  assume h: "default_held h B"
  then have a: "apart B" "ch_live h = B" by (simp_all add: default_held_def)
  show "mf_malloc default_funcs h 0 sz = Some (Inl Out_Of_Memory) \<or>
      (\<exists>h' q t. mf_malloc default_funcs h 0 sz = Some (Inr (h', q)) \<and> q \<notin> fst ` B \<and> unat sz \<le> t \<and>
         default_held h' (insert (q, t) B))"
  proof -
    have "{b \<in> B. fst b \<noteq> 0} = B" using apart_nonzero [OF a(1)] by blast
    then show ?thesis using default_take [of h 0 sz] a by (fastforce simp: default_funcs_def default_realloc_null)
  qed
  assume b: "(p, s) \<in> B"
  then have p: "p \<noteq> 0" "p \<in> fst ` B" using apart_nonzero [OF a(1) b] by force+
  show "p \<noteq> 0 \<and> (\<forall>t. (p, t) \<in> B \<longrightarrow> t = s)" using apart_unique [OF a(1) b] p(1) by blast
  note o = apart_others [OF a(1) b]
  show "mf_realloc default_funcs h p sz \<in> refusals id False \<or>
      (\<exists>h' q t. mf_realloc default_funcs h p sz = Some (Inr (h', q)) \<and> q \<notin> fst ` (B - {(p, s)}) \<and> unat sz \<le> t \<and>
         default_held h' (insert (q, t) (B - {(p, s)})))"
    using default_take [of h p sz] a p(2) unfolding a(2) o by (fastforce simp: default_funcs_def refusals_def)
  show "\<exists>h'. mf_free default_funcs h p = Some (Inr h') \<and> default_held h' (B - {(p, s)})"
    using a p apart_subset [OF a(1), of "B - {(p, s)}"]
    by (simp add: default_funcs_def nt_default_mem_free_func_def default_held_def o)
qed (simp add: default_funcs_def default_realloc_null)

lemma default_owns: "default_memory.owns h N \<longleftrightarrow> apart (ch_live h) \<and> covers (ch_live h) N"
  by (auto simp: default_memory.owns_def default_held_def)

text \<open>The containers of the process.\<close>

interpretation default_set:
  set_memory default_funcs default_held False "\<lambda>d. nt_default_uint64_hash_func (u64_key d)"
    "\<lambda>d e. nt_default_uint64_compare_func (u64_key d) (u64_key e)" u64_key
  by unfold_locales

interpretation default_heap: heap_memory default_funcs default_held False key_order
  by unfold_locales

section \<open>The property\<close>

definition fresh_heap :: "(nat \<Rightarrow> nat \<Rightarrow> nat) \<Rightarrow> c_heap" where
  "fresh_heap answers = \<lparr>ch_live = {}, ch_answers = answers, ch_calls = 0\<rparr>"

text \<open>
  C10: A hash set with the default memory functions, whatever malloc and realloc answer: the blocks in use are at any
  time one for the slots and one for each entry, big enough and apart, and none is left after the set was destroyed.
  No address is freed that is not a block in use; the set ends only when memory was refused ten times
  in a row or the number of its slots makes \<open>next_prime\<close> or the load factor overflow an \<open>int\<close>, and until
  then it is a finite map.
\<close>

theorem hashset_leaks_nothing:
  assumes key: "hash_key hash cmp key" and small: "list_all small_op ops"
  shows "case set_create default_funcs (fresh_heap answers) n hash cmp of
      Some (Inr st) \<Rightarrow>
        (case set_run default_funcs st ops of
           Some (Inr (h, p, hs)) \<Rightarrow>
             apart (ch_live h) \<and> covers (ch_live h) (set_blocks p hs) \<and>
             (\<forall>d. \<exists>r. nt_hashset_search hs d = Inr r \<and>
                map_option hse_data r = foldl (hs_map_exec key) Map.empty (map map_op ops) (key d)) \<and>
             (\<exists>h' hs'. set_destroy default_funcs (h, p, hs) = Some (Inr (h', 0, hs')) \<and> ch_live h' = {})
         | r \<Rightarrow> r \<in> {Some (Inl (Set_Memory Out_Of_Memory)), Some (Inl Slots_Overflow)})
    | r \<Rightarrow> r = Some (Inl (Set_Memory Out_Of_Memory)) \<or> next_prime_chk (int n) = None \<and> r = Some (Inl Slots_Overflow)"
proof -
  note I = set_memory.intro [OF default_memory.block_memory_axioms key]
  have o: "default_memory.owns (fresh_heap answers) []" by (simp add: default_owns covers_nil fresh_heap_def)
  note S = set_memory.set_session [OF I o small, where n = n]
  show ?thesis
  proof (cases "\<exists>st i p hs. set_create default_funcs (fresh_heap answers) n hash cmp = Some (Inr st) \<and>
      set_run default_funcs st ops = Some (Inr (i, p, hs))")
    case True
    then obtain st i p hs where r: "set_create default_funcs (fresh_heap answers) n hash cmp = Some (Inr st)"
      "set_run default_funcs st ops = Some (Inr (i, p, hs))" by blast
    from S show ?thesis unfolding r option.case sum.case prod.case by (simp add: default_owns covers_nil) blast
  next
    case False
    with S show ?thesis by (auto simp: refusals_def split: option.splits sum.splits)
  qed
qed

text \<open>A malloc that always has memory.\<close>

definition demo_answers :: "nat \<Rightarrow> nat \<Rightarrow> nat" where
  "demo_answers c i = 4096 * (c + 1)"

lemma demo_default_returns:
  "\<exists>st. set_run default_funcs (fresh_heap demo_answers, 0, demo_empty) [Set_Insert demo_block] = Some (Inr st)"
proof -
  let ?h = "\<lparr>ch_live = {(4096, 88)}, ch_answers = demo_answers, ch_calls = 1\<rparr>"
  have f: "retry g 0 10 = (Some p, 1)" if "g 0 = Some p" for g :: "nat \<Rightarrow> nat option" and p
    using retry.simps(2) [of g 0 9] that by simp
  have "c_malloc (fresh_heap demo_answers) 88 0 = Some 4096" "c_malloc ?h 21 0 = Some 8192"
    by (simp_all add: c_malloc_def c_realloc_def block_fits_def fresh_heap_def demo_answers_def)
  then have r: "retry (c_malloc (fresh_heap demo_answers) 88) 0 10 = (Some 4096, 1)" "retry (c_malloc ?h 21) 0 10 = (Some 8192, 1)"
    by (blast intro: f)+
  have "nt_default_mem_malloc_func (fresh_heap demo_answers) 0 88 = Some (Inr (?h, 4096))"
    "nt_default_mem_malloc_func ?h 0 21 = Some (Inr (heap_taken ?h 0 21 8192, 8192))"
    using r by (simp_all add: nt_default_mem_malloc_func_def nt_malloc2_def ptr_or_exit_def max_def)
      (simp add: heap_taken_def fresh_heap_def)
  then show ?thesis by (intro demo_set_run [where i = ?h and q = 4096 and b = 8192]) (simp_all add: default_funcs_def)
qed

theorem hashset_leaks_nothing_witness:
  "\<exists>h p hs. set_run default_funcs (fresh_heap demo_answers, 0, demo_empty) [Set_Insert demo_block] = Some (Inr (h, p, hs)) \<and>
     covers (ch_live h) (set_blocks p hs)"
proof -
  have sm: "list_all small_op [Set_Insert demo_block]" by (simp add: demo_block_def)
  have "set_create default_funcs (fresh_heap demo_answers) 0 demo_hash demo_cmp =
      Some (Inr (fresh_heap demo_answers, 0, demo_empty))" by (simp add: set_create_def)
  then show ?thesis
    using hashset_leaks_nothing [OF uint64_blocks.hash_key_axioms sm, where answers = demo_answers and n = 0] demo_default_returns by auto
qed

end
