(* ===== verification/Log_Signals.thy ===== *)
theory Log_Signals
  imports Log_Out Daemon
begin

text \<open>
  The signals that nt_log.c blocks around its lock, and the handlers of nt_phreads.c that log: a
  process whose calls of nt_log are interrupted by signals at any point.
\<close>

section \<open>The mask\<close>

text \<open>The signals a process blocks now, and the static variable \<open>orig_mask\<close> of nt_log.c.\<close>

record log_masks =
  lm_blocked :: "signal set"
  lm_orig :: "signal set"

definition log_signals :: "signal set" where
  "log_signals = {SIGUSR1, SIGUSR2, SIGTERM, SIGINT, SIGQUIT, SIGHUP}"

text \<open>\<open>sigprocmask\<close> does not fail for these arguments.\<close>

definition lock_log_mask :: "log_masks \<Rightarrow> log_masks" where
  "lock_log_mask k = k\<lparr>lm_orig := lm_blocked k, lm_blocked := lm_blocked k \<union> log_signals\<rparr>"

definition unlock_log_mask :: "log_masks \<Rightarrow> log_masks" where
  "unlock_log_mask k = k\<lparr>lm_blocked := lm_orig k\<rparr>"

section \<open>A process that is interrupted\<close>

text \<open>
  The stack of a process: the main program at the bottom, above it the handlers that interrupted each
  other. \<open>lf_base\<close> is the mask a frame starts with, \<open>lf_saved\<close> the one the kernel restores when it
  returns; a handler may log if it is terminate_signal_handler.
\<close>

datatype log_phase = Outside | Masked | Holding | Released

record log_frame =
  lf_phase :: log_phase
  lf_may_log :: bool
  lf_base :: "signal set"
  lf_saved :: "signal set"

record log_process =
  lp_frames :: "log_frame list"
  lp_masks :: log_masks
  lp_pending :: "signal set"
  lp_sems :: sem_world

definition main_frame :: "signal set \<Rightarrow> log_frame" where
  "main_frame M = \<lparr>lf_phase = Outside, lf_may_log = True, lf_base = M, lf_saved = M\<rparr>"

definition handler_frame :: "handler \<Rightarrow> signal \<Rightarrow> signal set \<Rightarrow> log_frame" where
  "handler_frame h sig blocked =
     \<lparr>lf_phase = Outside, lf_may_log = (h = Terminate_Handler), lf_base = insert sig blocked, lf_saved = blocked\<rparr>"

text \<open>
  One step: of the top frame (lock_log masks, then takes the lock; unlock_log releases it, then restores the
  mask), of a signal that arrives or is handled, of a handler that returns, or of another process.
\<close>

inductive log_sig_step ::
  "(signal \<Rightarrow> handler) \<Rightarrow> process \<Rightarrow> lock_vars \<Rightarrow> log_process \<Rightarrow> log_process \<Rightarrow> bool"
  for h :: "signal \<Rightarrow> handler" and p :: process and v :: lock_vars where
  log_mask: "lp_frames s = f # fs \<Longrightarrow> lf_phase f = Outside \<Longrightarrow> lf_may_log f \<Longrightarrow>
    log_sig_step h p v s (s\<lparr>lp_frames := f\<lparr>lf_phase := Masked\<rparr> # fs, lp_masks := lock_log_mask (lp_masks s)\<rparr>)"
| log_take: "lp_frames s = f # fs \<Longrightarrow> lf_phase f = Masked \<Longrightarrow> nt_mutex_lock p v 0 (lp_sems s) = Lock_Done w \<Longrightarrow>
    log_sig_step h p v s (s\<lparr>lp_frames := f\<lparr>lf_phase := Holding\<rparr> # fs, lp_sems := w\<rparr>)"
| log_release: "lp_frames s = f # fs \<Longrightarrow> lf_phase f = Holding \<Longrightarrow> nt_mutex_unlock p v 0 (lp_sems s) = Lock_Done w \<Longrightarrow>
    log_sig_step h p v s (s\<lparr>lp_frames := f\<lparr>lf_phase := Released\<rparr> # fs, lp_sems := w\<rparr>)"
| log_restore: "lp_frames s = f # fs \<Longrightarrow> lf_phase f = Released \<Longrightarrow>
    log_sig_step h p v s (s\<lparr>lp_frames := f\<lparr>lf_phase := Outside\<rparr> # fs, lp_masks := unlock_log_mask (lp_masks s)\<rparr>)"
| sig_arrive: "log_sig_step h p v s (s\<lparr>lp_pending := insert sig (lp_pending s)\<rparr>)"
| sig_handle: "sig \<in> lp_pending s \<Longrightarrow> sig \<notin> lm_blocked (lp_masks s) \<Longrightarrow>
    log_sig_step h p v s (s\<lparr>lp_frames := handler_frame (h sig) sig (lm_blocked (lp_masks s)) # lp_frames s,
      lp_masks := (lp_masks s)\<lparr>lm_blocked := insert sig (lm_blocked (lp_masks s))\<rparr>,
      lp_pending := lp_pending s - {sig}\<rparr>)"
| sig_return: "lp_frames s = f # g # fs \<Longrightarrow> lf_phase f = Outside \<Longrightarrow>
    log_sig_step h p v s (s\<lparr>lp_frames := g # fs, lp_masks := (lp_masks s)\<lparr>lm_blocked := lf_saved f\<rparr>\<rparr>)"
| other_process: "log_sig_step h p v s (s\<lparr>lp_sems := w\<rparr>)"

definition log_started :: "signal set \<Rightarrow> signal set \<Rightarrow> sem_world \<Rightarrow> log_process" where
  "log_started M orig w =
     \<lparr>lp_frames = [main_frame M], lp_masks = \<lparr>lm_blocked = M, lm_orig = orig\<rparr>, lp_pending = {}, lp_sems = w\<rparr>"

section \<open>The invariant\<close>

abbreviation in_log :: "log_frame \<Rightarrow> bool" where
  "in_log f \<equiv> lf_phase f \<noteq> Outside"

text \<open>The mask while a frame is on top.\<close>

definition frame_mask :: "log_frame \<Rightarrow> signal set" where
  "frame_mask f = (if in_log f then lf_base f \<union> log_signals else lf_base f)"

fun frames_ok :: "signal set \<Rightarrow> log_frame list \<Rightarrow> bool" where
  "frames_ok M [] = False"
| "frames_ok M [f] = (lf_base f = M \<and> lf_may_log f)"
| "frames_ok M (f # g # fs) =
     (lf_saved f = frame_mask g \<and> lf_saved f \<subseteq> lf_base f \<and> (lf_may_log f \<longrightarrow> \<not> log_signals \<subseteq> lf_saved f) \<and>
      (lf_may_log f \<or> \<not> in_log f) \<and> frames_ok M (g # fs))"

definition log_inv :: "signal set \<Rightarrow> log_process \<Rightarrow> bool" where
  "log_inv M s \<longleftrightarrow> frames_ok M (lp_frames s) \<and> lm_blocked (lp_masks s) = frame_mask (hd (lp_frames s)) \<and>
     (\<forall>f \<in> set (lp_frames s). in_log f \<longrightarrow> lm_orig (lp_masks s) = lf_base f)"

lemma frame_mask_phase [simp]:
  "frame_mask (f\<lparr>lf_phase := Outside\<rparr>) = lf_base f"
  "x \<noteq> Outside \<Longrightarrow> frame_mask (f\<lparr>lf_phase := x\<rparr>) = lf_base f \<union> log_signals"
  by (simp_all add: frame_mask_def)

lemma frame_mask_outside: "lf_phase f = Outside \<Longrightarrow> frame_mask f = lf_base f"
  by (simp add: frame_mask_def)

lemma frame_mask_in: "in_log f \<Longrightarrow> frame_mask f = lf_base f \<union> log_signals"
  by (simp add: frame_mask_def)

text \<open>A frame above one that is in a log call cannot log, for its mask covers the signals of the log.\<close>

lemma covered:
  "frames_ok M (f # fs) \<Longrightarrow> \<exists>g \<in> set (f # fs). in_log g \<Longrightarrow> log_signals \<subseteq> frame_mask f"
proof (induction fs arbitrary: f)
  case (Cons g fs)
  show ?case
  proof (cases "in_log f")
    case False
    then have "log_signals \<subseteq> frame_mask g" using Cons by auto
    then show ?thesis using Cons.prems(1) False by (auto simp: frame_mask_def)
  qed (simp add: frame_mask_def)
qed (auto simp: frame_mask_def)

lemma above_quiet:
  assumes "frames_ok M (f # fs)" "\<exists>g \<in> set fs. in_log g"
  shows "\<not> lf_may_log f \<and> \<not> in_log f"
proof (cases fs)
  case (Cons g gs)
  then have "log_signals \<subseteq> lf_saved f" using covered [of M g gs] assms by auto
  then show ?thesis using assms(1) Cons by auto
qed (use assms in simp)

lemma frames_ok_phase:
  "frames_ok M (f # fs) \<Longrightarrow> lf_may_log f \<Longrightarrow> frames_ok M (f\<lparr>lf_phase := x\<rparr> # fs)"
  by (cases fs) auto

lemma log_step_inv:
  assumes "log_sig_step h p v s t" and h: "\<And>sig. h sig = Terminate_Handler \<Longrightarrow> sig \<in> log_signals"
  shows "log_inv M s \<Longrightarrow> log_inv M t"
  using assms(1)
proof cases
  case (log_mask f fs)
  assume i: "log_inv M s"
  then have fo: "frames_ok M (f # fs)" using log_mask by (simp add: log_inv_def)
  have "\<not> (\<exists>g \<in> set fs. in_log g)" using above_quiet [OF fo] log_mask by blast
  then show ?thesis
    using i log_mask frames_ok_phase [OF fo] by (auto simp: log_inv_def lock_log_mask_def frame_mask_outside)
next
  case (log_take f fs w)
  assume i: "log_inv M s"
  then have fo: "frames_ok M (f # fs)" using log_take by (simp add: log_inv_def)
  then have "lf_may_log f" using log_take by (cases fs) auto
  then show ?thesis
    using i log_take frames_ok_phase [OF fo] by (auto simp: log_inv_def frame_mask_in)
next
  case (log_release f fs w)
  assume i: "log_inv M s"
  then have fo: "frames_ok M (f # fs)" using log_release by (simp add: log_inv_def)
  then have "lf_may_log f" using log_release by (cases fs) auto
  then show ?thesis
    using i log_release frames_ok_phase [OF fo] by (auto simp: log_inv_def frame_mask_in)
next
  case (log_restore f fs)
  assume i: "log_inv M s"
  then have fo: "frames_ok M (f # fs)" using log_restore by (simp add: log_inv_def)
  then have "lf_may_log f" using log_restore by (cases fs) auto
  then show ?thesis
    using i log_restore frames_ok_phase [OF fo] by (auto simp: log_inv_def unlock_log_mask_def)
next
  case (sig_handle sig)
  assume i: "log_inv M s"
  obtain f fs where f: "lp_frames s = f # fs" using i by (cases "lp_frames s") (auto simp: log_inv_def)
  have b: "lm_blocked (lp_masks s) = frame_mask f" using i f by (simp add: log_inv_def)
  have "h sig = Terminate_Handler \<Longrightarrow> \<not> log_signals \<subseteq> frame_mask f" using h sig_handle b by blast
  then show ?thesis
    using i f b unfolding sig_handle by (auto simp: log_inv_def handler_frame_def frame_mask_def)
next
  case (sig_return f g fs)
  then show "log_inv M s \<Longrightarrow> ?thesis" by (auto simp: log_inv_def)
qed (simp_all add: log_inv_def)

lemma log_started_inv: "log_inv M (log_started M orig w)"
  by (simp add: log_inv_def log_started_def main_frame_def frame_mask_def)

lemma log_steps_inv:
  assumes "(log_sig_step h p v)\<^sup>*\<^sup>* (log_started M orig w) s" "\<And>sig. h sig = Terminate_Handler \<Longrightarrow> sig \<in> log_signals"
  shows "log_inv M s"
  using assms(1) by (induction rule: rtranclp_induct) (use log_started_inv log_step_inv [OF _ assms(2)] in blast)+

lemma one_in_log: "frames_ok M fs \<Longrightarrow> length (filter in_log fs) \<le> 1"
proof (induction fs)
  case (Cons f fs)
  show ?case
  proof (cases "\<exists>g \<in> set fs. in_log g")
    case True
    then have "\<not> in_log f" "frames_ok M fs" using above_quiet [OF Cons.prems] Cons.prems by (cases fs; auto)+
    then show ?thesis using Cons.IH by simp
  next
    case False
    then have "filter in_log fs = []" by (simp add: filter_empty_conv)
    then show ?thesis by simp
  qed
qed simp

lemma quiet_above: "frames_ok M (fs @ f # gs) \<Longrightarrow> in_log f \<Longrightarrow> g \<in> set fs \<Longrightarrow> \<not> lf_may_log g"
proof (induction fs)
  case (Cons k fs)
  have e: "\<exists>g \<in> set (fs @ f # gs). in_log g" using Cons.prems(2) by auto
  have "\<not> lf_may_log k" using above_quiet [OF Cons.prems(1) [unfolded append_Cons] e] by blast
  moreover have "frames_ok M (fs @ f # gs)" using Cons.prems(1) by (cases "fs @ f # gs") auto
  ultimately show ?case using Cons by auto
qed simp

text \<open>The handlers of the daemon that log.\<close>

lemma daemon_terminate_signals:
  assumes "daemon_start os d allow_root flags = Runs_As uid q" "\<And>sig. pc_handlers d sig \<noteq> Terminate_Handler"
    "pc_handlers q sig = Terminate_Handler"
  shows "sig \<in> {SIGINT, SIGQUIT, SIGTERM}"
  using assms
  by (auto simp: daemon_start_def nt_set_common_signal_handlers_def set_daemon_signal_handlers_def nt_set_child_signal_handler_def
      set_handler_def Let_def split: sum.splits if_splits)

text \<open>
  C21: In a daemon that is interrupted by signals at any point of its calls of nt_log, handlers interrupting handlers, at
  most one call is inside the log at a time, and no handler that runs above it can log: the process never waits for
  its own log lock. The signals whose handlers log stay blocked for as long as a call is inside the log, and back in the
  main program the mask is the one it started with, although \<open>orig_mask\<close> is one static variable.
\<close>

theorem log_never_reentered:
  assumes d: "daemon_start os d allow_root flags = Runs_As uid q" "\<And>sig. pc_handlers d sig \<noteq> Terminate_Handler"
    and run: "(log_sig_step (pc_handlers q) p v)\<^sup>*\<^sup>* (log_started M orig w) s"
  shows "length (filter in_log (lp_frames s)) \<le> 1 \<and>
    (\<forall>fs f gs. lp_frames s = fs @ f # gs \<and> in_log f \<longrightarrow>
       (\<forall>g \<in> set fs. \<not> lf_may_log g) \<and> log_signals \<subseteq> lm_blocked (lp_masks s)) \<and>
    (\<forall>f. lp_frames s = [f] \<and> \<not> in_log f \<longrightarrow> lm_blocked (lp_masks s) = M)"
proof -
  have "log_inv M s"
    by (rule log_steps_inv [OF run]) (use daemon_terminate_signals [OF d] in \<open>auto simp: log_signals_def\<close>)
  then have i: "frames_ok M (lp_frames s)" "lm_blocked (lp_masks s) = frame_mask (hd (lp_frames s))"
    by (simp_all add: log_inv_def)
  have "log_signals \<subseteq> lm_blocked (lp_masks s)" if f: "lp_frames s = fs @ f # gs" "in_log f" for fs f gs
  proof -
    have "lp_frames s \<noteq> []" using f(1) by simp
    then obtain k ks where k: "lp_frames s = k # ks" by (meson neq_Nil_conv)
    have "f \<in> set (lp_frames s)" using f(1) by simp
    then have "\<exists>g \<in> set (k # ks). in_log g" using f(2) k by auto
    then show ?thesis using covered [of M k ks] i k by simp
  qed
  then show ?thesis using one_in_log [OF i(1)] quiet_above [of M] i by (auto simp: frame_mask_outside)
qed

text \<open>The main program holds the lock when an alarm arrives and is handled.\<close>

lemma demo_interrupted:
  "\<exists>s. (log_sig_step h 1 demo_vars)\<^sup>*\<^sup>* (log_started {} {} demo_world) s \<and>
     lp_frames s = [handler_frame (h SIGALRM) SIGALRM log_signals, (main_frame {})\<lparr>lf_phase := Holding\<rparr>]"
proof -
  let ?step = "log_sig_step h 1 demo_vars" and ?f = "(main_frame {})\<lparr>lf_phase := Masked\<rparr>"
  define s0 where "s0 = log_started {} {} demo_world"
  obtain w where w: "nt_mutex_lock 1 demo_vars 0 demo_world = Lock_Done w"
    by (simp add: nt_mutex_lock_def semop_def sem_num_def demo_vars_def demo_world_def NT_MUTEX_NULL_def SEMVMX_def)
  have f0: "lp_frames s0 = [main_frame {}]" "lp_sems s0 = demo_world" "lm_blocked (lp_masks s0) = {}"
    by (simp_all add: s0_def log_started_def)
  define s1 where "s1 = s0\<lparr>lp_frames := [?f], lp_masks := lock_log_mask (lp_masks s0)\<rparr>"
  have 1: "?step s0 s1" unfolding s1_def by (rule log_sig_step.log_mask [OF f0(1)]) (simp_all add: main_frame_def)
  have f1: "lp_frames s1 = [?f]" "lp_sems s1 = demo_world" "lm_blocked (lp_masks s1) = log_signals"
    by (simp_all add: s1_def f0 lock_log_mask_def)
  define s2 where "s2 = s1\<lparr>lp_frames := [?f\<lparr>lf_phase := Holding\<rparr>], lp_sems := w\<rparr>"
  have 2: "?step s1 s2" unfolding s2_def by (rule log_sig_step.log_take [OF f1(1)]) (simp_all add: f1 w [simplified])
  define s3 where "s3 = s2\<lparr>lp_pending := insert SIGALRM (lp_pending s2)\<rparr>"
  have 3: "?step s2 s3" unfolding s3_def by (rule log_sig_step.sig_arrive)
  have f3: "lp_frames s3 = [?f\<lparr>lf_phase := Holding\<rparr>]" "lm_blocked (lp_masks s3) = log_signals" "SIGALRM \<in> lp_pending s3"
    by (simp_all add: s3_def s2_def f1)
  have n: "SIGALRM \<notin> lm_blocked (lp_masks s3)" by (simp add: f3(2) log_signals_def)
  define s4 where "s4 = s3\<lparr>lp_frames := handler_frame (h SIGALRM) SIGALRM (lm_blocked (lp_masks s3)) # lp_frames s3,
      lp_masks := (lp_masks s3)\<lparr>lm_blocked := insert SIGALRM (lm_blocked (lp_masks s3))\<rparr>,
      lp_pending := lp_pending s3 - {SIGALRM}\<rparr>"
  have 4: "?step s3 s4" unfolding s4_def by (rule log_sig_step.sig_handle [OF f3(3) n])
  have "?step\<^sup>*\<^sup>* s0 s1" using 1 by (rule r_into_rtranclp)
  from this 2 have "?step\<^sup>*\<^sup>* s0 s2" by (rule rtranclp.rtrancl_into_rtrancl)
  from this 3 have "?step\<^sup>*\<^sup>* s0 s3" by (rule rtranclp.rtrancl_into_rtrancl)
  from this 4 have "?step\<^sup>*\<^sup>* s0 s4" by (rule rtranclp.rtrancl_into_rtrancl)
  moreover have "lp_frames s4 = [handler_frame (h SIGALRM) SIGALRM log_signals, (main_frame {})\<lparr>lf_phase := Holding\<rparr>]"
    by (simp add: s4_def f3)
  ultimately show ?thesis unfolding s0_def by blast
qed

theorem log_never_reentered_witness:
  "\<exists>q s. daemon_start demo_daemon_answers demo_process 0 0 = Runs_As 7 q \<and>
     (log_sig_step (pc_handlers q) 1 demo_vars)\<^sup>*\<^sup>* (log_started {} {} demo_world) s \<and> length (lp_frames s) = 2 \<and>
     log_signals \<subseteq> lm_blocked (lp_masks s)"
proof -
  obtain q where q: "daemon_start demo_daemon_answers demo_process 0 0 = Runs_As 7 q" using demo_daemon by blast
  have n: "pc_handlers demo_process sig \<noteq> Terminate_Handler" for sig by (simp add: demo_process_def)
  obtain s where s: "(log_sig_step (pc_handlers q) 1 demo_vars)\<^sup>*\<^sup>* (log_started {} {} demo_world) s"
      "lp_frames s = [handler_frame (pc_handlers q SIGALRM) SIGALRM log_signals] @ (main_frame {})\<lparr>lf_phase := Holding\<rparr> # []"
    using demo_interrupted [of "pc_handlers q"] by auto
  have "in_log ((main_frame {})\<lparr>lf_phase := Holding\<rparr>)" by simp
  with conjunct1 [OF conjunct2 [OF log_never_reentered [OF q n s(1)]]] s(2)
  have "log_signals \<subseteq> lm_blocked (lp_masks s)" by blast
  then show ?thesis using q s by (intro exI conjI) simp_all
qed

end
