(* ===== verification/Common_Fmt.thy ===== *)
theory Common_Fmt
  imports Common_Str
begin

text \<open>
  The functions of common.c and nt_log.c that format into a buffer, on top of nt_vsnprintf and nt_dvsprintf:
  \<open>text\<close> is what the format and its arguments print, and vsnprintf is the one of C99.
\<close>

section \<open>The functions\<close>

text \<open>
  The C99 vsnprintf: what fits and a zero byte, unless the size is 0; the answer is the whole length.
\<close>

definition vsnprintf_c99 :: "u8 list \<Rightarrow> u8 list \<Rightarrow> nat \<Rightarrow> u8 list \<times> int" where
  "vsnprintf_c99 text str cnt =
     (if cnt = 0 then str else take (cnt - 1) text @ [0] @ drop (min (length text) (cnt - 1) + 1) str, int (length text))"

definition nt_snprintf :: "u8 list \<Rightarrow> u8 list \<Rightarrow> nat \<Rightarrow> str_error + (u8 list \<times> nat)" where
  "nt_snprintf text str cnt = nt_vsnprintf (vsnprintf_c99 text str cnt) str cnt"

text \<open>nt_dvsprintf with the bytes it prints; \<open>junk\<close> are the uninitialised ones of the last buffer.\<close>

definition dvsprintf_text :: "(nat \<Rightarrow> u8) \<Rightarrow> u8 list \<Rightarrow> (str_error + u8 list) option" where
  "dvsprintf_text junk text =
     (case nt_dvsprintf (\<lambda>_. int (length text)) of
        None \<Rightarrow> None
      | Some (Inl e) \<Rightarrow> Some (Inl e)
      | Some (Inr sz) \<Rightarrow> Some (Inr (fst (vsnprintf_c99 text (map junk [0..<nat sz]) (nat sz)))))"

text \<open>The old string is freed, after the arguments were printed; it may be one of them.\<close>

definition nt_dsprintf :: "(nat \<Rightarrow> u8) \<Rightarrow> u8 list option \<Rightarrow> u8 list \<Rightarrow> (str_error + u8 list) option" where
  "nt_dsprintf junk dest text = dvsprintf_text junk text"

definition nt_strdcatf ::
  "(nat \<Rightarrow> bool) \<Rightarrow> (nat \<Rightarrow> u8) \<Rightarrow> u8 list option \<Rightarrow> u8 list \<Rightarrow> (str_error + u8 list option) option" where
  "nt_strdcatf alloc_ok junk dest text =
     (case dvsprintf_text junk text of
        None \<Rightarrow> None
      | Some (Inl e) \<Rightarrow> Some (Inl e)
      | Some (Inr s) \<Rightarrow> Some (nt_strdcat alloc_ok junk dest (Some s)))"

text \<open>What \<open>%d\<close> prints.\<close>

fun decimal_nat :: "nat \<Rightarrow> u8 list" where
  "decimal_nat n = (if n < 10 then [48 + of_nat n] else decimal_nat (n div 10) @ [48 + of_nat (n mod 10)])"

declare decimal_nat.simps [simp del]

definition decimal :: "int \<Rightarrow> u8 list" where
  "decimal i = (if i < 0 then [45] else []) @ decimal_nat (nat \<bar>i\<bar>)"

definition NT_MESSAGE_BUF_SIZE :: nat where
  "NT_MESSAGE_BUF_SIZE = 1024"

text \<open>The static buffer of nt_strerror is its state; \<open>strerror\<close> is the C function.\<close>

definition nt_strerror :: "(int \<Rightarrow> u8 list) \<Rightarrow> u8 list \<Rightarrow> int \<Rightarrow> str_error + u8 list" where
  "nt_strerror strerror utf8_string errnum =
     map_sum id fst (nt_snprintf ([91] @ decimal errnum @ [93, 32] @ strerror errnum) utf8_string NT_MESSAGE_BUF_SIZE)"

text \<open>Its argument is not used, but \<open>errno\<close>.\<close>

definition strerror_from_system :: "(int \<Rightarrow> u8 list) \<Rightarrow> int \<Rightarrow> u8 list \<Rightarrow> int \<Rightarrow> str_error + u8 list" where
  "strerror_from_system strerror errno utf8_string error = nt_strerror strerror utf8_string errno"

section \<open>What they print\<close>

lemma snprintf_cut:
  assumes "0 < cnt" "cnt \<le> length str"
  shows "nt_snprintf text str cnt = Inr (cut_into cnt text str, min (length text) (cnt - 1))"
proof -
  have m: "min (int (length text)) (int cnt - 1) = int (min (length text) (cnt - 1))" using assms(1) by simp
  have l: "length (take (cnt - 1) text) = min (length text) (cnt - 1)" by simp
  have "(take (cnt - 1) text @ [0] @ drop (min (length text) (cnt - 1) + 1) str)[min (length text) (cnt - 1) := 0] =
      take (cnt - 1) text @ [0] @ drop (min (length text) (cnt - 1) + 1) str"
    unfolding l [symmetric] by (simp add: list_update_append)
  then show ?thesis
    using assms m by (simp add: nt_snprintf_def nt_vsnprintf_def vsnprintf_c99_def cut_into_def min_def)
qed

lemma dvsprintf_text_ok:
  assumes "0 \<notin> set text" "int (length text) * 3 \<le> INT_MAX"
  shows "\<exists>s. dvsprintf_text junk text = Some (Inr s) \<and> c_string s = Some text"
proof -
  define sz where "sz = (if int (length text) < 1024 then 1024 else int (length text) + 1)"
  have "nt_dvsprintf (\<lambda>_. int (length text)) = Some (Inr sz)"
    using assms(2) unfolding nt_dvsprintf_def sz_def
    by (subst dvsprintf_loop.simps, subst dvsprintf_loop.simps) (simp add: Let_def INT_MAX_def)
  then have sz: "nt_dvsprintf (\<lambda>_. int (length text)) = Some (Inr sz)" "int (length text) < sz" by (simp_all add: sz_def)
  have "length text \<le> nat sz - 1" "nat sz \<noteq> 0" using sz(2) by linarith+
  then show ?thesis using sz(1) assms(1) by (simp add: dvsprintf_text_def vsnprintf_c99_def c_string_append)
qed

lemma decimal_nonzero: "0 \<notin> set (decimal i)"
proof -
  have d: "48 + word_of_nat k \<noteq> (0 :: u8)" if "k < 10" for k
  proof -
    have "unat (word_of_nat (48 + k) :: u8) = 48 + k" using that by (intro unat_of_nat_small) simp
    then show ?thesis by (metis add_is_0 of_nat_add of_nat_numeral unat_0 zero_neq_numeral)
  qed
  have "0 \<notin> set (decimal_nat n)" for n
    by (induction n rule: decimal_nat.induct) (subst decimal_nat.simps, use d in auto)
  then show ?thesis by (simp add: decimal_def)
qed

text \<open>
  The formatting functions print the whole text and append it to a string, and the message of an error is
  cut to its buffer.
\<close>

theorem formatted_strings:
  assumes t: "0 \<notin> set text" "int (length text) * 3 \<le> INT_MAX" and d: "c_string dest = Some a" and ok: "alloc_ok 0"
    and e: "0 \<notin> set (strerror errnum)" and b: "length buf = NT_MESSAGE_BUF_SIZE"
  shows "(\<exists>s. nt_dsprintf junk old text = Some (Inr s) \<and> c_string s = Some text) \<and>
    (\<exists>s. nt_strdcatf alloc_ok junk (Some dest) text = Some (Inr (Some s)) \<and> c_string s = Some (a @ text)) \<and>
    (\<exists>s. nt_strerror strerror buf errnum = Inr s \<and> length s = NT_MESSAGE_BUF_SIZE \<and>
       c_string s = Some (take 1023 ([91] @ decimal errnum @ [93, 32] @ strerror errnum)))"
proof (intro conjI)
  obtain s where s: "dvsprintf_text junk text = Some (Inr s)" "c_string s = Some text" using dvsprintf_text_ok [OF t] by blast
  then show "\<exists>s. nt_dsprintf junk old text = Some (Inr s) \<and> c_string s = Some text" by (simp add: nt_dsprintf_def)
  have "length text + 1 < 2 ^ 64" using t(2) by (simp add: INT_MAX_def)
  from strdcat_correct [where alloc_ok = alloc_ok, OF d s(2) ok this, of junk] s(1)
  show "\<exists>s. nt_strdcatf alloc_ok junk (Some dest) text = Some (Inr (Some s)) \<and> c_string s = Some (a @ text)"
    by (auto simp: nt_strdcatf_def)
  let ?t = "[91] @ decimal errnum @ [93, 32] @ strerror errnum"
  have "0 \<notin> set ?t" using e decimal_nonzero by simp
  from cut_into_props [OF this, of 1024 buf] b
  show "\<exists>s. nt_strerror strerror buf errnum = Inr s \<and> length s = NT_MESSAGE_BUF_SIZE \<and> c_string s = Some (take 1023 ?t)"
    using snprintf_cut [of 1024 buf ?t] by (simp add: nt_strerror_def NT_MESSAGE_BUF_SIZE_def)
qed

theorem formatted_strings_witness:
  "\<exists>s. nt_strdcatf (\<lambda>_. True) (\<lambda>_. 7) (Some [65, 0]) [66, 67] = Some (Inr (Some s)) \<and> c_string s = Some [65, 66, 67]"
  using formatted_strings [of "[66, 67]" "[65, 0]" "[65]" "\<lambda>_. True" "\<lambda>_. [69]" 2 "replicate 1024 0" "\<lambda>_. 7" None]
  by (simp add: NT_MESSAGE_BUF_SIZE_def INT_MAX_def)

end
