(* ===== verification/Spec2Isabelle.thy ===== *)
theory Spec2Isabelle
  imports Prelude Algo_Num Algo_Hash Compare Hashmap Binary_Heap Mem_Props
    Cycle_Props Hashset_Spec Ptcl Ddl_Props Common_Str Common_Time Net Shm_Props Daemon Fatal
    Set_Segment Heap_Memory Map_Memory Default_Memory Log_Signals Common_Fmt
begin

text \<open>
  A verification library for nt_shm, a C library and server for programs that share memory.

  \<^bold>\<open>The program.\<close> nt_algodefs.c gives hash, comparison and numeric functions; nt_hashmap.c,
  hashset.c and nt_binaryheap.c build a hash map, a hash set and a min-heap on them (the heap's
  optional index is a hash map). nt_mem.c is an allocator inside one shared memory segment; its
  functions are the memory functions of the containers that nt_shm.c keeps in shared memory, and
  nt_mutexs.c gives the locks (semaphores) of the processes that use them, the log of nt_log.c
  included. nt_phreads.c turns a process into a daemon, fork and signal handling included.
  nt_socket.c is a server that puts what its clients send into the task ring of nt_cycle.c, a
  bounded queue in shared memory. nt_ptcl.c builds and checks frames and has a SHA-1. ddl.c is a
  linked list, common.c holds string, allocation and time helpers, fatal.c the crash report.

  \<^bold>\<open>The containers.\<close>
  \<^item> \<open>Prelude\<close>: machine integers, rule collections, list and word lemmas.
  \<^item> \<open>Algo_Num\<close>: \<open>is_prime\<close> and \<open>next_prime\<close> of nt_algodefs.c on a 32-bit \<open>int\<close> with its overflow
    (\<open>is_prime_chk\<close>, \<open>next_prime_chk\<close>) and on unbounded integers, and \<open>nt_isqrt32\<close>.
  \<^item> \<open>Algo_Hash\<close>: the hash functions of nt_algodefs.c and \<open>MurmurHash64A\<close> (nt_hashmap.c) on byte
    lists.
  \<^item> \<open>Compare\<close>: the comparison functions (nt_algodefs.c, nt_algo.h) and the locales of their
    contracts: \<open>key_compare\<close> (0 exactly on equal arguments), \<open>total_compare\<close>, \<open>linear_compare\<close>.
  \<^item> \<open>Hashmap\<close>: nt_hashmap.c. A slot is an optional entry list with its allocated size; the
    locale \<open>map_store\<close> is the contract of a finite map, interpreted on the hash map. The invariant
    \<open>hm_inv\<close> is kept by every operation, and each is the operation on the finite map \<open>hm_alpha\<close>.
  \<^item> \<open>Hashset\<close>, \<open>Hashset_Props\<close>, \<open>Hashset_Spec\<close>: hashset.c. A chain is the list of its entries
    with their addresses; the locale \<open>hash_key\<close> is what hash and comparison must agree on. The
    set refines a map from keys to blocks; iteration with removal visits everything once.
  \<^item> \<open>Binary_Heap\<close>: nt_binaryheap.c over an element array; an \<open>exit\<close> is a \<open>heap_error\<close>. The locale
    \<open>elem_compare\<close> is what the heap needs of its comparison, \<open>min_queue\<close> the contract it gives.
  \<^item> \<open>Ddl\<close>, \<open>Ddl_Props\<close>: ddl.c on a heap of nodes, abstracted to a list, and the calls that break
    it.

  \<^bold>\<open>Shared memory and concurrency.\<close>
  \<^item> \<open>Mem\<close>: nt_mem.c. The segment is an array of 8-byte cells; headers, flags and list pointers
    are cell values as in the code. \<open>Mem_Layout\<close> says when cells hold a row of chunks and 30
    bucket lists, \<open>Mem_Correct\<close> and \<open>Mem_Free\<close> show that each step of the operations keeps it,
    \<open>Mem_Api\<close> abstracts to the sets of held and free chunks, \<open>Mem_Spec\<close> covers creation, clearing
    and statistics, \<open>Mem_Room\<close> when an allocation cannot fail, \<open>Mem_Session\<close> sequences of client
    operations, \<open>Mem_Props\<close> the properties: a client's blocks are disjoint, in bounds and keep
    their contents; allocation fails only when no chunk fits; free chunks are always coalesced.
  \<^item> \<open>Set_Memory\<close>, \<open>Set_Segment\<close>, \<open>Heap_Memory\<close>, \<open>Map_Memory\<close>: the hash set, the heap and the hash map
    with the calls of their memory functions. The locale \<open>block_memory\<close> is what a container needs
    of those functions; it is interpreted on a segment, so that a container in a segment holds
    exactly its blocks, gives all of them back, and is otherwise the container of unlimited memory.
    A reallocation that moves a block copies it through a buffer from malloc; an oracle says for
    every reallocation whether malloc has that buffer, and its refusal is one of the exits.
    \<open>Default_Memory\<close>: the memory functions of nt_algodefs.c, which keep the same contract whatever
    malloc answers, so that no container leaks or frees twice.
  \<^item> \<open>Cycle\<close>, \<open>Cycle_Inv\<close>, \<open>Cycle_Props\<close>: nt_cycle.c, a call at a time and split into atomic
    actions for any number of threads. Tasks come out in order, none lost, and no deadlock, as
    long as waits are not interrupted and all users have the same mapping; both conditions are
    shown to be needed. The locale \<open>bounded_queue\<close> is its contract.
  \<^item> \<open>Mutexs\<close>: nt_mutexs.c (the semaphore variant) on semaphore sets with \<open>SEM_UNDO\<close>, and the
    processes that lock, unlock, fork and end as a step relation: mutual exclusion.
  \<^item> \<open>Shm\<close>, \<open>Shm_Props\<close>: nt_shm.c, the composition of allocator, containers and locks: the setup
    of all caches succeeds in segments of the sizes the code asks for; what \<open>main\<close> does.

  \<^bold>\<open>The server.\<close>
  \<^item> \<open>Net\<close>: nt_socket.c, its address check with the overflow of its \<open>int\<close>, its command line and its
    event loop with the set of open descriptors and the ring, tracing of what it receives included.
  \<^item> \<open>Daemon\<close>: nt_phreads.c, \<open>get_signal_name\<close> (fatal.c) and the exit hook of common.c: signal
    handlers, becoming a daemon, dropping root, and the PID file call by call for processes that
    interleave.
  \<^item> \<open>Log\<close>, \<open>Log_Out\<close>: nt_log.c, levels, rotation, redirection, and nt_log for all channels
    with its lock; what is kept of the log when renaming succeeds, and what is lost when it fails. \<open>Log_Signals\<close>: the signal mask around that lock, in a process whose handlers
    interrupt it and each other at any point.
  \<^item> \<open>Ptcl\<close>: the frames of nt_ptcl.c; \<open>Sha1\<close>, \<open>Sha1_Correct\<close>, \<open>Sha1_Stream\<close>: its SHA-1, proved to
    be the function of FIPS 180-4 for messages shorter than 2^61 bytes.
  \<^item> \<open>Common_Str\<close>, \<open>Common_Fmt\<close>, \<open>Common_Time\<close>: the string, allocation, formatting and time
    functions of common.c.
  \<^item> \<open>Fatal\<close>: \<open>nt_log_fatal_info\<close> of fatal.c as the list of its messages.

  \<^bold>\<open>Bounds.\<close> The allocator's theorems hold for a segment that lies below 2^62; sizes read from
  headers are natural numbers, as they are below 2^63 by the invariant. Loops along lists whose
  end depends on the data are partial functions into an option; that they end is part of the
  theorems. No fuel is used. The counters of the hash map and the heap are natural numbers: their
  overflow at \<open>INT_MAX\<close> elements is not modelled, and they are sized with the unbounded
  \<open>next_prime\<close>, except where a container is modelled with its memory functions: there the overflow
  of \<open>next_prime\<close>, of a load factor or of a growth factor ends the operation (\<open>Slots_Overflow\<close>,
  \<open>Alloc_Overflow\<close>, \<open>Map_Overflow\<close>).

  \<^bold>\<open>Not modelled.\<close> The kernel: what a system call answers is an argument of the definitions that
  use it, except for semaphore sets, the ring's semaphores and the PID file's lock, whose
  documented behaviour is written out. Code under \<open>#if 0\<close> and variants that the Makefile does not
  compile (Windows, pthread locks, registers and backtraces of a crash). What \<open>printf\<close> and
  \<open>perror\<close> show, what a format prints of its arguments, the signal mask around \<open>fork\<close>. Functions
  that nt_algo.h, ddl.h and common.h declare and no file defines (queues, vectors, 128-bit
  numbers, forecasts). nt_types.h holds type names, nt_daemon.c and nt_daemon.h are empty, the
  message structures of nt_ptcl.h are not used.
\<close>

end
